(* ===== verification/Prelude.thy ===== *)
theory Prelude
  imports Main "HOL-Library.Word"
begin

text \<open>
  What every component of the development shares: the machine types of the C++ source, the
  result type in which a failing \<open>assert\<close>, an access through an invalid pointer and a call of
  \<open>exit\<close> are values, and the library lemmas on results and on \<open>size_t\<close> arithmetic.

  The collections are
  \<^item> \<open>result_simps\<close>: evaluation of the result combinators;
  \<^item> \<open>size_simps\<close>: reading \<open>size_t\<close> increments, decrements and comparisons as natural numbers.
\<close>

named_theorems result_simps
named_theorems size_simps

section \<open>Machine types\<close>

type_synonym size_t = "64 word"
type_synonym uint64 = "64 word"
type_synonym uint32 = "32 word"
type_synonym byte = "8 word"

section \<open>Results\<close>

text \<open>
  An operation that can fail returns \<open>Inl\<close> of the reason. \<open>InvalidAccess\<close> is a read, a write or a
  \<open>delete\<close> through a pointer that is null, the out-of-list marker or already freed (undefined
  behaviour in C++); \<open>AssertFailed\<close> is a failing \<open>assert\<close>, labelled with its condition;
  \<open>OutOfRange\<close> is an array access outside its bounds or a conversion of a \<open>double\<close> that does not fit; \<open>DivByZero\<close> is an integer division by zero;
  \<open>SignedOverflow\<close> is a signed addition that does not fit (undefined behaviour); \<open>Exit\<close> is a call of \<open>exit\<close>, \<open>Terminate\<close> an exception that no handler catches.
\<close>

datatype cpp_error = InvalidAccess | AssertFailed string | OutOfRange | DivByZero | SignedOverflow | Exit | Terminate

type_synonym 'a result = "cpp_error + 'a"

definition r_bind :: "'a result \<Rightarrow> ('a \<Rightarrow> 'b result) \<Rightarrow> 'b result" where
  "r_bind r f = (case r of Inl e \<Rightarrow> Inl e | Inr a \<Rightarrow> f a)"

definition r_assert :: "bool \<Rightarrow> string \<Rightarrow> 'a result \<Rightarrow> 'a result" where
  "r_assert b msg k = (if b then k else Inl (AssertFailed msg))"

lemma r_bind_Inr [simp, result_simps]: "r_bind (Inr a) f = f a"
  by (simp add: r_bind_def)

lemma r_bind_Inl [simp, result_simps]: "r_bind (Inl e) f = Inl e"
  by (simp add: r_bind_def)

lemma r_bind_eq_Inr: "r_bind r f = Inr b \<longleftrightarrow> (\<exists>a. r = Inr a \<and> f a = Inr b)"
  by (auto simp: r_bind_def split: sum.splits)

lemma r_assert_True [simp, result_simps]: "b \<Longrightarrow> r_assert b msg k = k"
  by (simp add: r_assert_def)

lemma r_assert_False [simp, result_simps]: "\<not> b \<Longrightarrow> r_assert b msg k = Inl (AssertFailed msg)"
  by (simp add: r_assert_def)

lemma r_assert_eq_Inr: "r_assert b msg k = Inr a \<longleftrightarrow> b \<and> k = Inr a"
  by (simp add: r_assert_def)

text \<open>
  A loop that might not end returns an option: \<open>None\<close> means that it runs forever. \<open>p_bind\<close>
  sequences such computations, \<open>returns\<close> embeds a computation without loops.
\<close>

definition p_bind :: "'a result option \<Rightarrow> ('a \<Rightarrow> 'b result option) \<Rightarrow> 'b result option" where
  "p_bind p f = (case p of None \<Rightarrow> None | Some (Inl e) \<Rightarrow> Some (Inl e) | Some (Inr a) \<Rightarrow> f a)"

abbreviation returns :: "'a result \<Rightarrow> 'a result option" where
  "returns r \<equiv> Some r"

lemma p_bind_simps [simp, result_simps]:
  "p_bind None f = None"
  "p_bind (Some (Inl e)) f = Some (Inl e)"
  "p_bind (Some (Inr a)) f = f a"
  by (simp_all add: p_bind_def)

lemma p_bind_eq_Inr: "p_bind p f = Some (Inr b) \<longleftrightarrow> (\<exists>a. p = Some (Inr a) \<and> f a = Some (Inr b))"
  by (auto simp: p_bind_def split: option.splits sum.splits)

lemma p_bind_mono [partial_function_mono]:
  assumes "mono_option P" "\<And>a. mono_option (\<lambda>f. Q a f)"
  shows "mono_option (\<lambda>f. p_bind (P f) (\<lambda>a. Q a f))"
proof (rule monotoneI)
  fix x y :: "'a \<Rightarrow> 'b option"
  assume "fun_ord option_ord x y"
  then have p: "P x = None \<or> P x = P y" and q: "\<And>a. Q a x = None \<or> Q a x = Q a y"
    using assms by (auto simp: monotone_def flat_ord_def)
  from p show "option_ord (p_bind (P x) (\<lambda>a. Q a x)) (p_bind (P y) (\<lambda>a. Q a y))"
  proof
    assume "P x = P y"
    then show ?thesis using q by (cases "P y") (auto simp: p_bind_def flat_ord_def split: sum.split)
  qed (simp add: flat_ord_def)
qed

section \<open>Sizes\<close>

lemma unat_inc [size_simps]:
  fixes s m :: "'a::len word"
  assumes "unat s < unat m"
  shows "unat (s + 1) = Suc (unat s)"
proof -
  have "Suc (unat s) < 2 ^ LENGTH('a)"
    using assms unsigned_less [of m, where ?'a = nat] by linarith
  then show ?thesis
    by (simp add: unat_word_ariths)
qed

lemma unat_dec [size_simps]:
  fixes s :: "'a::len word"
  assumes "0 < unat s"
  shows "unat (s - 1) = unat s - 1"
  using assms by (metis One_nat_def Suc_leI unat_1 unat_sub word_le_nat_alt)

lemma unat_less_iff_size [size_simps]: "(a::'a::len word) < b \<longleftrightarrow> unat a < unat b"
  by (simp add: word_less_nat_alt)

lemma unat_le_iff_size [size_simps]: "(a::'a::len word) \<le> b \<longleftrightarrow> unat a \<le> unat b"
  by (simp add: word_le_nat_alt)

section \<open>Lists without repetition\<close>

lemma distinct_split_eq:
  assumes "distinct (ys @ x # zs)" "ys @ x # zs = ys' @ x # zs'"
  shows "ys = ys' \<and> zs = zs'"
  using assms
  by (metis append_Cons_eq_iff distinct.simps(2) distinct_append not_distinct_conv_prefix)

lemma remove1_split:
  assumes "x \<notin> set ys"
  shows "remove1 x (ys @ x # zs) = ys @ zs"
  using assms by (induction ys) auto

end
