(* ===== verification/Node_List.thy ===== *)
theory Node_List
  imports Prelude
begin

text \<open>
  The intrusive doubly linked lists of the caches, on an explicit store.

  The list classes of \<^verbatim>\<open>src/cache\<close> keep \<open>ListNode\<close> objects that point at each other; the
  sentinels \<open>m_head\<close>, \<open>m_tail\<close> (and \<open>m_fast_head\<close>, \<open>m_fast_tail\<close> in the FrozenHot variants)
  are members of the cache object, the other nodes come from \<open>new\<close>. A store maps a location to
  the node that lives there; a location that is not allocated maps to \<open>None\<close>, and reading,
  writing or freeing through a pointer that does not name an allocated node is the error
  \<open>InvalidAccess\<close>. Fresh locations are never reused, so a dangling pointer stays detectable.

  The abstraction is \<open>chain\<close>: the nodes between two sentinels, in order, with every neighbouring
  pair linked in both directions. Each pointer operation is characterised by what it does to a
  chain and by what it leaves alone (\<open>same_payload\<close>, \<open>agrees_off\<close>).
\<close>

named_theorems chain_simps

section \<open>Nodes, pointers and the store\<close>

datatype loc = m_head | m_tail | m_fast_head | m_fast_tail | heap_node nat

datatype ptr = nullptr | OutOfListMarker | At loc

record ListNode =
  m_key :: size_t
  m_prev :: ptr
  m_next :: ptr

type_synonym 'z node_heap = "loc \<Rightarrow> 'z ListNode_scheme option"

definition deref :: "'z node_heap \<Rightarrow> ptr \<Rightarrow> 'z ListNode_scheme result" where
  "deref h p = (case p of
     At l \<Rightarrow> (case h l of Some n \<Rightarrow> Inr n | None \<Rightarrow> Inl InvalidAccess)
   | _ \<Rightarrow> Inl InvalidAccess)"

definition modify ::
    "'z node_heap \<Rightarrow> ptr \<Rightarrow> ('z ListNode_scheme \<Rightarrow> 'z ListNode_scheme) \<Rightarrow> 'z node_heap result" where
  "modify h p f = (case p of
     At l \<Rightarrow> (case h l of Some n \<Rightarrow> Inr (h(l \<mapsto> f n)) | None \<Rightarrow> Inl InvalidAccess)
   | _ \<Rightarrow> Inl InvalidAccess)"

definition set_prev :: "'z node_heap \<Rightarrow> ptr \<Rightarrow> ptr \<Rightarrow> 'z node_heap result" where
  "set_prev h p q = modify h p (\<lambda>n. n\<lparr>m_prev := q\<rparr>)"

definition set_next :: "'z node_heap \<Rightarrow> ptr \<Rightarrow> ptr \<Rightarrow> 'z node_heap result" where
  "set_next h p q = modify h p (\<lambda>n. n\<lparr>m_next := q\<rparr>)"

definition free_node :: "'z node_heap \<Rightarrow> ptr \<Rightarrow> 'z node_heap result" where
  "free_node h p = (case p of
     At l \<Rightarrow> (case h l of Some n \<Rightarrow> Inr (h(l := None)) | None \<Rightarrow> Inl InvalidAccess)
   | _ \<Rightarrow> Inl InvalidAccess)"

definition isInList :: "'z ListNode_scheme \<Rightarrow> bool" where
  "isInList n \<longleftrightarrow> m_prev n \<noteq> OutOfListMarker"

section \<open>The pointer operations\<close>

text \<open>\<open>LRUCache::delink\<close>, and the same text in \<open>FIFOCache\<close> and \<open>StrictLRUCache\<close>.\<close>

definition delink :: "'z node_heap \<Rightarrow> ptr \<Rightarrow> 'z node_heap result" where
  "delink h node =
     r_bind (deref h node) (\<lambda>n. let prev = m_prev n; next = m_next n in
     r_bind (set_next h prev next) (\<lambda>h.
     r_bind (set_prev h next prev) (\<lambda>h.
     set_prev h node OutOfListMarker)))"

text \<open>\<open>LRUCache::pushFront\<close>, the same text in all five list caches.\<close>

definition pushFront :: "'z node_heap \<Rightarrow> ptr \<Rightarrow> 'z node_heap result" where
  "pushFront h node =
     r_bind (deref h (At m_head)) (\<lambda>hd. let oldRealHead = m_next hd in
     r_bind (set_prev h node (At m_head)) (\<lambda>h.
     r_bind (set_next h node oldRealHead) (\<lambda>h.
     r_bind (set_prev h oldRealHead node) (\<lambda>h.
     set_next h (At m_head) node))))"

text \<open>
  The FrozenHot caches assert the pointers of \<open>delink\<close> and add \<open>pushAfter\<close>, which puts new nodes
  behind the profiling marker.
\<close>

definition checked_delink :: "'z node_heap \<Rightarrow> ptr \<Rightarrow> 'z node_heap result" where
  "checked_delink h node =
     r_assert (node \<noteq> nullptr) ''node != nullptr'' (
     r_bind (deref h node) (\<lambda>n. let prev = m_prev n; next = m_next n in
     r_assert (prev \<noteq> nullptr) ''prev != nullptr'' (
     r_bind (set_next h prev next) (\<lambda>h.
     r_assert (next \<noteq> nullptr) ''next != nullptr'' (
     r_bind (set_prev h next prev) (\<lambda>h.
     set_prev h node OutOfListMarker))))))"

definition pushAfter :: "'z node_heap \<Rightarrow> ptr \<Rightarrow> ptr \<Rightarrow> 'z node_heap result" where
  "pushAfter h nodeBefore nodeAfter =
     r_assert (nodeAfter \<noteq> nullptr) ''nodeAfter != nullptr'' (
     r_bind (set_prev h nodeAfter nodeBefore) (\<lambda>h.
     r_assert (nodeBefore \<noteq> nullptr) ''nodeBefore != nullptr'' (
     r_bind (deref h nodeBefore) (\<lambda>b.
     r_bind (set_next h nodeAfter (m_next b)) (\<lambda>h.
     r_bind (deref h nodeBefore) (\<lambda>b.
     r_bind (set_prev h (m_next b) nodeAfter) (\<lambda>h.
     set_next h nodeBefore nodeAfter)))))))"

text \<open>
  The two list walks: collecting the keys (\<open>snapshotKeys\<close>) and freeing every node (\<open>clear\<close>).
  On a list that loops neither would return, which is the value \<open>None\<close>.
\<close>

partial_function (option) collect_keys ::
    "'z node_heap \<Rightarrow> ptr \<Rightarrow> ptr \<Rightarrow> size_t list \<Rightarrow> size_t list result option" where
  "collect_keys h stop node keys =
     (if node = stop then Some (Inr keys)
      else (case deref h node of
              Inl e \<Rightarrow> Some (Inl e)
            | Inr n \<Rightarrow> collect_keys h stop (m_next n) (keys @ [m_key n])))"

partial_function (option) free_list ::
    "'z node_heap \<Rightarrow> ptr \<Rightarrow> ptr \<Rightarrow> 'z node_heap result option" where
  "free_list h stop node =
     (if node = stop then Some (Inr h)
      else (case deref h node of
              Inl e \<Rightarrow> Some (Inl e)
            | Inr n \<Rightarrow> (case free_node h node of
                         Inl e \<Rightarrow> Some (Inl e)
                       | Inr h' \<Rightarrow> free_list h' stop (m_next n))))"

section \<open>Chains\<close>

definition nxt :: "'z node_heap \<Rightarrow> loc \<Rightarrow> ptr option" where
  "nxt h l = map_option m_next (h l)"

definition prv :: "'z node_heap \<Rightarrow> loc \<Rightarrow> ptr option" where
  "prv h l = map_option m_prev (h l)"

fun chain :: "'z node_heap \<Rightarrow> loc \<Rightarrow> loc list \<Rightarrow> loc \<Rightarrow> bool" where
  "chain h a [] b \<longleftrightarrow> nxt h a = Some (At b) \<and> prv h b = Some (At a)"
| "chain h a (x # xs) b \<longleftrightarrow> nxt h a = Some (At x) \<and> prv h x = Some (At a) \<and> chain h x xs b"

text \<open>What a node holds besides its links.\<close>

definition payload :: "'z ListNode_scheme \<Rightarrow> 'z ListNode_scheme" where
  "payload n = n\<lparr>m_prev := nullptr, m_next := nullptr\<rparr>"

definition same_payload :: "'z node_heap \<Rightarrow> 'z node_heap \<Rightarrow> bool" where
  "same_payload h h' \<longleftrightarrow> (\<forall>l. map_option payload (h' l) = map_option payload (h l))"

definition agrees_off :: "'z node_heap \<Rightarrow> 'z node_heap \<Rightarrow> loc set \<Rightarrow> bool" where
  "agrees_off h h' L \<longleftrightarrow> (\<forall>l. l \<notin> L \<longrightarrow> h' l = h l)"

subsection \<open>Shape of a chain\<close>

lemma chain_append [chain_simps]:
  "chain h a (xs @ y # ys) b \<longleftrightarrow> chain h a xs y \<and> chain h y ys b"
  by (induction xs arbitrary: a) auto

lemma chain_cong:
  assumes "\<And>l. l \<in> set (a # xs) \<Longrightarrow> nxt h' l = nxt h l"
    and "\<And>l. l \<in> set (xs @ [b]) \<Longrightarrow> prv h' l = prv h l"
  shows "chain h' a xs b = chain h a xs b"
  using assms by (induction xs arbitrary: a) auto

lemma chain_agrees_off:
  assumes "agrees_off h h' L" "set (a # xs @ [b]) \<inter> L = {}"
  shows "chain h' a xs b = chain h a xs b"
  using assms by (intro chain_cong) (auto simp: agrees_off_def nxt_def prv_def)

lemma chain_last:
  "chain h a ys x \<Longrightarrow> prv h x = Some (At (last (a # ys))) \<and> nxt h (last (a # ys)) = Some (At x)"
  by (induction ys arbitrary: a) auto

lemma chain_first:
  "chain h x zs b \<Longrightarrow> nxt h x = Some (At (hd (zs @ [b]))) \<and> prv h (hd (zs @ [b])) = Some (At x)"
  by (cases zs) auto

lemma chain_allocated: "chain h a xs b \<Longrightarrow> l \<in> set (a # xs @ [b]) \<Longrightarrow> h l \<noteq> None"
  by (induction xs arbitrary: a) (auto simp: nxt_def prv_def)

lemma chain_member_prv:
  assumes "chain h a xs b" "x \<in> set xs"
  shows "\<exists>l. prv h x = Some (At l)"
  using assms by (induction xs arbitrary: a) auto

text \<open>A location determines what lies between it and the end: two chains to one sentinel agree.\<close>

lemma chain_unique:
  assumes "chain h a xs b" "chain h a ys b" "b \<notin> set xs" "b \<notin> set ys"
  shows "xs = ys"
  using assms
proof (induction xs arbitrary: a ys)
  case Nil
  then show ?case by (cases ys) auto
next
  case (Cons x xs)
  then obtain y ys' where ys: "ys = y # ys'" by (cases ys) auto
  with Cons.prems have "y = x" by simp
  with ys Cons.prems Cons.IH [of x ys'] show ?case by simp
qed

text \<open>Taking a node out of the middle: the neighbours are linked to each other.\<close>

lemma chain_relink:
  assumes ch: "chain h a ys x" "chain h x zs b"
    and d: "distinct (a # ys @ x # zs @ [b])"
    and n: "nxt h' (last (a # ys)) = Some (At (hd (zs @ [b])))"
    and p: "prv h' (hd (zs @ [b])) = Some (At (last (a # ys)))"
    and n': "\<And>l. l \<noteq> last (a # ys) \<Longrightarrow> l \<noteq> x \<Longrightarrow> nxt h' l = nxt h l"
    and p': "\<And>l. l \<noteq> hd (zs @ [b]) \<Longrightarrow> l \<noteq> x \<Longrightarrow> prv h' l = prv h l"
  shows "chain h' a (ys @ zs) b"
proof -
  have u: "last (a # ys) \<in> insert a (set ys)"
    using last_in_set [of "a # ys"] by simp
  have right: "chain h' (last (a # ys)) zs b"
  proof (cases zs)
    case Nil
    with n p show ?thesis by simp
  next
    case (Cons v zs')
    have "chain h' v zs' b = chain h v zs' b"
      using d Cons u by (intro chain_cong n' p') (auto simp del: last.simps)
    with Cons ch n p show ?thesis by simp
  qed
  show ?thesis
  proof (cases ys rule: rev_cases)
    case Nil
    with right show ?thesis by simp
  next
    case (snoc ys' u)
    have "chain h a ys' u" using ch snoc by (simp add: chain_simps)
    moreover have "chain h' a ys' u = chain h a ys' u"
      using d snoc by (intro chain_cong n' p') (auto simp: hd_append split: if_splits list.splits)
    ultimately show ?thesis using right snoc by (simp add: chain_simps)
  qed
qed

text \<open>Putting a fresh node behind the first one.\<close>

lemma chain_insert_front:
  assumes ch: "chain h a xs b" and d: "distinct (a # x # xs @ [b])"
    and n: "nxt h' a = Some (At x)" "nxt h' x = Some (At (hd (xs @ [b])))"
    and p: "prv h' x = Some (At a)" "prv h' (hd (xs @ [b])) = Some (At x)"
    and n': "\<And>l. l \<noteq> a \<Longrightarrow> l \<noteq> x \<Longrightarrow> nxt h' l = nxt h l"
    and p': "\<And>l. l \<noteq> hd (xs @ [b]) \<Longrightarrow> l \<noteq> x \<Longrightarrow> prv h' l = prv h l"
  shows "chain h' a (x # xs) b"
proof (cases xs)
  case Nil
  with n p show ?thesis by simp
next
  case (Cons v xs')
  have "chain h' v xs' b = chain h v xs' b"
    using d Cons by (intro chain_cong n' p') auto
  with Cons ch n p show ?thesis by simp
qed

subsection \<open>Evaluation on allocated nodes\<close>

named_theorems heap_simps

lemma deref_At [simp, heap_simps]: "h l = Some n \<Longrightarrow> deref h (At l) = Inr n"
  by (simp add: deref_def)

lemma set_prev_At [simp, heap_simps]:
  "h l = Some n \<Longrightarrow> set_prev h (At l) q = Inr (h(l \<mapsto> n\<lparr>m_prev := q\<rparr>))"
  by (simp add: set_prev_def modify_def)

lemma set_next_At [simp, heap_simps]:
  "h l = Some n \<Longrightarrow> set_next h (At l) q = Inr (h(l \<mapsto> n\<lparr>m_next := q\<rparr>))"
  by (simp add: set_next_def modify_def)

lemma free_node_At [simp, heap_simps]: "h l = Some n \<Longrightarrow> free_node h (At l) = Inr (h(l := None))"
  by (simp add: free_node_def)

lemma nxt_upd [simp]: "nxt (h(l := c)) k = (if k = l then map_option m_next c else nxt h k)"
  by (simp add: nxt_def)

lemma prv_upd [simp]: "prv (h(l := c)) k = (if k = l then map_option m_prev c else prv h k)"
  by (simp add: prv_def)

lemma nxt_eq_Some: "nxt h l = Some p \<longleftrightarrow> (\<exists>n. h l = Some n \<and> m_next n = p)"
  by (auto simp: nxt_def)

lemma prv_eq_Some: "prv h l = Some p \<longleftrightarrow> (\<exists>n. h l = Some n \<and> m_prev n = p)"
  by (auto simp: prv_def)

subsection \<open>Frames\<close>

lemma same_payload_refl [simp]: "same_payload h h"
  by (simp add: same_payload_def)

lemma same_payload_trans: "same_payload h h' \<Longrightarrow> same_payload h' h'' \<Longrightarrow> same_payload h h''"
  by (simp add: same_payload_def)

lemma same_payload_dom: "same_payload h h' \<Longrightarrow> (h' l = None) = (h l = None)"
  unfolding same_payload_def by (metis map_option_is_None)

lemma same_payload_dom_eq: "same_payload h h' \<Longrightarrow> dom h' = dom h"
  by (rule set_eqI) (simp add: domIff same_payload_dom)

lemma same_payload_key:
  assumes "same_payload h h'"
  shows "map_option m_key (h' l) = map_option m_key (h l)"
proof -
  have *: "map_option m_key c = map_option m_key (map_option payload c)"
    for c :: "'a ListNode_scheme option"
    by (cases c) (auto simp: payload_def)
  show ?thesis
    using assms unfolding same_payload_def by (subst (1 2) *) simp
qed

lemma same_payload_upd [simp]:
  "h l = Some n \<Longrightarrow> same_payload h (h(l \<mapsto> n\<lparr>m_prev := q\<rparr>))"
  "h l = Some n \<Longrightarrow> same_payload h (h(l \<mapsto> n\<lparr>m_next := q\<rparr>))"
  by (simp_all add: same_payload_def payload_def)

lemma agrees_off_refl [simp]: "agrees_off h h L"
  by (simp add: agrees_off_def)

lemma agrees_off_mono: "agrees_off h h' L \<Longrightarrow> L \<subseteq> M \<Longrightarrow> agrees_off h h' M"
  by (auto simp: agrees_off_def)

lemma agrees_off_trans:
  "agrees_off h h' L \<Longrightarrow> agrees_off h' h'' M \<Longrightarrow> agrees_off h h'' (L \<union> M)"
  by (auto simp: agrees_off_def)

text \<open>
  A node seen through its links: dereferencing reads \<open>nxt\<close> and \<open>prv\<close>, and an assignment to a link
  updates one of the two functions and nothing else.
\<close>

lemma deref_nxt: "nxt h l = Some p \<Longrightarrow> \<exists>n. deref h (At l) = Inr n \<and> m_next n = p"
  by (auto simp: nxt_def)

lemma deref_prv: "prv h l = Some p \<Longrightarrow> \<exists>n. deref h (At l) = Inr n \<and> m_prev n = p"
  by (auto simp: prv_def)

lemma set_prev_links:
  assumes "h l \<noteq> None"
  shows "\<exists>h'. set_prev h (At l) q = Inr h' \<and> nxt h' = nxt h \<and> prv h' = (prv h)(l \<mapsto> q) \<and> same_payload h h'"
proof -
  obtain n where n: "h l = Some n" using assms by blast
  let ?h = "h(l \<mapsto> n\<lparr>m_prev := q\<rparr>)"
  have "nxt ?h = nxt h" "prv ?h = (prv h)(l \<mapsto> q)" using n by (auto simp: nxt_def prv_def)
  with n show ?thesis by (intro exI [of _ ?h]) simp
qed

lemma set_next_links:
  assumes "h l \<noteq> None"
  shows "\<exists>h'. set_next h (At l) q = Inr h' \<and> nxt h' = (nxt h)(l \<mapsto> q) \<and> prv h' = prv h \<and> same_payload h h'"
proof -
  obtain n where n: "h l = Some n" using assms by blast
  let ?h = "h(l \<mapsto> n\<lparr>m_next := q\<rparr>)"
  have "nxt ?h = (nxt h)(l \<mapsto> q)" "prv ?h = prv h" using n by (auto simp: nxt_def prv_def)
  with n show ?thesis by (intro exI [of _ ?h]) simp
qed

subsection \<open>What the pointer operations do to a chain\<close>

lemma delink_chain:
  assumes ch: "chain h a (ys @ x # zs) b" and d: "distinct (a # ys @ x # zs @ [b])"
  shows "\<exists>h'. delink h (At x) = Inr h' \<and> chain h' a (ys @ zs) b \<and>
    prv h' x = Some OutOfListMarker \<and> same_payload h h' \<and>
    agrees_off h h' (set (a # ys @ x # zs @ [b]))"
proof -
  let ?u = "last (a # ys)" and ?v = "hd (zs @ [b])"
  from ch have l: "chain h a ys x" and r: "chain h x zs b"
    by (simp_all add: chain_simps)
  obtain nu nx nv where h: "h ?u = Some nu" "h x = Some nx" "h ?v = Some nv"
    and nx: "m_prev nx = At ?u" "m_next nx = At ?v"
    using chain_last [OF l] chain_first [OF r] by (auto simp: nxt_eq_Some prv_eq_Some)
  have u: "?u \<in> insert a (set ys)" using last_in_set [of "a # ys"] by simp
  have v: "?v \<in> insert b (set zs)" by (cases zs) auto
  have ne: "?u \<noteq> x" "?v \<noteq> x" "?u \<noteq> ?v"
    using d u v by auto
  let ?h = "h(?u \<mapsto> nu\<lparr>m_next := At ?v\<rparr>, ?v \<mapsto> nv\<lparr>m_prev := At ?u\<rparr>,
      x \<mapsto> nx\<lparr>m_prev := OutOfListMarker\<rparr>)"
  have "delink h (At x) = Inr ?h"
    using h nx ne by (simp add: delink_def Let_def del: last.simps)
  moreover have "chain ?h a (ys @ zs) b"
  proof (rule chain_relink [OF l r d])
    show "nxt ?h ?u = Some (At ?v)" "prv ?h ?v = Some (At ?u)"
      using ne by simp_all
    show "nxt ?h k = nxt h k" if "k \<noteq> ?u" "k \<noteq> x" for k
      using that h by (auto simp: nxt_def simp del: last.simps)
    show "prv ?h k = prv h k" if "k \<noteq> ?v" "k \<noteq> x" for k
      using that h by (auto simp: prv_def simp del: last.simps)
  qed
  moreover have "same_payload h ?h"
    using h ne by (auto simp: same_payload_def payload_def simp del: last.simps)
  moreover have "agrees_off h ?h (set (a # ys @ x # zs @ [b]))"
    using u v by (auto simp: agrees_off_def simp del: last.simps)
  ultimately show ?thesis by (intro exI [of _ ?h]) simp
qed

text \<open>The asserts of the FrozenHot \<open>delink\<close> never fail on a member of a chain.\<close>

lemma checked_delink_eq:
  assumes ch: "chain h a (ys @ x # zs) b"
  shows "checked_delink h (At x) = delink h (At x)"
proof -
  from ch have l: "chain h a ys x" and r: "chain h x zs b"
    by (simp_all add: chain_simps)
  then obtain nx where "h x = Some nx" "m_prev nx \<noteq> nullptr" "m_next nx \<noteq> nullptr"
    using chain_last [OF l] chain_first [OF r] by (auto simp: nxt_eq_Some prv_eq_Some)
  then show ?thesis by (simp add: checked_delink_def delink_def)
qed

lemma pushFront_chain:
  assumes ch: "chain h m_head xs b" and d: "distinct (m_head # x # xs @ [b])" and x: "h x \<noteq> None"
  shows "\<exists>h'. pushFront h (At x) = Inr h' \<and> chain h' m_head (x # xs) b \<and>
    same_payload h h' \<and> agrees_off h h' (set (m_head # x # xs @ [b]))"
proof -
  let ?v = "hd (xs @ [b])"
  obtain na nx nv where h: "h m_head = Some na" "h x = Some nx" "h ?v = Some nv"
    and na: "m_next na = At ?v"
    using x chain_first [OF ch] by (auto simp: nxt_eq_Some prv_eq_Some)
  have v: "?v \<in> insert b (set xs)" by (cases xs) auto
  have ne: "m_head \<noteq> x" "?v \<noteq> x" "?v \<noteq> m_head"
    using d v by auto
  let ?h = "h(x \<mapsto> nx\<lparr>m_prev := At m_head, m_next := At ?v\<rparr>, ?v \<mapsto> nv\<lparr>m_prev := At x\<rparr>,
      m_head \<mapsto> na\<lparr>m_next := At x\<rparr>)"
  have "pushFront h (At x) = Inr ?h"
    using h na ne by (simp add: pushFront_def Let_def)
  moreover have "chain ?h m_head (x # xs) b"
  proof (rule chain_insert_front [OF ch d])
    show "nxt ?h m_head = Some (At x)" "nxt ?h x = Some (At ?v)"
      "prv ?h x = Some (At m_head)" "prv ?h ?v = Some (At x)"
      using ne by simp_all
    show "nxt ?h k = nxt h k" if "k \<noteq> m_head" "k \<noteq> x" for k
      using that h by (auto simp: nxt_def)
    show "prv ?h k = prv h k" if "k \<noteq> ?v" "k \<noteq> x" for k
      using that h by (auto simp: prv_def)
  qed
  moreover have "same_payload h ?h"
    using h ne by (auto simp: same_payload_def payload_def)
  moreover have "agrees_off h ?h (set (m_head # x # xs @ [b]))"
    using v by (auto simp: agrees_off_def)
  ultimately show ?thesis by (intro exI [of _ ?h]) simp
qed

lemma pushAfter_chain:
  assumes ch: "chain h a (ys @ y # zs) b" and d: "distinct (a # ys @ y # x # zs @ [b])"
    and x: "h x \<noteq> None"
  shows "\<exists>h'. pushAfter h (At y) (At x) = Inr h' \<and> chain h' a (ys @ y # x # zs) b \<and>
    same_payload h h' \<and> agrees_off h h' (set (a # ys @ y # x # zs @ [b]))"
proof -
  let ?v = "hd (zs @ [b])"
  from ch have l: "chain h a ys y" and r: "chain h y zs b"
    by (simp_all add: chain_simps)
  obtain ny nx nv where h: "h y = Some ny" "h x = Some nx" "h ?v = Some nv"
    and ny: "m_next ny = At ?v"
    using x chain_first [OF r] by (auto simp: nxt_eq_Some prv_eq_Some)
  have v: "?v \<in> insert b (set zs)" by (cases zs) auto
  have ne: "y \<noteq> x" "?v \<noteq> x" "?v \<noteq> y"
    using d v by auto
  let ?h = "h(x \<mapsto> nx\<lparr>m_prev := At y, m_next := At ?v\<rparr>, ?v \<mapsto> nv\<lparr>m_prev := At x\<rparr>,
      y \<mapsto> ny\<lparr>m_next := At x\<rparr>)"
  have "pushAfter h (At y) (At x) = Inr ?h"
    using h ny ne by (simp add: pushAfter_def Let_def)
  moreover have "chain ?h y (x # zs) b"
  proof (rule chain_insert_front [OF r])
    show "distinct (y # x # zs @ [b])" using d by simp
    show "nxt ?h y = Some (At x)" "nxt ?h x = Some (At ?v)"
      "prv ?h x = Some (At y)" "prv ?h ?v = Some (At x)"
      using ne by simp_all
    show "nxt ?h k = nxt h k" if "k \<noteq> y" "k \<noteq> x" for k
      using that h by (auto simp: nxt_def)
    show "prv ?h k = prv h k" if "k \<noteq> ?v" "k \<noteq> x" for k
      using that h by (auto simp: prv_def)
  qed
  moreover have "chain ?h a ys y = chain h a ys y"
  proof (rule chain_cong)
    show "nxt ?h k = nxt h k" if "k \<in> set (a # ys)" for k
      using that d h v by (auto simp: nxt_def)
    show "prv ?h k = prv h k" if "k \<in> set (ys @ [y])" for k
      using that d h v ne by (auto simp: prv_def)
  qed
  moreover have "same_payload h ?h"
    using h ne by (auto simp: same_payload_def payload_def)
  moreover have "agrees_off h ?h (set (a # ys @ y # x # zs @ [b]))"
    using v by (auto simp: agrees_off_def)
  ultimately show ?thesis using l by (intro exI [of _ ?h]) (simp add: chain_simps)
qed

subsection \<open>The list walks return\<close>

definition key_at :: "'z node_heap \<Rightarrow> loc \<Rightarrow> size_t" where
  "key_at h l = m_key (the (h l))"

lemma same_payload_key_at: "same_payload h h' \<Longrightarrow> h l \<noteq> None \<Longrightarrow> key_at h' l = key_at h l"
  using same_payload_key [of h h' l] same_payload_dom [of h h' l]
  by (auto simp: key_at_def)

lemma collect_keys_chain:
  assumes "chain h a xs b" "b \<notin> set xs"
  shows "collect_keys h (At b) (At (hd (xs @ [b]))) keys = Some (Inr (keys @ map (key_at h) xs))"
  using assms
proof (induction xs arbitrary: a keys)
  case Nil
  then show ?case by (simp add: collect_keys.simps)
next
  case (Cons x xs)
  then obtain n where n: "h x = Some n" by (auto simp: prv_eq_Some)
  from Cons.prems have c: "chain h x xs b" by simp
  from chain_first [OF c] n have "m_next n = At (hd (xs @ [b]))" by (simp add: nxt_def)
  with n Cons.prems Cons.IH [OF c, of "keys @ [m_key n]"] show ?case
    by (subst collect_keys.simps) (auto simp: key_at_def)
qed

text \<open>
  The freeing walk destroys the links behind it, so its lemma only asks for the chain from the
  first node that is still to be freed.
\<close>

lemma free_list_suffix:
  assumes "case xs of [] \<Rightarrow> True | y # ys \<Rightarrow> chain h y ys b" "distinct (xs @ [b])"
  shows "free_list h (At b) (At (hd (xs @ [b]))) = Some (Inr (\<lambda>l. if l \<in> set xs then None else h l))"
  using assms
proof (induction xs arbitrary: h)
  case Nil
  then show ?case by (simp add: free_list.simps)
next
  case (Cons x xs)
  then have c: "chain h x xs b" by simp
  then obtain n where n: "h x = Some n" and nx: "m_next n = At (hd (xs @ [b]))"
    using chain_first [OF c] by (auto simp: nxt_eq_Some)
  have "case xs of [] \<Rightarrow> True | y # ys \<Rightarrow> chain (h(x := None)) y ys b"
  proof (cases xs)
    case (Cons y ys)
    then have "chain (h(x := None)) y ys b = chain h y ys b"
      using Cons.prems(2) by (intro chain_cong) auto
    with c Cons show ?thesis by simp
  qed simp
  with Cons.prems(2) have "free_list (h(x := None)) (At b) (At (hd (xs @ [b]))) =
      Some (Inr (\<lambda>l. if l \<in> set xs then None else (h(x := None)) l))"
    by (intro Cons.IH) auto
  moreover have "At (hd ((x # xs) @ [b])) \<noteq> At b" using Cons.prems(2) by auto
  ultimately show ?case
    using n nx by (subst free_list.simps) (auto simp: fun_eq_iff)
qed

lemma free_list_chain:
  assumes "chain h a xs b" "distinct (xs @ [b])"
  shows "free_list h (At b) (At (hd (xs @ [b]))) = Some (Inr (\<lambda>l. if l \<in> set xs then None else h l))"
  using assms by (intro free_list_suffix) (auto split: list.split)

end
