(* ===== verification/Hash_Map.thy ===== *)
theory Hash_Map
  imports Prelude
begin

text \<open>
  The hash tables. \<open>tbb::concurrent_hash_map\<close> and the C library CLHT are third-party code: they
  enter the development as records of operations (\<open>chm\<close>, \<open>clht\<close>) that the definitions take as an
  argument, with their documented behaviour as the locales \<open>concurrent_hash_map\<close> and
  \<open>clht_table\<close>. The wrappers of \<^verbatim>\<open>src/hash\<close> are modelled: \<open>FastHash::CLHT\<close> (bucket count, insert,
  find, clear) and \<open>FastHash::TbbCHT\<close>, both as a value of the record \<open>fast_hash\<close>, the virtual
  functions of \<open>FastHash::FashHashAPI\<close>. The locale \<open>fast_hash_api\<close> is what the FrozenHot caches
  rely on; both wrappers provide it.
\<close>

section \<open>The concurrent hash map of TBB\<close>

text \<open>
  \<open>find\<close> and \<open>insert\<close> through an accessor, assignment to the value the accessor points at,
  \<open>erase\<close> through an accessor, and \<open>clear\<close>.
\<close>

record ('k, 'v, 'm) chm =
  chm_init :: 'm
  chm_find :: "'m \<Rightarrow> 'k \<Rightarrow> 'v option"
  chm_insert :: "'m \<Rightarrow> 'k \<Rightarrow> 'v \<Rightarrow> bool \<times> 'm"
  chm_assign :: "'m \<Rightarrow> 'k \<Rightarrow> 'v \<Rightarrow> 'm"
  chm_erase :: "'m \<Rightarrow> 'k \<Rightarrow> bool \<times> 'm"
  chm_clear :: "'m \<Rightarrow> 'm"

locale concurrent_hash_map =
  fixes H :: "('k, 'v, 'm) chm"
  assumes find_init: "chm_find H (chm_init H) = Map.empty"
    and insert_new: "chm_find H m k = None \<Longrightarrow>
      fst (chm_insert H m k v) \<and> chm_find H (snd (chm_insert H m k v)) = (chm_find H m)(k \<mapsto> v)"
    and insert_old: "chm_find H m k \<noteq> None \<Longrightarrow>
      \<not> fst (chm_insert H m k v) \<and> chm_find H (snd (chm_insert H m k v)) = chm_find H m"
    and find_assign: "chm_find H m k \<noteq> None \<Longrightarrow>
      chm_find H (chm_assign H m k v) = (chm_find H m)(k \<mapsto> v)"
    and find_erase: "chm_find H (snd (chm_erase H m k)) = (chm_find H m)(k := None)"
    and erase_found: "fst (chm_erase H m k) = (chm_find H m k \<noteq> None)"
    and find_clear: "chm_find H (chm_clear H m) = Map.empty"

text \<open>The finite-function table meets the documented behaviour, so the hypothesis can hold.\<close>

definition fun_chm :: "('k, 'v, 'k \<rightharpoonup> 'v) chm" where
  "fun_chm = \<lparr>
     chm_init = Map.empty,
     chm_find = (\<lambda>m k. m k),
     chm_insert = (\<lambda>m k v. (case m k of None \<Rightarrow> (True, m(k \<mapsto> v)) | Some _ \<Rightarrow> (False, m))),
     chm_assign = (\<lambda>m k v. m(k \<mapsto> v)),
     chm_erase = (\<lambda>m k. (m k \<noteq> None, m(k := None))),
     chm_clear = (\<lambda>_. Map.empty)\<rparr>"

lemma fun_chm_ops [simp]:
  "chm_init fun_chm = Map.empty"
  "chm_find fun_chm m = m"
  "chm_insert fun_chm m k v = (case m k of None \<Rightarrow> (True, m(k \<mapsto> v)) | Some _ \<Rightarrow> (False, m))"
  "chm_assign fun_chm m k v = m(k \<mapsto> v)"
  "chm_erase fun_chm m k = (m k \<noteq> None, m(k := None))"
  "chm_clear fun_chm m = Map.empty"
  by (simp_all add: fun_chm_def)

interpretation fun_table: concurrent_hash_map fun_chm
  by unfold_locales auto

section \<open>FastHash::FashHashAPI\<close>

text \<open>
  The index type of the interface is \<open>unsigned\<close>, 32 bits, while the caches use 64-bit keys: a call
  truncates. The value is a \<open>std::shared_ptr<std::string>\<close>, modelled by the address it holds,
  0 for \<open>nullptr\<close>.
\<close>

type_synonym shared_ptr = "64 word"

record 'f fast_hash =
  fh_insert :: "'f \<Rightarrow> uint32 \<Rightarrow> shared_ptr \<Rightarrow> bool \<times> 'f"
  fh_find :: "'f \<Rightarrow> uint32 \<Rightarrow> shared_ptr option"
  fh_clear :: "'f \<Rightarrow> 'f"

text \<open>
  The contract: index 0 is not used (it marks a free CLHT slot), a null value cannot be told from
  an absent one, and an index that is present keeps its value.
\<close>

locale fast_hash_api =
  fixes F :: "'f fast_hash"
  assumes fh_find_insert: "i \<noteq> 0 \<Longrightarrow> j \<noteq> 0 \<Longrightarrow> v \<noteq> 0 \<Longrightarrow>
      fh_find F (snd (fh_insert F f i v)) j =
        (if j = i \<and> fh_find F f i = None then Some v else fh_find F f j)"
    and fh_insert_new: "i \<noteq> 0 \<Longrightarrow> v \<noteq> 0 \<Longrightarrow> fst (fh_insert F f i v) = (fh_find F f i = None)"
    and fh_find_clear: "j \<noteq> 0 \<Longrightarrow> fh_find F (fh_clear F f) j = None"
begin

text \<open>An index that is in the table is not overwritten, and other indices do not change.\<close>

lemma fh_keeps:
  "i \<noteq> 0 \<Longrightarrow> j \<noteq> 0 \<Longrightarrow> v \<noteq> 0 \<Longrightarrow> fh_find F f j = Some w \<Longrightarrow>
    fh_find F (snd (fh_insert F f i v)) j = Some w"
  by (auto simp: fh_find_insert)

end

subsection \<open>The wrapper of CLHT\<close>

record 'h clht =
  clht_create :: "uint32 \<Rightarrow> 'h"
  clht_put :: "'h \<Rightarrow> 64 word \<Rightarrow> 64 word \<Rightarrow> int \<times> 'h"
  clht_get :: "'h \<Rightarrow> 64 word \<Rightarrow> 64 word"
  clht_clear :: "'h \<Rightarrow> 'h"

locale clht_table =
  fixes C :: "'h clht"
  assumes get_create: "k \<noteq> 0 \<Longrightarrow> clht_get C (clht_create C n) k = 0"
    and put_new: "k \<noteq> 0 \<Longrightarrow> v \<noteq> 0 \<Longrightarrow> (fst (clht_put C h k v) \<noteq> 0) = (clht_get C h k = 0)"
    and get_put: "k \<noteq> 0 \<Longrightarrow> k' \<noteq> 0 \<Longrightarrow> v \<noteq> 0 \<Longrightarrow>
      clht_get C (snd (clht_put C h k v)) k' =
        (if k' = k \<and> clht_get C h k = 0 then v else clht_get C h k')"
    and get_clear: "k \<noteq> 0 \<Longrightarrow> clht_get C (clht_clear C h) k = 0"

text \<open>
  The constructor counts the bits of \<open>size\<close> by shifting it right until it is 0 (for a negative
  \<open>size\<close> the arithmetic shift never gets there) and allocates \<open>1 << (ex + exp)\<close> buckets, shifted
  in \<open>int\<close> and cast to \<open>uint32_t\<close>.
\<close>

partial_function (option) CLHT_ex :: "int \<Rightarrow> int \<Rightarrow> int option" where
  "CLHT_ex sz ex = (if sz \<noteq> 0 then CLHT_ex (sz div 2) (ex + 1) else Some ex)"

definition CLHT_buckets :: "int \<Rightarrow> int \<Rightarrow> uint32 option" where
  "CLHT_buckets sz e = map_option (\<lambda>ex. word_of_int (2 ^ nat (ex + e))) (CLHT_ex sz 0)"

definition CLHT_new :: "'h clht \<Rightarrow> int \<Rightarrow> int \<Rightarrow> 'h option" where
  "CLHT_new C sz e = map_option (clht_create C) (CLHT_buckets sz e)"

definition CLHT_insert :: "'h clht \<Rightarrow> 'h \<Rightarrow> uint32 \<Rightarrow> shared_ptr \<Rightarrow> bool \<times> 'h" where
  "CLHT_insert C h idx value = (let (r, h) = clht_put C h (ucast idx) value in (r \<noteq> 0, h))"

definition CLHT_find :: "'h clht \<Rightarrow> 'h \<Rightarrow> uint32 \<Rightarrow> shared_ptr option" where
  "CLHT_find C h idx =
     (let v = clht_get C h (ucast idx) in if v = 0 then None else Some v)"

definition CLHT_clear :: "'h clht \<Rightarrow> 'h \<Rightarrow> 'h" where
  "CLHT_clear C h = clht_clear C h"

definition CLHT_ops :: "'h clht \<Rightarrow> 'h fast_hash" where
  "CLHT_ops C = \<lparr>fh_insert = CLHT_insert C, fh_find = CLHT_find C, fh_clear = CLHT_clear C\<rparr>"

subsection \<open>The wrapper of the TBB table\<close>

definition TbbCHT_insert ::
    "(uint32, shared_ptr, 'm) chm \<Rightarrow> 'm \<Rightarrow> uint32 \<Rightarrow> shared_ptr \<Rightarrow> bool \<times> 'm" where
  "TbbCHT_insert H m idex value =
     (let (inserted, m) = chm_insert H m idex value in if inserted then (True, m) else (False, m))"

definition TbbCHT_find :: "(uint32, shared_ptr, 'm) chm \<Rightarrow> 'm \<Rightarrow> uint32 \<Rightarrow> shared_ptr option" where
  "TbbCHT_find H m idx = (case chm_find H m idx of Some v \<Rightarrow> Some v | None \<Rightarrow> None)"

definition TbbCHT_clear :: "(uint32, shared_ptr, 'm) chm \<Rightarrow> 'm \<Rightarrow> 'm" where
  "TbbCHT_clear H m = chm_clear H m"

definition TbbCHT_ops :: "(uint32, shared_ptr, 'm) chm \<Rightarrow> 'm fast_hash" where
  "TbbCHT_ops H =
     \<lparr>fh_insert = TbbCHT_insert H, fh_find = TbbCHT_find H, fh_clear = TbbCHT_clear H\<rparr>"

section \<open>Both wrappers provide the interface\<close>

lemma ucast_inj_iff [simp]: "(ucast (i::uint32) :: 64 word) = ucast j \<longleftrightarrow> i = j"
proof
  assume "(ucast i :: 64 word) = ucast j"
  then have "(ucast (ucast i :: 64 word) :: uint32) = ucast (ucast j :: 64 word)" by simp
  then show "i = j" by (simp add: ucast_up_ucast_id is_up)
qed simp

lemma ucast_eq_0_iff [simp]: "(ucast (i::uint32) :: 64 word) = 0 \<longleftrightarrow> i = 0"
  using ucast_inj_iff [of i 0] by simp

context clht_table
begin

lemma CLHT_provides: "fast_hash_api (CLHT_ops C)"
  by unfold_locales
    (auto simp: CLHT_ops_def CLHT_insert_def CLHT_find_def CLHT_clear_def
      put_new get_put get_clear case_prod_beta Let_def split: if_splits)

end

sublocale clht_table \<subseteq> clht_api: fast_hash_api "CLHT_ops C"
  by (rule CLHT_provides)

text \<open>A total function from keys to values, 0 for an absent key, meets the documented behaviour of CLHT.\<close>

definition fun_clht :: "(64 word \<Rightarrow> 64 word) clht" where
  "fun_clht = \<lparr>
     clht_create = (\<lambda>_ _. 0),
     clht_put = (\<lambda>h k v. if h k = 0 then (1, h(k := v)) else (0, h)),
     clht_get = (\<lambda>h k. h k),
     clht_clear = (\<lambda>_ _. 0)\<rparr>"

interpretation fun_clht: clht_table fun_clht
  by unfold_locales (auto simp: fun_clht_def)

context concurrent_hash_map
begin

lemma insert_fst: "fst (chm_insert H m k v) = (chm_find H m k = None)"
  using insert_new [of m k v] insert_old [of m k v] by (cases "chm_find H m k") auto

lemma find_insert:
  "chm_find H (snd (chm_insert H m k v)) =
     (if chm_find H m k = None then (chm_find H m)(k \<mapsto> v) else chm_find H m)"
  using insert_new [of m k v] insert_old [of m k v] by auto

lemmas map_laws = find_init find_insert insert_fst find_assign find_erase erase_found find_clear

end

locale tbb_fast_hash = concurrent_hash_map H for H :: "(uint32, shared_ptr, 'm) chm"
begin

lemma TbbCHT_provides: "fast_hash_api (TbbCHT_ops H)"
  by unfold_locales
    (auto simp: TbbCHT_ops_def TbbCHT_insert_def TbbCHT_find_def TbbCHT_clear_def
      case_prod_beta map_laws split: option.splits)

end

sublocale tbb_fast_hash \<subseteq> tbb_api: fast_hash_api "TbbCHT_ops H"
  by (rule TbbCHT_provides)

interpretation fun_fast_hash: tbb_fast_hash fun_chm
  by unfold_locales

end
