(* ===== verification/Indexed_List.thy ===== *)
theory Indexed_List
  imports Node_List Hash_Map
begin

text \<open>
  A list with a hash index, the data structure every list cache is built on: the nodes between
  \<open>m_head\<close> and \<open>m_tail\<close>, and a hash map that gives for each key its value and its node.
  \<open>indexed h F pend xs\<close> says that store, index and list agree; \<open>pend\<close> holds the nodes that are
  already in the index and not yet in the list, as between the two halves of \<open>insert\<close>. The lemmas
  say how the list operations move a state of this kind, and what they do to the key/value pairs.
\<close>

record 'v HashMapValue =
  m_value :: 'v
  m_listNode :: ptr

definition indexed ::
    "'z node_heap \<Rightarrow> (size_t \<Rightarrow> 'v HashMapValue option) \<Rightarrow> loc list \<Rightarrow> loc list \<Rightarrow> bool" where
  "indexed h F pend xs \<longleftrightarrow>
     chain h m_head xs m_tail \<and>
     distinct (m_head # m_tail # pend @ xs) \<and>
     dom h = set (m_head # m_tail # pend @ xs) \<and>
     (\<forall>x \<in> set (pend @ xs). \<exists>v. F (key_at h x) = Some \<lparr>m_value = v, m_listNode = At x\<rparr>) \<and>
     dom F = key_at h ` set (pend @ xs)"

text \<open>The cached pair of a node: the abstract contents of a cache is the list of these.\<close>

definition kv_at ::
    "'z node_heap \<Rightarrow> (size_t \<Rightarrow> 'v HashMapValue option) \<Rightarrow> loc \<Rightarrow> size_t \<times> 'v" where
  "kv_at h F x = (key_at h x, m_value (the (F (key_at h x))))"

section \<open>Reading the index\<close>

lemma indexed_node:
  assumes "indexed h F pend xs" "x \<in> set (pend @ xs)"
  obtains n v where "h x = Some n" "key_at h x = m_key n"
    "F (key_at h x) = Some \<lparr>m_value = v, m_listNode = At x\<rparr>" "kv_at h F x = (key_at h x, v)"
proof -
  from assms have "x \<in> dom h" by (auto simp: indexed_def)
  then obtain n where "h x = Some n" by blast
  moreover from assms obtain v where "F (key_at h x) = Some \<lparr>m_value = v, m_listNode = At x\<rparr>"
    unfolding indexed_def by blast
  ultimately show ?thesis using that by (simp add: key_at_def kv_at_def)
qed

lemma indexed_present: "indexed h F pend xs \<Longrightarrow> x \<in> set (pend @ xs) \<Longrightarrow> \<exists>hv. F (key_at h x) = Some hv"
  unfolding indexed_def by blast

lemma indexed_inj:
  assumes i: "indexed h F pend xs" and x: "x \<in> set (pend @ xs)" and y: "y \<in> set (pend @ xs)"
    and k: "key_at h x = key_at h y"
  shows "x = y"
  using k indexed_node [OF i x] indexed_node [OF i y]
  by (metis HashMapValue.select_convs(2) option.inject ptr.inject)

lemma indexed_find:
  assumes "indexed h F pend xs" "F k = Some hv"
  obtains x where "x \<in> set (pend @ xs)" "key_at h x = k" "m_listNode hv = At x"
    "kv_at h F x = (k, m_value hv)"
proof -
  from assms have "k \<in> key_at h ` set (pend @ xs)" unfolding indexed_def by blast
  then obtain x where x: "x \<in> set (pend @ xs)" "key_at h x = k" by blast
  then obtain v where "F k = Some \<lparr>m_value = v, m_listNode = At x\<rparr>" "kv_at h F x = (k, v)"
    using indexed_node [OF assms(1) x(1)] by metis
  with x assms(2) show ?thesis by (intro that) auto
qed

lemma indexed_keys_distinct: "indexed h F pend xs \<Longrightarrow> distinct (map (key_at h) xs)"
  by (auto simp: distinct_map inj_on_def indexed_def intro: indexed_inj [of h F pend xs])

lemma indexed_map_of:
  assumes i: "indexed h F [] xs"
  shows "map_of (map (kv_at h F) xs) k = map_option m_value (F k)"
proof (cases "F k")
  case None
  then have "k \<notin> key_at h ` set xs" using i by (auto simp: indexed_def)
  with None show ?thesis by (auto simp: map_of_eq_None_iff kv_at_def)
next
  case (Some hv)
  then obtain x where x: "x \<in> set xs" "kv_at h F x = (k, m_value hv)"
    by (auto elim: indexed_find [OF i])
  have "distinct (map fst (map (kv_at h F) xs))"
    using indexed_keys_distinct [OF i] by (simp add: kv_at_def comp_def)
  with x Some show ?thesis by (simp add: map_of_eq_Some_iff) (metis image_eqI)
qed

section \<open>Moving and removing nodes\<close>

lemma indexed_relink:
  assumes i: "indexed h F pend xs" and ch: "chain h' m_head xs' m_tail" and sp: "same_payload h h'"
    and s: "set (pend' @ xs') = set (pend @ xs)" "distinct (pend' @ xs')"
  shows "indexed h' F pend' xs'"
proof -
  have k: "key_at h' x = key_at h x" if "x \<in> set (pend @ xs)" for x
    using i that by (intro same_payload_key_at [OF sp]) (auto simp: indexed_def)
  have "dom h' = dom h" by (rule same_payload_dom_eq [OF sp])
  with i s show ?thesis
    unfolding indexed_def using k ch by (auto simp: image_def)
qed

lemma indexed_promote:
  assumes i: "indexed h F [] (ys @ x # zs)"
  obtains h1 h2 where "delink h (At x) = Inr h1" "pushFront h1 (At x) = Inr h2"
    "indexed h2 F [] (x # ys @ zs)" "same_payload h h2"
proof -
  from i have ch: "chain h m_head (ys @ x # zs) m_tail"
    and d: "distinct (m_head # ys @ x # zs @ [m_tail])"
    by (auto simp: indexed_def)
  from delink_chain [OF ch d] obtain h1 where h1: "delink h (At x) = Inr h1"
    "chain h1 m_head (ys @ zs) m_tail" "same_payload h h1"
    by blast
  have "h x \<noteq> None" using i by (auto simp: indexed_def)
  then have "h1 x \<noteq> None" using same_payload_dom [OF h1(3)] by simp
  moreover have "distinct (m_head # x # (ys @ zs) @ [m_tail])" using d by auto
  ultimately obtain h2 where h2: "pushFront h1 (At x) = Inr h2"
    "chain h2 m_head (x # ys @ zs) m_tail" "same_payload h1 h2"
    using pushFront_chain [OF h1(2), of x] by auto
  have "same_payload h h2" using h1(3) h2(3) by (rule same_payload_trans)
  moreover have "indexed h2 F [] (x # ys @ zs)"
    using d by (intro indexed_relink [OF i h2(2) \<open>same_payload h h2\<close>]) auto
  ultimately show ?thesis using h1(1) h2(1) that by blast
qed

lemma indexed_remove:
  assumes i: "indexed h F pend (ys @ x # zs)"
  obtains h1 n where "delink h (At x) = Inr h1" "h1 x = Some n" "m_key n = key_at h x"
    "indexed (h1(x := None)) (F(key_at h x := None)) pend (ys @ zs)"
    "\<And>y. y \<in> set (pend @ ys @ zs) \<Longrightarrow>
       kv_at (h1(x := None)) (F(key_at h x := None)) y = kv_at h F y"
proof -
  from i have ch: "chain h m_head (ys @ x # zs) m_tail"
    and d: "distinct (m_head # ys @ x # zs @ [m_tail])"
    and d': "distinct (m_head # m_tail # pend @ ys @ x # zs)"
    by (auto simp: indexed_def)
  from delink_chain [OF ch d] obtain h1 where h1: "delink h (At x) = Inr h1"
    "chain h1 m_head (ys @ zs) m_tail" "same_payload h h1"
    by blast
  let ?h = "h1(x := None)" and ?F = "F(key_at h x := None)"
  have k: "key_at ?h y = key_at h y" if "y \<in> set (pend @ ys @ zs)" for y
  proof -
    have "y \<noteq> x" "h y \<noteq> None" using that i d' by (auto simp: indexed_def)
    with same_payload_key_at [OF h1(3)] show ?thesis by (simp add: key_at_def)
  qed
  have ne: "key_at h y \<noteq> key_at h x" if "y \<in> set (pend @ ys @ zs)" for y
    using indexed_inj [OF i, of y x] that d' by auto
  have ch': "chain ?h m_head (ys @ zs) m_tail = chain h1 m_head (ys @ zs) m_tail"
    using d by (intro chain_cong) auto
  have "h x \<noteq> None" using i by (auto simp: indexed_def)
  then obtain n where n: "h1 x = Some n" "m_key n = key_at h x"
    using same_payload_key_at [OF h1(3), of x] same_payload_dom [OF h1(3), of x]
    by (auto simp: key_at_def)
  have "indexed ?h ?F pend (ys @ zs)"
    unfolding indexed_def
  proof (intro conjI ballI)
    show "chain ?h m_head (ys @ zs) m_tail" using ch' h1(2) by simp
    show "distinct (m_head # m_tail # pend @ ys @ zs)" using d' by auto
    have "dom h1 = dom h" by (rule same_payload_dom_eq [OF h1(3)])
    then show "dom ?h = set (m_head # m_tail # pend @ ys @ zs)"
      using i d' by (auto simp: indexed_def)
    show "\<exists>v. ?F (key_at ?h y) = Some \<lparr>m_value = v, m_listNode = At y\<rparr>"
      if "y \<in> set (pend @ ys @ zs)" for y
      using that k [OF that] ne [OF that] by (auto intro: indexed_node [OF i, of y])
    have "dom F = key_at h ` set (pend @ ys @ x # zs)" using i by (simp add: indexed_def)
    then have "dom ?F = key_at h ` set (pend @ ys @ zs)" using ne by auto
    then show "dom ?F = key_at ?h ` set (pend @ ys @ zs)" using k by (simp add: image_def)
  qed
  moreover have "kv_at ?h ?F y = kv_at h F y" if "y \<in> set (pend @ ys @ zs)" for y
    using k [OF that] ne [OF that] by (simp add: kv_at_def)
  ultimately show ?thesis using h1(1) n that by blast
qed

section \<open>Adding a node\<close>

lemma indexed_new:
  assumes i: "indexed h F [] xs" and k: "F (m_key n) = None" and a: "a \<notin> dom h"
  shows "indexed (h(a \<mapsto> n)) (F(m_key n \<mapsto> \<lparr>m_value = v, m_listNode = At a\<rparr>)) [a] xs"
    and "\<And>y. y \<in> set xs \<Longrightarrow>
      kv_at (h(a \<mapsto> n)) (F(m_key n \<mapsto> \<lparr>m_value = v, m_listNode = At a\<rparr>)) y = kv_at h F y"
proof -
  let ?h = "h(a \<mapsto> n)" and ?F = "F(m_key n \<mapsto> \<lparr>m_value = v, m_listNode = At a\<rparr>)"
  have ne: "y \<noteq> a" "key_at ?h y = key_at h y" "key_at h y \<noteq> m_key n" if "y \<in> set xs" for y
    using that i a k by (auto simp: indexed_def key_at_def domIff)
  have ch: "chain ?h m_head xs m_tail = chain h m_head xs m_tail"
    using i a by (intro chain_cong) (auto simp: indexed_def)
  show "indexed ?h ?F [a] xs"
    unfolding indexed_def
  proof (intro conjI ballI)
    show "chain ?h m_head xs m_tail" using ch i by (simp add: indexed_def)
    show "distinct (m_head # m_tail # [a] @ xs)" using i a by (auto simp: indexed_def)
    show "dom ?h = set (m_head # m_tail # [a] @ xs)" using i by (auto simp: indexed_def)
    show "\<exists>w. ?F (key_at ?h y) = Some \<lparr>m_value = w, m_listNode = At y\<rparr>"
      if "y \<in> set ([a] @ xs)" for y
    proof (cases "y = a")
      case False
      with that have y: "y \<in> set xs" by simp
      with ne [OF y] show ?thesis by (auto intro: indexed_node [OF i, of y])
    qed (simp add: key_at_def)
    have "dom F = key_at h ` set xs" using i by (simp add: indexed_def)
    then show "dom ?F = key_at ?h ` set ([a] @ xs)"
      using ne by (auto simp: key_at_def)
  qed
  show "kv_at ?h ?F y = kv_at h F y" if "y \<in> set xs" for y
    using ne [OF that] by (simp add: kv_at_def)
qed

lemma indexed_push:
  assumes i: "indexed h F [x] xs"
  obtains h' where "pushFront h (At x) = Inr h'" "indexed h' F [] (x # xs)" "same_payload h h'"
proof -
  have "chain h m_head xs m_tail" "distinct (m_head # x # xs @ [m_tail])" "h x \<noteq> None"
    using i by (auto simp: indexed_def)
  from pushFront_chain [OF this] obtain h' where h': "pushFront h (At x) = Inr h'"
    "chain h' m_head (x # xs) m_tail" "same_payload h h'"
    by blast
  moreover have "indexed h' F [] (x # xs)"
    using i by (intro indexed_relink [OF i h'(2,3)]) (auto simp: indexed_def)
  ultimately show ?thesis using that by blast
qed

lemma indexed_same_kv:
  assumes "indexed h F pend xs" "same_payload h h'" "y \<in> set (pend @ xs)"
  shows "kv_at h' F y = kv_at h F y"
proof -
  have "h y \<noteq> None" using assms(1,3) by (auto simp: indexed_def)
  then show ?thesis by (simp add: kv_at_def same_payload_key_at [OF assms(2)])
qed

end
