(* ===== verification/Random_Gen.thy ===== *)
theory Random_Gen
  imports Prelude
begin

text \<open>
  \<open>ssdlogging::random::Random\<close> of \<^verbatim>\<open>src/ssdlogging/util.h\<close>: the Lehmer generator
  \<open>seed * 16807 mod (2^31 - 1)\<close>, computed with shifts and masks on 64-bit and 32-bit words. The
  state of a generator is its seed. The lemmas show that the shift-and-mask step is the modular
  product, that a seed between 1 and \<open>Random_M - 1\<close> stays there, and what the two seeds outside that range
  do.
\<close>

unbundle bit_operations_syntax

definition Random_M :: uint32 where "Random_M = 2147483647"

definition Random_A :: uint64 where "Random_A = 16807"

definition GoodSeed :: "uint32 \<Rightarrow> uint32" where
  "GoodSeed s = (if s AND Random_M \<noteq> 0 then s AND Random_M else 1)"

text \<open>The constructor and \<open>Reset\<close> set the seed.\<close>

definition Random_Reset :: "uint32 \<Rightarrow> uint32" where
  "Random_Reset s = GoodSeed s"

definition Random_Next :: "uint32 \<Rightarrow> uint32" where
  "Random_Next seed =
     (let product = (ucast seed :: uint64) * Random_A;
          seed = ucast (drop_bit 31 product + (product AND ucast Random_M)) :: uint32
      in if seed > Random_M then seed - Random_M else seed)"

text \<open>
  \<open>Uniform\<close>, \<open>OneIn\<close> and \<open>Skewed\<close> return the new seed beside the value. The divisor \<open>n\<close> is an
  \<open>int\<close> that the arithmetic converts to \<open>uint32_t\<close>; a zero divisor traps.
\<close>

definition Random_Uniform :: "uint32 \<Rightarrow> uint32 \<Rightarrow> (uint32 \<times> uint32) option" where
  "Random_Uniform seed n =
     (if n = 0 then None else let seed = Random_Next seed in Some (seed mod n, seed))"

definition Random_OneIn :: "uint32 \<Rightarrow> uint32 \<Rightarrow> (bool \<times> uint32) option" where
  "Random_OneIn seed n =
     (if n = 0 then None else let seed = Random_Next seed in Some (seed mod n = 0, seed))"

definition Random_Skewed :: "uint32 \<Rightarrow> uint32 \<Rightarrow> (uint32 \<times> uint32) option" where
  "Random_Skewed seed max_log =
     (case Random_Uniform seed (max_log + 1) of
        None \<Rightarrow> None
      | Some (b, seed) \<Rightarrow> Random_Uniform seed (push_bit (unat b) 1))"

section \<open>The step is multiplication modulo \<open>2\<^sup>3\<^sup>1 - 1\<close>\<close>

lemma unat_M [simp]: "unat Random_M = 2147483647"
  by (simp add: Random_M_def)

lemma unat_and_M: "unat (w AND Random_M) = unat w mod 2147483648"
proof -
  have "w AND Random_M = take_bit 31 w"
    by (simp add: Random_M_def take_bit_eq_mask mask_eq_decr_exp)
  then show ?thesis by (simp only: unsigned_take_bit_eq take_bit_eq_mod [where 'a = nat]) simp
qed

lemma unat_and_M64: "unat (w AND (ucast Random_M :: uint64)) = unat w mod 2147483648"
proof -
  have "(ucast Random_M :: uint64) = mask 31"
    by (rule word_unat_eq_iff [THEN iffD2])
      (simp add: Random_M_def unsigned_ucast_eq take_bit_eq_mod [where 'a = nat] mask_eq_decr_exp)
  then have "w AND (ucast Random_M :: uint64) = take_bit 31 w"
    by (simp add: take_bit_eq_mask)
  then show ?thesis by (simp only: unsigned_take_bit_eq take_bit_eq_mod [where 'a = nat]) simp
qed

lemma unat_ucast_up: "unat (ucast (s::uint32) :: uint64) = unat s"
  using unsigned_less [of s, where ?'a = nat] by (simp add: unsigned_ucast_eq take_bit_eq_mod)

lemma Random_Next_unat:
  assumes "unat s \<le> 2147483647"
  shows "unat (Random_Next s) =
    (let p = unat s * 16807; t = p div 2147483648 + p mod 2147483648
     in if t > 2147483647 then t - 2147483647 else t)"
proof -
  let ?p = "unat s * 16807" and ?prod = "(ucast s :: uint64) * Random_A"
  let ?t = "?p div 2147483648 + ?p mod 2147483648"
  have p: "?p \<le> 2147483647 * 16807" using assms by simp
  have prod: "unat ?prod = ?p"
    using p by (simp add: unat_word_ariths unat_ucast_up Random_A_def)
  have "?p div 2147483648 \<le> (2147483647 * 16807) div 2147483648"
    using p by (rule div_le_mono)
  then have q: "?p div 2147483648 \<le> 16806" by simp
  have r: "?p mod 2147483648 < 2147483648" by simp
  let ?w = "drop_bit 31 ?prod + (?prod AND ucast Random_M)"
  have "unat (drop_bit 31 ?prod) = ?p div 2147483648"
    by (simp only: unat_drop_bit_eq drop_bit_eq_div [where 'a = nat] prod) simp
  moreover have "unat (?prod AND ucast Random_M) = ?p mod 2147483648"
    by (simp only: unat_and_M64 prod)
  ultimately have w: "unat ?w = ?t"
    using q r by (simp add: unat_word_ariths)
  then have u: "unat (ucast ?w :: uint32) = ?t"
    using q r by (simp add: unsigned_ucast_eq take_bit_eq_mod)
  show ?thesis
  proof (cases "?t > 2147483647")
    case True
    then have "(ucast ?w :: uint32) > Random_M" using u by (simp add: word_less_nat_alt)
    moreover from this have "unat ((ucast ?w :: uint32) - Random_M) = ?t - 2147483647"
      using u by (simp add: unat_sub_if_size word_less_nat_alt)
    ultimately show ?thesis using True by (simp add: Random_Next_def Let_def)
  next
    case False
    then have "\<not> (ucast ?w :: uint32) > Random_M" using u by (simp add: word_less_nat_alt)
    with False u show ?thesis by (simp add: Random_Next_def Let_def)
  qed
qed

text \<open>Folding the high part onto the low part does not change the value modulo \<open>2^31 - 1\<close>.\<close>

lemma fold_mod:
  fixes p :: nat
  shows "(p div 2147483648 + p mod 2147483648) mod 2147483647 = p mod 2147483647"
proof -
  have "p = 2147483647 * (p div 2147483648) + (p div 2147483648 + p mod 2147483648)"
    using div_mult_mod_eq [of p 2147483648] by linarith
  then have "p mod 2147483647 =
      ((p div 2147483648 + p mod 2147483648) + 2147483647 * (p div 2147483648)) mod 2147483647"
    by (simp only: add.commute)
  also have "\<dots> = (p div 2147483648 + p mod 2147483648) mod 2147483647"
    by (rule mod_mult_self2)
  finally show ?thesis by (rule sym)
qed

lemma product_not_divisible:
  fixes s :: nat
  assumes "0 < s" "s < 2147483647"
  shows "s * 16807 mod 2147483647 \<noteq> 0"
proof
  assume "s * 16807 mod 2147483647 = 0"
  then have "2147483647 dvd s * 16807" by (simp add: mod_eq_0_iff_dvd)
  moreover have "coprime (2147483647::nat) 16807" by (simp add: coprime_iff_gcd_eq_1 gcd_non_0_nat)
  ultimately have "2147483647 dvd s" by (simp add: coprime_dvd_mult_left_iff)
  then have "2147483647 \<le> s" using assms(1) by (rule dvd_imp_le)
  with assms(2) show False by simp
qed

lemma fold_range:
  fixes t m :: nat
  assumes "t < 2 * m" "t \<noteq> m"
  shows "(if t > m then t - m else t) = t mod m"
  using assms by (cases "t < m") (simp_all add: le_mod_geq)

lemma Random_Next_mod:
  assumes "0 < unat s" "unat s < 2147483647"
  shows "unat (Random_Next s) = unat s * 16807 mod 2147483647"
proof -
  let ?p = "unat s * 16807"
  let ?t = "?p div 2147483648 + ?p mod 2147483648"
  have "?p \<le> 2147483647 * 16807" using assms by simp
  then have "?p div 2147483648 \<le> (2147483647 * 16807) div 2147483648" by (rule div_le_mono)
  then have "?p div 2147483648 \<le> 16806" by simp
  moreover have "?p mod 2147483648 < 2147483648" by simp
  ultimately have b: "?t < 2 * 2147483647" by linarith
  have m: "?t mod 2147483647 = ?p mod 2147483647" by (rule fold_mod)
  have ne: "?t \<noteq> 2147483647" using m product_not_divisible [OF assms] by auto
  have "unat (Random_Next s) = (if ?t > 2147483647 then ?t - 2147483647 else ?t)"
    using Random_Next_unat [of s] assms by (simp add: Let_def)
  also have "\<dots> = ?t mod 2147483647"
    using b ne by (simp add: fold_range)
  finally show ?thesis using m by simp
qed

lemma Random_Next_range:
  assumes "0 < unat s" "unat s < 2147483647"
  shows "0 < unat (Random_Next s) \<and> unat (Random_Next s) < 2147483647"
  using Random_Next_mod [OF assms] product_not_divisible [OF assms] by simp

lemma GoodSeed_range: "0 < unat (GoodSeed s) \<and> unat (GoodSeed s) \<le> 2147483647"
proof (cases "s AND Random_M = 0")
  case False
  then have "0 < unat (s AND Random_M)" by (simp add: unat_gt_0)
  moreover have "unat (s AND Random_M) < 2147483648" unfolding unat_and_M by simp
  ultimately show ?thesis using False by (simp add: GoodSeed_def)
qed (simp add: GoodSeed_def)

section \<open>The stream of a generator\<close>

lemma Reset_range: "s AND Random_M \<noteq> Random_M \<Longrightarrow> 0 < unat (Random_Reset s) \<and> unat (Random_Reset s) < 2147483647"
proof -
  assume a: "s AND Random_M \<noteq> Random_M"
  have "GoodSeed s \<noteq> Random_M" using a by (auto simp: GoodSeed_def Random_M_def)
  then have "unat (GoodSeed s) \<noteq> unat Random_M" by (metis word_unat_eq_iff)
  with GoodSeed_range [of s] show ?thesis by (simp add: Random_Reset_def)
qed

text \<open>
  C34. A generator whose seed is not a multiple of \<open>2^31 - 1\<close> in its low 31 bits produces the Lehmer
  sequence: its \<open>n\<close>-th number is \<open>seed * 16807^n mod (2^31 - 1)\<close>, computed without a division, and it
  lies strictly between 0 and \<open>2^31 - 1\<close>.
\<close>

theorem Random_stream:
  assumes "s AND Random_M \<noteq> Random_M"
  shows "unat ((Random_Next ^^ n) (Random_Reset s)) = unat (Random_Reset s) * 16807 ^ n mod 2147483647 \<and>
    0 < unat ((Random_Next ^^ n) (Random_Reset s)) \<and> unat ((Random_Next ^^ n) (Random_Reset s)) < 2147483647"
proof (induction n)
  case 0
  then show ?case using Reset_range [OF assms] by simp
next
  case (Suc n)
  let ?x = "(Random_Next ^^ n) (Random_Reset s)"
  have r: "0 < unat ?x" "unat ?x < 2147483647" using Suc.IH by auto
  have "unat (Random_Next ?x) = unat ?x * 16807 mod 2147483647" by (rule Random_Next_mod [OF r])
  also have "\<dots> = (unat (Random_Reset s) * 16807 ^ n mod 2147483647) * 16807 mod 2147483647" using Suc.IH by simp
  also have "\<dots> = unat (Random_Reset s) * 16807 ^ n * 16807 mod 2147483647" by (rule mod_mult_left_eq)
  finally show ?case using Random_Next_range [OF r] by (simp add: ac_simps)
qed

theorem Random_stream_witness:
  "(12345 :: uint32) AND Random_M \<noteq> Random_M \<and>
    unat ((Random_Next ^^ 2) (Random_Reset 12345)) = unat (Random_Reset 12345) * 16807 ^ 2 mod 2147483647"
proof -
  have a: "(12345 :: uint32) AND Random_M \<noteq> Random_M" by (simp add: Random_M_def)
  with Random_stream [OF a, of 2] show ?thesis by blast
qed

text \<open>
  The guard of the constructor is incomplete: a seed whose low 31 bits are all set is kept as
  \<open>2^31 - 1\<close>, and from there every number the generator returns is \<open>2^31 - 1\<close>.
\<close>

theorem Random_stuck: "(Random_Next ^^ n) (Random_Reset Random_M) = Random_M"
proof (induction n)
  case 0
  show ?case by (simp add: Random_Reset_def GoodSeed_def Random_M_def)
next
  case (Suc n)
  have "Random_Next Random_M = Random_M"
    by (rule word_unat_eq_iff [THEN iffD2]) (simp add: Random_Next_unat Let_def)
  with Suc show ?case by simp
qed

end
