(* ===== verification/Base_Cache.thy ===== *)
theory Base_Cache
  imports Complex_Main Random_Gen
begin

text \<open>
  \<open>Cache::BaseCacheAPI\<close> of \<^verbatim>\<open>src/cache/baseCache.h\<close>: the sampled hit and miss counters every
  baseline cache inherits, the functions that read and reset them, and \<open>sample_generator\<close>, which
  decides with the thread's random generator whether an access is counted. The counters are
  \<open>size_t\<close> and wrap; the ratios, computed in \<open>double\<close>, are real numbers here. A line that the code
  prints is a value: \<open>None\<close> when nothing is printed.
\<close>

text \<open>The conversion of an unsigned integer to \<open>double\<close>, as in \<open>hit * 1.0\<close>.\<close>

definition to_double :: "'a::len word \<Rightarrow> real" where "to_double w = real (unat w)"

record BaseCacheAPI =
  hit_num :: size_t
  miss_num :: size_t

definition RAND_MAX :: real where "RAND_MAX = 2147483647"

text \<open>The sampling rate \<open>1.0/100\<close>; the next seed is the generated number itself.\<close>

definition sample_percentage :: real where "sample_percentage = 1 / 100"

definition sample_generator :: "uint32 \<Rightarrow> bool \<times> uint32" where
  "sample_generator seed =
     (let seed = Random_Next seed in (to_double seed / RAND_MAX < sample_percentage, seed))"

text \<open>Reading and resetting. The first result of \<open>PrintStat\<close> is the printed line.\<close>

definition reset_stat :: "'z BaseCacheAPI_scheme \<Rightarrow> 'z BaseCacheAPI_scheme" where
  "reset_stat c = c\<lparr>hit_num := 0, miss_num := 0\<rparr>"

definition hit_rate_line :: "size_t \<Rightarrow> size_t \<Rightarrow> (real \<times> size_t \<times> size_t) option" where
  "hit_rate_line hit miss =
     (if hit + miss \<noteq> 0 then Some (to_double hit / to_double (hit + miss), hit, miss) else None)"

definition PrintStat ::
    "'z BaseCacheAPI_scheme \<Rightarrow>
      (real \<times> size_t \<times> size_t) option \<times> (size_t \<times> size_t) \<times> 'z BaseCacheAPI_scheme" where
  "PrintStat c =
     (let hit = hit_num c; miss = miss_num c
      in (hit_rate_line hit miss, (hit, miss), c\<lparr>hit_num := 0, miss_num := 0\<rparr>))"

definition GetStat :: "'z BaseCacheAPI_scheme \<Rightarrow> (size_t \<times> size_t) \<times> 'z BaseCacheAPI_scheme" where
  "GetStat c =
     (let hit = hit_num c; miss = miss_num c in ((hit, miss), c\<lparr>hit_num := 0, miss_num := 0\<rparr>))"

definition get_miss_ratio ::
    "'z BaseCacheAPI_scheme \<Rightarrow> real \<times> size_t \<times> 'z BaseCacheAPI_scheme" where
  "get_miss_ratio c =
     (let total_access = hit_num c + miss_num c;
          temp = (if total_access \<noteq> 0 then to_double (miss_num c) / to_double total_access else 1)
      in (temp, total_access, c\<lparr>hit_num := 0, miss_num := 0\<rparr>))"

definition print_reset_stat ::
    "'z BaseCacheAPI_scheme \<Rightarrow> (real \<times> size_t \<times> size_t) option \<times> 'z BaseCacheAPI_scheme" where
  "print_reset_stat c =
     (let hit = hit_num c; miss = miss_num c
      in (hit_rate_line hit miss, c\<lparr>hit_num := 0, miss_num := 0\<rparr>))"

text \<open>What \<open>find\<close> does to the counters: it counts its outcome when the access is sampled.\<close>

definition count_miss :: "bool \<Rightarrow> 'z BaseCacheAPI_scheme \<Rightarrow> 'z BaseCacheAPI_scheme" where
  "count_miss sample c = (if sample then c\<lparr>miss_num := miss_num c + 1\<rparr> else c)"

definition count_hit :: "bool \<Rightarrow> 'z BaseCacheAPI_scheme \<Rightarrow> 'z BaseCacheAPI_scheme" where
  "count_hit sample c = (if sample then c\<lparr>hit_num := hit_num c + 1\<rparr> else c)"

lemma counted [simp]:
  "hit_num (count_hit sample c) = hit_num c + (if sample then 1 else 0)"
  "miss_num (count_hit sample c) = miss_num c"
  "hit_num (count_miss sample c) = hit_num c"
  "miss_num (count_miss sample c) = miss_num c + (if sample then 1 else 0)"
  by (simp_all add: count_hit_def count_miss_def)

section \<open>The miss ratio\<close>

lemma to_double_nonneg [simp]: "0 \<le> to_double w"
  by (simp add: to_double_def del: of_nat_unat)

lemma to_double_eq_0 [simp]: "to_double w = 0 \<longleftrightarrow> w = 0"
  by (simp add: to_double_def unat_eq_zero del: of_nat_unat)

lemma to_double_pos: "w \<noteq> 0 \<Longrightarrow> 0 < to_double w"
  by (simp add: less_le)

lemma unat_add_exact:
  fixes a b :: size_t
  assumes "unat a + unat b < 2 ^ 64"
  shows "unat (a + b) = unat a + unat b"
  using assms by (simp add: unat_word_ariths)

lemma to_double_add:
  fixes a b :: size_t
  shows "unat a + unat b < 2 ^ 64 \<Longrightarrow> to_double (a + b) = to_double a + to_double b"
  by (simp add: to_double_def unat_add_exact del: of_nat_unat)

lemma ratio_range:
  fixes a b :: real
  assumes "0 \<le> a" "0 \<le> b"
  shows "0 \<le> b / (a + b) \<and> b / (a + b) \<le> 1"
  using assms by (simp add: divide_le_eq)

lemma get_miss_ratio_exact:
  assumes "unat (hit_num c) + unat (miss_num c) < 2 ^ 64" "get_miss_ratio c = (r, tot, c')"
  shows "unat tot = unat (hit_num c) + unat (miss_num c) \<and>
    (if tot = 0 then r = 1 else r * to_double tot = to_double (miss_num c)) \<and>
    0 \<le> r \<and> r \<le> 1 \<and> hit_num c' = 0 \<and> miss_num c' = 0"
  using assms unat_add_exact [OF assms(1)] to_double_add [OF assms(1)]
    ratio_range [of "to_double (hit_num c)" "to_double (miss_num c)"]
  by (auto simp: get_miss_ratio_def Let_def)

section \<open>The sampling rate\<close>

text \<open>A sampled access is one whose generated number is at most 21474836.\<close>

lemma sample_generator_threshold:
  "fst (sample_generator seed) \<longleftrightarrow> unat (Random_Next seed) \<le> 21474836"
proof -
  have "to_double (Random_Next seed) / RAND_MAX < sample_percentage \<longleftrightarrow>
      100 * real (unat (Random_Next seed)) < 2147483647"
    by (simp add: to_double_def RAND_MAX_def sample_percentage_def field_simps del: of_nat_unat)
  also have "\<dots> \<longleftrightarrow> 100 * unat (Random_Next seed) < 2147483647" by linarith
  finally show ?thesis by (simp add: sample_generator_def Let_def) linarith
qed

end
