(* ===== verification/Cache_Spec.thy ===== *)
theory Cache_Spec
  imports Prelude "HOL-Library.Multiset"
begin

text \<open>
  The abstract specification of the list caches: the contents of a cache is the list of its
  key/value pairs, the next victim last. \<open>spec_find\<close> moves a found pair to the front when the
  cache promotes, \<open>spec_insert\<close> refuses a key that is present and otherwise pushes the pair to the
  front and drops the last one of a full list, \<open>spec_delete\<close> removes a key. The recency-ordered
  caches (\<open>LRUCache\<close>, \<open>StrictLRUCache\<close>) and the insertion-ordered \<open>FIFOCache\<close> are instances.
\<close>

type_synonym 'v contents = "(size_t \<times> 'v) list"

definition spec_lookup :: "size_t \<Rightarrow> 'v contents \<Rightarrow> 'v option" where
  "spec_lookup k kvs = map_of kvs k"

definition spec_find :: "bool \<Rightarrow> size_t \<Rightarrow> 'v contents \<Rightarrow> 'v contents" where
  "spec_find promote k kvs =
     (case map_of kvs k of
        None \<Rightarrow> kvs
      | Some v \<Rightarrow> if promote then (k, v) # filter (\<lambda>p. fst p \<noteq> k) kvs else kvs)"

definition spec_insert :: "nat \<Rightarrow> size_t \<Rightarrow> 'v \<Rightarrow> 'v contents \<Rightarrow> bool \<times> 'v contents" where
  "spec_insert cap k v kvs =
     (if k \<in> fst ` set kvs then (False, kvs)
      else (True, (k, v) # (if length kvs \<ge> cap then butlast kvs else kvs)))"

definition spec_delete :: "size_t \<Rightarrow> 'v contents \<Rightarrow> 'v contents" where
  "spec_delete k kvs = filter (\<lambda>p. fst p \<noteq> k) kvs"

definition spec_ok :: "nat \<Rightarrow> 'v contents \<Rightarrow> bool" where
  "spec_ok cap kvs \<longleftrightarrow> distinct (map fst kvs) \<and> length kvs \<le> cap"

section \<open>The specification keeps its invariant\<close>

lemma filter_split:
  assumes "distinct (map fst (as @ (k, v) # bs))"
  shows "filter (\<lambda>p. fst p \<noteq> k) (as @ (k, v) # bs) = as @ bs"
proof -
  have "fst p \<noteq> k" if "p \<in> set as \<union> set bs" for p
    using assms that by auto
  then show ?thesis by simp
qed

lemma length_filter_key:
  assumes "distinct (map fst kvs)" "map_of kvs k = Some v"
  shows "Suc (length (filter (\<lambda>p. fst p \<noteq> k) kvs)) = length kvs"
proof -
  from assms(2) obtain as bs where "kvs = as @ (k, v) # bs"
    using map_of_SomeD split_list by metis
  with filter_split [of as k v bs] assms(1) show ?thesis by simp
qed

lemma spec_ok_find: "spec_ok cap kvs \<Longrightarrow> spec_ok cap (spec_find promote k kvs)"
  using length_filter_key [of kvs k]
  by (fastforce simp: spec_ok_def spec_find_def distinct_map_filter split: option.splits)

lemma spec_ok_insert: "0 < cap \<Longrightarrow> spec_ok cap kvs \<Longrightarrow> spec_ok cap (snd (spec_insert cap k v kvs))"
  by (auto simp: spec_ok_def spec_insert_def map_butlast distinct_butlast dest: in_set_butlastD)

lemma spec_ok_delete: "spec_ok cap kvs \<Longrightarrow> spec_ok cap (spec_delete k kvs)"
  by (auto simp: spec_ok_def spec_delete_def distinct_map_filter
      intro: order_trans [OF length_filter_le])

text \<open>A lookup only reorders.\<close>

lemma spec_find_mset:
  assumes "distinct (map fst kvs)"
  shows "mset (spec_find promote k kvs) = mset kvs"
proof (cases "map_of kvs k")
  case (Some v)
  then obtain as bs where s: "kvs = as @ (k, v) # bs" using map_of_SomeD split_list by metis
  with filter_split [of as k v bs] assms have "filter (\<lambda>p. fst p \<noteq> k) kvs = as @ bs" by simp
  with Some s show ?thesis by (simp add: spec_find_def)
qed (simp add: spec_find_def)

section \<open>Lookups after an operation\<close>

lemma map_of_filter_key: "map_of (filter (\<lambda>p. fst p \<noteq> k) kvs) = (map_of kvs)(k := None)"
  by (induction kvs) (auto simp: fun_eq_iff)

lemma lookup_find [simp]: "spec_lookup j (spec_find promote k kvs) = spec_lookup j kvs"
  by (auto simp: spec_lookup_def spec_find_def map_of_filter_key split: option.splits)

lemma lookup_delete: "spec_lookup j (spec_delete k kvs) = (if j = k then None else spec_lookup j kvs)"
  by (simp add: spec_lookup_def spec_delete_def map_of_filter_key)

lemma lookup_insert:
  assumes "spec_lookup k kvs = None"
  shows "fst (spec_insert cap k v kvs)"
    and "spec_lookup k (snd (spec_insert cap k v kvs)) = Some v"
  using assms by (auto simp: spec_lookup_def spec_insert_def map_of_eq_None_iff)

text \<open>An insertion never changes the value of another key; at most it drops one pair.\<close>

lemma map_of_butlast:
  assumes "map_of (butlast kvs) j = Some v"
  shows "map_of kvs j = Some v"
proof (cases kvs rule: rev_cases)
  case (snoc kvs' p)
  with assms show ?thesis by (simp add: map_add_Some_iff)
qed (use assms in simp)

lemma lookup_insert_other:
  "spec_lookup j (snd (spec_insert cap k v kvs)) = Some w \<Longrightarrow>
     (j = k \<and> spec_lookup k kvs = None \<and> w = v) \<or> spec_lookup j kvs = Some w"
  by (auto simp: spec_lookup_def spec_insert_def map_of_eq_None_iff dest: map_of_butlast
      split: if_splits)

section \<open>A demand-filled cache holds the most recently used keys\<close>

text \<open>
  One access of a client: look the key up, and insert it when it is absent. \<open>recent ks\<close> lists the
  distinct keys of an access sequence, the latest first.
\<close>

definition spec_access :: "nat \<Rightarrow> size_t \<times> 'v \<Rightarrow> 'v contents \<Rightarrow> bool \<times> 'v contents" where
  "spec_access cap kv kvs =
     (case map_of kvs (fst kv) of
        Some _ \<Rightarrow> (True, spec_find True (fst kv) kvs)
      | None \<Rightarrow> (False, snd (spec_insert cap (fst kv) (snd kv) kvs)))"

fun spec_accesses :: "nat \<Rightarrow> (size_t \<times> 'v) list \<Rightarrow> 'v contents \<Rightarrow> bool list \<times> 'v contents" where
  "spec_accesses cap [] kvs = ([], kvs)"
| "spec_accesses cap (a # as) kvs =
     (let (hit, kvs) = spec_access cap a kvs; (hits, kvs) = spec_accesses cap as kvs in (hit # hits, kvs))"

definition recent :: "'k list \<Rightarrow> 'k list" where
  "recent ks = rev (remdups ks)"

lemma remdups_snoc: "remdups (ks @ [k]) = filter (\<lambda>j. j \<noteq> k) (remdups ks) @ [k]"
  by (induction ks) auto

lemma recent_snoc: "recent (ks @ [k]) = k # filter (\<lambda>j. j \<noteq> k) (recent ks)"
  by (simp add: recent_def remdups_snoc rev_filter)

lemma set_recent [simp]: "set (recent ks) = set ks"
  by (simp add: recent_def)

lemma distinct_recent [simp]: "distinct (recent ks)"
  by (simp add: recent_def)

text \<open>Moving a key to the front commutes with cutting the list at the capacity.\<close>

lemma take_move_hit:
  assumes "distinct ks" "k \<in> set (take (Suc n) ks)"
  shows "take (Suc n) (k # filter (\<lambda>j. j \<noteq> k) ks) = k # filter (\<lambda>j. j \<noteq> k) (take (Suc n) ks)"
  using assms
proof (induction ks arbitrary: n)
  case (Cons a ks)
  show ?case
  proof (cases "a = k")
    case True
    have "filter (\<lambda>j. j \<noteq> k) ks = ks" using Cons.prems(1) True by (auto intro: filter_True)
    moreover have "filter (\<lambda>j. j \<noteq> k) (take n ks) = take n ks"
      using Cons.prems(1) True by (intro filter_True) (auto dest: in_set_takeD)
    ultimately show ?thesis using True by simp
  next
    case False
    with Cons.prems obtain m where "n = Suc m" by (cases n) auto
    with False Cons.prems Cons.IH [of m] show ?thesis by simp
  qed
qed simp

lemma take_move_miss:
  assumes "k \<notin> set (take (Suc n) ks)"
  shows "take (Suc n) (k # filter (\<lambda>j. j \<noteq> k) ks) = k # take n ks"
proof -
  have "filter (\<lambda>j. j \<noteq> k) ks = take (Suc n) ks @ filter (\<lambda>j. j \<noteq> k) (drop (Suc n) ks)"
  proof -
    have "filter (\<lambda>j. j \<noteq> k) (take (Suc n) ks) = take (Suc n) ks"
      using assms by (intro filter_True) auto
    then show ?thesis
      using filter_append [of "\<lambda>j. j \<noteq> k" "take (Suc n) ks" "drop (Suc n) ks"] by simp
  qed
  then show ?thesis by (cases "Suc n \<le> length ks") (simp_all add: take_all)
qed

lemma map_fst_filter: "map fst (filter (\<lambda>p. fst p \<noteq> k) kvs) = filter (\<lambda>j. j \<noteq> k) (map fst kvs)"
  by (induction kvs) auto

lemma take_drop_last:
  "(if Suc n \<le> length (take (Suc n) xs) then butlast (take (Suc n) xs) else take (Suc n) xs) = take n xs"
  by (cases "Suc n \<le> length xs") (simp_all add: butlast_take)

lemma spec_access_keys:
  assumes "0 < cap" "map fst kvs = take cap (recent ks)"
  shows "map fst (snd (spec_access cap a kvs)) = take cap (recent (ks @ [fst a])) \<and>
    fst (spec_access cap a kvs) = (fst a \<in> set (take cap (recent ks)))"
proof -
  obtain n where n: "cap = Suc n" using assms(1) by (cases cap) auto
  have s: "fst ` set kvs = set (take cap (recent ks))"
    using assms(2) by (metis set_map)
  show ?thesis
  proof (cases "map_of kvs (fst a)")
    case None
    then have miss: "fst a \<notin> set (take cap (recent ks))" using s by (simp add: map_of_eq_None_iff)
    have "length kvs = length (take (Suc n) (recent ks))" using assms(2) n by (metis length_map)
    then have "map fst (if length kvs \<ge> cap then butlast kvs else kvs) = take n (recent ks)"
      using assms(2) n take_drop_last [of n "recent ks"] by (auto simp: map_butlast split: if_splits)
    with None miss s n show ?thesis
      using take_move_miss [of "fst a" n "recent ks"]
      by (simp add: spec_access_def spec_insert_def recent_snoc)
  next
    case (Some v)
    then have hit: "fst a \<in> set (take cap (recent ks))"
      using s by (metis map_of_eq_None_iff option.distinct(1))
    with Some n assms(2) show ?thesis
      using take_move_hit [of "recent ks" "fst a" n]
      by (simp add: spec_access_def spec_find_def recent_snoc map_fst_filter)
  qed
qed

lemma spec_accesses_keys:
  assumes "0 < cap" "map fst kvs = take cap (recent ks)"
  shows "map fst (snd (spec_accesses cap as kvs)) = take cap (recent (ks @ map fst as)) \<and>
    (\<forall>i < length as. fst (spec_accesses cap as kvs) ! i =
       (fst (as ! i) \<in> set (take cap (recent (ks @ map fst (take i as))))))"
  using assms(2)
proof (induction as arbitrary: ks kvs)
  case (Cons a as)
  obtain hit kvs' where a: "spec_access cap a kvs = (hit, kvs')" by fastforce
  obtain hits kvs'' where r: "spec_accesses cap as kvs' = (hits, kvs'')" by fastforce
  from spec_access_keys [OF assms(1) Cons.prems, of a] a
  have k: "map fst kvs' = take cap (recent (ks @ [fst a]))"
    and h: "hit = (fst a \<in> set (take cap (recent ks)))" by simp_all
  from Cons.IH [OF k] r have
    ih: "map fst kvs'' = take cap (recent ((ks @ [fst a]) @ map fst as))"
      "\<forall>i < length as. hits ! i =
         (fst (as ! i) \<in> set (take cap (recent ((ks @ [fst a]) @ map fst (take i as)))))"
    by simp_all
  have "\<forall>i < length (a # as). (hit # hits) ! i =
      (fst ((a # as) ! i) \<in> set (take cap (recent (ks @ map fst (take i (a # as))))))"
    using ih(2) h by (auto simp: less_Suc_eq_0_disj)
  with ih(1) show ?case using a r by simp
qed simp

end
