(* ===== verification/Cache_API.thy ===== *)
theory Cache_API
  imports Cache_Spec
begin

text \<open>
  The interface \<open>Cache::CacheAPI\<close> of \<^verbatim>\<open>src/cache/cache.h\<close>: the virtual functions through which
  the sharded cache and the clients use any of the caches, as a record of operations. \<open>'e\<close> is what
  the environment decides during a call (whether a \<open>try_lock\<close> succeeds, what the sampling
  generator answers).

  Two contracts stand for it. \<open>list_cache\<close>: the operations implement the ordered specification of
  \<open>Cache_Spec\<close>; its lemmas lift this to arbitrary sequences of calls and to demand-filled use.
  \<open>map_cache\<close>: what a client may rely on without knowing the eviction order.
\<close>

record ('e, 's, 'v) CacheAPI =
  api_find :: "'e \<Rightarrow> 's \<Rightarrow> size_t \<Rightarrow> ('v option \<times> 's) result"
  api_insert :: "'e \<Rightarrow> 's \<Rightarrow> size_t \<Rightarrow> 'v \<Rightarrow> (bool \<times> 's) result"
  api_delete_key :: "'s \<Rightarrow> size_t \<Rightarrow> 's result"
  api_clear :: "'s \<Rightarrow> 's result option"
  api_snapshotKeys :: "'s \<Rightarrow> size_t list \<Rightarrow> size_t list result option"
  api_size :: "'s \<Rightarrow> size_t"

section \<open>Sequences of calls\<close>

datatype ('e, 'v) cache_op =
    Find 'e size_t | Insert 'e size_t 'v | Delete size_t | Clear | Snapshot | Size

datatype 'v cache_out = Found "'v option" | Inserted bool | Done | Keys "size_t list" | Count nat

fun api_step ::
    "('e, 's, 'v) CacheAPI \<Rightarrow> ('e, 'v) cache_op \<Rightarrow> 's \<Rightarrow> ('v cache_out \<times> 's) result option" where
  "api_step A (Find e k) s = Some (r_bind (api_find A e s k) (\<lambda>(r, s). Inr (Found r, s)))"
| "api_step A (Insert e k v) s = Some (r_bind (api_insert A e s k v) (\<lambda>(b, s). Inr (Inserted b, s)))"
| "api_step A (Delete k) s = Some (r_bind (api_delete_key A s k) (\<lambda>s. Inr (Done, s)))"
| "api_step A Clear s = map_option (\<lambda>r. r_bind r (\<lambda>s. Inr (Done, s))) (api_clear A s)"
| "api_step A Snapshot s =
     map_option (\<lambda>r. r_bind r (\<lambda>ks. Inr (Keys ks, s))) (api_snapshotKeys A s [])"
| "api_step A Size s = Some (Inr (Count (unat (api_size A s)), s))"

fun api_run ::
    "('e, 's, 'v) CacheAPI \<Rightarrow> ('e, 'v) cache_op list \<Rightarrow> 's \<Rightarrow> ('v cache_out list \<times> 's) result option" where
  "api_run A [] s = Some (Inr ([], s))"
| "api_run A (c # cs) s =
     (case api_step A c s of
        None \<Rightarrow> None
      | Some (Inl e) \<Rightarrow> Some (Inl e)
      | Some (Inr (out, s)) \<Rightarrow>
          map_option (\<lambda>r. r_bind r (\<lambda>(outs, s). Inr (out # outs, s))) (api_run A cs s))"

fun spec_step ::
    "('e \<Rightarrow> bool) \<Rightarrow> nat \<Rightarrow> ('e, 'v) cache_op \<Rightarrow> 'v contents \<Rightarrow> 'v cache_out \<times> 'v contents" where
  "spec_step promotes cap (Find e k) kvs = (Found (spec_lookup k kvs), spec_find (promotes e) k kvs)"
| "spec_step promotes cap (Insert e k v) kvs =
     (Inserted (fst (spec_insert cap k v kvs)), snd (spec_insert cap k v kvs))"
| "spec_step promotes cap (Delete k) kvs = (Done, spec_delete k kvs)"
| "spec_step promotes cap Clear kvs = (Done, [])"
| "spec_step promotes cap Snapshot kvs = (Keys (map fst kvs), kvs)"
| "spec_step promotes cap Size kvs = (Count (length kvs), kvs)"

fun spec_run ::
    "('e \<Rightarrow> bool) \<Rightarrow> nat \<Rightarrow> ('e, 'v) cache_op list \<Rightarrow> 'v contents \<Rightarrow> 'v cache_out list \<times> 'v contents" where
  "spec_run promotes cap [] kvs = ([], kvs)"
| "spec_run promotes cap (c # cs) kvs =
     (let (out, kvs) = spec_step promotes cap c kvs; (outs, kvs) = spec_run promotes cap cs kvs
      in (out # outs, kvs))"

text \<open>A client that looks a key up and inserts it when it is absent.\<close>

definition api_access ::
    "('e, 's, 'v) CacheAPI \<Rightarrow> 'e \<Rightarrow> size_t \<times> 'v \<Rightarrow> 's \<Rightarrow> (bool \<times> 's) result" where
  "api_access A e kv s =
     r_bind (api_find A e s (fst kv)) (\<lambda>(r, s).
     case r of
       Some _ \<Rightarrow> Inr (True, s)
     | None \<Rightarrow> r_bind (api_insert A e s (fst kv) (snd kv)) (\<lambda>(_, s). Inr (False, s)))"

fun api_accesses ::
    "('e, 's, 'v) CacheAPI \<Rightarrow> 'e \<Rightarrow> (size_t \<times> 'v) list \<Rightarrow> 's \<Rightarrow> (bool list \<times> 's) result" where
  "api_accesses A e [] s = Inr ([], s)"
| "api_accesses A e (a # as) s =
     r_bind (api_access A e a s) (\<lambda>(hit, s).
     r_bind (api_accesses A e as s) (\<lambda>(hits, s). Inr (hit # hits, s)))"

section \<open>Caches that implement the ordered specification\<close>

locale list_cache =
  fixes A :: "('e, 's, 'v) CacheAPI"
    and repr :: "'s \<Rightarrow> 'v contents \<Rightarrow> bool"
    and cap :: "'s \<Rightarrow> nat"
    and promotes :: "'e \<Rightarrow> bool"
  assumes find_ref: "repr s kvs \<Longrightarrow> \<exists>s'. api_find A e s k = Inr (spec_lookup k kvs, s') \<and>
      repr s' (spec_find (promotes e) k kvs) \<and> cap s' = cap s"
    and insert_ref: "repr s kvs \<Longrightarrow> \<exists>s'. api_insert A e s k v = Inr (fst (spec_insert (cap s) k v kvs), s') \<and>
      repr s' (snd (spec_insert (cap s) k v kvs)) \<and> cap s' = cap s"
    and delete_ref: "repr s kvs \<Longrightarrow> \<exists>s'. api_delete_key A s k = Inr s' \<and>
      repr s' (spec_delete k kvs) \<and> cap s' = cap s"
    and clear_ref: "repr s kvs \<Longrightarrow> \<exists>s'. api_clear A s = Some (Inr s') \<and> repr s' [] \<and> cap s' = cap s"
    and snapshot_ref: "repr s kvs \<Longrightarrow> api_snapshotKeys A s ks = Some (Inr (ks @ map fst kvs))"
    and size_ref: "repr s kvs \<Longrightarrow> unat (api_size A s) = length kvs"
    and ok_ref: "repr s kvs \<Longrightarrow> spec_ok (cap s) kvs \<and> 0 < cap s"
begin

lemma step_ref:
  assumes "repr s kvs"
  shows "\<exists>s'. api_step A c s = Some (Inr (fst (spec_step promotes (cap s) c kvs), s')) \<and>
    repr s' (snd (spec_step promotes (cap s) c kvs)) \<and> cap s' = cap s"
proof (cases c)
  case (Find e k)
  then show ?thesis using find_ref [OF assms, of e k] by auto
next
  case (Insert e k v)
  then show ?thesis using insert_ref [OF assms, of e k v] by auto
next
  case (Delete k)
  then show ?thesis using delete_ref [OF assms, of k] by auto
next
  case Clear
  then show ?thesis using clear_ref [OF assms] by auto
next
  case Snapshot
  then show ?thesis using snapshot_ref [OF assms, of "[]"] assms by auto
next
  case Size
  then show ?thesis using size_ref [OF assms] assms by auto
qed

text \<open>Every sequence of calls returns, without an error, what the specification returns.\<close>

lemma run_ref:
  assumes "repr s kvs"
  shows "\<exists>s'. api_run A cs s = Some (Inr (fst (spec_run promotes (cap s) cs kvs), s')) \<and>
    repr s' (snd (spec_run promotes (cap s) cs kvs)) \<and> cap s' = cap s"
  using assms
proof (induction cs arbitrary: s kvs)
  case (Cons c cs)
  obtain s1 where s1: "api_step A c s = Some (Inr (fst (spec_step promotes (cap s) c kvs), s1))"
    "repr s1 (snd (spec_step promotes (cap s) c kvs))" "cap s1 = cap s"
    using step_ref [OF Cons.prems] by blast
  from Cons.IH [OF s1(2)] s1 show ?case by (auto simp: case_prod_beta Let_def)
qed simp

lemma access_ref:
  assumes r: "repr s kvs" and p: "promotes e"
  shows "\<exists>s'. api_access A e kv s = Inr (fst (spec_access (cap s) kv kvs), s') \<and>
    repr s' (snd (spec_access (cap s) kv kvs)) \<and> cap s' = cap s"
proof -
  obtain s1 where s1: "api_find A e s (fst kv) = Inr (spec_lookup (fst kv) kvs, s1)"
    "repr s1 (spec_find True (fst kv) kvs)" "cap s1 = cap s"
    using find_ref [OF r, of e "fst kv"] p by auto
  show ?thesis
  proof (cases "map_of kvs (fst kv)")
    case None
    then have "spec_find True (fst kv) kvs = kvs" by (simp add: spec_find_def)
    with insert_ref [of s1 kvs e "fst kv" "snd kv"] s1 None show ?thesis
      by (auto simp: api_access_def spec_access_def spec_lookup_def)
  next
    case (Some v)
    with s1 show ?thesis by (auto simp: api_access_def spec_access_def spec_lookup_def)
  qed
qed

lemma accesses_ref:
  assumes r: "repr s kvs" and p: "promotes e"
  shows "\<exists>s'. api_accesses A e as s = Inr (fst (spec_accesses (cap s) as kvs), s') \<and>
    repr s' (snd (spec_accesses (cap s) as kvs)) \<and> cap s' = cap s"
  using r
proof (induction as arbitrary: s kvs)
  case (Cons a as)
  obtain s1 where s1: "api_access A e a s = Inr (fst (spec_access (cap s) a kvs), s1)"
    "repr s1 (snd (spec_access (cap s) a kvs))" "cap s1 = cap s"
    using access_ref [OF Cons.prems p] by blast
  from Cons.IH [OF s1(2)] s1 show ?case by (auto simp: case_prod_beta Let_def)
qed simp

text \<open>
  A demand-filled cache that promotes on every hit: the \<open>i\<close>th access hits exactly when its key is
  among the \<open>cap\<close> most recently used distinct keys.
\<close>

lemma accesses_recent:
  assumes r: "repr s []" and p: "promotes e"
  shows "\<exists>hits s'. api_accesses A e as s = Inr (hits, s') \<and> length hits = length as \<and>
    (\<forall>i < length as. hits ! i = (fst (as ! i) \<in> set (take (cap s) (recent (map fst (take i as)))))) \<and>
    (\<exists>kvs. repr s' kvs \<and> map fst kvs = take (cap s) (recent (map fst as)))"
proof -
  have c: "0 < cap s" using ok_ref [OF r] by simp
  have "map fst [] = take (cap s) (recent [])" by (simp add: recent_def)
  note k = spec_accesses_keys [OF c this, of as, simplified]
  have l: "length (fst (spec_accesses n as kvs)) = length as" for n kvs
    by (induction as arbitrary: kvs) (auto simp: case_prod_beta Let_def)
  from accesses_ref [OF r p, of as] k l show ?thesis by (metis (no_types, lifting))
qed

end

section \<open>What a client relies on without knowing the order\<close>

text \<open>
  \<open>holds s m\<close>: the cache holds exactly the pairs of the map \<open>m\<close>. An insertion may drop pairs but
  never invents or changes one.
\<close>

text \<open>
  What the calls made so far put into a cache that forgets nothing: \<open>latest\<close> follows the answers.
  An answer is in order when it shows only the value stored last, refuses an insertion only for a
  key that was stored, and never reports more than the capacity.
\<close>

fun latest :: "('e, 'v) cache_op \<Rightarrow> 'v cache_out \<Rightarrow> (size_t \<rightharpoonup> 'v) \<Rightarrow> (size_t \<rightharpoonup> 'v)" where
  "latest (Insert e k v) (Inserted b) M = (if b then M(k \<mapsto> v) else M)"
| "latest (Delete k) out M = M(k := None)"
| "latest c out M = M"

fun answer_ok :: "nat \<Rightarrow> (size_t \<rightharpoonup> 'v) \<Rightarrow> ('e, 'v) cache_op \<Rightarrow> 'v cache_out \<Rightarrow> bool" where
  "answer_ok n M (Find e k) (Found r) \<longleftrightarrow> r = None \<or> r = M k"
| "answer_ok n M (Insert e k v) (Inserted b) \<longleftrightarrow> b \<or> M k \<noteq> None"
| "answer_ok n M (Delete k) Done \<longleftrightarrow> True"
| "answer_ok n M Clear Done \<longleftrightarrow> True"
| "answer_ok n M Snapshot (Keys ks) \<longleftrightarrow> distinct ks \<and> set ks \<subseteq> dom M"
| "answer_ok n M Size (Count i) \<longleftrightarrow> i \<le> n"
| "answer_ok n M c out \<longleftrightarrow> False"

fun coherent :: "nat \<Rightarrow> (size_t \<rightharpoonup> 'v) \<Rightarrow> ('e, 'v) cache_op list \<Rightarrow> 'v cache_out list \<Rightarrow> bool" where
  "coherent n M [] [] \<longleftrightarrow> True"
| "coherent n M (c # cs) (out # outs) \<longleftrightarrow> answer_ok n M c out \<and> coherent n (latest c out M) cs outs"
| "coherent n M _ _ \<longleftrightarrow> False"

locale map_cache =
  fixes A :: "('e, 's, 'v) CacheAPI"
    and holds :: "'s \<Rightarrow> (size_t \<rightharpoonup> 'v) \<Rightarrow> bool"
    and cap :: "'s \<Rightarrow> nat"
  assumes find_map: "holds s m \<Longrightarrow> \<exists>s'. api_find A e s k = Inr (m k, s') \<and> holds s' m \<and> cap s' = cap s"
    and insert_present: "holds s m \<Longrightarrow> m k \<noteq> None \<Longrightarrow>
      \<exists>s'. api_insert A e s k v = Inr (False, s') \<and> holds s' m \<and> cap s' = cap s"
    and insert_absent: "holds s m \<Longrightarrow> m k = None \<Longrightarrow>
      \<exists>s' m'. api_insert A e s k v = Inr (True, s') \<and> holds s' m' \<and> m' \<subseteq>\<^sub>m m(k \<mapsto> v) \<and> cap s' = cap s"
    and size_map: "holds s m \<Longrightarrow> finite (dom m) \<and> unat (api_size A s) = card (dom m) \<and> card (dom m) \<le> cap s"
begin

lemma insert_map:
  assumes "holds s m"
  shows "\<exists>s' m'. api_insert A e s k v = Inr (m k = None, s') \<and> holds s' m' \<and> cap s' = cap s \<and>
    m' \<subseteq>\<^sub>m (if m k = None then m(k \<mapsto> v) else m)"
proof (cases "m k = None")
  case True
  then show ?thesis using insert_absent [OF assms True, of e v] by auto
next
  case False
  obtain s' where "api_insert A e s k v = Inr (False, s')" "holds s' m" "cap s' = cap s"
    using insert_present [OF assms False, of e v] by blast
  with False show ?thesis by (intro exI [of _ s'] exI [of _ m]) auto
qed

end

locale deletable_cache = map_cache A holds cap
  for A :: "('e, 's, 'v) CacheAPI" and holds :: "'s \<Rightarrow> (size_t \<rightharpoonup> 'v) \<Rightarrow> bool" and cap :: "'s \<Rightarrow> nat" +
  assumes delete_map: "holds s m \<Longrightarrow> \<exists>s'. api_delete_key A s k = Inr s' \<and> holds s' (m(k := None)) \<and> cap s' = cap s"
    and snapshot_map: "holds s m \<Longrightarrow> \<exists>ks'. api_snapshotKeys A s ks = Some (Inr (ks @ ks')) \<and>
      distinct ks' \<and> set ks' = dom m"
    and clear_le: "holds s m \<Longrightarrow>
      \<exists>s' m'. api_clear A s = Some (Inr s') \<and> holds s' m' \<and> m' \<subseteq>\<^sub>m m \<and> cap s' = cap s"
begin

lemma step_coherent:
  assumes h: "holds s m" and M: "m \<subseteq>\<^sub>m M"
  shows "\<exists>out s' m'. api_step A c s = Some (Inr (out, s')) \<and> answer_ok (cap s) M c out \<and>
    holds s' m' \<and> m' \<subseteq>\<^sub>m latest c out M \<and> cap s' = cap s"
proof -
  have le: "m k = None \<or> M k = m k" for k using M by (auto simp: map_le_def dom_def)
  show ?thesis
  proof (cases c)
    case (Find e k)
    then show ?thesis using find_map [OF h, of e k] M le [of k] by auto
  next
    case (Insert e k v)
    obtain s' m' where s': "api_insert A e s k v = Inr (m k = None, s')" "holds s' m'" "cap s' = cap s"
      "m' \<subseteq>\<^sub>m (if m k = None then m(k \<mapsto> v) else m)" using insert_map [OF h, of e k v] by blast
    have "m(k \<mapsto> v) \<subseteq>\<^sub>m M(k \<mapsto> v)" using M by (auto simp: map_le_def)
    with s'(4) M Insert have "m' \<subseteq>\<^sub>m latest c (Inserted (m k = None)) M" by (auto split: if_splits intro: map_le_trans)
    with s' Insert le [of k] show ?thesis by (cases "m k") auto
  next
    case (Delete k)
    have "m(k := None) \<subseteq>\<^sub>m M(k := None)" using M by (auto simp: map_le_def)
    with Delete delete_map [OF h, of k] show ?thesis by auto
  next
    case Clear
    then show ?thesis using clear_le [OF h] M by (auto, meson map_le_trans)
  next
    case Snapshot
    then show ?thesis using snapshot_map [OF h, of "[]"] h M map_le_implies_dom_le [OF M] by auto
  next
    case Size
    then show ?thesis using size_map [OF h] h M by auto
  qed
qed

text \<open>Every sequence of calls returns without an error and is answered coherently.\<close>

lemma run_coherent:
  assumes "holds s m" "m \<subseteq>\<^sub>m M"
  shows "\<exists>outs s' m'. api_run A cs s = Some (Inr (outs, s')) \<and> coherent (cap s) M cs outs \<and> holds s' m' \<and> cap s' = cap s"
  using assms
proof (induction cs arbitrary: s m M)
  case (Cons c cs)
  obtain out s1 m1 where s1: "api_step A c s = Some (Inr (out, s1))" "answer_ok (cap s) M c out"
    "holds s1 m1" "m1 \<subseteq>\<^sub>m latest c out M" "cap s1 = cap s" using step_coherent [OF Cons.prems, of c] by blast
  from Cons.IH [OF s1(3,4)] s1 show ?case by auto
qed auto

end

locale deleting_cache = deletable_cache A holds cap
  for A :: "('e, 's, 'v) CacheAPI" and holds :: "'s \<Rightarrow> (size_t \<rightharpoonup> 'v) \<Rightarrow> bool" and cap :: "'s \<Rightarrow> nat" +
  assumes clear_map: "holds s m \<Longrightarrow> \<exists>s'. api_clear A s = Some (Inr s') \<and> holds s' Map.empty \<and> cap s' = cap s"

text \<open>A cache with an ordered representation is one of these.\<close>

definition as_map :: "('s \<Rightarrow> 'v contents \<Rightarrow> bool) \<Rightarrow> 's \<Rightarrow> (size_t \<rightharpoonup> 'v) \<Rightarrow> bool" where
  "as_map repr s m \<longleftrightarrow> (\<exists>kvs. repr s kvs \<and> m = map_of kvs)"

lemma as_mapI: "repr s kvs \<Longrightarrow> m = map_of kvs \<Longrightarrow> as_map repr s m"
  by (auto simp: as_map_def)

lemma map_of_spec_find [simp]: "map_of (spec_find promote k kvs) = map_of kvs"
  using lookup_find [of _ promote k kvs] by (auto simp: spec_lookup_def)

lemma map_of_spec_delete [simp]: "map_of (spec_delete k kvs) = (map_of kvs)(k := None)"
  by (simp add: spec_delete_def map_of_filter_key)

lemma spec_insert_map_le:
  assumes "k \<notin> fst ` set kvs"
  shows "map_of (snd (spec_insert n k v kvs)) \<subseteq>\<^sub>m (map_of kvs)(k \<mapsto> v)"
proof -
  have "map_of (butlast kvs) \<subseteq>\<^sub>m map_of kvs"
    unfolding map_le_def by (metis domD map_of_butlast)
  then show ?thesis using assms by (auto simp: spec_insert_def map_le_def)
qed

lemma card_map_of: "distinct (map fst kvs) \<Longrightarrow> card (dom (map_of kvs)) = length kvs"
  by (metis dom_map_of_conv_image_fst distinct_card length_map set_map)

context list_cache
begin

lemma as_map_insert:
  assumes r: "repr s kvs"
  shows "\<exists>s' m'. api_insert A e s k v = Inr (map_of kvs k = None, s') \<and> as_map repr s' m' \<and>
    (if map_of kvs k = None then m' \<subseteq>\<^sub>m (map_of kvs)(k \<mapsto> v) else m' = map_of kvs) \<and> cap s' = cap s"
proof -
  obtain s' where s': "api_insert A e s k v = Inr (fst (spec_insert (cap s) k v kvs), s')"
    "repr s' (snd (spec_insert (cap s) k v kvs))" "cap s' = cap s"
    using insert_ref [OF r, of e k v] by blast
  from s'(2) have "as_map repr s' (map_of (snd (spec_insert (cap s) k v kvs)))"
    by (auto intro: as_mapI)
  with s' spec_insert_map_le [of k kvs "cap s" v] show ?thesis
    by (intro exI [of _ s'] exI [of _ "map_of (snd (spec_insert (cap s) k v kvs))"])
      (auto simp: spec_insert_def map_of_eq_None_iff)
qed

lemma as_map_laws: "deleting_cache A (as_map repr) cap"
proof
  fix s m e k v ks
  assume "as_map repr s m"
  then obtain kvs where r: "repr s kvs" and m: "m = map_of kvs" by (auto simp: as_map_def)
  show "\<exists>s'. api_find A e s k = Inr (m k, s') \<and> as_map repr s' m \<and> cap s' = cap s"
    using find_ref [OF r, of e k] m
    by (metis as_mapI map_of_spec_find spec_lookup_def)
  show "finite (dom m) \<and> unat (api_size A s) = card (dom m) \<and> card (dom m) \<le> cap s"
    using ok_ref [OF r] size_ref [OF r] m by (simp add: finite_dom_map_of spec_ok_def card_map_of)
  show "\<exists>s'. api_delete_key A s k = Inr s' \<and> as_map repr s' (m(k := None)) \<and> cap s' = cap s"
    using delete_ref [OF r, of k] m by (metis as_mapI map_of_spec_delete)
  show "\<exists>s' m'. api_clear A s = Some (Inr s') \<and> as_map repr s' m' \<and> m' \<subseteq>\<^sub>m m \<and> cap s' = cap s"
    using clear_ref [OF r] by (fastforce intro!: as_mapI exI [of _ Map.empty])
  show "\<exists>s'. api_clear A s = Some (Inr s') \<and> as_map repr s' Map.empty \<and> cap s' = cap s"
    using clear_ref [OF r] by (auto intro!: as_mapI)
  show "\<exists>ks'. api_snapshotKeys A s ks = Some (Inr (ks @ ks')) \<and> distinct ks' \<and> set ks' = dom m"
    using snapshot_ref [OF r, of ks] ok_ref [OF r] m by (auto simp: spec_ok_def dom_map_of_conv_image_fst)
  show "\<exists>s'. api_insert A e s k v = Inr (False, s') \<and> as_map repr s' m \<and> cap s' = cap s" if "m k \<noteq> None"
    using as_map_insert [OF r, of e k v] that m by auto
  show "\<exists>s' m'. api_insert A e s k v = Inr (True, s') \<and> as_map repr s' m' \<and> m' \<subseteq>\<^sub>m m(k \<mapsto> v) \<and>
      cap s' = cap s" if "m k = None"
    using as_map_insert [OF r, of e k v] that m by auto
qed

end

sublocale list_cache \<subseteq> as_map: deleting_cache A "as_map repr" cap
  by (rule as_map_laws)

end
