(* ===== verification/LRU_Cache.thy ===== *)
theory LRU_Cache
  imports Indexed_List Base_Cache Cache_API
begin

text \<open>
  \<open>Cache::LRUCache\<close> of \<^verbatim>\<open>src/cache/hhvm_lru_cache.h\<close>: a TBB hash map that points into a doubly
  linked list kept in recency order. The state is the record \<open>LRUCache\<close>: the inherited counters,
  the capacity, the element count, the hash map and the store of the nodes. The two things a
  thread does not control are arguments: \<open>locked\<close>, whether \<open>try_lock\<close> got the list mutex, and
  \<open>sample\<close>, what \<open>sample_generator\<close> answered. The operations run one at a time here.
\<close>

record 'm LRUCache = BaseCacheAPI +
  m_maxSize :: size_t
  m_size :: size_t
  m_map :: 'm
  heap :: "unit node_heap"
  next_addr :: nat

type_synonym ('v, 'm) table = "(size_t, 'v HashMapValue, 'm) chm"

text \<open>
  The constructor. The key of a sentinel is never initialised: \<open>junk\<close> is what the memory held.
\<close>

definition LRUCache_new :: "('v, 'm) table \<Rightarrow> size_t \<Rightarrow> size_t \<Rightarrow> 'm LRUCache" where
  "LRUCache_new H junk maxSize = reset_stat \<lparr>
     hit_num = 0, miss_num = 0,
     m_maxSize = maxSize, m_size = 0, m_map = chm_init H,
     heap = [m_head \<mapsto> \<lparr>m_key = junk, m_prev = nullptr, m_next = At m_tail\<rparr>,
             m_tail \<mapsto> \<lparr>m_key = junk, m_prev = At m_head, m_next = nullptr\<rparr>],
     next_addr = 0\<rparr>"

definition LRUCache_size :: "'m LRUCache \<Rightarrow> size_t" where
  "LRUCache_size c = m_size c"

definition LRUCache_evict :: "('v, 'm) table \<Rightarrow> 'm LRUCache \<Rightarrow> 'm LRUCache result" where
  "LRUCache_evict H c =
     r_bind (deref (heap c) (At m_tail)) (\<lambda>t. let moribund = m_prev t in
     if moribund = At m_head then Inr c
     else
       r_bind (delink (heap c) moribund) (\<lambda>h.
       r_bind (deref h moribund) (\<lambda>n.
       case chm_find H (m_map c) (m_key n) of
         None \<Rightarrow> Inr (c\<lparr>heap := h\<rparr>)
       | Some _ \<Rightarrow>
           let m = snd (chm_erase H (m_map c) (m_key n)) in
           r_bind (free_node h moribund) (\<lambda>h. Inr (c\<lparr>heap := h, m_map := m\<rparr>)))))"

definition LRUCache_find ::
    "('v, 'm) table \<Rightarrow> bool \<Rightarrow> bool \<Rightarrow> 'm LRUCache \<Rightarrow> size_t \<Rightarrow> ('v option \<times> 'm LRUCache) result" where
  "LRUCache_find H locked sample c key =
     (case chm_find H (m_map c) key of
        None \<Rightarrow> Inr (None, count_miss sample c)
      | Some hv \<Rightarrow>
          let ac = m_value hv in
          r_bind
            (if locked then
               let node = m_listNode hv in
               r_bind (deref (heap c) node) (\<lambda>n.
               if isInList n
               then r_bind (delink (heap c) node) (\<lambda>h.
                    r_bind (pushFront h node) (\<lambda>h. Inr (c\<lparr>heap := h\<rparr>)))
               else Inr c)
             else Inr c)
            (\<lambda>c. Inr (Some ac, count_hit sample c)))"

definition LRUCache_insert ::
    "('v, 'm) table \<Rightarrow> 'm LRUCache \<Rightarrow> size_t \<Rightarrow> 'v \<Rightarrow> (bool \<times> 'm LRUCache) result" where
  "LRUCache_insert H c key value =
     (let node = heap_node (next_addr c);
          c = c\<lparr>heap := (heap c)(node \<mapsto> \<lparr>m_key = key, m_prev = OutOfListMarker, m_next = nullptr\<rparr>),
                next_addr := next_addr c + 1\<rparr>;
          (inserted, m) = chm_insert H (m_map c) key \<lparr>m_value = value, m_listNode = At node\<rparr>;
          c = c\<lparr>m_map := m\<rparr>
      in if \<not> inserted
         then r_bind (free_node (heap c) (At node)) (\<lambda>h. Inr (False, c\<lparr>heap := h\<rparr>))
         else
           let s = m_size c; evictionDone = (s \<ge> m_maxSize c) in
           r_bind (if evictionDone then LRUCache_evict H c else Inr c) (\<lambda>c.
           r_bind (pushFront (heap c) (At node)) (\<lambda>h.
           let c = c\<lparr>heap := h\<rparr>;
               s = (if evictionDone then s else m_size c);
               c = (if evictionDone then c else c\<lparr>m_size := m_size c + 1\<rparr>)
           in if s > m_maxSize c \<and> m_size c = s
              then r_bind (LRUCache_evict H (c\<lparr>m_size := s - 1\<rparr>)) (\<lambda>c. Inr (True, c))
              else Inr (True, c))))"

definition LRUCache_delete_key ::
    "('v, 'm) table \<Rightarrow> 'm LRUCache \<Rightarrow> size_t \<Rightarrow> 'm LRUCache result" where
  "LRUCache_delete_key H c key =
     (case chm_find H (m_map c) key of
        None \<Rightarrow> Inr c
      | Some hv \<Rightarrow>
          let node = m_listNode hv in
          r_bind (deref (heap c) node) (\<lambda>n.
          if \<not> isInList n then Inr c
          else
            r_bind (delink (heap c) node) (\<lambda>h.
            let m = snd (chm_erase H (m_map c) key) in
            r_bind (free_node h node) (\<lambda>h.
            Inr (c\<lparr>heap := h, m_map := m, m_size := m_size c - 1\<rparr>)))))"

definition LRUCache_clear :: "('v, 'm) table \<Rightarrow> 'm LRUCache \<Rightarrow> 'm LRUCache result option" where
  "LRUCache_clear H c =
     (let c = c\<lparr>m_map := chm_clear H (m_map c)\<rparr> in
      case deref (heap c) (At m_head) of
        Inl e \<Rightarrow> Some (Inl e)
      | Inr first \<Rightarrow>
          map_option (\<lambda>r.
            r_bind r (\<lambda>h.
            r_bind (set_next h (At m_head) (At m_tail)) (\<lambda>h.
            r_bind (set_prev h (At m_tail) (At m_head)) (\<lambda>h.
            Inr (c\<lparr>heap := h, m_size := 0\<rparr>)))))
          (free_list (heap c) (At m_tail) (m_next first)))"

definition LRUCache_snapshotKeys :: "'m LRUCache \<Rightarrow> size_t list \<Rightarrow> size_t list result option" where
  "LRUCache_snapshotKeys c keys =
     (case deref (heap c) (At m_head) of
        Inl e \<Rightarrow> Some (Inl e)
      | Inr first \<Rightarrow> collect_keys (heap c) (At m_tail) (m_next first) keys)"

section \<open>The representation of the contents\<close>

text \<open>
  \<open>LRU_repr H c kvs\<close>: the nodes in the list, the hash map and the store agree, every allocated
  node is in the list, the element count is the length of the list and within the capacity, and
  \<open>kvs\<close> are the pairs in list order.
\<close>

definition LRU_inv :: "('v, 'm) table \<Rightarrow> 'm LRUCache \<Rightarrow> loc list \<Rightarrow> bool" where
  "LRU_inv H c xs \<longleftrightarrow>
     indexed (heap c) (chm_find H (m_map c)) [] xs \<and>
     set xs \<subseteq> heap_node ` {..<next_addr c} \<and>
     unat (m_size c) = length xs \<and> length xs \<le> unat (m_maxSize c) \<and> 0 < unat (m_maxSize c)"

definition LRU_kvs :: "('v, 'm) table \<Rightarrow> 'm LRUCache \<Rightarrow> loc list \<Rightarrow> 'v contents" where
  "LRU_kvs H c xs = map (kv_at (heap c) (chm_find H (m_map c))) xs"

definition LRU_repr :: "('v, 'm) table \<Rightarrow> 'm LRUCache \<Rightarrow> 'v contents \<Rightarrow> bool" where
  "LRU_repr H c kvs \<longleftrightarrow> (\<exists>xs. LRU_inv H c xs \<and> kvs = LRU_kvs H c xs)"

text \<open>The state between the insertion into the map and the push to the front.\<close>

definition pending :: "('v, 'm) table \<Rightarrow> 'm LRUCache \<Rightarrow> size_t \<Rightarrow> 'v \<Rightarrow> 'm LRUCache" where
  "pending H c k v = c\<lparr>
     heap := (heap c)(heap_node (next_addr c) \<mapsto>
       \<lparr>m_key = k, m_prev = OutOfListMarker, m_next = nullptr\<rparr>),
     next_addr := next_addr c + 1,
     m_map := snd (chm_insert H (m_map c) k
       \<lparr>m_value = v, m_listNode = At (heap_node (next_addr c))\<rparr>)\<rparr>"

locale cache_table = concurrent_hash_map H for H :: "('v, 'm) table"
begin

lemma LRU_repr_new:
  assumes "0 < unat maxSize"
  shows "LRU_repr H (LRUCache_new H junk maxSize) []"
proof -
  have "LRU_inv H (LRUCache_new H junk maxSize) []"
    using assms
    by (auto simp: LRU_inv_def LRUCache_new_def reset_stat_def indexed_def find_init nxt_def prv_def)
  then show ?thesis by (auto simp: LRU_repr_def LRU_kvs_def)
qed

text \<open>
  \<open>evict\<close> takes the last node out of list, hash map and store. It runs while the node of an
  insertion is pending.
\<close>

lemma evict_last:
  assumes i: "indexed (heap c) (chm_find H (m_map c)) pend (ys @ [x])"
  obtains h m where "LRUCache_evict H c = Inr (c\<lparr>heap := h, m_map := m\<rparr>)"
    "indexed h (chm_find H m) pend ys"
    "\<And>y. y \<in> set (pend @ ys) \<Longrightarrow> kv_at h (chm_find H m) y = kv_at (heap c) (chm_find H (m_map c)) y"
    "chm_find H m = (chm_find H (m_map c))(key_at (heap c) x := None)"
proof -
  let ?F = "chm_find H (m_map c)" and ?k = "key_at (heap c) x"
  from i have "chain (heap c) m_head (ys @ [x]) m_tail" by (simp add: indexed_def)
  from chain_last [OF this] obtain t where t: "heap c m_tail = Some t" "m_prev t = At x"
    by (auto simp: prv_eq_Some)
  obtain h1 n where h1: "delink (heap c) (At x) = Inr h1" "h1 x = Some n" "m_key n = ?k"
    and i': "indexed (h1(x := None)) (?F(?k := None)) pend (ys @ [])"
    and kv: "\<And>y. y \<in> set (pend @ ys @ []) \<Longrightarrow>
      kv_at (h1(x := None)) (?F(?k := None)) y = kv_at (heap c) ?F y"
    by (rule indexed_remove [OF i]) blast
  let ?m = "snd (chm_erase H (m_map c) ?k)"
  have m: "chm_find H ?m = ?F(?k := None)" by (rule find_erase)
  have "x \<noteq> m_head" using i by (auto simp: indexed_def)
  moreover obtain hv where "?F ?k = Some hv" using indexed_present [OF i, of x] by auto
  ultimately have "LRUCache_evict H c = Inr (c\<lparr>heap := h1(x := None), m_map := ?m\<rparr>)"
    using t h1 by (simp add: LRUCache_evict_def Let_def)
  then show ?thesis using i' kv m by (intro that [of ?m "h1(x := None)"]) simp_all
qed

text \<open>Looking a key up in the map is looking it up in the represented contents.\<close>

lemma repr_lookup:
  "LRU_repr H c kvs \<Longrightarrow> map_of kvs k = map_option m_value (chm_find H (m_map c) k)"
  by (auto simp: LRU_repr_def LRU_inv_def LRU_kvs_def indexed_map_of)

lemma repr_ok: "LRU_repr H c kvs \<Longrightarrow> spec_ok (unat (m_maxSize c)) kvs \<and> length kvs = unat (m_size c)"
  by (auto simp: LRU_repr_def LRU_inv_def LRU_kvs_def spec_ok_def kv_at_def comp_def
      dest: indexed_keys_distinct)

lemma repr_sizes:
  assumes "LRU_repr H c kvs"
  shows "unat (m_size c) \<le> unat (m_maxSize c) \<and> card (dom (chm_find H (m_map c))) = unat (m_size c) \<and>
    card (dom (heap c)) = unat (m_size c) + 2"
proof -
  from assms obtain xs where inv: "LRU_inv H c xs" by (auto simp: LRU_repr_def)
  then have i: "indexed (heap c) (chm_find H (m_map c)) [] xs" by (simp add: LRU_inv_def)
  have "card (key_at (heap c) ` set xs) = length xs"
    using indexed_keys_distinct [OF i] by (metis distinct_card length_map set_map)
  moreover have "card (set (m_head # m_tail # xs)) = length xs + 2"
    using i by (simp add: indexed_def distinct_card)
  ultimately show ?thesis using inv i by (simp add: LRU_inv_def indexed_def)
qed

lemma kvs_split:
  assumes i: "indexed h F [] (ys @ x # zs)"
  shows "filter (\<lambda>p. fst p \<noteq> key_at h x) (map (kv_at h F) (ys @ x # zs)) = map (kv_at h F) (ys @ zs)"
  using filter_split [of "map (kv_at h F) ys" "key_at h x" "snd (kv_at h F x)" "map (kv_at h F) zs"]
    indexed_keys_distinct [OF i] by (simp add: kv_at_def comp_def)

theorem find_refines:
  assumes r: "LRU_repr H c kvs"
  shows "\<exists>c'. LRUCache_find H locked sample c k = Inr (map_of kvs k, c') \<and>
    LRU_repr H c' (spec_find locked k kvs) \<and> m_maxSize c' = m_maxSize c"
proof (cases "chm_find H (m_map c) k")
  case None
  with r repr_lookup [OF r, of k] show ?thesis
    by (auto simp: LRUCache_find_def spec_find_def count_miss_def LRU_repr_def LRU_inv_def LRU_kvs_def)
next
  case (Some hv)
  let ?F = "chm_find H (m_map c)"
  from r obtain xs where inv: "LRU_inv H c xs" and kvs: "kvs = LRU_kvs H c xs"
    by (auto simp: LRU_repr_def)
  from inv have i: "indexed (heap c) ?F [] xs" by (simp add: LRU_inv_def)
  obtain x where x: "x \<in> set xs" "key_at (heap c) x = k" "m_listNode hv = At x"
    "kv_at (heap c) ?F x = (k, m_value hv)"
    by (rule indexed_find [OF i Some]) auto
  then obtain ys zs where xs: "xs = ys @ x # zs" using split_list by metis
  show ?thesis
  proof (cases locked)
    case False
    with Some r repr_lookup [OF r, of k] show ?thesis
      by (auto simp: LRUCache_find_def spec_find_def count_hit_def LRU_repr_def LRU_inv_def LRU_kvs_def)
  next
    case True
    obtain h1 h2 where h: "delink (heap c) (At x) = Inr h1" "pushFront h1 (At x) = Inr h2"
      "indexed h2 ?F [] (x # ys @ zs)" "same_payload (heap c) h2"
      by (rule indexed_promote [OF i [unfolded xs]])
    let ?c = "count_hit sample (c\<lparr>heap := h2\<rparr>)"
    have "chain (heap c) m_head xs m_tail" using i by (simp add: indexed_def)
    then obtain n where "heap c x = Some n" "isInList n"
      using chain_member_prv [of "heap c" m_head xs m_tail x] x(1)
      by (auto simp: prv_eq_Some isInList_def)
    then have "LRUCache_find H locked sample c k = Inr (Some (m_value hv), ?c)"
      using Some x True h by (simp add: LRUCache_find_def Let_def)
    moreover have "LRU_inv H ?c (x # ys @ zs)"
      using inv h(3) xs by (auto simp: LRU_inv_def count_hit_def)
    moreover have "spec_find locked k kvs = LRU_kvs H ?c (x # ys @ zs)"
    proof -
      have "map (kv_at h2 ?F) (x # ys @ zs) = map (kv_at (heap c) ?F) (x # ys @ zs)"
        using xs by (intro map_cong refl indexed_same_kv [OF i h(4)]) auto
      with kvs_split [OF i [unfolded xs]] x(2,4) True Some repr_lookup [OF r, of k] show ?thesis
        by (simp add: spec_find_def kvs LRU_kvs_def count_hit_def xs)
    qed
    moreover have "m_maxSize ?c = m_maxSize c" by (simp add: count_hit_def)
    ultimately show ?thesis using Some repr_lookup [OF r, of k] by (auto simp: LRU_repr_def)
  qed
qed

text \<open>The sampled counters: a found key counts as a hit, a missing one as a miss.\<close>

lemma find_counts:
  assumes "LRUCache_find H locked sample c k = Inr (r, c')"
  shows "hit_num c' = hit_num c + (if sample \<and> r \<noteq> None then 1 else 0) \<and>
    miss_num c' = miss_num c + (if sample \<and> r = None then 1 else 0)"
  using assms
  by (auto simp: LRUCache_find_def Let_def r_bind_eq_Inr split: option.splits if_splits)

text \<open>
  \<open>insert\<close> of a key that is absent: the new node enters the store and the map (\<open>indexed_new\<close>), a
  full list loses its last node (\<open>evict_last\<close>), and the new node is pushed to the front.
\<close>

lemma insert_pushes:
  assumes i: "indexed (heap c) (chm_find H (m_map c)) [x] xs"
    and sz: "unat (m_size c) = length xs" "length xs \<le> unat (m_maxSize c)" "0 < unat (m_maxSize c)"
  obtains h m where
    "r_bind (if m_size c \<ge> m_maxSize c then LRUCache_evict H c else Inr c) (\<lambda>c.
       r_bind (pushFront (heap c) (At x)) (\<lambda>h. Inr (c\<lparr>heap := h\<rparr>))) = Inr (c\<lparr>heap := h, m_map := m\<rparr>)"
    "indexed h (chm_find H m) [] (x # (if length xs \<ge> unat (m_maxSize c) then butlast xs else xs))"
    "\<And>y. y \<in> set (x # (if length xs \<ge> unat (m_maxSize c) then butlast xs else xs)) \<Longrightarrow>
       kv_at h (chm_find H m) y = kv_at (heap c) (chm_find H (m_map c)) y"
proof (cases "length xs \<ge> unat (m_maxSize c)")
  case True
  then obtain ys e where xs: "xs = ys @ [e]" using sz(3) by (cases xs rule: rev_cases) auto
  obtain h m where ev: "LRUCache_evict H c = Inr (c\<lparr>heap := h, m_map := m\<rparr>)"
    "indexed h (chm_find H m) [x] ys"
    "\<And>y. y \<in> set ([x] @ ys) \<Longrightarrow> kv_at h (chm_find H m) y = kv_at (heap c) (chm_find H (m_map c)) y"
    by (rule evict_last [OF i [unfolded xs]]) blast
  obtain h' where h': "pushFront h (At x) = Inr h'" "indexed h' (chm_find H m) [] (x # ys)"
    "same_payload h h'"
    by (rule indexed_push [OF ev(2)])
  have "kv_at h' (chm_find H m) y = kv_at (heap c) (chm_find H (m_map c)) y" if "y \<in> set (x # ys)" for y
    using that ev(3) [of y] indexed_same_kv [OF ev(2) h'(3), of y] by simp
  with True xs ev h' sz show ?thesis
    by (intro that [of m h']) (simp_all add: size_simps)
next
  case False
  obtain h' where h': "pushFront (heap c) (At x) = Inr h'"
    "indexed h' (chm_find H (m_map c)) [] (x # xs)" "same_payload (heap c) h'"
    by (rule indexed_push [OF i])
  have "kv_at h' (chm_find H (m_map c)) y = kv_at (heap c) (chm_find H (m_map c)) y"
    if "y \<in> set (x # xs)" for y
    using that indexed_same_kv [OF i h'(3), of y] by simp
  with False h' sz show ?thesis
    by (intro that [of "m_map c" h']) (simp_all add: size_simps)
qed

lemma inv_fresh: "LRU_inv H c xs \<Longrightarrow> heap_node (next_addr c) \<notin> dom (heap c)"
  by (auto simp: LRU_inv_def indexed_def)

lemma insert_present:
  assumes inv: "LRU_inv H c xs" and k: "chm_find H (m_map c) k \<noteq> None"
  shows "\<exists>c'. LRUCache_insert H c k v = Inr (False, c') \<and> LRU_inv H c' xs \<and>
    LRU_kvs H c' xs = LRU_kvs H c xs \<and> m_maxSize c' = m_maxSize c"
proof -
  let ?a = "heap_node (next_addr c)"
  let ?hv = "\<lparr>m_value = v, m_listNode = At ?a\<rparr>"
  let ?c = "c\<lparr>next_addr := next_addr c + 1, m_map := snd (chm_insert H (m_map c) k ?hv)\<rparr>"
  have "(heap c)(?a := None) = heap c" using inv_fresh [OF inv] by (auto simp: domIff)
  then have "LRUCache_insert H c k v = Inr (False, ?c)"
    using k insert_fst [of "m_map c" k ?hv] by (simp add: LRUCache_insert_def Let_def case_prod_beta)
  moreover have "LRU_inv H ?c xs"
    using inv k by (auto simp: LRU_inv_def find_insert less_Suc_eq)
  ultimately show ?thesis using k by (auto simp: LRU_kvs_def find_insert)
qed

lemma pending_fields [simp]:
  "m_size (pending H c k v) = m_size c" "m_maxSize (pending H c k v) = m_maxSize c"
  "next_addr (pending H c k v) = Suc (next_addr c)"
  by (simp_all add: pending_def)

lemma insert_new_key:
  assumes "chm_find H (m_map c) k = None"
  shows "LRUCache_insert H c k v =
    r_bind (if m_size c \<ge> m_maxSize c then LRUCache_evict H (pending H c k v) else Inr (pending H c k v)) (\<lambda>c1.
    r_bind (pushFront (heap c1) (At (heap_node (next_addr c)))) (\<lambda>h.
    let c2 = c1\<lparr>heap := h\<rparr>;
        s = (if m_size c \<ge> m_maxSize c then m_size c else m_size c2);
        c2 = (if m_size c \<ge> m_maxSize c then c2 else c2\<lparr>m_size := m_size c2 + 1\<rparr>)
    in if s > m_maxSize c2 \<and> m_size c2 = s
       then r_bind (LRUCache_evict H (c2\<lparr>m_size := s - 1\<rparr>)) (\<lambda>c. Inr (True, c))
       else Inr (True, c2)))"
  using assms by (simp add: LRUCache_insert_def Let_def case_prod_beta insert_fst pending_def)

lemma insert_eval:
  assumes k: "chm_find H (m_map c) k = None" and le: "\<not> m_size c > m_maxSize c"
    and p: "r_bind (if m_size c \<ge> m_maxSize c then LRUCache_evict H (pending H c k v) else Inr (pending H c k v)) (\<lambda>c1.
       r_bind (pushFront (heap c1) (At (heap_node (next_addr c)))) (\<lambda>h. Inr (c1\<lparr>heap := h\<rparr>))) =
       Inr ((pending H c k v)\<lparr>heap := h, m_map := m\<rparr>)"
  shows "LRUCache_insert H c k v = Inr (True, (pending H c k v)\<lparr>heap := h, m_map := m,
     m_size := (if m_maxSize c \<le> m_size c then m_size c else m_size c + 1)\<rparr>)"
proof -
  from p obtain c1 h1 where
    c1: "(if m_size c \<ge> m_maxSize c then LRUCache_evict H (pending H c k v) else Inr (pending H c k v)) = Inr c1"
      "pushFront (heap c1) (At (heap_node (next_addr c))) = Inr h1"
      "c1\<lparr>heap := h1\<rparr> = (pending H c k v)\<lparr>heap := h, m_map := m\<rparr>"
    by (auto simp: r_bind_eq_Inr)
  have f: "m_size c1 = m_size c" "m_maxSize c1 = m_maxSize c"
    using arg_cong [OF c1(3), of m_size] arg_cong [OF c1(3), of m_maxSize] by simp_all
  have u: "c1\<lparr>heap := h1, m_size := z\<rparr> = (pending H c k v)\<lparr>heap := h, m_map := m, m_size := z\<rparr>" for z
    using arg_cong [OF c1(3), of "m_size_update (\<lambda>_. z)"] by simp
  from le have "(m_size c > m_maxSize c) = False" by simp
  with c1 f u show ?thesis
    by (cases "m_maxSize c \<le> m_size c") (simp_all add: insert_new_key [OF k] Let_def)
qed

lemma insert_absent:
  assumes inv: "LRU_inv H c xs" and k: "chm_find H (m_map c) k = None"
  defines "xs' \<equiv> if length xs \<ge> unat (m_maxSize c) then butlast xs else xs"
  shows "\<exists>c'. LRUCache_insert H c k v = Inr (True, c') \<and>
    LRU_inv H c' (heap_node (next_addr c) # xs') \<and>
    LRU_kvs H c' (heap_node (next_addr c) # xs') = (k, v) # LRU_kvs H c xs' \<and>
    m_maxSize c' = m_maxSize c"
proof -
  let ?F = "chm_find H (m_map c)" and ?a = "heap_node (next_addr c)" and ?c = "pending H c k v"
  let ?n = "\<lparr>m_key = k, m_prev = OutOfListMarker, m_next = nullptr\<rparr>"
  from inv have i: "indexed (heap c) ?F [] xs"
    and sz: "unat (m_size c) = length xs" "length xs \<le> unat (m_maxSize c)" "0 < unat (m_maxSize c)"
    and fr: "set xs \<subseteq> heap_node ` {..<next_addr c}"
    by (simp_all add: LRU_inv_def)
  have p: "heap ?c = (heap c)(?a \<mapsto> ?n)"
    "chm_find H (m_map ?c) = ?F(m_key ?n \<mapsto> \<lparr>m_value = v, m_listNode = At ?a\<rparr>)"
    using k by (simp_all add: pending_def find_insert)
  have n: "?F (m_key ?n) = None" using k by simp
  note new = indexed_new [OF i n inv_fresh [OF inv], where v = v, folded p]
  obtain h m where hm:
    "r_bind (if m_size ?c \<ge> m_maxSize ?c then LRUCache_evict H ?c else Inr ?c) (\<lambda>c.
       r_bind (pushFront (heap c) (At ?a)) (\<lambda>h. Inr (c\<lparr>heap := h\<rparr>))) = Inr (?c\<lparr>heap := h, m_map := m\<rparr>)"
    and ix: "indexed h (chm_find H m) [] (?a # xs')"
    and kv: "\<And>y. y \<in> set (?a # xs') \<Longrightarrow>
      kv_at h (chm_find H m) y = kv_at (heap ?c) (chm_find H (m_map ?c)) y"
    using insert_pushes [OF new(1)] sz unfolding xs'_def by simp blast
  let ?c' = "?c\<lparr>heap := h, m_map := m, m_size := (if m_maxSize c \<le> m_size c then m_size c else m_size c + 1)\<rparr>"
  have sub: "set xs' \<subseteq> set xs" by (auto simp: xs'_def dest: in_set_butlastD)
  have fr': "set (?a # xs') \<subseteq> heap_node ` {..<Suc (next_addr c)}"
    using fr sub by (auto simp: lessThan_Suc)
  have "\<not> m_size c > m_maxSize c" using sz by (simp add: size_simps)
  from insert_eval [OF k this] hm have "LRUCache_insert H c k v = Inr (True, ?c')" by simp
  moreover have "LRU_inv H ?c' (?a # xs')"
    using ix sz fr' by (auto simp: LRU_inv_def xs'_def size_simps unat_inc [of _ "m_maxSize c"])
  moreover have "LRU_kvs H ?c' (?a # xs') = (k, v) # LRU_kvs H c xs'"
    using sub kv new(2) by (auto simp: LRU_kvs_def) (auto simp: kv_at_def key_at_def p)
  ultimately show ?thesis by (intro exI [of _ ?c']) simp
qed

theorem insert_refines:
  assumes r: "LRU_repr H c kvs"
  shows "\<exists>c'. LRUCache_insert H c k v = Inr (fst (spec_insert (unat (m_maxSize c)) k v kvs), c') \<and>
    LRU_repr H c' (snd (spec_insert (unat (m_maxSize c)) k v kvs)) \<and> m_maxSize c' = m_maxSize c"
proof -
  from r obtain xs where inv: "LRU_inv H c xs" and kvs: "kvs = LRU_kvs H c xs"
    by (auto simp: LRU_repr_def)
  have k: "k \<in> fst ` set kvs \<longleftrightarrow> chm_find H (m_map c) k \<noteq> None"
    using repr_lookup [OF r, of k] map_of_eq_None_iff [of kvs k] by auto
  show ?thesis
  proof (cases "chm_find H (m_map c) k")
    case None
    let ?xs = "if length xs \<ge> unat (m_maxSize c) then butlast xs else xs"
    obtain c' where c': "LRUCache_insert H c k v = Inr (True, c')"
      "LRU_inv H c' (heap_node (next_addr c) # ?xs)"
      "LRU_kvs H c' (heap_node (next_addr c) # ?xs) = (k, v) # LRU_kvs H c ?xs"
      "m_maxSize c' = m_maxSize c"
      using insert_absent [OF inv None, of v] by blast
    have "spec_insert (unat (m_maxSize c)) k v kvs = (True, (k, v) # LRU_kvs H c ?xs)"
      using None k kvs by (simp add: spec_insert_def LRU_kvs_def map_butlast)
    with c' show ?thesis by (auto simp: LRU_repr_def)
  next
    case (Some hv)
    then obtain c' where "LRUCache_insert H c k v = Inr (False, c')" "LRU_inv H c' xs"
      "LRU_kvs H c' xs = LRU_kvs H c xs" "m_maxSize c' = m_maxSize c"
      using insert_present [OF inv, of k v] by auto
    with k kvs Some show ?thesis by (auto simp: spec_insert_def LRU_repr_def)
  qed
qed

theorem delete_refines:
  assumes r: "LRU_repr H c kvs"
  shows "\<exists>c'. LRUCache_delete_key H c k = Inr c' \<and> LRU_repr H c' (spec_delete k kvs) \<and>
    m_maxSize c' = m_maxSize c"
proof (cases "chm_find H (m_map c) k")
  case None
  with repr_lookup [OF r, of k] have "spec_delete k kvs = kvs"
    by (auto simp: spec_delete_def map_of_eq_None_iff intro!: filter_True)
  with None r show ?thesis by (simp add: LRUCache_delete_key_def)
next
  case (Some hv)
  let ?F = "chm_find H (m_map c)"
  from r obtain xs where inv: "LRU_inv H c xs" and kvs: "kvs = LRU_kvs H c xs"
    by (auto simp: LRU_repr_def)
  from inv have i: "indexed (heap c) ?F [] xs" by (simp add: LRU_inv_def)
  obtain x where x: "x \<in> set xs" "key_at (heap c) x = k" "m_listNode hv = At x"
    by (rule indexed_find [OF i Some]) auto
  then obtain ys zs where xs: "xs = ys @ x # zs" using split_list by metis
  obtain h1 n where h1: "delink (heap c) (At x) = Inr h1" "h1 x = Some n"
    and i': "indexed (h1(x := None)) (?F(k := None)) [] (ys @ zs)"
    and kv: "\<And>y. y \<in> set ([] @ ys @ zs) \<Longrightarrow>
      kv_at (h1(x := None)) (?F(k := None)) y = kv_at (heap c) ?F y"
    by (rule indexed_remove [OF i [unfolded xs], unfolded x(2)]) blast
  have "chain (heap c) m_head xs m_tail" using i by (simp add: indexed_def)
  then obtain n0 where n0: "heap c x = Some n0" "isInList n0"
    using chain_member_prv [of "heap c" m_head xs m_tail x] x(1) by (auto simp: prv_eq_Some isInList_def)
  let ?c = "c\<lparr>heap := h1(x := None), m_map := snd (chm_erase H (m_map c) k), m_size := m_size c - 1\<rparr>"
  have "LRUCache_delete_key H c k = Inr ?c"
    using Some x h1 n0 by (simp add: LRUCache_delete_key_def Let_def)
  moreover have "LRU_inv H ?c (ys @ zs)"
    using inv i' xs by (auto simp: LRU_inv_def find_erase size_simps)
  moreover have "spec_delete k kvs = LRU_kvs H ?c (ys @ zs)"
    using kvs_split [OF i [unfolded xs]] x(2) kv
    by (simp add: kvs spec_delete_def LRU_kvs_def xs find_erase)
  ultimately show ?thesis by (auto simp: LRU_repr_def)
qed

theorem clear_refines:
  assumes r: "LRU_repr H c kvs"
  shows "\<exists>c'. LRUCache_clear H c = Some (Inr c') \<and> LRU_repr H c' [] \<and> m_maxSize c' = m_maxSize c \<and>
    dom (heap c') = {m_head, m_tail}"
proof -
  from r obtain xs where inv: "LRU_inv H c xs" by (auto simp: LRU_repr_def)
  then have ch: "chain (heap c) m_head xs m_tail"
    and d: "distinct (m_head # m_tail # xs)" and dm: "dom (heap c) = set (m_head # m_tail # xs)"
    by (simp_all add: LRU_inv_def indexed_def)
  let ?h = "\<lambda>l. if l \<in> set xs then None else heap c l"
  have f: "free_list (heap c) (At m_tail) (At (hd (xs @ [m_tail]))) = Some (Inr ?h)"
    using free_list_chain [OF ch] d by auto
  obtain nh nt where n: "heap c m_head = Some nh" "heap c m_tail = Some nt"
    "m_next nh = At (hd (xs @ [m_tail]))"
    using chain_first [OF ch] dm by (auto simp: nxt_eq_Some)
  let ?h' = "?h(m_head \<mapsto> nh\<lparr>m_next := At m_tail\<rparr>, m_tail \<mapsto> nt\<lparr>m_prev := At m_head\<rparr>)"
  let ?c = "c\<lparr>m_map := chm_clear H (m_map c), heap := ?h', m_size := 0\<rparr>"
  have "LRUCache_clear H c = Some (Inr ?c)"
    using n d by (simp add: LRUCache_clear_def Let_def f)
  moreover have dm': "dom ?h' = {m_head, m_tail}" using dm d by (auto split: if_splits)
  moreover have "LRU_inv H ?c []"
    using inv dm' by (auto simp: LRU_inv_def indexed_def find_clear)
  ultimately show ?thesis by (auto simp: LRU_repr_def LRU_kvs_def)
qed

theorem snapshot_refines:
  assumes r: "LRU_repr H c kvs"
  shows "LRUCache_snapshotKeys c keys = Some (Inr (keys @ map fst kvs))"
proof -
  from r obtain xs where inv: "LRU_inv H c xs" and kvs: "kvs = LRU_kvs H c xs"
    by (auto simp: LRU_repr_def)
  from inv have ch: "chain (heap c) m_head xs m_tail" and d: "m_tail \<notin> set xs"
    by (simp_all add: LRU_inv_def indexed_def)
  obtain nh where "heap c m_head = Some nh" "m_next nh = At (hd (xs @ [m_tail]))"
    using chain_first [OF ch] by (auto simp: nxt_eq_Some)
  with collect_keys_chain [OF ch d, of keys] kvs show ?thesis
    by (simp add: LRUCache_snapshotKeys_def LRU_kvs_def kv_at_def comp_def)
qed

end

text \<open>The operations behind the interface; the environment is \<open>(locked, sample)\<close>.\<close>

definition LRUCache_ops :: "('v, 'm) table \<Rightarrow> (bool \<times> bool, 'm LRUCache, 'v) CacheAPI" where
  "LRUCache_ops H = \<lparr>
     api_find = (\<lambda>(locked, sample). LRUCache_find H locked sample),
     api_insert = (\<lambda>_. LRUCache_insert H),
     api_delete_key = LRUCache_delete_key H,
     api_clear = LRUCache_clear H,
     api_snapshotKeys = LRUCache_snapshotKeys,
     api_size = LRUCache_size\<rparr>"

context cache_table
begin

lemma LRU_laws: "list_cache (LRUCache_ops H) (LRU_repr H) (\<lambda>c. unat (m_maxSize c)) fst"
proof
  fix c kvs e k v ks
  assume r: "LRU_repr H c kvs"
  show "\<exists>c'. api_find (LRUCache_ops H) e c k = Inr (spec_lookup k kvs, c') \<and>
      LRU_repr H c' (spec_find (fst e) k kvs) \<and> unat (m_maxSize c') = unat (m_maxSize c)"
    using find_refines [OF r, of "fst e" "snd e" k]
    by (auto simp: LRUCache_ops_def spec_lookup_def case_prod_beta)
  show "\<exists>c'. api_insert (LRUCache_ops H) e c k v = Inr (fst (spec_insert (unat (m_maxSize c)) k v kvs), c') \<and>
      LRU_repr H c' (snd (spec_insert (unat (m_maxSize c)) k v kvs)) \<and> unat (m_maxSize c') = unat (m_maxSize c)"
    using insert_refines [OF r, of k v] by (auto simp: LRUCache_ops_def)
  show "\<exists>c'. api_delete_key (LRUCache_ops H) c k = Inr c' \<and> LRU_repr H c' (spec_delete k kvs) \<and>
      unat (m_maxSize c') = unat (m_maxSize c)"
    using delete_refines [OF r, of k] by (auto simp: LRUCache_ops_def)
  show "\<exists>c'. api_clear (LRUCache_ops H) c = Some (Inr c') \<and> LRU_repr H c' [] \<and>
      unat (m_maxSize c') = unat (m_maxSize c)"
    using clear_refines [OF r] by (auto simp: LRUCache_ops_def)
  show "api_snapshotKeys (LRUCache_ops H) c ks = Some (Inr (ks @ map fst kvs))"
    using snapshot_refines [OF r] by (simp add: LRUCache_ops_def)
  show "unat (api_size (LRUCache_ops H) c) = length kvs"
    using repr_ok [OF r] by (simp add: LRUCache_ops_def LRUCache_size_def)
  show "spec_ok (unat (m_maxSize c)) kvs \<and> 0 < unat (m_maxSize c)"
    using r repr_ok [OF r] by (auto simp: LRU_repr_def LRU_inv_def)
qed

end

sublocale cache_table \<subseteq> lru: list_cache "LRUCache_ops H" "LRU_repr H" "\<lambda>c. unat (m_maxSize c)" fst
  by (rule LRU_laws)

interpretation fun_cache: cache_table fun_chm
  by unfold_locales

section \<open>Properties of the LRU cache\<close>

lemma cache_tableI: "concurrent_hash_map H \<Longrightarrow> cache_table H"
  by (rule cache_table.intro)

lemma maxSize_new [simp]: "m_maxSize (LRUCache_new H junk maxSize) = maxSize"
  by (simp add: LRUCache_new_def reset_stat_def)

text \<open>
  C1. A new cache with a positive capacity, over any hash map that behaves as documented: every
  sequence of \<open>find\<close>, \<open>insert\<close>, \<open>delete_key\<close>, \<open>clear\<close>, \<open>snapshotKeys\<close> and \<open>size\<close> calls returns,
  without an invalid memory access, exactly what the recency list of the specification returns, and
  the state it leaves represents that list.
\<close>

theorem LRUCache_run_correct:
  assumes "concurrent_hash_map H" "0 < unat maxSize"
  shows "\<exists>c'. api_run (LRUCache_ops H) cs (LRUCache_new H junk maxSize) =
      Some (Inr (fst (spec_run fst (unat maxSize) cs []), c')) \<and>
    LRU_repr H c' (snd (spec_run fst (unat maxSize) cs []))"
proof -
  note t = cache_tableI [OF assms(1)]
  show ?thesis
    using list_cache.run_ref [OF cache_table.LRU_laws [OF t] cache_table.LRU_repr_new [OF t assms(2)], of cs junk]
    by auto
qed

theorem LRUCache_run_correct_witness:
  "\<exists>c'. api_run (LRUCache_ops fun_chm)
      [Insert (True, False) 1 ''a'', Insert (True, False) 2 ''b'', Find (True, True) 1,
       Insert (True, False) 3 ''c'', Snapshot, Find (True, True) 2, Delete 3, Size]
      (LRUCache_new fun_chm 0 2) =
    Some (Inr ([Inserted True, Inserted True, Found (Some ''a''), Inserted True, Keys [3, 1], Found None,
      Done, Count 1], c'))"
proof -
  let ?cs = "[Insert (True, False) 1 ''a'', Insert (True, False) 2 ''b'', Find (True, True) 1,
       Insert (True, False) 3 ''c'', Snapshot, Find (True, True) 2, Delete 3, Size]"
  have c: "0 < unat (2 :: size_t)" by simp
  have "fst (spec_run fst (unat (2 :: size_t)) ?cs []) = [Inserted True, Inserted True,
      Found (Some ''a''), Inserted True, Keys [3, 1], Found None, Done, Count 1]"
    by code_simp
  then show ?thesis
    using LRUCache_run_correct [OF fun_table.concurrent_hash_map_axioms c, of ?cs 0] by auto
qed

text \<open>
  C11. A demand-filled cache (a lookup, then an insertion when the key is absent) in which the lock
  is always free: access \<open>i\<close> hits exactly when its key is among the \<open>maxSize\<close> most recently used
  distinct keys, and the keys left in the cache are the \<open>maxSize\<close> most recent ones.
\<close>

theorem LRUCache_holds_most_recent:
  assumes "concurrent_hash_map H" "0 < unat maxSize"
  shows "\<exists>hits c' kvs. api_accesses (LRUCache_ops H) (True, sample) as (LRUCache_new H junk maxSize) = Inr (hits, c') \<and>
    length hits = length as \<and>
    (\<forall>i < length as. hits ! i =
      (fst (as ! i) \<in> set (take (unat maxSize) (recent (map fst (take i as)))))) \<and>
    LRU_repr H c' kvs \<and> map fst kvs = take (unat maxSize) (recent (map fst as))"
proof -
  note t = cache_tableI [OF assms(1)]
  show ?thesis
    using list_cache.accesses_recent [OF cache_table.LRU_laws [OF t] cache_table.LRU_repr_new [OF t assms(2)], of "(True, sample)" as junk]
    unfolding maxSize_new by (simp only: fst_conv simp_thms) blast
qed

theorem LRUCache_holds_most_recent_witness:
  "\<exists>hits c'. api_accesses (LRUCache_ops fun_chm) (True, False)
      [(1, ''a''), (2, ''b''), (1, ''a''), (3, ''c''), (2, ''b'')] (LRUCache_new fun_chm 0 2) =
      Inr (hits, c') \<and> hits ! 2 \<and> \<not> hits ! 4"
proof -
  let ?as = "[(1::size_t, ''a''), (2, ''b''), (1, ''a''), (3, ''c''), (2, ''b'')]"
  have c: "0 < unat (2 :: size_t)" by simp
  obtain hits c' where
    r: "api_accesses (LRUCache_ops fun_chm) (True, False) ?as (LRUCache_new fun_chm 0 2) = Inr (hits, c')"
    and h: "\<forall>i < length ?as. hits ! i =
      (fst (?as ! i) \<in> set (take (unat (2 :: size_t)) (recent (map fst (take i ?as)))))"
    using LRUCache_holds_most_recent [OF fun_table.concurrent_hash_map_axioms c, of False ?as 0] by blast
  have "hits ! 2" using h [rule_format, of 2] by (simp add: recent_def)
  moreover have "\<not> hits ! 4" using h [rule_format, of 4] by (simp add: recent_def)
  ultimately show ?thesis using r by blast
qed

text \<open>
  C23. After every sequence of calls the element count is within the capacity and equals the number
  of entries of the hash map, and the store holds the two sentinels and one node per entry: no node
  is leaked and none is freed early.
\<close>

theorem LRUCache_bounded_no_leak:
  assumes "concurrent_hash_map H" "0 < unat maxSize"
    "api_run (LRUCache_ops H) cs (LRUCache_new H junk maxSize) = Some (Inr (outs, c))"
  shows "m_size c \<le> maxSize \<and> card (dom (chm_find H (m_map c))) = unat (m_size c) \<and>
    card (dom (heap c)) = unat (m_size c) + 2"
proof -
  note t = cache_tableI [OF assms(1)]
  from list_cache.run_ref [OF cache_table.LRU_laws [OF t] cache_table.LRU_repr_new [OF t assms(2)], of cs junk] assms(3)
  obtain kvs where "LRU_repr H c kvs" "unat (m_maxSize c) = unat maxSize" by auto
  with cache_table.repr_sizes [OF t, of c kvs] show ?thesis by (simp add: size_simps)
qed

theorem LRUCache_bounded_no_leak_witness:
  "\<exists>outs c. api_run (LRUCache_ops fun_chm) [Insert (True, False) 1 ''a'', Insert (True, False) 2 ''b'']
      (LRUCache_new fun_chm 0 1) = Some (Inr (outs, c)) \<and> m_size c \<le> 1 \<and>
    card (dom (heap c)) = unat (m_size c) + 2"
proof -
  let ?r = "api_run (LRUCache_ops fun_chm) [Insert (True, False) 1 ''a'', Insert (True, False) 2 ''b'']
      (LRUCache_new fun_chm 0 1)"
  have c: "0 < unat (1 :: size_t)" by simp
  have "\<exists>outs c. ?r = Some (Inr (outs, c))"
    by (simp add: LRUCache_ops_def LRUCache_insert_def LRUCache_new_def reset_stat_def Let_def
        pushFront_def LRUCache_evict_def delink_def)
  then obtain outs c where r: "?r = Some (Inr (outs, c))" by blast
  with LRUCache_bounded_no_leak [OF fun_table.concurrent_hash_map_axioms c r] show ?thesis by blast
qed

end
