(* ===== verification/FIFO_Cache.thy ===== *)
theory FIFO_Cache
  imports LRU_Cache
begin

text \<open>
  \<open>Cache::FIFOCache\<close> of \<^verbatim>\<open>src/cache/FIFO.h\<close>. The class repeats the text of \<open>LRUCache\<close> except for
  \<open>find\<close>, whose promotion is commented out: the list stays in insertion order. The members that are
  the same text are the same definitions; \<open>find\<close> is translated.
\<close>

type_synonym 'm FIFOCache = "'m LRUCache"

definition FIFOCache_new :: "('v, 'm) table \<Rightarrow> size_t \<Rightarrow> size_t \<Rightarrow> 'm FIFOCache" where
  "FIFOCache_new = LRUCache_new"

definition FIFOCache_find ::
    "('v, 'm) table \<Rightarrow> bool \<Rightarrow> 'm FIFOCache \<Rightarrow> size_t \<Rightarrow> ('v option \<times> 'm FIFOCache) result" where
  "FIFOCache_find H sample c key =
     (case chm_find H (m_map c) key of
        None \<Rightarrow> Inr (None, count_miss sample c)
      | Some hv \<Rightarrow> let ac = m_value hv in Inr (Some ac, count_hit sample c))"

definition FIFOCache_evict :: "('v, 'm) table \<Rightarrow> 'm FIFOCache \<Rightarrow> 'm FIFOCache result" where
  "FIFOCache_evict = LRUCache_evict"

definition FIFOCache_insert ::
    "('v, 'm) table \<Rightarrow> 'm FIFOCache \<Rightarrow> size_t \<Rightarrow> 'v \<Rightarrow> (bool \<times> 'm FIFOCache) result" where
  "FIFOCache_insert = LRUCache_insert"

definition FIFOCache_delete_key :: "('v, 'm) table \<Rightarrow> 'm FIFOCache \<Rightarrow> size_t \<Rightarrow> 'm FIFOCache result" where
  "FIFOCache_delete_key = LRUCache_delete_key"

definition FIFOCache_clear :: "('v, 'm) table \<Rightarrow> 'm FIFOCache \<Rightarrow> 'm FIFOCache result option" where
  "FIFOCache_clear = LRUCache_clear"

definition FIFOCache_snapshotKeys :: "'m FIFOCache \<Rightarrow> size_t list \<Rightarrow> size_t list result option" where
  "FIFOCache_snapshotKeys = LRUCache_snapshotKeys"

definition FIFOCache_size :: "'m FIFOCache \<Rightarrow> size_t" where
  "FIFOCache_size = LRUCache_size"

text \<open>The operations behind the interface; the environment is \<open>sample\<close>.\<close>

definition FIFOCache_ops :: "('v, 'm) table \<Rightarrow> (bool, 'm FIFOCache, 'v) CacheAPI" where
  "FIFOCache_ops H = \<lparr>
     api_find = FIFOCache_find H,
     api_insert = (\<lambda>_. FIFOCache_insert H),
     api_delete_key = FIFOCache_delete_key H,
     api_clear = FIFOCache_clear H,
     api_snapshotKeys = FIFOCache_snapshotKeys,
     api_size = FIFOCache_size\<rparr>"

lemmas FIFO_same_text = FIFOCache_new_def FIFOCache_insert_def FIFOCache_delete_key_def
  FIFOCache_clear_def FIFOCache_snapshotKeys_def FIFOCache_size_def

text \<open>A FIFO lookup is an LRU lookup that did not get the lock.\<close>

lemma FIFOCache_find_eq: "FIFOCache_find H sample c k = LRUCache_find H False sample c k"
  by (simp add: FIFOCache_find_def LRUCache_find_def Let_def split: option.split)

lemma FIFO_ops_eq:
  "api_find (FIFOCache_ops H) sample = api_find (LRUCache_ops H) (False, sample)"
  "api_insert (FIFOCache_ops H) sample = api_insert (LRUCache_ops H) (False, sample)"
  "api_delete_key (FIFOCache_ops H) = api_delete_key (LRUCache_ops H)"
  "api_clear (FIFOCache_ops H) = api_clear (LRUCache_ops H)"
  "api_snapshotKeys (FIFOCache_ops H) = api_snapshotKeys (LRUCache_ops H)"
  "api_size (FIFOCache_ops H) = api_size (LRUCache_ops H)"
  by (auto simp: FIFOCache_ops_def LRUCache_ops_def FIFO_same_text FIFOCache_find_eq fun_eq_iff)

context cache_table
begin

lemma FIFO_laws: "list_cache (FIFOCache_ops H) (LRU_repr H) (\<lambda>c. unat (m_maxSize c)) (\<lambda>_. False)"
  using lru.find_ref lru.insert_ref lru.delete_ref lru.clear_ref lru.snapshot_ref lru.size_ref
    lru.ok_ref
  by unfold_locales (fastforce simp: FIFO_ops_eq)+

end

sublocale cache_table \<subseteq> fifo: list_cache "FIFOCache_ops H" "LRU_repr H" "\<lambda>c. unat (m_maxSize c)" "\<lambda>_. False"
  by (rule FIFO_laws)



text \<open>Lookups leave the contents as they are.\<close>

lemma finds_only:
  assumes "map_of kvs k = Some v"
  shows "spec_run (\<lambda>_. False) cap (map (\<lambda>e. Find e k) es @ cs) kvs =
    (let (outs, kvs) = spec_run (\<lambda>_. False) cap cs kvs in (replicate (length es) (Found (Some v)) @ outs, kvs))"
  using assms by (induction es) (auto simp: spec_find_def spec_lookup_def split: prod.splits)

text \<open>
  C0. The comments of the class say that a full cache evicts the least recently used item and that \<open>find\<close> makes
  the element the most recently used one. The code does not: in a full FIFO cache the key that was inserted first is found any number of times, and
  the next insertion of a new key still evicts it.
\<close>

theorem FIFOCache_ignores_hits:
  assumes "concurrent_hash_map H" "LRU_repr H c (kvs @ [(k, v)])" "length (kvs @ [(k, v)]) = unat (m_maxSize c)" "j \<notin> fst ` set (kvs @ [(k, v)])"
  shows "\<exists>c'. api_run (FIFOCache_ops H) (map (\<lambda>e. Find e k) es @ [Insert e1 j w, Find e2 k]) c =
      Some (Inr (replicate (length es) (Found (Some v)) @ [Inserted True, Found None], c')) \<and> LRU_repr H c' ((j, w) # kvs)"
proof -
  note t = cache_tableI [OF assms(1)]
  have d: "distinct (map fst (kvs @ [(k, v)]))"
    using list_cache.ok_ref [OF cache_table.FIFO_laws [OF t] assms(2)] by (simp add: spec_ok_def)
  then have n: "map_of kvs k = None" by (auto simp: map_of_eq_None_iff)
  then have k: "map_of (kvs @ [(k, v)]) k = Some v" "map_of kvs k = None" by (simp_all add: map_add_def)
  have "spec_run (\<lambda>_. False) (unat (m_maxSize c)) (map (\<lambda>e. Find e k) es @ [Insert e1 j w, Find e2 k]) (kvs @ [(k, v)]) =
      (replicate (length es) (Found (Some v)) @ [Inserted True, Found None], (j, w) # kvs)"
    unfolding finds_only [OF k(1)] using assms(3,4) k(2) by (auto simp: spec_insert_def spec_lookup_def spec_find_def)
  then show ?thesis
    using list_cache.run_ref [OF cache_table.FIFO_laws [OF t] assms(2), of "map (\<lambda>e. Find e k) es @ [Insert e1 j w, Find e2 k]"] by auto
qed

theorem FIFOCache_ignores_hits_witness:
  "\<exists>outs c c'. api_run (FIFOCache_ops fun_chm) [Insert False 1 ''a'', Insert False 2 ''b''] (FIFOCache_new fun_chm 0 2) = Some (Inr (outs, c)) \<and>
    api_run (FIFOCache_ops fun_chm) [Find True 1, Find True 1, Insert False 3 ''c'', Find True 1] c =
      Some (Inr ([Found (Some ''a''), Found (Some ''a''), Inserted True, Found None], c'))"
proof -
  let ?cs = "[Insert False 1 ''a'', Insert False 2 ''b'']"
  note t = cache_tableI [OF fun_table.concurrent_hash_map_axioms]
  have r: "snd (spec_run (\<lambda>_. False) (unat (2 :: size_t)) ?cs []) = [(2, ''b'')] @ [(1, ''a'')]" by code_simp
  obtain outs c where c: "api_run (FIFOCache_ops fun_chm) ?cs (FIFOCache_new fun_chm 0 2) = Some (Inr (outs, c))"
      "LRU_repr fun_chm c ([(2, ''b'')] @ [(1, ''a'')])" "unat (m_maxSize c) = 2"
    using list_cache.run_ref [OF cache_table.FIFO_laws [OF t] cache_table.LRU_repr_new [OF t], of 2 ?cs 0] r
    by (auto simp: FIFOCache_new_def simp del: api_run.simps spec_run.simps)
  from FIFOCache_ignores_hits [OF fun_table.concurrent_hash_map_axioms c(2), of 3 "[True, True]" False "''c''" True] c(1,3)
  show ?thesis by (auto simp del: api_run.simps)
qed

end
