(* ===== verification/Strict_LRU.thy ===== *)
theory Strict_LRU
  imports LRU_Cache
begin

text \<open>
  \<open>Cache::StrictLRUCache\<close> of \<^verbatim>\<open>src/cache/strict_lru.h\<close>. The class repeats the text of \<open>LRUCache\<close>
  except for \<open>find\<close>, which blocks on the list mutex and so promotes on every hit. The members that
  are the same text are the same definitions; \<open>find\<close> is translated.
\<close>

type_synonym 'm StrictLRUCache = "'m LRUCache"

definition StrictLRUCache_new :: "('v, 'm) table \<Rightarrow> size_t \<Rightarrow> size_t \<Rightarrow> 'm StrictLRUCache" where
  "StrictLRUCache_new = LRUCache_new"

definition StrictLRUCache_find ::
    "('v, 'm) table \<Rightarrow> bool \<Rightarrow> 'm StrictLRUCache \<Rightarrow> size_t \<Rightarrow>
      ('v option \<times> 'm StrictLRUCache) result" where
  "StrictLRUCache_find H sample c key =
     (case chm_find H (m_map c) key of
        None \<Rightarrow> Inr (None, count_miss sample c)
      | Some hv \<Rightarrow>
          let ac = m_value hv; node = m_listNode hv in
          r_bind
            (r_bind (deref (heap c) node) (\<lambda>n.
             if isInList n
             then r_bind (delink (heap c) node) (\<lambda>h.
                  r_bind (pushFront h node) (\<lambda>h. Inr (c\<lparr>heap := h\<rparr>)))
             else Inr c))
            (\<lambda>c. Inr (Some ac, count_hit sample c)))"

definition StrictLRUCache_evict :: "('v, 'm) table \<Rightarrow> 'm StrictLRUCache \<Rightarrow> 'm StrictLRUCache result" where
  "StrictLRUCache_evict = LRUCache_evict"

definition StrictLRUCache_insert ::
    "('v, 'm) table \<Rightarrow> 'm StrictLRUCache \<Rightarrow> size_t \<Rightarrow> 'v \<Rightarrow> (bool \<times> 'm StrictLRUCache) result" where
  "StrictLRUCache_insert = LRUCache_insert"

definition StrictLRUCache_delete_key ::
    "('v, 'm) table \<Rightarrow> 'm StrictLRUCache \<Rightarrow> size_t \<Rightarrow> 'm StrictLRUCache result" where
  "StrictLRUCache_delete_key = LRUCache_delete_key"

definition StrictLRUCache_clear ::
    "('v, 'm) table \<Rightarrow> 'm StrictLRUCache \<Rightarrow> 'm StrictLRUCache result option" where
  "StrictLRUCache_clear = LRUCache_clear"

definition StrictLRUCache_snapshotKeys ::
    "'m StrictLRUCache \<Rightarrow> size_t list \<Rightarrow> size_t list result option" where
  "StrictLRUCache_snapshotKeys = LRUCache_snapshotKeys"

definition StrictLRUCache_size :: "'m StrictLRUCache \<Rightarrow> size_t" where
  "StrictLRUCache_size = LRUCache_size"

definition StrictLRUCache_ops :: "('v, 'm) table \<Rightarrow> (bool, 'm StrictLRUCache, 'v) CacheAPI" where
  "StrictLRUCache_ops H = \<lparr>
     api_find = StrictLRUCache_find H,
     api_insert = (\<lambda>_. StrictLRUCache_insert H),
     api_delete_key = StrictLRUCache_delete_key H,
     api_clear = StrictLRUCache_clear H,
     api_snapshotKeys = StrictLRUCache_snapshotKeys,
     api_size = StrictLRUCache_size\<rparr>"

lemmas Strict_same_text = StrictLRUCache_new_def StrictLRUCache_insert_def
  StrictLRUCache_delete_key_def StrictLRUCache_clear_def StrictLRUCache_snapshotKeys_def
  StrictLRUCache_size_def

text \<open>A strict lookup is an LRU lookup that got the lock.\<close>

lemma StrictLRUCache_find_eq: "StrictLRUCache_find H sample c k = LRUCache_find H True sample c k"
  by (simp add: StrictLRUCache_find_def LRUCache_find_def Let_def split: option.split)

lemma Strict_ops_eq:
  "api_find (StrictLRUCache_ops H) sample = api_find (LRUCache_ops H) (True, sample)"
  "api_insert (StrictLRUCache_ops H) sample = api_insert (LRUCache_ops H) (True, sample)"
  "api_delete_key (StrictLRUCache_ops H) = api_delete_key (LRUCache_ops H)"
  "api_clear (StrictLRUCache_ops H) = api_clear (LRUCache_ops H)"
  "api_snapshotKeys (StrictLRUCache_ops H) = api_snapshotKeys (LRUCache_ops H)"
  "api_size (StrictLRUCache_ops H) = api_size (LRUCache_ops H)"
  by (auto simp: StrictLRUCache_ops_def LRUCache_ops_def Strict_same_text StrictLRUCache_find_eq fun_eq_iff)

context cache_table
begin

lemma Strict_laws: "list_cache (StrictLRUCache_ops H) (LRU_repr H) (\<lambda>c. unat (m_maxSize c)) (\<lambda>_. True)"
  using lru.find_ref lru.insert_ref lru.delete_ref lru.clear_ref lru.snapshot_ref lru.size_ref
    lru.ok_ref
  by unfold_locales (fastforce simp: Strict_ops_eq)+

end

sublocale cache_table \<subseteq> strict: list_cache "StrictLRUCache_ops H" "LRU_repr H" "\<lambda>c. unat (m_maxSize c)" "\<lambda>_. True"
  by (rule Strict_laws)

text \<open>
  C13. A new strict LRU cache, whatever the sampling generator answers: every sequence of calls
  returns what the recency list returns with a promotion on every hit, so lock contention never
  loses a promotion.
\<close>

theorem StrictLRUCache_run_correct:
  assumes "concurrent_hash_map H" "0 < unat maxSize"
  shows "\<exists>c'. api_run (StrictLRUCache_ops H) cs (StrictLRUCache_new H junk maxSize) =
      Some (Inr (fst (spec_run (\<lambda>_. True) (unat maxSize) cs []), c')) \<and>
    LRU_repr H c' (snd (spec_run (\<lambda>_. True) (unat maxSize) cs []))"
proof -
  note t = cache_tableI [OF assms(1)]
  show ?thesis
    using list_cache.run_ref [OF cache_table.Strict_laws [OF t] cache_table.LRU_repr_new [OF t assms(2)], of cs junk]
    by (auto simp: StrictLRUCache_new_def)
qed

theorem StrictLRUCache_run_correct_witness:
  "\<exists>c'. api_run (StrictLRUCache_ops fun_chm)
      [Insert False 1 ''a'', Insert False 2 ''b'', Find True 1, Insert False 3 ''c'', Snapshot, Find True 1]
      (StrictLRUCache_new fun_chm 0 2) =
    Some (Inr ([Inserted True, Inserted True, Found (Some ''a''), Inserted True, Keys [3, 1], Found (Some ''a'')], c'))"
proof -
  let ?cs = "[Insert False 1 ''a'', Insert False 2 ''b'', Find True 1, Insert False 3 ''c'', Snapshot, Find True 1]"
  have c: "0 < unat (2 :: size_t)" by simp
  have "fst (spec_run (\<lambda>_. True) (unat (2 :: size_t)) ?cs []) =
      [Inserted True, Inserted True, Found (Some ''a''), Inserted True, Keys [3, 1], Found (Some ''a'')]"
    by code_simp
  then show ?thesis
    using StrictLRUCache_run_correct [OF fun_table.concurrent_hash_map_axioms c, of ?cs 0] by auto
qed

end
