(* ===== verification/LFU_Cache.thy ===== *)
theory LFU_Cache
  imports Hash_Map Base_Cache Cache_API
begin

text \<open>
  \<open>Cache::LFUCache\<close> of \<^verbatim>\<open>src/cache/lfu.h\<close>: the keys are grouped by how often they were used. The
  groups (\<open>ListNode\<close>) form a list with falling frequencies from \<open>m_head\<close> to \<open>m_tail\<close>; a group has a
  list of entries (\<open>freListNode\<close>), the one used last at the front; the hash map points to the group
  and the entry of a key. Both kinds of nodes carry their address here and the linked lists are
  lists of nodes: the group before a given one, \<open>m_head\<close> or \<open>m_tail\<close> are read off the position.
  \<open>delete_key\<close> and \<open>snapshotKeys\<close> are not overridden and do nothing.
\<close>

record freListNode =
  fre_addr :: nat
  fre_key :: size_t

text \<open>\<open>fre\<close> is a \<open>long long int\<close>.\<close>

record LFUListNode =
  ln_addr :: nat
  fre :: int
  ln_list :: "freListNode list"

text \<open>\<open>listNode\<close> is null until the new entry is linked.\<close>

record 'v LFUValue =
  lfu_val :: 'v
  lfu_listNode :: "nat option"
  lfu_freNode :: nat

type_synonym ('v, 'm) lfu_table = "(size_t, 'v LFUValue, 'm) chm"

record 'm LFUCache = BaseCacheAPI +
  lfu_n :: size_t
  lfu_s :: size_t
  lfu_map :: 'm
  lfu_lists :: "LFUListNode list"
  lfu_next :: nat

section \<open>The operations\<close>

definition LFUCache_new :: "('v, 'm) lfu_table \<Rightarrow> size_t \<Rightarrow> 'm LFUCache" where
  "LFUCache_new H capacity = reset_stat \<lparr>hit_num = 0, miss_num = 0,
     lfu_n = capacity, lfu_s = 0, lfu_map = chm_init H, lfu_lists = [], lfu_next = 0\<rparr>"

definition LFUCache_size :: "'m LFUCache \<Rightarrow> size_t" where
  "LFUCache_size c = lfu_s c"

definition LFUCache_clear :: "('v, 'm) lfu_table \<Rightarrow> 'm LFUCache \<Rightarrow> 'm LFUCache" where
  "LFUCache_clear H c = c\<lparr>lfu_map := chm_clear H (lfu_map c), lfu_lists := [], lfu_s := 0\<rparr>"

text \<open>Following a pointer to a group: what is before it and behind it.\<close>

fun group_at :: "nat \<Rightarrow> LFUListNode list \<Rightarrow> (LFUListNode list \<times> LFUListNode \<times> LFUListNode list) option" where
  "group_at a [] = None"
| "group_at a (g # gs) =
     (if ln_addr g = a then Some ([], g, gs)
      else map_option (\<lambda>(before, h, after). (g # before, h, after)) (group_at a gs))"

definition fre_isInList :: "nat \<Rightarrow> LFUListNode \<Rightarrow> bool" where
  "fre_isInList a g \<longleftrightarrow> a \<in> fre_addr ` set (ln_list g)"

text \<open>The pointers of an entry are null when it is not in a list.\<close>

definition delink_fre :: "nat \<Rightarrow> LFUListNode \<Rightarrow> LFUListNode result" where
  "delink_fre a g =
     r_assert (fre_isInList a g) ''prev != nullptr'' (Inr (g\<lparr>ln_list := filter (\<lambda>e. fre_addr e \<noteq> a) (ln_list g)\<rparr>))"

definition group_pushFront :: "freListNode \<Rightarrow> LFUListNode \<Rightarrow> LFUListNode" where
  "group_pushFront e g = g\<lparr>ln_list := e # ln_list g\<rparr>"

definition isEmpty :: "LFUListNode \<Rightarrow> bool" where
  "isEmpty g \<longleftrightarrow> ln_list g = []"

definition long_inc :: "int \<Rightarrow> int result" where
  "long_inc f = (if f + 1 < 2 ^ 63 then Inr (f + 1) else Inl SignedOverflow)"

text \<open>The constructor of a group takes the frequency as an \<open>int\<close>.\<close>

definition ListNode_new :: "nat \<Rightarrow> int \<Rightarrow> LFUListNode" where
  "ListNode_new a f = \<lparr>ln_addr = a, fre = sint (word_of_int f :: 32 word), ln_list = []\<rparr>"

text \<open>\<open>new_node\<close> is linked in front of a node of frequency \<open>f\<close>, the first one of \<open>after\<close> or \<open>m_tail\<close>, which is not \<open>m_head\<close>.\<close>

definition pushForward :: "int \<Rightarrow> LFUListNode \<Rightarrow> LFUListNode list \<Rightarrow> LFUListNode list \<Rightarrow> LFUListNode list result" where
  "pushForward f new_node before after =
     r_assert (fre new_node > f) ''new_node->fre > node->fre'' (Inr (before @ new_node # after))"

text \<open>
  The part of \<open>find\<close> that runs under the lock: the entry moves to the group of the next frequency. If
  there is none, it is the group itself that gets it when the entry is alone, and a new group otherwise;
  a group that is left empty is deleted. The result is the new list of groups and the entry's group.
\<close>

definition LFU_promote ::
    "nat \<Rightarrow> freListNode \<Rightarrow> LFUListNode list \<Rightarrow> LFUListNode \<Rightarrow> LFUListNode list \<Rightarrow> (LFUListNode list \<times> nat) result" where
  "LFU_promote new e before g after =
     r_bind (long_inc (fre g)) (\<lambda>f.
     if before = [] \<or> fre (last before) > f
     then if length (ln_list g) = 1 then Inr (before @ g\<lparr>fre := f\<rparr> # after, ln_addr g)
          else r_bind (delink_fre (fre_addr e) g) (\<lambda>g'.
               r_bind (pushForward (fre g) (group_pushFront e (ListNode_new new f)) before (g' # after)) (\<lambda>gs. Inr (gs, new)))
     else if fre (last before) \<le> fre g then Inl (AssertFailed ''false'')
     else r_bind (delink_fre (fre_addr e) g) (\<lambda>g'.
          let before = butlast before @ [group_pushFront e (last before)]
          in Inr (before @ (if isEmpty g' then after else g' # after), ln_addr (last before))))"

definition LFUCache_find ::
    "('v, 'm) lfu_table \<Rightarrow> bool \<Rightarrow> 'm LFUCache \<Rightarrow> size_t \<Rightarrow> ('v option \<times> 'm LFUCache) result" where
  "LFUCache_find H sample c key =
     (case chm_find H (lfu_map c) key of
        None \<Rightarrow> Inr (None, if sample then c\<lparr>miss_num := miss_num c + 1\<rparr> else c)
      | Some hv \<Rightarrow>
          r_bind
            (case lfu_listNode hv of
               None \<Rightarrow> Inl (AssertFailed ''false'')
             | Some listnode \<Rightarrow>
                 (case group_at listnode (lfu_lists c) of
                    None \<Rightarrow> Inl InvalidAccess
                  | Some (before, g, after) \<Rightarrow>
                      if fre_isInList (lfu_freNode hv) g
                      then r_bind (LFU_promote (lfu_next c) \<lparr>fre_addr = lfu_freNode hv, fre_key = key\<rparr> before g after) (\<lambda>(gs, a).
                        Inr (c\<lparr>lfu_lists := gs, lfu_next := lfu_next c + 1,
                          lfu_map := chm_assign H (lfu_map c) key (hv\<lparr>lfu_listNode := Some a\<rparr>)\<rparr>))
                      else Inr c))
            (\<lambda>c. Inr (Some (lfu_val hv), if sample then c\<lparr>hit_num := hit_num c + 1\<rparr> else c)))"

text \<open>
  \<open>insert\<close> links the new entry into the group of frequency 1, which is the last one or new. A full
  cache then drops the last entry of the last group.
\<close>

definition LFU_link :: "nat \<Rightarrow> freListNode \<Rightarrow> LFUListNode list \<Rightarrow> (LFUListNode list \<times> nat) result" where
  "LFU_link new e gs =
     (if gs \<noteq> [] \<and> fre (last gs) = 1 then Inr (butlast gs @ [group_pushFront e (last gs)], ln_addr (last gs))
      else r_bind (pushForward 0 (group_pushFront e (ListNode_new new 1)) gs []) (\<lambda>gs. Inr (gs, new)))"

definition LFU_evict :: "('v, 'm) lfu_table \<Rightarrow> 'm LFUCache \<Rightarrow> (bool \<times> 'm LFUCache) result" where
  "LFU_evict H c =
     r_assert (lfu_lists c \<noteq> []) ''moribund != &m_head'' (
     let moribund = last (lfu_lists c) in
     r_assert (\<not> isEmpty moribund) ''temp_node != &moribund->list'' (
     let temp_node = last (ln_list moribund)
     in r_bind (delink_fre (fre_addr temp_node) moribund) (\<lambda>moribund.
        let c = c\<lparr>lfu_lists := butlast (lfu_lists c) @ [moribund]\<rparr>
        in case chm_find H (lfu_map c) (fre_key temp_node) of
             None \<Rightarrow> Inr (False, c)
           | Some _ \<Rightarrow> Inr (True, c\<lparr>lfu_map := snd (chm_erase H (lfu_map c) (fre_key temp_node))\<rparr>))))"

definition LFUCache_insert ::
    "('v, 'm) lfu_table \<Rightarrow> 'm LFUCache \<Rightarrow> size_t \<Rightarrow> 'v \<Rightarrow> (bool \<times> 'm LFUCache) result" where
  "LFUCache_insert H c key value =
     (let node = lfu_next c; hv = \<lparr>lfu_val = value, lfu_listNode = None, lfu_freNode = node\<rparr>;
          (inserted, m) = chm_insert H (lfu_map c) key hv
      in if \<not> inserted then Inr (False, c\<lparr>lfu_map := m, lfu_next := node + 1\<rparr>)
         else
           r_bind (LFU_link (node + 1) \<lparr>fre_addr = node, fre_key = key\<rparr> (lfu_lists c)) (\<lambda>(gs, a).
           let c = c\<lparr>lfu_lists := gs, lfu_next := node + 2, lfu_map := chm_assign H m key (hv\<lparr>lfu_listNode := Some a\<rparr>)\<rparr>
           in r_assert (lfu_s c \<le> lfu_n c) ''size <= n'' (
              if lfu_s c < lfu_n c then Inr (True, c\<lparr>lfu_s := lfu_s c + 1\<rparr>) else LFU_evict H c)))"

definition LFUCache_ops :: "('v, 'm) lfu_table \<Rightarrow> (bool, 'm LFUCache, 'v) CacheAPI" where
  "LFUCache_ops H = \<lparr>api_find = LFUCache_find H, api_insert = (\<lambda>_. LFUCache_insert H), api_delete_key = (\<lambda>c _. Inr c),
     api_clear = (\<lambda>c. Some (Inr (LFUCache_clear H c))), api_snapshotKeys = (\<lambda>c ks. Some (Inr ks)), api_size = LFUCache_size\<rparr>"

section \<open>The specification\<close>

text \<open>
  The contents as one list of keys with their frequency and value, in the order of falling frequency and,
  within a frequency, of last use. \<open>place\<close> puts an entry in front of its frequency class.
\<close>

type_synonym 'v lfu_contents = "(size_t \<times> int \<times> 'v) list"

definition place :: "('a \<Rightarrow> int) \<Rightarrow> 'a \<Rightarrow> 'a list \<Rightarrow> 'a list" where
  "place f x xs = takeWhile (\<lambda>y. f y > f x) xs @ x # dropWhile (\<lambda>y. f y > f x) xs"

abbreviation freq :: "size_t \<times> int \<times> 'v \<Rightarrow> int" where
  "freq x \<equiv> fst (snd x)"

definition lfu_find :: "size_t \<Rightarrow> 'v lfu_contents \<Rightarrow> 'v option \<times> 'v lfu_contents" where
  "lfu_find k xs =
     (case map_of xs k of
        None \<Rightarrow> (None, xs)
      | Some (f, v) \<Rightarrow> (Some v, place freq (k, f + 1, v) (filter (\<lambda>y. fst y \<noteq> k) xs)))"

definition lfu_insert :: "nat \<Rightarrow> size_t \<Rightarrow> 'v \<Rightarrow> 'v lfu_contents \<Rightarrow> bool \<times> 'v lfu_contents" where
  "lfu_insert cap k v xs =
     (if map_of xs k \<noteq> None then (False, xs)
      else (True, if length xs < cap then place freq (k, 1, v) xs else butlast (place freq (k, 1, v) xs)))"

fun lfu_step :: "nat \<Rightarrow> (bool, 'v) cache_op \<Rightarrow> 'v lfu_contents \<Rightarrow> 'v cache_out \<times> 'v lfu_contents" where
  "lfu_step cap (Find e k) xs = (Found (fst (lfu_find k xs)), snd (lfu_find k xs))"
| "lfu_step cap (Insert e k v) xs = (Inserted (fst (lfu_insert cap k v xs)), snd (lfu_insert cap k v xs))"
| "lfu_step cap (Delete k) xs = (Done, xs)"
| "lfu_step cap Clear xs = (Done, [])"
| "lfu_step cap Snapshot xs = (Keys [], xs)"
| "lfu_step cap Size xs = (Count (length xs), xs)"

fun lfu_run :: "nat \<Rightarrow> (bool, 'v) cache_op list \<Rightarrow> 'v lfu_contents \<Rightarrow> 'v cache_out list \<times> 'v lfu_contents" where
  "lfu_run cap [] xs = ([], xs)"
| "lfu_run cap (c # cs) xs = (let (out, xs) = lfu_step cap c xs; (outs, xs) = lfu_run cap cs xs in (out # outs, xs))"

end
