(* ===== verification/LFU_Proofs.thy ===== *)
theory LFU_Proofs
  imports LFU_Cache "HOL-Library.Multiset"
begin

text \<open>
  The LFU cache implements its specification: the groups, read from the front, are the contents in the
  order of falling frequency, and the hash map is the index of the groups. Each operation is shown to
  keep the invariant and to act on the contents as specified; runs and the properties follow.
\<close>

section \<open>Groups of entries\<close>

definition ents :: "LFUListNode list \<Rightarrow> freListNode list" where
  "ents gs = concat (map ln_list gs)"

definition flat :: "LFUListNode list \<Rightarrow> (size_t \<times> int) list" where
  "flat gs = concat (map (\<lambda>g. map (\<lambda>e. (fre_key e, fre g)) (ln_list g)) gs)"

definition idx :: "LFUListNode list \<Rightarrow> (size_t \<times> nat option \<times> nat) list" where
  "idx gs = concat (map (\<lambda>g. map (\<lambda>e. (fre_key e, Some (ln_addr g), fre_addr e)) (ln_list g)) gs)"

definition groups_ok :: "LFUListNode list \<Rightarrow> bool" where
  "groups_ok gs \<longleftrightarrow> sorted_wrt (\<lambda>g h. fre g > fre h) gs \<and> (\<forall>g \<in> set gs. 1 \<le> fre g) \<and> distinct (map ln_addr gs) \<and>
     distinct (map fre_addr (ents gs)) \<and> distinct (map fre_key (ents gs))"

lemma group_lists [simp]:
  "ents [] = []" "ents (g # gs) = ln_list g @ ents gs" "ents (gs @ hs) = ents gs @ ents hs"
  "flat [] = []" "flat (g # gs) = map (\<lambda>e. (fre_key e, fre g)) (ln_list g) @ flat gs" "flat (gs @ hs) = flat gs @ flat hs"
  "idx [] = []" "idx (g # gs) = map (\<lambda>e. (fre_key e, Some (ln_addr g), fre_addr e)) (ln_list g) @ idx gs" "idx (gs @ hs) = idx gs @ idx hs"
  by (simp_all add: ents_def flat_def idx_def)

lemma map_fst_lists [simp]: "map fst (flat gs) = map fre_key (ents gs)" "map fst (idx gs) = map fre_key (ents gs)"
  by (induction gs) (auto simp: comp_def)

lemma idx_keys: "fst ` set (idx gs) = fre_key ` set (ents gs)" and flat_keys: "fst ` set (flat gs) = fre_key ` set (ents gs)"
  by (metis list.set_map map_fst_lists(2), metis list.set_map map_fst_lists(1))

lemma flat_fre: "(k, f) \<in> set (flat gs) \<Longrightarrow> \<exists>g \<in> set gs. f = fre g"
  by (induction gs) auto

lemma groups_length:
  assumes "groups_ok gs"
  shows "length (flat gs) = card (set (ents gs))"
proof -
  have "distinct (ents gs)" using assms by (auto simp: groups_ok_def distinct_map)
  then show ?thesis by (metis distinct_card length_map map_fst_lists(1))
qed

lemma group_at_split:
  assumes "distinct (map ln_addr gs)" "g \<in> set gs"
  obtains before after where "group_at (ln_addr g) gs = Some (before, g, after)" "gs = before @ g # after"
  using assms
proof (induction gs arbitrary: thesis)
  case (Cons h gs)
  show ?case
  proof (cases "h = g")
    case True
    then show ?thesis using Cons.prems(1) [of "[]" gs] by simp
  next
    case False
    then have "g \<in> set gs" "ln_addr h \<noteq> ln_addr g" using Cons.prems by auto
    then obtain before after where "group_at (ln_addr g) gs = Some (before, g, after)" "gs = before @ g # after"
      using Cons.IH Cons.prems(2) by auto
    then show ?thesis using Cons.prems(1) [of "h # before" after] \<open>ln_addr h \<noteq> ln_addr g\<close> by simp
  qed
qed simp

lemma place_between:
  assumes "\<And>y. y \<in> set as \<Longrightarrow> f y > f x" "\<And>y. y \<in> set bs \<Longrightarrow> f y \<le> f x"
  shows "place f x (as @ bs) = as @ x # bs"
proof -
  have "takeWhile (\<lambda>y. f y > f x) bs = []" "dropWhile (\<lambda>y. f y > f x) bs = bs"
    using assms(2) by (cases bs; force)+
  with assms(1) show ?thesis by (simp add: place_def takeWhile_append2 dropWhile_append2)
qed

lemma place_map:
  assumes "\<And>y. f (h y) = g y"
  shows "place f (h x) (map h xs) = map h (place g x xs)"
  by (simp add: place_def takeWhile_map dropWhile_map comp_def assms)

lemma filter_entry:
  assumes "distinct (map fre_addr es)" "distinct (map fre_key es)" "e \<in> set es"
  shows "filter (\<lambda>d. fre_addr d \<noteq> fre_addr e) es = filter (\<lambda>d. fre_key d \<noteq> fre_key e) es"
  using assms by (intro filter_cong refl) (auto simp: distinct_map inj_on_def)

lemma filter_absent: "f x \<notin> f ` set xs \<Longrightarrow> filter (\<lambda>y. f y \<noteq> f x) xs = xs"
  by (induction xs) auto

lemma last_not_butlast: "distinct (map f xs) \<Longrightarrow> xs \<noteq> [] \<Longrightarrow> f (last xs) \<notin> f ` set (butlast xs)"
  by (cases xs rule: rev_cases) auto

lemma map_of_drop_last: "k \<notin> fst ` set xs \<Longrightarrow> (map_of (xs @ [(k, r)]))(k := None) = map_of xs"
proof
  fix j
  assume "k \<notin> fst ` set xs"
  then show "((map_of (xs @ [(k, r)]))(k := None)) j = map_of xs j"
    using map_of_eq_None_iff [of xs k] by (cases "j = k"; cases "map_of xs j") (simp_all add: map_add_def)
qed

lemma map_of_idx:
  assumes "distinct (map fre_key (ents gs))" "(k, r) \<in> set (idx gs)"
  shows "map_of (idx gs) k = Some r"
  using assms by (intro map_of_is_SomeI) simp_all

lemma map_of_by_set:
  assumes "distinct (map fst xs)" "\<And>k r. (k, r) \<in> set xs \<longleftrightarrow> m k = Some r"
  shows "map_of xs = m"
  using assms by (metis (no_types, opaque_lifting) map_of_eq_Some_iff ext not_Some_eq)

lemma groups_split:
  assumes "groups_ok (before @ g # after)"
  shows "\<And>h. h \<in> set before \<Longrightarrow> fre g < fre h" "\<And>h. h \<in> set after \<Longrightarrow> fre h < fre g"
  using assms by (auto simp: groups_ok_def sorted_wrt_append)

definition drop_fre :: "nat \<Rightarrow> LFUListNode \<Rightarrow> LFUListNode" where
  "drop_fre a g = g\<lparr>ln_list := filter (\<lambda>e. fre_addr e \<noteq> a) (ln_list g)\<rparr>"

lemma delink_in: "e \<in> set (ln_list g) \<Longrightarrow> delink_fre (fre_addr e) g = Inr (drop_fre (fre_addr e) g)"
  by (simp add: delink_fre_def drop_fre_def fre_isInList_def)

text \<open>Below \<open>2^31\<close> a frequency is an \<open>int\<close>; from there on the assertion of \<open>pushForward\<close> fails.\<close>

lemma int_frequency:
  "0 \<le> f \<Longrightarrow> f < 2 ^ 31 \<Longrightarrow> sint (word_of_int f :: 32 word) = f"
  "sint (word_of_int f :: 32 word) < 2 ^ 31"
  using sint_lt [of "word_of_int f :: 32 word"] by (simp_all add: signed_of_int signed_take_bit_int_eq_self)

lemma pushForward_new:
  assumes "1 \<le> f"
  shows "pushForward f (group_pushFront e (ListNode_new new (f + 1))) before after =
    (if f + 1 < 2 ^ 31 then Inr (before @ \<lparr>ln_addr = new, fre = f + 1, ln_list = [e]\<rparr> # after) else Inl (AssertFailed ''new_node->fre > node->fre''))"
proof (cases "f + 1 < 2 ^ 31")
  case True
  then show ?thesis using assms int_frequency(1) [of "f + 1"] by (simp add: pushForward_def group_pushFront_def ListNode_new_def)
next
  case False
  then have "\<not> sint (word_of_int (f + 1) :: 32 word) > f" using int_frequency(2) [of "f + 1"] by linarith
  then show ?thesis using False by (simp add: pushForward_def group_pushFront_def ListNode_new_def r_assert_def)
qed

lemma drop_fre_key:
  assumes "groups_ok (before @ g # after)" "e \<in> set (ln_list g)"
  shows "drop_fre (fre_addr e) g = g\<lparr>ln_list := filter (\<lambda>d. fre_key d \<noteq> fre_key e) (ln_list g)\<rparr>"
proof -
  have "distinct (map fre_addr (ln_list g))" "distinct (map fre_key (ln_list g))" using assms(1) by (auto simp: groups_ok_def)
  from filter_entry [OF this assms(2)] show ?thesis by (simp add: drop_fre_def)
qed

text \<open>Taking the entry out of its group, as the lists and the index see it.\<close>

lemma flat_without:
  assumes "groups_ok (before @ g # after)" "e \<in> set (ln_list g)"
  shows "filter (\<lambda>p. fst p \<noteq> fre_key e) (flat (before @ g # after)) =
    flat before @ map (\<lambda>d. (fre_key d, fre g)) (filter (\<lambda>d. fre_key d \<noteq> fre_key e) (ln_list g)) @ flat after"
proof -
  have k: "fre_key e \<notin> fre_key ` set (ents before)" "fre_key e \<notin> fre_key ` set (ents after)"
    using assms by (auto simp: groups_ok_def)
  have "fst p \<noteq> fre_key e" if "p \<in> set (flat gs)" "fre_key e \<notin> fre_key ` set (ents gs)" for p gs
    using that by (metis image_eqI list.set_map map_fst_lists(1))
  with k have "filter (\<lambda>p. fst p \<noteq> fre_key e) (flat before) = flat before" "filter (\<lambda>p. fst p \<noteq> fre_key e) (flat after) = flat after"
    by (simp_all add: filter_id_conv)
  then show ?thesis by (simp add: filter_map comp_def)
qed

lemma idx_in_group: "(k, r) \<in> set (idx gs) \<longleftrightarrow> (\<exists>g \<in> set gs. \<exists>e \<in> set (ln_list g). k = fre_key e \<and> r = (Some (ln_addr g), fre_addr e))"
  by (induction gs) auto

lemma set_ents: "set (ents gs) = (\<Union>g \<in> set gs. set (ln_list g))"
  by (simp add: ents_def)

lemma map_of_replace:
  assumes "distinct (map fst xs)" "distinct (map fst ys)" "set ys = insert (k, r) {p \<in> set xs. fst p \<noteq> k}"
  shows "map_of ys = (map_of xs)(k \<mapsto> r)"
proof (rule map_of_by_set [OF assms(2)])
  fix j q
  show "(j, q) \<in> set ys \<longleftrightarrow> ((map_of xs)(k \<mapsto> r)) j = Some q"
    using map_of_eq_Some_iff [OF assms(1), of j q] assms(3) by auto
qed

lemma idx_without:
  assumes "groups_ok (before @ g # after)" "e \<in> set (ln_list g)"
  shows "{p \<in> set (idx (before @ g # after)). fst p \<noteq> fre_key e} = set (idx before) \<union>
    (\<lambda>d. (fre_key d, Some (ln_addr g), fre_addr d)) ` {d \<in> set (ln_list g). fre_key d \<noteq> fre_key e} \<union> set (idx after)"
proof -
  have "fre_key e \<notin> fre_key ` set (ents before)" "fre_key e \<notin> fre_key ` set (ents after)"
    using assms by (auto simp: groups_ok_def)
  then have "p \<in> set (idx before) \<union> set (idx after) \<Longrightarrow> fst p \<noteq> fre_key e" for p
    by (metis Un_iff image_eqI list.set_map map_fst_lists(2))
  then show ?thesis by auto
qed

lemma mset_without:
  assumes "distinct (map fre_key es)" "e \<in> set es"
  shows "add_mset e (mset (filter (\<lambda>d. fre_key d \<noteq> fre_key e) es)) = mset es"
  using assms
proof (induction es)
  case (Cons d es)
  show ?case
  proof (cases "d = e")
    case True
    then have "filter (\<lambda>d. fre_key d \<noteq> fre_key e) es = es" using Cons.prems by (intro filter_absent) auto
    with True show ?thesis by (simp del: mset_filter)
  next
    case False
    with Cons show ?thesis by (auto simp del: mset_filter)
  qed
qed simp

lemma distinct_map_mset: "mset xs = mset ys \<Longrightarrow> distinct (map f xs) = distinct (map f ys)"
  by (metis mset_eq_imp_distinct_iff mset_map)

lemma groups_ok_mset:
  assumes "groups_ok gs" "mset (ents hs) = mset (ents gs)" "sorted_wrt (\<lambda>g h. fre g > fre h) hs" "\<forall>g \<in> set hs. 1 \<le> fre g"
    "distinct (map ln_addr hs)"
  shows "groups_ok hs" "set (ents hs) = set (ents gs)"
proof -
  from assms distinct_map_mset [OF assms(2), of fre_addr] distinct_map_mset [OF assms(2), of fre_key] show "groups_ok hs" by (simp add: groups_ok_def)
  show "set (ents hs) = set (ents gs)" using assms(2) by (rule mset_eq_setD)
qed

text \<open>
  What \<open>find\<close> does to the groups: the entry moves, in the order of the contents, to the front of the next
  frequency, and the index points to its new group.
\<close>

lemma LFU_promote_fits:
  assumes ok: "groups_ok (before @ g # after)" and e: "e \<in> set (ln_list g)" and f: "fre g + 1 < 2 ^ 31"
  shows "\<exists>r. LFU_promote new e before g after = Inr r"
proof -
  have "long_inc (fre g) = Inr (fre g + 1)" "1 \<le> fre g" using f ok by (auto simp: long_inc_def groups_ok_def)
  moreover have "before = [] \<or> \<not> fre (last before) \<le> fre g" using groups_split(1) [OF ok, of "last before"] by (cases "before = []") simp_all
  ultimately show ?thesis using f delink_in [OF e] pushForward_new [of "fre g"] by (auto simp: LFU_promote_def Let_def)
qed

lemma LFU_promote_groups:
  assumes ok: "groups_ok (before @ g # after)" and e: "e \<in> set (ln_list g)" and new: "new \<notin> ln_addr ` set (before @ g # after)"
    and fits: "LFU_promote new e before g after = Inr r"
  shows "\<exists>gs a. LFU_promote new e before g after = Inr (gs, a) \<and> groups_ok gs \<and>
    flat gs = place snd (fre_key e, fre g + 1) (filter (\<lambda>p. fst p \<noteq> fre_key e) (flat (before @ g # after))) \<and>
    map_of (idx gs) = (map_of (idx (before @ g # after)))(fre_key e \<mapsto> (Some a, fre_addr e)) \<and>
    ln_addr ` set gs \<subseteq> insert new (ln_addr ` set (before @ g # after)) \<and> set (ents gs) = set (ents (before @ g # after))"
proof -
  let ?gs = "before @ g # after" and ?es = "filter (\<lambda>d. fre_key d \<noteq> fre_key e) (ln_list g)"
  let ?old = "filter (\<lambda>p. fst p \<noteq> fre_key e) (flat ?gs)" and ?x = "(fre_key e, fre g + 1)"
  note sp = groups_split [OF ok] and dl = delink_in [OF e, unfolded drop_fre_key [OF ok e]]
  have li: "long_inc (fre g) = Inr (fre g + 1)" using fits by (auto simp: LFU_promote_def long_inc_def r_bind_eq_Inr split: if_splits)
  have so: "sorted_wrt (\<lambda>g h. fre g > fre h) before" "sorted_wrt (\<lambda>g h. fre g > fre h) after" "\<forall>h \<in> set ?gs. 1 \<le> fre h" "distinct (map ln_addr ?gs)"
    and dk1: "distinct (map fre_key (ln_list g))"
    using ok by (auto simp: groups_ok_def sorted_wrt_append)
  have "distinct (map fst (idx ?gs))" using ok unfolding map_fst_lists groups_ok_def by blast
  note dk = dk1 this
  have fl: "place snd ?x ?old = flat as @ ?x # flat bs @ map (\<lambda>d. (fre_key d, fre g)) ?es @ flat after"
    if "before = as @ bs" "\<And>h. h \<in> set as \<Longrightarrow> fre g + 1 < fre h" "\<And>h. h \<in> set bs \<Longrightarrow> fre h \<le> fre g + 1" for as bs
  proof -
    have "?old = flat as @ (flat bs @ map (\<lambda>d. (fre_key d, fre g)) ?es @ flat after)" using flat_without [OF ok e] that(1) by simp
    moreover have "snd ?x < snd p" if "p \<in> set (flat as)" for p
      using flat_fre [of "fst p" "snd p" as] that \<open>\<And>h. h \<in> set as \<Longrightarrow> fre g + 1 < fre h\<close> by auto
    moreover have "snd p \<le> snd ?x" if "p \<in> set (flat bs @ map (\<lambda>d. (fre_key d, fre g)) ?es @ flat after)" for p
      using flat_fre [of "fst p" "snd p" bs] flat_fre [of "fst p" "snd p" after] that \<open>\<And>h. h \<in> set bs \<Longrightarrow> fre h \<le> fre g + 1\<close> sp(2) by fastforce
    ultimately show ?thesis by (simp only: place_between)
  qed
  note mw = mset_without [OF dk(1) e] and iw = idx_without [OF ok e]
  have finish: "groups_ok gs \<and> map_of (idx gs) = (map_of (idx ?gs))(fre_key e \<mapsto> (Some a, fre_addr e)) \<and> set (ents gs) = set (ents ?gs)"
    if "mset (ents gs) = mset (ents ?gs)" "sorted_wrt (\<lambda>g h. fre g > fre h) gs" "\<forall>h \<in> set gs. 1 \<le> fre h" "distinct (map ln_addr gs)"
      "set (idx gs) = insert (fre_key e, Some a, fre_addr e) {p \<in> set (idx ?gs). fst p \<noteq> fre_key e}" for gs a
  proof -
    note g = groups_ok_mset [OF ok that(1-4)]
    then have "distinct (map fst (idx gs))" by (simp add: groups_ok_def)
    from map_of_replace [OF dk(2) this that(5)] g show ?thesis by simp
  qed
  show ?thesis
  proof (cases "before = [] \<or> fre (last before) > fre g + 1")
    case True
    have b: "fre g + 1 < fre h" if "h \<in> set before" for h
      using True that so(1) by (cases before rule: rev_cases) (auto simp: sorted_wrt_append)
    note f = fl [of before "[]", simplified, OF b]
    show ?thesis
    proof (cases "length (ln_list g) = 1")
      case True
      then have l: "ln_list g = [e]" using e by (cases "ln_list g") auto
      let ?new = "before @ g\<lparr>fre := fre g + 1\<rparr> # after"
      have "sorted_wrt (\<lambda>g h. fre g > fre h) ?new" using so(1,2) b sp(2) by (force simp: sorted_wrt_append)
      moreover have "set (idx ?new) = insert (fre_key e, Some (ln_addr g), fre_addr e) {p \<in> set (idx ?gs). fst p \<noteq> fre_key e}"
        using iw l by auto
      ultimately have "groups_ok ?new \<and> map_of (idx ?new) = (map_of (idx ?gs))(fre_key e \<mapsto> (Some (ln_addr g), fre_addr e)) \<and>
          set (ents ?new) = set (ents ?gs)"
        using so(3,4) by (intro finish) auto
      with True \<open>before = [] \<or> _\<close> f l show ?thesis by (auto simp: LFU_promote_def li)
    next
      case False
      let ?n = "\<lparr>ln_addr = new, fre = fre g + 1, ln_list = [e]\<rparr>"
      let ?new = "before @ ?n # g\<lparr>ln_list := ?es\<rparr> # after"
      have "sorted_wrt (\<lambda>g h. fre g > fre h) ?new" using so(1,2) b sp by (force simp: sorted_wrt_append)
      moreover have "set (idx ?new) = insert (fre_key e, Some new, fre_addr e) {p \<in> set (idx ?gs). fst p \<noteq> fre_key e}"
        using iw by auto
      moreover have "mset (ents ?new) = mset (ents ?gs)" using mw by (simp del: mset_filter)
      ultimately have "groups_ok ?new \<and> map_of (idx ?new) = (map_of (idx ?gs))(fre_key e \<mapsto> (Some new, fre_addr e)) \<and>
          set (ents ?new) = set (ents ?gs)"
        using so(3,4) new by (intro finish) auto
      moreover have "LFU_promote new e before g after = Inr (?new, new)"
      proof -
        have f1: "1 \<le> fre g" using so(3) by simp
        from fits False True show ?thesis by (simp add: LFU_promote_def li dl pushForward_new [OF f1] split: if_splits)
      qed
      ultimately show ?thesis using f by (intro exI [of _ ?new] exI [of _ new]) auto
    qed
  next
    case False
    then obtain as h where h: "before = as @ [h]" "fre h \<le> fre g + 1" by (cases before rule: rev_cases) auto
    then have fh: "fre h = fre g + 1" using sp(1) [of h] by simp
    have a: "fre g + 1 < fre d" if "d \<in> set as" for d using so(1) h that fh by (auto simp: sorted_wrt_append)
    note f = fl [OF h(1) a]
    let ?rest = "if ?es = [] then after else g\<lparr>ln_list := ?es\<rparr> # after"
    let ?new = "as @ h\<lparr>ln_list := e # ln_list h\<rparr> # ?rest"
    have "\<forall>x \<in> set as. fre h < fre x \<and> fre g < fre x \<and> (\<forall>y \<in> set after. fre y < fre x)" "\<forall>y \<in> set after. fre y < fre h \<and> fre y < fre g"
      using a sp(2) fh by fastforce+
    then have "sorted_wrt (\<lambda>g h. fre g > fre h) ?new" using so(1,2) h(1) fh by (simp add: sorted_wrt_append)
    moreover have "set (idx ?new) = insert (fre_key e, Some (ln_addr h), fre_addr e) {p \<in> set (idx ?gs). fst p \<noteq> fre_key e}"
    proof -
      have "set (idx ?rest) = (\<lambda>d. (fre_key d, Some (ln_addr g), fre_addr d)) ` {d \<in> set (ln_list g). fre_key d \<noteq> fre_key e} \<union> set (idx after)"
        by (auto simp: filter_empty_conv)
      then show ?thesis unfolding iw unfolding h(1) by (simp add: Un_assoc)
    qed
    moreover have "mset (ents ?new) = mset (ents ?gs)" using mw unfolding h(1) by (cases "?es = []") (simp_all del: mset_filter)
    ultimately have "groups_ok ?new \<and> map_of (idx ?new) = (map_of (idx ?gs))(fre_key e \<mapsto> (Some (ln_addr h), fre_addr e)) \<and>
        set (ents ?new) = set (ents ?gs)"
      using so(3,4) h(1) by (intro finish) auto
    moreover have "LFU_promote new e before g after = Inr (?new, ln_addr h)"
      using False h fh dl by (simp add: LFU_promote_def li Let_def isEmpty_def group_pushFront_def)
    moreover have "flat ?new = place snd ?x ?old" using f fh h(1) by auto
    ultimately show ?thesis using h(1) by (intro exI [of _ ?new] exI [of _ "ln_addr h"]) auto
  qed
qed

lemma LFU_link_groups:
  assumes ok: "groups_ok gs" and fresh: "fre_key e \<notin> fre_key ` set (ents gs)" "fre_addr e \<notin> fre_addr ` set (ents gs)" "new \<notin> ln_addr ` set gs"
  shows "\<exists>as g a. LFU_link new e gs = Inr (as @ [g], a) \<and> groups_ok (as @ [g]) \<and> fre g = 1 \<and> ln_list g \<noteq> [] \<and>
    flat (as @ [g]) = place snd (fre_key e, 1) (flat gs) \<and> map_of (idx (as @ [g])) = (map_of (idx gs))(fre_key e \<mapsto> (Some a, fre_addr e)) \<and>
    ln_addr ` set (as @ [g]) \<subseteq> insert new (ln_addr ` set gs) \<and> set (ents (as @ [g])) = insert e (set (ents gs))"
proof -
  have di: "distinct (map fst (idx gs))" using ok unfolding map_fst_lists groups_ok_def by blast
  have nk: "{p \<in> set (idx gs). fst p \<noteq> fre_key e} = set (idx gs)"
    using fresh(1) unfolding idx_keys [symmetric] by force
  have pl: "place snd (fre_key e, 1) (flat as @ map (\<lambda>d. (fre_key d, 1)) es) = flat as @ (fre_key e, 1) # map (\<lambda>d. (fre_key d, 1)) es"
    if "\<And>h. h \<in> set as \<Longrightarrow> 1 < fre h" for as es
    using that flat_fre [of _ _ as] by (intro place_between) fastforce+
  show ?thesis
  proof (cases "gs \<noteq> [] \<and> fre (last gs) = 1")
    case True
    then obtain as g where gs: "gs = as @ [g]" "fre g = 1" by (cases gs rule: rev_cases) auto
    have o: "groups_ok (as @ [group_pushFront e g])" using ok fresh gs by (auto simp: groups_ok_def group_pushFront_def sorted_wrt_append)
    then have "distinct (map fst (idx (as @ [group_pushFront e g])))" unfolding map_fst_lists groups_ok_def by blast
    moreover have "set (idx (as @ [group_pushFront e g])) = insert (fre_key e, Some (ln_addr g), fre_addr e) {p \<in> set (idx gs). fst p \<noteq> fre_key e}"
      unfolding nk by (simp add: gs(1) group_pushFront_def)
    ultimately have "map_of (idx (as @ [group_pushFront e g])) = (map_of (idx gs))(fre_key e \<mapsto> (Some (ln_addr g), fre_addr e))"
      by (rule map_of_replace [OF di])
    moreover have "1 < fre h" if "h \<in> set as" for h using ok that gs by (auto simp: groups_ok_def sorted_wrt_append)
    then have "place snd (fre_key e, 1) (flat as @ map (\<lambda>d. (fre_key d, 1)) (ln_list g)) = flat as @ (fre_key e, 1) # map (\<lambda>d. (fre_key d, 1)) (ln_list g)"
      by (rule pl)
    ultimately show ?thesis using o gs
      by (intro exI [of _ as] exI [of _ "group_pushFront e g"] exI [of _ "ln_addr g"]) (auto simp: LFU_link_def group_pushFront_def)
  next
    case False
    let ?g = "\<lparr>ln_addr = new, fre = 1, ln_list = [e]\<rparr>"
    have f: "1 < fre h" if "h \<in> set gs" for h
      using ok that False by (cases gs rule: rev_cases) (fastforce simp: groups_ok_def sorted_wrt_append)+
    then have o: "groups_ok (gs @ [?g])" using ok fresh by (auto simp: groups_ok_def sorted_wrt_append)
    then have "distinct (map fst (idx (gs @ [?g])))" unfolding map_fst_lists groups_ok_def by blast
    moreover have "set (idx (gs @ [?g])) = insert (fre_key e, Some new, fre_addr e) {p \<in> set (idx gs). fst p \<noteq> fre_key e}"
      unfolding nk by simp
    ultimately have "map_of (idx (gs @ [?g])) = (map_of (idx gs))(fre_key e \<mapsto> (Some new, fre_addr e))"
      by (rule map_of_replace [OF di])
    with o pl [of gs "[]", OF f] False show ?thesis
      by (intro exI [of _ gs] exI [of _ ?g] exI [of _ new]) (auto simp: LFU_link_def pushForward_def group_pushFront_def ListNode_new_def)
  qed
qed

lemma LFU_evict_groups:
  assumes ok: "groups_ok (as @ [g])" and l: "ln_list g \<noteq> []"
  shows "groups_ok (as @ [drop_fre (fre_addr (last (ln_list g))) g])"
    "flat (as @ [drop_fre (fre_addr (last (ln_list g))) g]) = butlast (flat (as @ [g]))"
    "map_of (idx (as @ [drop_fre (fre_addr (last (ln_list g))) g])) = (map_of (idx (as @ [g])))(fre_key (last (ln_list g)) := None)"
    "fst (last (flat (as @ [g]))) = fre_key (last (ln_list g))" "flat (as @ [g]) \<noteq> []"
    "set (ents (as @ [drop_fre (fre_addr (last (ln_list g))) g])) \<subseteq> set (ents (as @ [g]))"
proof -
  obtain es t where t: "ln_list g = es @ [t]" using l by (cases "ln_list g" rule: rev_cases) auto
  have "fre_addr t \<notin> fre_addr ` set es" using ok t by (auto simp: groups_ok_def)
  then have "filter (\<lambda>d. fre_addr d \<noteq> fre_addr t) es = es" by (rule filter_absent)
  then have d: "drop_fre (fre_addr (last (ln_list g))) g = g\<lparr>ln_list := es\<rparr>" using t by (simp add: drop_fre_def)
  show "groups_ok (as @ [drop_fre (fre_addr (last (ln_list g))) g])" unfolding d using ok t by (auto simp: groups_ok_def sorted_wrt_append)
  show "flat (as @ [drop_fre (fre_addr (last (ln_list g))) g]) = butlast (flat (as @ [g]))" unfolding d using t by (simp add: butlast_append)
  show "fst (last (flat (as @ [g]))) = fre_key (last (ln_list g))" "flat (as @ [g]) \<noteq> []"
    "set (ents (as @ [drop_fre (fre_addr (last (ln_list g))) g])) \<subseteq> set (ents (as @ [g]))" unfolding d using t by auto
  have k: "fre_key t \<notin> fst ` set (idx as @ map (\<lambda>e. (fre_key e, Some (ln_addr g), fre_addr e)) es)"
  proof -
    show ?thesis using ok t by (auto simp: groups_ok_def image_Un image_image idx_keys)
  qed
  show "map_of (idx (as @ [drop_fre (fre_addr (last (ln_list g))) g])) = (map_of (idx (as @ [g])))(fre_key (last (ln_list g)) := None)"
    unfolding d using t map_of_drop_last [OF k, of "(Some (ln_addr g), fre_addr t)"] by simp
qed

section \<open>The cache\<close>

definition LFU_inv :: "('v, 'm) lfu_table \<Rightarrow> 'm LFUCache \<Rightarrow> bool" where
  "LFU_inv H c \<longleftrightarrow> groups_ok (lfu_lists c) \<and>
     (\<forall>k. map_option (\<lambda>hv. (lfu_listNode hv, lfu_freNode hv)) (chm_find H (lfu_map c) k) = map_of (idx (lfu_lists c)) k) \<and>
     (\<forall>a \<in> ln_addr ` set (lfu_lists c). a < lfu_next c) \<and> (\<forall>a \<in> fre_addr ` set (ents (lfu_lists c)). a < lfu_next c) \<and>
     unat (lfu_s c) = length (flat (lfu_lists c)) \<and> length (flat (lfu_lists c)) \<le> unat (lfu_n c)"

definition LFU_abs :: "('v, 'm) lfu_table \<Rightarrow> 'm LFUCache \<Rightarrow> 'v lfu_contents" where
  "LFU_abs H c = map (\<lambda>(k, f). (k, f, lfu_val (the (chm_find H (lfu_map c) k)))) (flat (lfu_lists c))"

lemma map_of_triples: "map_of (map (\<lambda>(k, f). (k, f, V k)) xs) k = map_option (\<lambda>f. (f, V k)) (map_of xs k)"
  by (induction xs) auto

lemma filter_triples:
  "filter (\<lambda>y. fst y \<noteq> k) (map (\<lambda>(k, f). (k, f, V k)) xs) = map (\<lambda>(k, f). (k, f, V k)) (filter (\<lambda>y. fst y \<noteq> k) xs)"
  by (simp add: filter_map comp_def case_prod_beta)

lemma place_triples:
  "place freq (k, f, V k) (map (\<lambda>(k, f). (k, f, V k)) xs) = map (\<lambda>(k, f). (k, f, V k)) (place snd (k, f) xs)"
  using place_map [of freq "\<lambda>(k, f). (k, f, V k)" snd "(k, f)" xs] by auto

lemma sorted_place:
  assumes "sorted_wrt (\<lambda>x y. f x \<ge> f y) xs"
  shows "sorted_wrt (\<lambda>x y. f x \<ge> f y) (place f x xs)"
proof -
  have "xs = takeWhile (\<lambda>y. f y > f x) xs @ dropWhile (\<lambda>y. f y > f x) xs" by simp
  then have s: "sorted_wrt (\<lambda>x y. f x \<ge> f y) (takeWhile (\<lambda>y. f y > f x) xs)" "sorted_wrt (\<lambda>x y. f x \<ge> f y) (dropWhile (\<lambda>y. f y > f x) xs)"
    "\<forall>a \<in> set (takeWhile (\<lambda>y. f y > f x) xs). \<forall>b \<in> set (dropWhile (\<lambda>y. f y > f x) xs). f b \<le> f a"
    using assms by (metis sorted_wrt_append)+
  have "f b \<le> f x" if "b \<in> set (dropWhile (\<lambda>y. f y > f x) xs)" for b
  proof (cases "dropWhile (\<lambda>y. f y > f x) xs")
    case (Cons d ds)
    then have "\<not> f d > f x" by (metis hd_dropWhile list.distinct(1) list.sel(1))
    with s(2) Cons that show ?thesis by force
  next
    case Nil
    with that show ?thesis by (simp only: list.set empty_iff)
  qed
  moreover have "f x \<le> f a" if "a \<in> set (takeWhile (\<lambda>y. f y > f x) xs)" for a using set_takeWhileD [OF that] by simp
  ultimately show ?thesis using s by (auto simp: place_def sorted_wrt_append)
qed

lemma length_place [simp]: "length (place f x xs) = Suc (length xs)"
  by (simp add: place_def) (metis length_append takeWhile_dropWhile_id)

lemma set_place [simp]: "set (place f x xs) = insert x (set xs)"
  unfolding place_def by (metis Un_insert_right list.simps(15) set_append takeWhile_dropWhile_id)

lemma mset_place: "mset (place f x xs) = add_mset x (mset xs)"
proof -
  have "mset xs = mset (takeWhile (\<lambda>y. f y > f x) xs @ dropWhile (\<lambda>y. f y > f x) xs)" by simp
  then show ?thesis unfolding place_def mset_append by simp
qed

text \<open>An operation increases a frequency by at most 1.\<close>

lemma lfu_step_bound:
  assumes "\<forall>y \<in> set xs. freq y \<le> m" "0 \<le> m"
  shows "\<forall>y \<in> set (snd (lfu_step cap x xs)). freq y \<le> m + 1"
proof (cases x)
  case (Find e k)
  show ?thesis
  proof (cases "map_of xs k")
    case (Some p)
    then have "freq (k, p) \<le> m" using assms(1) map_of_SomeD [OF Some] by blast
    then show ?thesis using assms(1) Some by (force simp: Find lfu_find_def split: prod.splits)
  qed (use assms(1) in \<open>force simp: Find lfu_find_def\<close>)
next
  case (Insert e k v)
  have "\<forall>y \<in> set (place freq (k, 1, v) xs). freq y \<le> m + 1" using assms by force
  then have "\<forall>y \<in> set (butlast (place freq (k, 1, v) xs)). freq y \<le> m + 1" by (meson in_set_butlastD)
  moreover have "\<forall>y \<in> set xs. freq y \<le> m + 1" using assms(1) by force
  ultimately show ?thesis using \<open>\<forall>y \<in> set (place freq (k, 1, v) xs). freq y \<le> m + 1\<close>
    by (cases "map_of xs k = None"; cases "length xs < cap") (simp_all only: Insert lfu_insert_def lfu_step.simps snd_conv if_True if_False simp_thms)
qed (use assms in force)+

locale lfu_cache = concurrent_hash_map H for H :: "('v, 'm) lfu_table"
begin

lemma LFU_inv_new: "LFU_inv H (LFUCache_new H n)" "LFU_abs H (LFUCache_new H n) = []"
  by (simp_all add: LFU_inv_def LFU_abs_def LFUCache_new_def reset_stat_def find_init groups_ok_def)

lemma LFU_clear_refines:
  assumes "LFU_inv H c"
  shows "LFU_inv H (LFUCache_clear H c)" "LFU_abs H (LFUCache_clear H c) = []" "lfu_n (LFUCache_clear H c) = lfu_n c"
  by (simp_all add: LFU_inv_def LFU_abs_def LFUCache_clear_def find_clear groups_ok_def)

text \<open>A lookup fails only when the frequency of a key does not fit into an \<open>int\<close>.\<close>

lemma LFU_find_refines:
  assumes i: "LFU_inv H c" and fits: "\<forall>x \<in> set (LFU_abs H c). freq x + 1 < 2 ^ 31 \<or> (\<exists>r. LFUCache_find H sample c k = Inr r)"
  shows "\<exists>c'. LFUCache_find H sample c k = Inr (fst (lfu_find k (LFU_abs H c)), c') \<and> LFU_inv H c' \<and>
    LFU_abs H c' = snd (lfu_find k (LFU_abs H c)) \<and> lfu_n c' = lfu_n c"
proof -
  let ?gs = "lfu_lists c"
  have ok: "groups_ok ?gs" and ix: "\<And>k. map_option (\<lambda>hv. (lfu_listNode hv, lfu_freNode hv)) (chm_find H (lfu_map c) k) = map_of (idx ?gs) k"
    and ad: "\<forall>a \<in> ln_addr ` set ?gs. a < lfu_next c" "\<forall>a \<in> fre_addr ` set (ents ?gs). a < lfu_next c"
    and sz: "unat (lfu_s c) = length (flat ?gs)" "length (flat ?gs) \<le> unat (lfu_n c)" using i by (auto simp: LFU_inv_def)
  have dist: "distinct (map fre_key (ents ?gs))" using ok by (simp add: groups_ok_def)
  show ?thesis
  proof (cases "chm_find H (lfu_map c) k")
    case None
    then have "map_of (idx ?gs) k = None" using ix [of k] by simp
    then have "map_of (flat ?gs) k = None" by (simp add: map_of_eq_None_iff idx_keys flat_keys)
    with None i show ?thesis
      by (auto simp: LFUCache_find_def lfu_find_def LFU_abs_def LFU_inv_def map_of_triples)
  next
    case (Some hv)
    then have "map_of (idx ?gs) k = Some (lfu_listNode hv, lfu_freNode hv)" using ix [of k] by simp
    from map_of_SomeD [OF this] obtain g e where g: "g \<in> set ?gs" "e \<in> set (ln_list g)" "fre_key e = k"
      "lfu_listNode hv = Some (ln_addr g)" "lfu_freNode hv = fre_addr e" by (auto simp: idx_in_group)
    have "distinct (map ln_addr ?gs)" using ok by (simp add: groups_ok_def)
    from group_at_split [OF this g(1)] obtain before after where
      at: "group_at (ln_addr g) ?gs = Some (before, g, after)" "?gs = before @ g # after" by blast
    have e: "e = \<lparr>fre_addr = lfu_freNode hv, fre_key = k\<rparr>" using g(3,5) by (cases e) simp
    have il: "fre_isInList (lfu_freNode hv) g" using g(2,5) by (auto simp: fre_isInList_def)
    have fk: "(k, fre g) \<in> set (flat ?gs)" unfolding at(2) using g(2,3) by force
    then have "\<exists>x \<in> set (LFU_abs H c). freq x = fre g" by (force simp: LFU_abs_def)
    then have "fre g + 1 < 2 ^ 31 \<or> (\<exists>r. LFUCache_find H sample c k = Inr r)" using fits by force
    then obtain r where r: "LFU_promote (lfu_next c) e before g after = Inr r"
      using LFU_promote_fits [OF ok [unfolded at(2)] g(2), of "lfu_next c"] Some g(4) at(1) il
      by (auto simp: LFUCache_find_def r_bind_eq_Inr e [symmetric])
    have "lfu_next c \<notin> ln_addr ` set ?gs" using ad(1) by blast
    from LFU_promote_groups [OF ok [unfolded at(2)] g(2) this [unfolded at(2)] r] obtain gs a where
      p: "LFU_promote (lfu_next c) e before g after = Inr (gs, a)" "groups_ok gs"
        "flat gs = place snd (k, fre g + 1) (filter (\<lambda>p. fst p \<noteq> k) (flat ?gs))"
        "map_of (idx gs) = (map_of (idx ?gs))(k \<mapsto> (Some a, fre_addr e))"
        "ln_addr ` set gs \<subseteq> insert (lfu_next c) (ln_addr ` set ?gs)" "set (ents gs) = set (ents ?gs)"
      unfolding at(2) g(3) by blast
    have mk: "map_of (flat ?gs) k = Some (fre g)" using dist fk by (intro map_of_is_SomeI) simp_all
    define c1 where "c1 = c\<lparr>lfu_lists := gs, lfu_next := lfu_next c + 1, lfu_map := chm_assign H (lfu_map c) k (hv\<lparr>lfu_listNode := Some a\<rparr>)\<rparr>"
    define c2 where "c2 = (if sample then c1\<lparr>hit_num := hit_num c1 + 1\<rparr> else c1)"
    have fields: "lfu_lists c2 = gs" "lfu_next c2 = lfu_next c + 1" "lfu_s c2 = lfu_s c" "lfu_n c2 = lfu_n c"
      "chm_find H (lfu_map c2) = (chm_find H (lfu_map c))(k \<mapsto> hv\<lparr>lfu_listNode := Some a\<rparr>)"
      using find_assign [of "lfu_map c" k] Some by (simp_all add: c2_def c1_def)
    have len: "length (flat gs) = length (flat ?gs)" using groups_length [OF ok] groups_length [OF p(2)] p(6) by simp
    have "LFU_inv H c2"
      unfolding LFU_inv_def fields using p ix ad sz len Some g(4,5) by (auto simp: less_Suc_eq)
    moreover have "LFU_abs H c2 = snd (lfu_find k (LFU_abs H c))"
    proof -
      let ?V = "\<lambda>k. lfu_val (the (chm_find H (lfu_map c) k))"
      have "LFU_abs H c2 = map (\<lambda>(k, f). (k, f, ?V k)) (flat gs)"
        unfolding LFU_abs_def fields using Some by (intro map_cong) auto
      with p(3) mk show ?thesis
        by (simp add: lfu_find_def LFU_abs_def map_of_triples filter_triples place_triples [where V = ?V])
    qed
    moreover have "LFUCache_find H sample c k = Inr (fst (lfu_find k (LFU_abs H c)), c2)"
    proof -
      show ?thesis using Some g(4) at(1) p(1) mk e il
        by (simp add: LFUCache_find_def lfu_find_def LFU_abs_def map_of_triples c2_def c1_def)
    qed
    ultimately show ?thesis using fields(4) by blast
  qed
qed

lemma LFU_evict_refines:
  assumes ok: "groups_ok (as @ [g])" "ln_list g \<noteq> []" and l: "lfu_lists c = as @ [g]"
    and ix: "\<And>k. map_option (\<lambda>hv. (lfu_listNode hv, lfu_freNode hv)) (chm_find H (lfu_map c) k) = map_of (idx (as @ [g])) k"
    and ad: "\<forall>a \<in> ln_addr ` set (as @ [g]). a < lfu_next c" "\<forall>a \<in> fre_addr ` set (ents (as @ [g])). a < lfu_next c"
    and sz: "Suc (unat (lfu_s c)) = length (flat (as @ [g]))" "unat (lfu_s c) \<le> unat (lfu_n c)"
  shows "\<exists>c'. LFU_evict H c = Inr (True, c') \<and> LFU_inv H c' \<and> LFU_abs H c' = butlast (LFU_abs H c) \<and> lfu_n c' = lfu_n c"
proof -
  let ?t = "last (ln_list g)"
  let ?gs = "as @ [drop_fre (fre_addr ?t) g]"
  note e = LFU_evict_groups [OF ok]
  have "fre_key ?t \<in> fst ` set (idx (as @ [g]))" unfolding idx_keys using ok(2) by simp
  then have "map_of (idx (as @ [g])) (fre_key ?t) \<noteq> None" by (metis map_of_eq_None_iff)
  then obtain hv where hv: "chm_find H (lfu_map c) (fre_key ?t) = Some hv" using ix [of "fre_key ?t"] by force
  define c' where "c' = c\<lparr>lfu_lists := ?gs, lfu_map := snd (chm_erase H (lfu_map c) (fre_key ?t))\<rparr>"
  have f: "lfu_lists c' = ?gs" "lfu_next c' = lfu_next c" "lfu_s c' = lfu_s c" "lfu_n c' = lfu_n c"
    "chm_find H (lfu_map c') = (chm_find H (lfu_map c))(fre_key ?t := None)" by (simp_all add: c'_def find_erase)
  have "delink_fre (fre_addr ?t) g = Inr (drop_fre (fre_addr ?t) g)" using ok(2) by (intro delink_in) simp
  then have "LFU_evict H c = Inr (True, c')" using hv ok(2) l by (simp add: LFU_evict_def Let_def isEmpty_def c'_def)
  moreover have "LFU_inv H c'"
    unfolding LFU_inv_def f using e ix ad sz by (auto simp: drop_fre_def)
  moreover have "LFU_abs H c' = butlast (LFU_abs H c)"
  proof -
    have "distinct (map fst (flat (as @ [g])))" using ok(1) unfolding map_fst_lists groups_ok_def by blast
    then have "fre_key ?t \<notin> fst ` set (butlast (flat (as @ [g])))"
      using last_not_butlast [OF _ e(5), of fst] unfolding e(4) by blast
    then have "LFU_abs H c' = map (\<lambda>(k, f). (k, f, lfu_val (the (chm_find H (lfu_map c) k)))) (butlast (flat (as @ [g])))"
      unfolding LFU_abs_def f e(2) by (intro map_cong refl) force
    then show ?thesis unfolding LFU_abs_def l by (simp add: map_butlast)
  qed
  ultimately show ?thesis using f(4) by blast
qed

lemma LFU_insert_refines:
  assumes i: "LFU_inv H c"
  shows "\<exists>c'. LFUCache_insert H c k v = Inr (fst (lfu_insert (unat (lfu_n c)) k v (LFU_abs H c)), c') \<and> LFU_inv H c' \<and>
    LFU_abs H c' = snd (lfu_insert (unat (lfu_n c)) k v (LFU_abs H c)) \<and> lfu_n c' = lfu_n c"
proof -
  let ?gs = "lfu_lists c" and ?n = "lfu_next c"
  let ?hv = "\<lparr>lfu_val = v, lfu_listNode = None, lfu_freNode = ?n\<rparr>"
  have ok: "groups_ok ?gs" and ix: "\<And>k. map_option (\<lambda>hv. (lfu_listNode hv, lfu_freNode hv)) (chm_find H (lfu_map c) k) = map_of (idx ?gs) k"
    and ad: "\<forall>a \<in> ln_addr ` set ?gs. a < ?n" "\<forall>a \<in> fre_addr ` set (ents ?gs). a < ?n"
    and sz: "unat (lfu_s c) = length (flat ?gs)" "length (flat ?gs) \<le> unat (lfu_n c)" using i by (auto simp: LFU_inv_def)
  have mem: "chm_find H (lfu_map c) k = None \<longleftrightarrow> k \<notin> fre_key ` set (ents ?gs)"
    using ix [of k] map_of_eq_None_iff [of "idx ?gs" k] unfolding idx_keys by (cases "chm_find H (lfu_map c) k") auto
  have mem': "map_of (LFU_abs H c) k = None \<longleftrightarrow> k \<notin> fre_key ` set (ents ?gs)"
    by (simp add: LFU_abs_def map_of_triples map_of_eq_None_iff flat_keys)
  show ?thesis
  proof (cases "chm_find H (lfu_map c) k")
    case (Some hv)
    obtain m where m: "chm_insert H (lfu_map c) k ?hv = (False, m)" "chm_find H m = chm_find H (lfu_map c)"
      using insert_old [of "lfu_map c" k ?hv] Some by (cases "chm_insert H (lfu_map c) k ?hv") auto
    have "map_of (LFU_abs H c) k \<noteq> None" using Some mem mem' by auto
    with m i show ?thesis
      by (auto simp: LFUCache_insert_def lfu_insert_def LFU_inv_def LFU_abs_def less_Suc_eq)
  next
    case None
    obtain m where m: "chm_insert H (lfu_map c) k ?hv = (True, m)" "chm_find H m = (chm_find H (lfu_map c))(k \<mapsto> ?hv)"
      using insert_new [of "lfu_map c" k ?hv] None by (cases "chm_insert H (lfu_map c) k ?hv") auto
    let ?e = "\<lparr>fre_addr = ?n, fre_key = k\<rparr>"
    have "fre_key ?e \<notin> fre_key ` set (ents ?gs)" using None mem by simp
    moreover have "fre_addr ?e \<notin> fre_addr ` set (ents ?gs)" using ad(2) by fastforce
    moreover have "?n + 1 \<notin> ln_addr ` set ?gs" using ad(1) by fastforce
    ultimately have fr: "fre_key ?e \<notin> fre_key ` set (ents ?gs)" "fre_addr ?e \<notin> fre_addr ` set (ents ?gs)" "?n + 1 \<notin> ln_addr ` set ?gs" by simp_all
    obtain as g a where g: "LFU_link (?n + 1) ?e ?gs = Inr (as @ [g], a)" "groups_ok (as @ [g])" "fre g = 1" "ln_list g \<noteq> []"
      "flat (as @ [g]) = place snd (k, 1) (flat ?gs)" "map_of (idx (as @ [g])) = (map_of (idx ?gs))(k \<mapsto> (Some a, ?n))"
      "ln_addr ` set (as @ [g]) \<subseteq> insert (?n + 1) (ln_addr ` set ?gs)" "set (ents (as @ [g])) = insert ?e (set (ents ?gs))"
      using LFU_link_groups [OF ok fr] by auto
    define c1 where "c1 = c\<lparr>lfu_lists := as @ [g], lfu_next := ?n + 2, lfu_map := chm_assign H m k (?hv\<lparr>lfu_listNode := Some a\<rparr>)\<rparr>"
    have f: "lfu_lists c1 = as @ [g]" "lfu_next c1 = ?n + 2" "lfu_s c1 = lfu_s c" "lfu_n c1 = lfu_n c"
      "chm_find H (lfu_map c1) = (chm_find H (lfu_map c))(k \<mapsto> ?hv\<lparr>lfu_listNode := Some a\<rparr>)"
      using find_assign [of m k] m(2) by (simp_all add: c1_def)
    have r: "LFUCache_insert H c k v = (if lfu_s c < lfu_n c then Inr (True, c1\<lparr>lfu_s := lfu_s c1 + 1\<rparr>) else LFU_evict H c1)"
      using m(1) g(1) sz f by (simp add: LFUCache_insert_def c1_def Let_def word_le_nat_alt)
    have ix1: "\<And>j. map_option (\<lambda>hv. (lfu_listNode hv, lfu_freNode hv)) (chm_find H (lfu_map c1) j) = map_of (idx (as @ [g])) j"
      unfolding f(5) g(6) using ix by simp
    have ad1: "\<forall>a \<in> ln_addr ` set (as @ [g]). a < lfu_next c1" "\<forall>a \<in> fre_addr ` set (ents (as @ [g])). a < lfu_next c1"
      unfolding f(2) g(8) using ad g(7) by fastforce+
    have abs1: "LFU_abs H c1 = place freq (k, 1, v) (LFU_abs H c)"
    proof -
      let ?V = "\<lambda>k. lfu_val (the (chm_find H (lfu_map c1) k))"
      have "map (\<lambda>(k, f). (k, f, ?V k)) (flat ?gs) = LFU_abs H c"
        unfolding LFU_abs_def f(5) using fr(1) flat_keys [of ?gs] by (intro map_cong refl) force
      then show ?thesis using place_triples [of k 1 ?V "flat ?gs"]
        unfolding LFU_abs_def [of H c1] f(1) g(5) by (simp add: f(5))
    qed
    have len: "length (flat (as @ [g])) = Suc (length (flat ?gs))" unfolding g(5) by simp
    have la: "length (LFU_abs H c) = unat (lfu_s c)" using sz by (simp add: LFU_abs_def)
    have ab: "map_of (LFU_abs H c) k = None" using None mem mem' by auto
    show ?thesis
    proof (cases "lfu_s c < lfu_n c")
      case True
      let ?c = "c1\<lparr>lfu_s := lfu_s c1 + 1\<rparr>"
      have "unat (lfu_s c + 1) = Suc (unat (lfu_s c))" using True by (intro unat_inc) (simp add: word_less_nat_alt)
      then have "LFU_inv H ?c" unfolding LFU_inv_def using g(2) ix1 ad1 sz len True by (simp add: f word_less_nat_alt)
      moreover have "LFU_abs H ?c = LFU_abs H c1" by (simp add: LFU_abs_def)
      ultimately show ?thesis using True r ab abs1 la f(4) by (simp add: lfu_insert_def word_less_nat_alt)
    next
      case False
      obtain c' where "LFU_evict H c1 = Inr (True, c')" "LFU_inv H c'" "LFU_abs H c' = butlast (LFU_abs H c1)" "lfu_n c' = lfu_n c1"
        using LFU_evict_refines [OF g(2,4) f(1) ix1 ad1] sz len f by auto
      with False r ab abs1 la f(4) show ?thesis by (simp add: lfu_insert_def word_less_nat_alt)
    qed
  qed
qed

lemma LFU_step_refines:
  assumes i: "LFU_inv H c" and fits: "\<forall>y \<in> set (LFU_abs H c). freq y + 1 < 2 ^ 31 \<or> (\<exists>r. api_step (LFUCache_ops H) x c = Some (Inr r))"
  shows "\<exists>c'. api_step (LFUCache_ops H) x c = Some (Inr (fst (lfu_step (unat (lfu_n c)) x (LFU_abs H c)), c')) \<and>
    LFU_inv H c' \<and> LFU_abs H c' = snd (lfu_step (unat (lfu_n c)) x (LFU_abs H c)) \<and> lfu_n c' = lfu_n c"
proof (cases x)
  case (Find e k)
  have "(\<exists>r. api_step (LFUCache_ops H) x c = Some (Inr r)) = (\<exists>r. LFUCache_find H e c k = Inr r)"
    by (auto simp: Find LFUCache_ops_def r_bind_eq_Inr)
  then show ?thesis using Find LFU_find_refines [OF i, of e k] fits by (auto simp: LFUCache_ops_def)
next
  case (Insert e k v)
  then show ?thesis using LFU_insert_refines [OF i, of k v] by (auto simp: LFUCache_ops_def)
next
  case Clear
  then show ?thesis using LFU_clear_refines [OF i] by (simp add: LFUCache_ops_def)
next
  case Size
  then show ?thesis using i by (simp add: LFUCache_ops_def LFUCache_size_def LFU_inv_def LFU_abs_def)
qed (use i in \<open>simp_all add: LFUCache_ops_def\<close>)

text \<open>A run that has returned, and a run that is short enough.\<close>

lemma LFU_run_partial:
  assumes "LFU_inv H c" "api_run (LFUCache_ops H) xs c = Some (Inr (outs, c'))"
  shows "outs = fst (lfu_run (unat (lfu_n c)) xs (LFU_abs H c)) \<and> LFU_inv H c' \<and>
    LFU_abs H c' = snd (lfu_run (unat (lfu_n c)) xs (LFU_abs H c)) \<and> lfu_n c' = lfu_n c"
  using assms
proof (induction xs arbitrary: c outs)
  case (Cons x xs)
  obtain r where r: "api_step (LFUCache_ops H) x c = Some (Inr r)" using Cons.prems(2) by (auto split: option.splits sum.splits)
  obtain c1 where c1: "api_step (LFUCache_ops H) x c = Some (Inr (fst (lfu_step (unat (lfu_n c)) x (LFU_abs H c)), c1))"
    "LFU_inv H c1" "LFU_abs H c1 = snd (lfu_step (unat (lfu_n c)) x (LFU_abs H c))" "lfu_n c1 = lfu_n c"
    using LFU_step_refines [OF Cons.prems(1)] r by blast
  obtain outs1 where "api_run (LFUCache_ops H) xs c1 = Some (Inr (outs1, c'))" "outs = fst (lfu_step (unat (lfu_n c)) x (LFU_abs H c)) # outs1"
    using Cons.prems(2) c1(1) by (auto simp: r_bind_eq_Inr)
  from Cons.IH [OF c1(2) this(1)] this(2) c1 show ?case by (auto simp: case_prod_beta Let_def)
qed simp

lemma LFU_run_refines:
  assumes "LFU_inv H c" "\<forall>y \<in> set (LFU_abs H c). freq y \<le> m" "0 \<le> m" "m + int (length xs) < 2 ^ 31"
  shows "\<exists>c'. api_run (LFUCache_ops H) xs c = Some (Inr (fst (lfu_run (unat (lfu_n c)) xs (LFU_abs H c)), c')) \<and>
    LFU_inv H c' \<and> LFU_abs H c' = snd (lfu_run (unat (lfu_n c)) xs (LFU_abs H c)) \<and> lfu_n c' = lfu_n c"
  using assms
proof (induction xs arbitrary: c m)
  case (Cons x xs)
  have "\<forall>y \<in> set (LFU_abs H c). freq y + 1 < 2 ^ 31" using Cons.prems(2,4) by force
  then obtain c1 where c1: "api_step (LFUCache_ops H) x c = Some (Inr (fst (lfu_step (unat (lfu_n c)) x (LFU_abs H c)), c1))"
    "LFU_inv H c1" "LFU_abs H c1 = snd (lfu_step (unat (lfu_n c)) x (LFU_abs H c))" "lfu_n c1 = lfu_n c"
    using LFU_step_refines [OF Cons.prems(1)] by blast
  have "\<forall>y \<in> set (LFU_abs H c1). freq y \<le> m + 1" unfolding c1(3) by (rule lfu_step_bound [OF Cons.prems(2,3)])
  from Cons.IH [OF c1(2) this] c1 Cons.prems(3,4) show ?case by (auto simp: case_prod_beta Let_def)
qed simp

lemma LFU_run_new:
  assumes "length xs < 2 ^ 31"
  shows "\<exists>c'. api_run (LFUCache_ops H) xs (LFUCache_new H n) = Some (Inr (fst (lfu_run (unat n) xs []), c')) \<and>
    LFU_inv H c' \<and> LFU_abs H c' = snd (lfu_run (unat n) xs []) \<and> lfu_n c' = n"
proof -
  have "lfu_n (LFUCache_new H n) = n" by (simp add: LFUCache_new_def reset_stat_def)
  moreover have "int (length xs) < 2 ^ 31" using assms by simp
  ultimately show ?thesis using LFU_run_refines [OF LFU_inv_new(1), of n 0 xs] by (simp add: LFU_inv_new(2))
qed

lemma LFU_run_inv:
  assumes "api_run (LFUCache_ops H) xs (LFUCache_new H n) = Some (Inr (outs, c))"
  shows "LFU_inv H c" "lfu_n c = n"
proof -
  have "lfu_n (LFUCache_new H n) = n" by (simp add: LFUCache_new_def reset_stat_def)
  with LFU_run_partial [OF LFU_inv_new(1) assms] show "LFU_inv H c" "lfu_n c = n" by simp_all
qed

text \<open>The contents are sorted by falling frequency, which is at least 1.\<close>

lemma LFU_abs_sorted:
  assumes "LFU_inv H c"
  shows "sorted_wrt (\<lambda>x y. freq x \<ge> freq y) (LFU_abs H c)" "x \<in> set (LFU_abs H c) \<Longrightarrow> 1 \<le> freq x"
proof -
  have ok: "groups_ok (lfu_lists c)" using assms by (simp add: LFU_inv_def)
  have "sorted_wrt (\<lambda>p q. snd p \<ge> snd q) (flat gs)" if "sorted_wrt (\<lambda>g h. fre g > fre h) gs" for gs
    using that
  proof (induction gs)
    case (Cons g gs)
    have "sorted_wrt (\<lambda>p q. snd p \<ge> snd q) (map (\<lambda>e. (fre_key e, fre g)) es)" for es by (induction es) auto
    with Cons show ?case using flat_fre [of _ _ gs] by (fastforce simp: sorted_wrt_append)
  qed simp
  with ok show "sorted_wrt (\<lambda>x y. freq x \<ge> freq y) (LFU_abs H c)"
    by (simp add: LFU_abs_def sorted_wrt_map groups_ok_def case_prod_beta)
  show "x \<in> set (LFU_abs H c) \<Longrightarrow> 1 \<le> freq x"
    using ok flat_fre [of _ _ "lfu_lists c"] by (fastforce simp: LFU_abs_def groups_ok_def)
qed

end

interpretation fun_lfu: lfu_cache fun_chm
  by unfold_locales

text \<open>
  C14. A new LFU cache of any capacity, over any hash map that behaves as documented: every sequence of less than \<open>2^31\<close>
  calls returns, without an error, what the specification returns, in which the keys are ordered by how
  often and, among equals, how recently they were used. The bound keeps the frequencies in the range of \<open>int\<close>, through which \<open>find\<close> passes them.
\<close>

theorem LFUCache_run_correct:
  assumes "concurrent_hash_map H" "length xs < 2 ^ 31"
  shows "\<exists>c'. api_run (LFUCache_ops H) xs (LFUCache_new H n) = Some (Inr (fst (lfu_run (unat n) xs []), c')) \<and>
    LFU_abs H c' = snd (lfu_run (unat n) xs [])"
  using lfu_cache.LFU_run_new [of H xs n] assms by (auto simp: lfu_cache_def)

theorem LFUCache_run_correct_witness:
  "\<exists>c'. api_run (LFUCache_ops fun_chm)
      [Insert True 1 ''a'', Insert True 2 ''b'', Find True 1, Insert True 3 ''c'', Find True 2, Find True 3, Find True 1, Size] (LFUCache_new fun_chm 2) =
    Some (Inr ([Inserted True, Inserted True, Found (Some ''a''), Inserted True, Found None, Found (Some ''c''), Found (Some ''a''), Count 2], c'))"
proof -
  let ?xs = "[Insert True 1 ''a'', Insert True 2 ''b'', Find True 1, Insert True 3 ''c'', Find True 2, Find True 3, Find True 1, Size]"
  have "fst (lfu_run (unat (2 :: size_t)) ?xs []) = [Inserted True, Inserted True, Found (Some ''a''), Inserted True, Found None,
      Found (Some ''c''), Found (Some ''a''), Count 2]" by code_simp
  with LFUCache_run_correct [OF fun_table.concurrent_hash_map_axioms, of ?xs 2] show ?thesis by (auto simp del: api_run.simps)
qed

text \<open>
  C15. An insertion of an absent key into a full LFU cache drops an entry of the smallest frequency among
  the stored entries and the new one, and nothing else.
\<close>

theorem LFUCache_evicts_least:
  assumes "concurrent_hash_map H" "api_run (LFUCache_ops H) xs (LFUCache_new H n) = Some (Inr (outs, c))"
    "length (LFU_abs H c) = unat n" "k \<notin> fst ` set (LFU_abs H c)"
  shows "\<exists>c' x. LFUCache_insert H c k v = Inr (True, c') \<and> add_mset x (mset (LFU_abs H c')) = add_mset (k, 1, v) (mset (LFU_abs H c)) \<and>
    list_all (\<lambda>y. freq x \<le> freq y) (LFU_abs H c')"
proof -
  have t: "lfu_cache H" using assms(1) by (simp add: lfu_cache_def)
  have i: "LFU_inv H c" "lfu_n c = n" by (rule lfu_cache.LFU_run_inv [OF t assms(2)])+
  let ?p = "place freq (k, 1, v) (LFU_abs H c)"
  have "map_of (LFU_abs H c) k = None" using assms(4) by (simp add: map_of_eq_None_iff)
  then obtain c' where c': "LFUCache_insert H c k v = Inr (True, c')" "LFU_inv H c'" "LFU_abs H c' = butlast ?p"
    using lfu_cache.LFU_insert_refines [OF t i(1), of k v] i(2) assms(3) by (auto simp: lfu_insert_def)
  have ne: "?p \<noteq> []" by (simp add: place_def)
  have m: "mset ?p = add_mset (k, 1, v) (mset (LFU_abs H c))" by (rule mset_place)
  have s: "sorted_wrt (\<lambda>x y. freq x \<ge> freq y) ?p"
    by (rule sorted_place [OF lfu_cache.LFU_abs_sorted(1) [OF t i(1)]])
  obtain ps x where ps: "?p = ps @ [x]" using ne by (metis append_butlast_last_id)
  have "add_mset x (mset (LFU_abs H c')) = add_mset (k, 1, v) (mset (LFU_abs H c))" using m by (simp add: c'(3) ps)
  moreover have "list_all (\<lambda>y. freq x \<le> freq y) (LFU_abs H c')"
    using s by (simp add: c'(3) ps sorted_wrt_append list_all_iff)
  ultimately show ?thesis using c'(1) by blast
qed

theorem LFUCache_evicts_least_witness:
  "\<exists>outs c c' x. api_run (LFUCache_ops fun_chm) [Insert True 1 ''a'', Insert True 2 ''b'', Find True 1] (LFUCache_new fun_chm 2) = Some (Inr (outs, c)) \<and>
    LFUCache_insert fun_chm c 3 ''c'' = Inr (True, c') \<and>
    add_mset x (mset (LFU_abs fun_chm c')) = {#(3, 1, ''c''), (1, 2, ''a''), (2, 1, ''b'')#} \<and>
    list_all (\<lambda>y. freq x \<le> freq y) (LFU_abs fun_chm c')"
proof -
  let ?xs = "[Insert True 1 ''a'', Insert True 2 ''b'', Find True 1]"
  have r: "snd (lfu_run (unat (2 :: size_t)) ?xs []) = [(1, 2, ''a''), (2, 1, ''b'')]" by code_simp
  obtain outs c where c: "api_run (LFUCache_ops fun_chm) ?xs (LFUCache_new fun_chm 2) = Some (Inr (outs, c))"
      "LFU_abs fun_chm c = [(1, 2, ''a''), (2, 1, ''b'')]"
    using fun_lfu.LFU_run_new [of ?xs 2] unfolding r by (auto simp del: api_run.simps)
  have "length (LFU_abs fun_chm c) = unat (2 :: size_t)" "3 \<notin> fst ` set (LFU_abs fun_chm c)" by (simp_all add: c(2))
  from LFUCache_evicts_least [OF fun_table.concurrent_hash_map_axioms c(1) this, of "''c''"] c
  show ?thesis by (auto simp del: api_run.simps)
qed

text \<open>
  A full LFU cache whose entries have all been found at least once does not take a new key:
  the insertion reports success, but the evicted entry is the one just linked and the contents are as before.
\<close>

theorem LFUCache_rejects_new:
  assumes "concurrent_hash_map H" "api_run (LFUCache_ops H) xs (LFUCache_new H n) = Some (Inr (outs, c))"
    "length (LFU_abs H c) = unat n" "k \<notin> fst ` set (LFU_abs H c)" "list_all (\<lambda>y. 2 \<le> freq y) (LFU_abs H c)"
  shows "\<exists>c'. LFUCache_insert H c k v = Inr (True, c') \<and> LFU_abs H c' = LFU_abs H c"
proof -
  have t: "lfu_cache H" using assms(1) by (simp add: lfu_cache_def)
  have i: "LFU_inv H c" "lfu_n c = n" by (rule lfu_cache.LFU_run_inv [OF t assms(2)])+
  have "map_of (LFU_abs H c) k = None" using assms(4) by (simp add: map_of_eq_None_iff)
  then obtain c' where c': "LFUCache_insert H c k v = Inr (True, c')" "LFU_abs H c' = butlast (place freq (k, 1, v) (LFU_abs H c))"
    using lfu_cache.LFU_insert_refines [OF t i(1), of k v] i(2) assms(3) by (auto simp: lfu_insert_def)
  have a: "\<forall>y \<in> set (LFU_abs H c). freq y > freq (k, 1, v)" using assms(5) by (auto simp: list_all_iff)
  then have "takeWhile (\<lambda>y. freq y > freq (k, 1, v)) (LFU_abs H c) = LFU_abs H c"
    "dropWhile (\<lambda>y. freq y > freq (k, 1, v)) (LFU_abs H c) = []"
    by (simp_all only: takeWhile_eq_all_conv dropWhile_eq_Nil_conv)
  then have "place freq (k, 1, v) (LFU_abs H c) = LFU_abs H c @ [(k, 1, v)]" by (simp only: place_def)
  then show ?thesis using c' by simp
qed

theorem LFUCache_rejects_new_witness:
  "\<exists>outs c c'. api_run (LFUCache_ops fun_chm) [Insert True 1 ''a'', Find True 1] (LFUCache_new fun_chm 1) = Some (Inr (outs, c)) \<and>
    LFUCache_insert fun_chm c 3 ''c'' = Inr (True, c') \<and> LFU_abs fun_chm c' = [(1, 2, ''a'')]"
proof -
  let ?xs = "[Insert True 1 ''a'', Find True 1]"
  have r: "snd (lfu_run (unat (1 :: size_t)) ?xs []) = [(1, 2, ''a'')]" by code_simp
  obtain outs c where c: "api_run (LFUCache_ops fun_chm) ?xs (LFUCache_new fun_chm 1) = Some (Inr (outs, c))"
      "LFU_abs fun_chm c = [(1, 2, ''a'')]"
    using fun_lfu.LFU_run_new [of ?xs 1] unfolding r by (auto simp del: api_run.simps)
  have "length (LFU_abs fun_chm c) = unat (1 :: size_t)" "3 \<notin> fst ` set (LFU_abs fun_chm c)"
    "list_all (\<lambda>y. 2 \<le> freq y) (LFU_abs fun_chm c)" by (simp_all add: c(2))
  from LFUCache_rejects_new [OF fun_table.concurrent_hash_map_axioms c(1) this, of "''c''"] c
  show ?thesis by (auto simp del: api_run.simps)
qed

end
