(* ===== verification/Redis_LRU.thy ===== *)
theory Redis_LRU
  imports Hash_Map Base_Cache Cache_API
begin

text \<open>
  \<open>Cache::RedisLRUCache\<close> of \<^verbatim>\<open>src/cache/redis_lru.h\<close>: the approximated LRU of Redis. A full cache
  samples stored keys with \<open>RandomizedSet\<close>, puts the idle ones into a pool of 16 candidates ordered by
  idle time, and evicts the candidate at the top of the pool. The random numbers and the clock readings of an
  eviction are arguments: \<open>draws r i\<close> and \<open>clock r i\<close> are those of the \<open>i\<close>-th sample in
  round \<open>r\<close>. The pool is an array of pointers to entries, kept as such: \<open>pool_slots\<close> holds the
  pointers, which \<open>memmove\<close> can duplicate. The objects with the access times are in a store, from which only \<open>clear\<close> and a
  refused insertion remove them.
\<close>

section \<open>RandomizedSet\<close>

text \<open>The position is an \<open>int\<close>, which an index expression converts to \<open>size_t\<close> with its sign.\<close>

record RandomizedSet =
  PositionMap :: "size_t \<rightharpoonup> uint32"
  vec :: "size_t list"

definition RandomizedSet_new :: RandomizedSet where
  "RandomizedSet_new = \<lparr>PositionMap = Map.empty, vec = []\<rparr>"

definition rs_insert :: "size_t \<Rightarrow> RandomizedSet \<Rightarrow> bool \<times> RandomizedSet" where
  "rs_insert key rs =
     (if PositionMap rs key \<noteq> None then (False, rs)
      else (True, \<lparr>PositionMap = (PositionMap rs)(key \<mapsto> of_nat (length (vec rs))), vec = vec rs @ [key]\<rparr>))"

definition swap_at :: "nat \<Rightarrow> nat \<Rightarrow> 'a list \<Rightarrow> 'a list" where
  "swap_at i j xs = xs[i := xs ! j, j := xs ! i]"

definition rs_remove :: "size_t \<Rightarrow> RandomizedSet \<Rightarrow> (bool \<times> RandomizedSet) result" where
  "rs_remove key rs =
     (case PositionMap rs key of
        None \<Rightarrow> Inr (False, rs)
      | Some p \<Rightarrow>
          let pos = unat (scast p :: size_t); v = vec rs
          in if \<not> pos < length v then Inl OutOfRange
             else Inr (True, \<lparr>PositionMap = (PositionMap rs)(last v \<mapsto> p, key := None), vec = butlast (swap_at pos (length v - 1) v)\<rparr>))"

definition rs_getRandom :: "uint32 \<Rightarrow> RandomizedSet \<Rightarrow> size_t result" where
  "rs_getRandom d rs =
     (let index = nat \<lfloor>to_double d / RAND_MAX * real (length (vec rs))\<rfloor>
      in if index < length (vec rs) then Inr (vec rs ! index) else Inl OutOfRange)"

section \<open>The state\<close>

record evictionPoolEntry =
  idle :: uint64
  pool_key :: size_t

record lru_object =
  lru :: uint32
  refcount :: int
  obj_key :: size_t

record 'v RedisValue =
  rv_value :: 'v
  rv_lru_object :: nat

type_synonym ('v, 'm) redis_table = "(size_t, 'v RedisValue, 'm) chm"

record 'm RedisLRUCache = BaseCacheAPI +
  rl_n :: size_t
  rl_s :: size_t
  rl_map :: 'm
  rl_rs :: RandomizedSet
  pool_slots :: "nat list"
  pool_entries :: "evictionPoolEntry list"
  rl_objects :: "nat \<rightharpoonup> lru_object"
  rl_next :: nat

definition EVICTION_POOL_SIZE :: nat where "EVICTION_POOL_SIZE = 16"

definition EVICTION_SAMPLE :: nat where "EVICTION_SAMPLE = 5"

definition LRU_CLOCK_MAX :: uint32 where "LRU_CLOCK_MAX = push_bit 24 1 - 1"

definition LRU_CLOCK_RESOLUTION :: uint64 where "LRU_CLOCK_RESOLUTION = 100"

text \<open>The clock counts microseconds in 64 bits; an object keeps the low 32 bits of it.\<close>

definition lru_object_new :: "uint64 \<Rightarrow> size_t \<Rightarrow> lru_object" where
  "lru_object_new now key = \<lparr>lru = ucast now, refcount = 0, obj_key = key\<rparr>"

definition estimateObjectIdleTime :: "uint64 \<Rightarrow> lru_object \<Rightarrow> uint64" where
  "estimateObjectIdleTime lruclock ob =
     (if lruclock \<ge> ucast (lru ob) then (lruclock - ucast (lru ob)) div LRU_CLOCK_RESOLUTION
      else (lruclock + ucast (LRU_CLOCK_MAX - lru ob)) div LRU_CLOCK_RESOLUTION)"

section \<open>The eviction pool\<close>

definition slot :: "nat list \<Rightarrow> evictionPoolEntry list \<Rightarrow> nat \<Rightarrow> evictionPoolEntry" where
  "slot slots es j = es ! (slots ! j)"

function pool_position :: "nat list \<Rightarrow> evictionPoolEntry list \<Rightarrow> uint64 \<Rightarrow> nat \<Rightarrow> nat" where
  "pool_position slots es t j =
     (if j < EVICTION_POOL_SIZE \<and> pool_key (slot slots es j) \<noteq> 0 \<and> idle (slot slots es j) < t
      then pool_position slots es t (j + 1) else j)"
  by pat_completeness auto
termination by (relation "measure (\<lambda>(_, _, _, j). EVICTION_POOL_SIZE - j)") auto

declare pool_position.simps [simp del]

definition memmove :: "nat \<Rightarrow> nat \<Rightarrow> nat \<Rightarrow> 'a list \<Rightarrow> 'a list" where
  "memmove dst src n xs = take dst xs @ take n (drop src xs) @ drop (dst + n) xs"

text \<open>
  Where the sample goes and what the array of pointers becomes: nowhere when it is less idle than all of a full pool;
  into a free slot; otherwise between two entries, moving the pointers on the right or, when the last slot
  is taken, those on the left.
\<close>

definition pool_shift :: "nat list \<Rightarrow> evictionPoolEntry list \<Rightarrow> uint64 \<Rightarrow> (nat \<times> nat list) option" where
  "pool_shift slots es t =
     (let j = pool_position slots es t 0; last_slot = slot slots es (EVICTION_POOL_SIZE - 1)
      in if j = 0 \<and> pool_key (slot slots es 0) \<noteq> 0 \<and> pool_key last_slot \<noteq> 0 then None
         else if j < EVICTION_POOL_SIZE \<and> pool_key (slot slots es j) = 0 then Some (j, slots)
         else if pool_key last_slot = 0 then Some (j, memmove (j + 1) j (EVICTION_POOL_SIZE - j - 1) slots)
         else Some (j - 1, memmove 0 1 (j - 1) slots))"

definition pool_place :: "size_t \<Rightarrow> uint64 \<Rightarrow> 'm RedisLRUCache \<Rightarrow> 'm RedisLRUCache" where
  "pool_place key t c =
     (case pool_shift (pool_slots c) (pool_entries c) t of
        None \<Rightarrow> c
      | Some (j, slots) \<Rightarrow>
          c\<lparr>pool_slots := slots, pool_entries := (pool_entries c)[slots ! j := \<lparr>idle = t, pool_key = key\<rparr>]\<rparr>)"

text \<open>At most ten random keys are drawn to get five different ones.\<close>

fun draw_samples :: "(nat \<Rightarrow> uint32) \<Rightarrow> RandomizedSet \<Rightarrow> nat \<Rightarrow> nat \<Rightarrow> size_t list \<Rightarrow> size_t list result" where
  "draw_samples d rs 0 i samples = Inr samples"
| "draw_samples d rs (Suc left) i samples =
     (if length samples < EVICTION_SAMPLE
      then r_bind (rs_getRandom (d i) rs) (\<lambda>sampled_key.
        draw_samples d rs left (i + 1) (if sampled_key \<in> set samples then samples else samples @ [sampled_key]))
      else Inr samples)"

fun populate_loop ::
    "('v, 'm) redis_table \<Rightarrow> (nat \<Rightarrow> uint64) \<Rightarrow> nat \<Rightarrow> size_t list \<Rightarrow> 'm RedisLRUCache \<Rightarrow> 'm RedisLRUCache result" where
  "populate_loop H clk i [] c = Inr c"
| "populate_loop H clk i (key # samples) c =
     (case chm_find H (rl_map c) key of
        None \<Rightarrow> populate_loop H clk (i + 1) samples c
      | Some hv \<Rightarrow>
          (case rl_objects c (rv_lru_object hv) of
             None \<Rightarrow> Inl InvalidAccess
           | Some ob \<Rightarrow>
               let t = estimateObjectIdleTime (clk i) ob
               in populate_loop H clk (i + 1) samples (if t = 0 then c else pool_place key t c)))"

definition evictionPoolPopulate ::
    "('v, 'm) redis_table \<Rightarrow> (nat \<Rightarrow> uint32) \<Rightarrow> (nat \<Rightarrow> uint64) \<Rightarrow> 'm RedisLRUCache \<Rightarrow> 'm RedisLRUCache result" where
  "evictionPoolPopulate H d clk c =
     r_bind (draw_samples d (rl_rs c) (EVICTION_SAMPLE * 2) 0 []) (\<lambda>samples. populate_loop H clk 0 samples c)"

section \<open>Eviction\<close>

definition clear_slot :: "nat \<Rightarrow> 'm RedisLRUCache \<Rightarrow> 'm RedisLRUCache" where
  "clear_slot k c = c\<lparr>pool_entries := (pool_entries c)[pool_slots c ! k := \<lparr>idle = 0, pool_key = 0\<rparr>]\<rparr>"

text \<open>The loop over the pool from its most idle end; the first argument is the number of slots left.\<close>

fun evict_scan :: "('v, 'm) redis_table \<Rightarrow> nat \<Rightarrow> 'm RedisLRUCache \<Rightarrow> (bool \<times> 'm RedisLRUCache) result" where
  "evict_scan H 0 c = Inr (False, c)"
| "evict_scan H (Suc k) c =
     (let find_key = pool_key (slot (pool_slots c) (pool_entries c) k)
      in if find_key = 0 then evict_scan H k c
         else case chm_find H (rl_map c) find_key of
                None \<Rightarrow> evict_scan H k (clear_slot k c)
              | Some _ \<Rightarrow>
                  r_bind (rs_remove find_key (rl_rs c)) (\<lambda>(_, rs).
                  Inr (True, clear_slot k (c\<lparr>rl_map := snd (chm_erase H (rl_map c) find_key), rl_rs := rs\<rparr>))))"

partial_function (option) performEvictions ::
    "('v, 'm) redis_table \<Rightarrow> (nat \<Rightarrow> nat \<Rightarrow> uint32) \<Rightarrow> (nat \<Rightarrow> nat \<Rightarrow> uint64) \<Rightarrow> nat \<Rightarrow> 'm RedisLRUCache \<Rightarrow>
      'm RedisLRUCache result option" where
  "performEvictions H draws clock r c =
     p_bind (returns (evictionPoolPopulate H (draws r) (clock r) c)) (\<lambda>c.
     p_bind (returns (evict_scan H EVICTION_POOL_SIZE c)) (\<lambda>(evicted, c).
     if evicted then Some (Inr c) else performEvictions H draws clock (r + 1) c))"

text \<open>
  \<open>performEviction\<close> does without the pool: it evicts the idlest of five samples. The key and the idle time
  found so far are kept when the sampling starts again.
\<close>

fun sample_idlest ::
    "('v, 'm) redis_table \<Rightarrow> (nat \<Rightarrow> uint32) \<Rightarrow> (nat \<Rightarrow> uint64) \<Rightarrow> 'm RedisLRUCache \<Rightarrow> nat \<Rightarrow> nat \<Rightarrow> size_t \<times> uint64 \<Rightarrow>
      (size_t \<times> uint64) result" where
  "sample_idlest H d clk c 0 i best = Inr best"
| "sample_idlest H d clk c (Suc left) i best =
     r_bind (rs_getRandom (d i) (rl_rs c)) (\<lambda>sampled_key.
     case chm_find H (rl_map c) sampled_key of
       None \<Rightarrow> sample_idlest H d clk c left (i + 1) best
     | Some hv \<Rightarrow>
         (case rl_objects c (rv_lru_object hv) of
            None \<Rightarrow> Inl InvalidAccess
          | Some ob \<Rightarrow>
              let t = estimateObjectIdleTime (clk i) ob
              in sample_idlest H d clk c left (i + 1) (if t > snd best then (sampled_key, t) else best)))"

partial_function (option) performEviction ::
    "('v, 'm) redis_table \<Rightarrow> (nat \<Rightarrow> nat \<Rightarrow> uint32) \<Rightarrow> (nat \<Rightarrow> nat \<Rightarrow> uint64) \<Rightarrow> nat \<Rightarrow> size_t \<times> uint64 \<Rightarrow> 'm RedisLRUCache \<Rightarrow>
      'm RedisLRUCache result option" where
  "performEviction H draws clock r best c =
     p_bind (returns (sample_idlest H (draws r) (clock r) c EVICTION_SAMPLE 0 best)) (\<lambda>best.
     case chm_find H (rl_map c) (fst best) of
       None \<Rightarrow> performEviction H draws clock (r + 1) best c
     | Some _ \<Rightarrow> returns (r_bind (rs_remove (fst best) (rl_rs c)) (\<lambda>(_, rs).
         Inr (c\<lparr>rl_map := snd (chm_erase H (rl_map c) (fst best)), rl_rs := rs\<rparr>))))"

section \<open>The operations of the interface\<close>

definition RedisLRUCache_new :: "('v, 'm) redis_table \<Rightarrow> size_t \<Rightarrow> 'm RedisLRUCache" where
  "RedisLRUCache_new H capacity =
     \<lparr>hit_num = 0, miss_num = 0, rl_n = capacity, rl_s = 0, rl_map = chm_init H, rl_rs = RandomizedSet_new,
      pool_slots = [0..<EVICTION_POOL_SIZE], pool_entries = replicate EVICTION_POOL_SIZE \<lparr>idle = 0, pool_key = 0\<rparr>,
      rl_objects = Map.empty, rl_next = 0\<rparr>"

definition RedisLRUCache_size :: "'m RedisLRUCache \<Rightarrow> size_t" where
  "RedisLRUCache_size c = rl_s c"

text \<open>
  \<open>clear\<close> walks over the entries of the hash map, which \<open>items\<close> lists, and deletes their objects. It
  resets neither \<open>rs\<close> nor the pool.
\<close>

fun delete_objects :: "(size_t \<times> 'v RedisValue) list \<Rightarrow> (nat \<rightharpoonup> lru_object) \<Rightarrow> (nat \<rightharpoonup> lru_object) result" where
  "delete_objects [] objs = Inr objs"
| "delete_objects ((k, hv) # kvs) objs =
     (if objs (rv_lru_object hv) = None then Inl InvalidAccess else delete_objects kvs (objs(rv_lru_object hv := None)))"

definition RedisLRUCache_clear ::
    "('v, 'm) redis_table \<Rightarrow> ('m \<Rightarrow> (size_t \<times> 'v RedisValue) list) \<Rightarrow> 'm RedisLRUCache \<Rightarrow> 'm RedisLRUCache result" where
  "RedisLRUCache_clear H items c =
     r_bind (delete_objects (items (rl_map c)) (rl_objects c)) (\<lambda>objs.
     Inr (c\<lparr>rl_objects := objs, rl_map := chm_clear H (rl_map c), rl_s := 0\<rparr>))"

definition RedisLRUCache_find ::
    "('v, 'm) redis_table \<Rightarrow> bool \<Rightarrow> uint64 \<Rightarrow> 'm RedisLRUCache \<Rightarrow> size_t \<Rightarrow> ('v option \<times> 'm RedisLRUCache) result" where
  "RedisLRUCache_find H sample now c key =
     (case chm_find H (rl_map c) key of
        None \<Rightarrow> Inr (None, count_miss sample c)
      | Some hv \<Rightarrow>
          (case rl_objects c (rv_lru_object hv) of
             None \<Rightarrow> Inl InvalidAccess
           | Some ob \<Rightarrow>
               Inr (Some (rv_value hv), count_hit sample (c\<lparr>rl_objects := (rl_objects c)(rv_lru_object hv \<mapsto> ob\<lparr>lru := ucast now\<rparr>)\<rparr>))))"

definition RedisLRUCache_insert ::
    "('v, 'm) redis_table \<Rightarrow> uint64 \<Rightarrow> (nat \<Rightarrow> nat \<Rightarrow> uint32) \<Rightarrow> (nat \<Rightarrow> nat \<Rightarrow> uint64) \<Rightarrow> 'm RedisLRUCache \<Rightarrow>
      size_t \<Rightarrow> 'v \<Rightarrow> (bool \<times> 'm RedisLRUCache) result option" where
  "RedisLRUCache_insert H now draws clock c key value =
     (let node = rl_next c; c = c\<lparr>rl_objects := (rl_objects c)(node \<mapsto> lru_object_new now key), rl_next := node + 1\<rparr>;
          (inserted, m) = chm_insert H (rl_map c) key \<lparr>rv_value = value, rv_lru_object = node\<rparr>
      in if \<not> inserted then returns (Inr (False, c\<lparr>rl_map := m, rl_objects := (rl_objects c)(node := None)\<rparr>))
         else
           let c = c\<lparr>rl_map := m, rl_rs := snd (rs_insert key (rl_rs c))\<rparr>
           in if rl_s c < rl_n c then returns (Inr (True, c\<lparr>rl_s := rl_s c + 1\<rparr>))
              else p_bind (performEvictions H draws clock 0 c) (\<lambda>c. Some (Inr (True, c))))"

section \<open>Sequences of calls\<close>

datatype 'v redis_op =
    RFind bool uint64 size_t
  | RInsert uint64 "nat \<Rightarrow> nat \<Rightarrow> uint32" "nat \<Rightarrow> nat \<Rightarrow> uint64" size_t 'v
  | RClear
  | RSize

fun redis_step ::
    "('v, 'm) redis_table \<Rightarrow> ('m \<Rightarrow> (size_t \<times> 'v RedisValue) list) \<Rightarrow> 'v redis_op \<Rightarrow> 'm RedisLRUCache \<Rightarrow>
      ('v cache_out \<times> 'm RedisLRUCache) result option" where
  "redis_step H items (RFind sample now k) c =
     returns (r_bind (RedisLRUCache_find H sample now c k) (\<lambda>(r, c). Inr (Found r, c)))"
| "redis_step H items (RInsert now draws clock k v) c =
     p_bind (RedisLRUCache_insert H now draws clock c k v) (\<lambda>(b, c). Some (Inr (Inserted b, c)))"
| "redis_step H items RClear c = returns (r_bind (RedisLRUCache_clear H items c) (\<lambda>c. Inr (Done, c)))"
| "redis_step H items RSize c = returns (Inr (Count (unat (RedisLRUCache_size c)), c))"

fun redis_run ::
    "('v, 'm) redis_table \<Rightarrow> ('m \<Rightarrow> (size_t \<times> 'v RedisValue) list) \<Rightarrow> 'v redis_op list \<Rightarrow> 'm RedisLRUCache \<Rightarrow>
      ('v cache_out list \<times> 'm RedisLRUCache) result option" where
  "redis_run H items [] c = returns (Inr ([], c))"
| "redis_run H items (op # ops) c =
     p_bind (redis_step H items op c) (\<lambda>(out, c).
     p_bind (redis_run H items ops c) (\<lambda>(outs, c). Some (Inr (out # outs, c))))"

end
