(* ===== verification/Redis_Proofs.thy ===== *)
theory Redis_Proofs
  imports Redis_LRU "HOL-Library.AList"
begin

text \<open>
  Correctness of \<open>RedisLRUCache\<close>. \<open>RandomizedSet\<close> is a set with random access. Whatever is
  drawn and whatever the clock shows, a call of the cache that returns does what a bounded map with an arbitrary
  victim does, and no pointer is followed to a deleted object; with keys other than 0 and without
  \<open>clear\<close>, every call returns, an eviction after at most two rounds of sampling. The pool does not keep
  the candidates it should, and the 32-bit access times order the objects wrongly.
\<close>

section \<open>RandomizedSet\<close>

lemma unat_position: "i < 2 ^ 31 \<Longrightarrow> unat (scast (of_nat i :: uint32) :: size_t) = i"
proof -
  assume "i < 2 ^ 31"
  then have "int i < 2 ^ 31" by (metis of_nat_less_iff of_nat_numeral of_nat_power)
  then have "sint (of_nat i :: uint32) = int i"
    by (simp add: signed_of_nat signed_take_bit_int_eq_self)
  then have "(scast (of_nat i :: uint32) :: size_t) = of_nat i" by (metis of_int_of_nat_eq scast_eq)
  then show ?thesis using \<open>i < 2 ^ 31\<close> by (simp add: unat_of_nat)
qed

definition rs_ok :: "RandomizedSet \<Rightarrow> bool" where
  "rs_ok rs \<longleftrightarrow> distinct (vec rs) \<and> length (vec rs) \<le> 2 ^ 31 \<and>
     (\<forall>k p. PositionMap rs k = Some p \<longleftrightarrow> (\<exists>i < length (vec rs). vec rs ! i = k \<and> p = of_nat i))"

lemma rs_okD:
  assumes "rs_ok rs"
  shows "distinct (vec rs)" "length (vec rs) \<le> 2 ^ 31"
    "PositionMap rs k = Some p \<longleftrightarrow> (\<exists>i < length (vec rs). vec rs ! i = k \<and> p = of_nat i)"
    "PositionMap rs k = None \<longleftrightarrow> k \<notin> set (vec rs)"
proof -
  show p: "PositionMap rs k = Some p \<longleftrightarrow> (\<exists>i < length (vec rs). vec rs ! i = k \<and> p = of_nat i)" for k p
    using assms by (simp add: rs_ok_def)
  have "PositionMap rs k \<noteq> None \<longleftrightarrow> k \<in> set (vec rs)"
    unfolding in_set_conv_nth not_None_eq by (simp add: p)
  then show "PositionMap rs k = None \<longleftrightarrow> k \<notin> set (vec rs)" by blast
qed (use assms in \<open>simp_all add: rs_ok_def\<close>)

lemma rs_ok_new: "rs_ok RandomizedSet_new"
  by (simp add: rs_ok_def RandomizedSet_new_def)

lemma position_append:
  "(\<exists>i < Suc (length v). (v @ [k]) ! i = x \<and> p = of_nat i) \<longleftrightarrow> (\<exists>i < length v. v ! i = x \<and> p = of_nat i) \<or> x = k \<and> p = of_nat (length v)"
proof -
  have "(\<exists>i < length v. (v @ [k]) ! i = x \<and> p = of_nat i) \<longleftrightarrow> (\<exists>i < length v. v ! i = x \<and> p = of_nat i)"
    by (simp add: nth_append cong: conj_cong)
  then show ?thesis unfolding Ex_less_Suc nth_append_length by blast
qed

lemma rs_insert_ok:
  assumes "rs_ok rs" "length (vec rs) < 2 ^ 31"
  shows "rs_ok (snd (rs_insert k rs))" "set (vec (snd (rs_insert k rs))) = insert k (set (vec rs))"
    "fst (rs_insert k rs) \<longleftrightarrow> k \<notin> set (vec rs)" "length (vec (snd (rs_insert k rs))) \<le> Suc (length (vec rs))"
proof -
  note ok = rs_okD [OF assms(1)]
  have "rs_ok \<lparr>PositionMap = (PositionMap rs)(k \<mapsto> of_nat (length (vec rs))), vec = vec rs @ [k]\<rparr>" if k: "k \<notin> set (vec rs)"
  proof -
    have "((PositionMap rs)(k \<mapsto> of_nat (length (vec rs)))) x = Some p \<longleftrightarrow> (\<exists>i < Suc (length (vec rs)). (vec rs @ [k]) ! i = x \<and> p = of_nat i)" for x p
      using k unfolding position_append by (cases "x = k") (auto simp: ok(3))
    then show ?thesis using k ok(1) assms(2) by (simp add: rs_ok_def)
  qed
  then show "rs_ok (snd (rs_insert k rs))" using assms(1) by (simp add: rs_insert_def ok(4))
qed (auto simp: rs_insert_def rs_okD(4) [OF assms(1)])

lemma rs_remove_absent:
  "rs_ok rs \<Longrightarrow> k \<notin> set (vec rs) \<Longrightarrow> rs_remove k rs = Inr (False, rs)"
  by (simp add: rs_remove_def rs_okD(4) [THEN iffD2])

lemma nth_butlast_swap:
  assumes "pos < length v" "i < length v - 1"
  shows "butlast (swap_at pos (length v - 1) v) ! i = (if i = pos then last v else v ! i)"
proof -
  have "last v = v ! (length v - 1)" using assms by (intro last_conv_nth) auto
  then show ?thesis using assms by (auto simp: swap_at_def nth_butlast nth_list_update)
qed

text \<open>Swapping an element to the end and dropping it removes it and moves the last one to its position.\<close>

lemma swap_out:
  assumes "distinct v" "pos < length v"
  defines "w \<equiv> butlast (swap_at pos (length v - 1) v)"
  shows "set w = set v - {v ! pos}" "distinct w" "length w = length v - 1"
proof -
  have "mset (swap_at pos (length v - 1) v) = mset v" using assms(2) by (simp add: swap_at_def mset_swap)
  moreover have "v \<noteq> []" using assms(2) by auto
  then have "swap_at pos (length v - 1) v \<noteq> []" "last (swap_at pos (length v - 1) v) = v ! pos"
    by (simp_all add: swap_at_def last_list_update)
  then have "swap_at pos (length v - 1) v = w @ [v ! pos]" unfolding w_def by (metis append_butlast_last_id)
  ultimately have m: "mset v = mset (v ! pos # w)" by simp
  show "set w = set v - {v ! pos}" "distinct w"
    using assms(1) mset_eq_setD [OF m] mset_eq_imp_distinct_iff [OF m] by auto
qed (simp add: w_def swap_at_def)

lemma swap_out_position:
  assumes "distinct v" "pos < length v" "x \<noteq> v ! pos"
  defines "w \<equiv> butlast (swap_at pos (length v - 1) v)"
  shows "i < length w \<and> w ! i = x \<longleftrightarrow> (if x = last v then i = pos else i < length v \<and> v ! i = x)"
proof -
  have l: "length w = length v - 1" by (simp add: w_def swap_at_def)
  have lv: "last v = v ! (length v - 1)" using assms(2) by (intro last_conv_nth) auto
  have w: "w ! j = (if j = pos then last v else v ! j)" if "j < length w" for j
    using that assms(2) unfolding w_def by (intro nth_butlast_swap) (simp_all add: swap_at_def)
  show ?thesis
  proof (cases "x = last v")
    case True
    then have "pos \<noteq> length v - 1" using assms(3) lv by auto
    then have "pos < length w" using assms(2) l by simp
    moreover have "v ! j \<noteq> x" if "j < length w" for j
      using that True lv l nth_eq_iff_index_eq [OF assms(1), of j "length v - 1"] by simp
    ultimately show ?thesis using True w [of i] w [of pos] by (cases "i = pos") auto
  next
    case False
    then have "i < length v - 1 \<longleftrightarrow> i < length v" if "v ! i = x" using that lv by (cases "i = length v - 1") auto
    then show ?thesis using False w [of i] l assms(3) by (cases "i < length w") (auto split: if_splits)
  qed
qed

lemma rs_remove_present:
  assumes "rs_ok rs" "k \<in> set (vec rs)"
  shows "\<exists>rs'. rs_remove k rs = Inr (True, rs') \<and> rs_ok rs' \<and> set (vec rs') = set (vec rs) - {k} \<and> length (vec rs') \<le> length (vec rs)"
proof -
  note ok = rs_okD [OF assms(1)]
  let ?v = "vec rs"
  obtain pos where pos: "pos < length ?v" "k = ?v ! pos" using assms(2) by (auto simp: in_set_conv_nth)
  have pm: "PositionMap rs k = Some (of_nat pos)" using pos by (auto simp: ok(3))
  have pos31: "unat (scast (of_nat pos :: uint32) :: size_t) = pos" using pos(1) ok(2) by (intro unat_position) simp
  let ?w = "butlast (swap_at pos (length ?v - 1) ?v)"
  let ?rs = "\<lparr>PositionMap = (PositionMap rs)(last ?v \<mapsto> of_nat pos, k := None), vec = ?w\<rparr>"
  have r: "rs_remove k rs = Inr (True, ?rs)" using pos(1) by (simp add: rs_remove_def pm pos31 Let_def)
  note w = swap_out [OF ok(1) pos(1), folded pos(2)]
  have "PositionMap ?rs x = Some p \<longleftrightarrow> (\<exists>i < length ?w. ?w ! i = x \<and> p = of_nat i)" for x p
  proof (cases "x = k")
    case True
    then have "x \<notin> set ?w" using w(1) by simp
    with True show ?thesis by (auto simp: in_set_conv_nth)
  next
    case False
    note sp = swap_out_position [OF ok(1) pos(1), folded pos(2), OF False]
    have "(\<exists>i < length ?w. ?w ! i = x \<and> p = of_nat i) \<longleftrightarrow> (if x = last ?v then p = of_nat pos else \<exists>i < length ?v. ?v ! i = x \<and> p = of_nat i)"
      unfolding conj_assoc [symmetric] sp by auto
    then show ?thesis using False by (auto simp: ok(3))
  qed
  then have "rs_ok ?rs" using w ok(2) by (simp add: rs_ok_def)
  then show ?thesis using r w by auto
qed

lemma rs_remove_ok:
  assumes "rs_ok rs"
  shows "\<exists>rs'. rs_remove k rs = Inr (k \<in> set (vec rs), rs') \<and> rs_ok rs' \<and> set (vec rs') = set (vec rs) - {k} \<and> length (vec rs') \<le> length (vec rs)"
  using assms rs_remove_absent [OF assms, of k] rs_remove_present [OF assms, of k]
  by (cases "k \<in> set (vec rs)") auto

lemma rs_index:
  "nat \<lfloor>to_double d / RAND_MAX * real n\<rfloor> = unat d * n div 2147483647"
proof -
  have "to_double d / RAND_MAX * real n = real (unat d * n) / real 2147483647"
    by (simp add: to_double_def RAND_MAX_def del: of_nat_unat)
  then show ?thesis by (simp only: floor_divide_of_nat_eq nat_int)
qed

lemma rs_getRandom_nth:
  "rs_getRandom d rs = (let i = unat d * length (vec rs) div 2147483647 in if i < length (vec rs) then Inr (vec rs ! i) else Inl OutOfRange)"
  by (simp only: rs_getRandom_def rs_index)

lemma rs_getRandom_ok:
  assumes "vec rs \<noteq> []" "unat d < 2147483647"
  shows "\<exists>k \<in> set (vec rs). rs_getRandom d rs = Inr k"
proof -
  have "unat d * length (vec rs) < length (vec rs) * 2147483647" using assms by simp
  then have "unat d * length (vec rs) div 2147483647 < length (vec rs)" by (rule less_mult_imp_div_less)
  then show ?thesis by (auto simp: rs_getRandom_nth Let_def)
qed

section \<open>The pool\<close>

lemma pool_position_stop:
  assumes "j \<le> EVICTION_POOL_SIZE"
  shows "pool_position slots es t j \<le> EVICTION_POOL_SIZE \<and>
    (\<forall>i. j \<le> i \<longrightarrow> i < pool_position slots es t j \<longrightarrow> pool_key (slot slots es i) \<noteq> 0 \<and> idle (slot slots es i) < t) \<and>
    (pool_position slots es t j < EVICTION_POOL_SIZE \<longrightarrow>
      \<not> (pool_key (slot slots es (pool_position slots es t j)) \<noteq> 0 \<and> idle (slot slots es (pool_position slots es t j)) < t))"
  using assms
proof (induction slots es t j rule: pool_position.induct)
  case (1 slots es t j)
  show ?case
  proof (cases "j < EVICTION_POOL_SIZE \<and> pool_key (slot slots es j) \<noteq> 0 \<and> idle (slot slots es j) < t")
    case True
    then have e: "pool_position slots es t j = pool_position slots es t (j + 1)" by (subst pool_position.simps) (simp only: if_True simp_thms)
    have "(\<forall>i. j \<le> i \<longrightarrow> P i) \<longleftrightarrow> P j \<and> (\<forall>i. j + 1 \<le> i \<longrightarrow> P i)" for P
      by (metis Suc_eq_plus1 Suc_leD le_antisym not_less_eq_eq)
    then show ?thesis unfolding e using "1.IH" [OF True] True by auto
  next
    case False
    then have "pool_position slots es t j = j" by (subst pool_position.simps) (simp only: if_False)
    then show ?thesis using False "1.prems" by auto
  qed
qed

lemma length_memmove: "dst + n \<le> length xs \<Longrightarrow> src + n \<le> length xs \<Longrightarrow> length (memmove dst src n xs) = length xs"
  by (simp add: memmove_def)

lemma set_memmove: "set (memmove dst src n xs) \<subseteq> set xs"
  by (auto simp: memmove_def dest: in_set_takeD in_set_dropD)

lemma pool_shift_full:
  "pool_position slots es t 0 = 0 \<and> pool_key (slot slots es 0) \<noteq> 0 \<and> pool_key (slot slots es (EVICTION_POOL_SIZE - 1)) \<noteq> 0 \<Longrightarrow>
    pool_shift slots es t = None"
  by (simp only: pool_shift_def Let_def if_True simp_thms)

lemma pool_shift_cases:
  fixes slots es t
  defines "p \<equiv> pool_position slots es t 0" and "last_key \<equiv> pool_key (slot slots es (EVICTION_POOL_SIZE - 1))"
  assumes "pool_shift slots es t = Some (j, slots')"
  shows "p < EVICTION_POOL_SIZE \<and> pool_key (slot slots es p) = 0 \<and> j = p \<and> slots' = slots \<or>
    \<not> (p < EVICTION_POOL_SIZE \<and> pool_key (slot slots es p) = 0) \<and>
    (if last_key = 0 then j = p \<and> slots' = memmove (p + 1) p (EVICTION_POOL_SIZE - p - 1) slots
     else p \<noteq> 0 \<and> j = p - 1 \<and> slots' = memmove 0 1 (p - 1) slots)"
proof (cases "p < EVICTION_POOL_SIZE \<and> pool_key (slot slots es p) = 0")
  case False
  have n: "\<not> (p = 0 \<and> pool_key (slot slots es 0) \<noteq> 0 \<and> last_key \<noteq> 0)"
    using pool_shift_full [of slots es t] assms(3) unfolding p_def last_key_def by auto
  then have "p \<noteq> 0" if "last_key \<noteq> 0" using that False by (cases "p = 0") (auto simp: EVICTION_POOL_SIZE_def)
  moreover have "Some (j, slots') = (if last_key = 0 then Some (p, memmove (p + 1) p (EVICTION_POOL_SIZE - p - 1) slots) else Some (p - 1, memmove 0 1 (p - 1) slots))"
    unfolding assms(3) [symmetric] pool_shift_def Let_def p_def [symmetric] last_key_def [symmetric]
    by (simp only: n False if_False)
  ultimately show ?thesis using False by (cases "last_key = 0") simp_all
next
  case True
  have "\<not> (p = 0 \<and> pool_key (slot slots es 0) \<noteq> 0 \<and> last_key \<noteq> 0)"
    using pool_shift_full [of slots es t] assms(3) unfolding p_def last_key_def by auto
  then have "Some (j, slots') = Some (p, slots)"
    unfolding assms(3) [symmetric] pool_shift_def Let_def p_def [symmetric] last_key_def [symmetric]
    by (simp only: True if_False if_True simp_thms)
  then show ?thesis using True by simp
qed

lemma pool_shift_ok:
  assumes "pool_shift slots es t = Some (j, slots')" "length slots = EVICTION_POOL_SIZE"
  shows "j < EVICTION_POOL_SIZE" "length slots' = EVICTION_POOL_SIZE" "set slots' \<subseteq> set slots"
proof -
  let ?j = "pool_position slots es t 0" and ?last = "slot slots es (EVICTION_POOL_SIZE - 1)"
  have p: "?j \<le> EVICTION_POOL_SIZE" "i < ?j \<Longrightarrow> pool_key (slot slots es i) \<noteq> 0" for i
    using pool_position_stop [of 0 slots es t] by auto
  have z: "0 < EVICTION_POOL_SIZE" by (simp add: EVICTION_POOL_SIZE_def)
  consider (free) "?j < EVICTION_POOL_SIZE" "j = ?j" "slots' = slots"
    | (right) "pool_key ?last = 0" "\<not> (?j < EVICTION_POOL_SIZE \<and> pool_key (slot slots es ?j) = 0)" "j = ?j" "slots' = memmove (?j + 1) ?j (EVICTION_POOL_SIZE - ?j - 1) slots"
    | (left) "?j \<noteq> 0" "j = ?j - 1" "slots' = memmove 0 1 (?j - 1) slots"
    using pool_shift_cases [OF assms(1)] by metis
  then have "j < EVICTION_POOL_SIZE \<and> length slots' = EVICTION_POOL_SIZE \<and> set slots' \<subseteq> set slots"
  proof cases
    case free
    then show ?thesis using assms(2) by simp
  next
    case right
    have "?j \<noteq> EVICTION_POOL_SIZE - 1" using right(1,2) z by auto
    moreover have "\<not> EVICTION_POOL_SIZE - 1 < ?j" using right(1) p(2) by blast
    ultimately have "?j < EVICTION_POOL_SIZE - 1" by linarith
    then show ?thesis using right assms(2) by (simp add: length_memmove set_memmove)
  next
    case left
    have "0 + (?j - 1) \<le> length slots" "1 + (?j - 1) \<le> length slots" using left(1) p(1) assms(2) by linarith+
    then show ?thesis using left p(1) assms(2) z by (simp only: length_memmove set_memmove simp_thms)
  qed
  then show "j < EVICTION_POOL_SIZE" "length slots' = EVICTION_POOL_SIZE" "set slots' \<subseteq> set slots" by auto
qed

lemma pool_shift_None:
  "pool_shift slots es t = None \<Longrightarrow> pool_key (slot slots es 0) \<noteq> 0"
  by (auto simp: pool_shift_def Let_def split: if_splits)

definition pool_ok :: "'m RedisLRUCache \<Rightarrow> bool" where
  "pool_ok c \<longleftrightarrow> length (pool_slots c) = EVICTION_POOL_SIZE \<and> set (pool_slots c) \<subseteq> {..<length (pool_entries c)}"

text \<open>The states that differ in the pool only.\<close>

definition only_pool :: "'m RedisLRUCache \<Rightarrow> 'm RedisLRUCache \<Rightarrow> bool" where
  "only_pool c c' \<longleftrightarrow> c' = c\<lparr>pool_slots := pool_slots c', pool_entries := pool_entries c'\<rparr> \<and> (pool_ok c \<longrightarrow> pool_ok c')"

lemma only_pool_trans: "only_pool c c' \<Longrightarrow> only_pool c' c'' \<Longrightarrow> only_pool c c''"
  by (cases c; cases c'; cases c'') (simp add: only_pool_def)

lemma only_poolD:
  assumes "only_pool c c'"
  shows "rl_map c' = rl_map c" "rl_rs c' = rl_rs c" "rl_objects c' = rl_objects c" "rl_next c' = rl_next c"
    "rl_s c' = rl_s c" "rl_n c' = rl_n c" "pool_ok c \<Longrightarrow> pool_ok c'"
  using assms by (cases c; cases c'; simp add: only_pool_def)+

lemma only_pool_refl [simp]: "only_pool c c"
  by (simp add: only_pool_def)

lemma nth_less_bound: "set xs \<subseteq> {..<n} \<Longrightarrow> j < length xs \<Longrightarrow> xs ! j < n" for n :: nat
  using nth_mem by blast

lemma slot_less: "pool_ok c \<Longrightarrow> j < EVICTION_POOL_SIZE \<Longrightarrow> pool_slots c ! j < length (pool_entries c)"
  by (rule nth_less_bound) (simp_all add: pool_ok_def)

lemma pool_place_only: "only_pool c (pool_place key t c)"
proof (cases "pool_shift (pool_slots c) (pool_entries c) t")
  case (Some p)
  obtain j slots where p: "p = (j, slots)" by (cases p)
  show ?thesis using pool_shift_ok [of "pool_slots c" "pool_entries c" t j slots]
    by (auto simp: pool_place_def Some p only_pool_def pool_ok_def)
qed (simp add: pool_place_def)

text \<open>After a placement the sample is in some slot, or the pool was full.\<close>

lemma pool_place_slot:
  assumes "pool_ok c"
  shows "pool_place key t c = c \<and> pool_key (slot (pool_slots c) (pool_entries c) 0) \<noteq> 0 \<or>
    (\<exists>j < EVICTION_POOL_SIZE. pool_key (slot (pool_slots (pool_place key t c)) (pool_entries (pool_place key t c)) j) = key)"
proof (cases "pool_shift (pool_slots c) (pool_entries c) t")
  case None
  then show ?thesis using pool_shift_None [OF None] by (simp add: pool_place_def)
next
  case (Some p)
  obtain j slots where p: "p = (j, slots)" by (cases p)
  have l: "length (pool_slots c) = EVICTION_POOL_SIZE" using assms by (simp add: pool_ok_def)
  note s = pool_shift_ok [OF Some [unfolded p] l]
  have "slots ! j < length (pool_entries c)" using s assms by (intro nth_less_bound) (auto simp: pool_ok_def)
  then show ?thesis using s(1) by (auto simp: pool_place_def Some p slot_def)
qed

section \<open>Sampling and eviction\<close>

lemma draw_samples_ok:
  assumes "vec rs \<noteq> []" "\<forall>i. unat (d i) < 2147483647" "set ss \<subseteq> set (vec rs)"
  shows "\<exists>samples. draw_samples d rs left i ss = Inr samples \<and> set samples \<subseteq> set (vec rs) \<and> (0 < left \<or> ss \<noteq> [] \<longrightarrow> samples \<noteq> [])"
  using assms(3)
proof (induction left arbitrary: i ss)
  case (Suc left)
  obtain k where k: "k \<in> set (vec rs)" "rs_getRandom (d i) rs = Inr k" using rs_getRandom_ok [OF assms(1)] assms(2) by blast
  let ?ss = "if k \<in> set ss then ss else ss @ [k]"
  have ss: "set ?ss \<subseteq> set (vec rs)" "?ss \<noteq> []" using Suc.prems k(1) by auto
  show ?case
  proof (cases "length ss < EVICTION_SAMPLE")
    case True
    then have "draw_samples d rs (Suc left) i ss = draw_samples d rs left (i + 1) ?ss" by (simp add: k(2))
    then show ?thesis using Suc.IH [OF ss(1), of "i + 1"] ss(2) by metis
  next
    case False
    then have "ss \<noteq> []" by (auto simp: EVICTION_SAMPLE_def)
    with False Suc.prems show ?thesis by simp
  qed
qed simp

text \<open>The object of every stored key is live, and no two keys share one.\<close>

definition objects_ok :: "(size_t \<rightharpoonup> 'v RedisValue) \<Rightarrow> (nat \<rightharpoonup> lru_object) \<Rightarrow> nat \<Rightarrow> bool" where
  "objects_ok M objs nxt \<longleftrightarrow>
     (\<forall>k hv. M k = Some hv \<longrightarrow> objs (rv_lru_object hv) \<noteq> None \<and> rv_lru_object hv < nxt) \<and>
     (\<forall>k k' hv hv'. M k = Some hv \<longrightarrow> M k' = Some hv' \<longrightarrow> rv_lru_object hv = rv_lru_object hv' \<longrightarrow> k = k')"

definition redis_core :: "('v, 'm) redis_table \<Rightarrow> 'm RedisLRUCache \<Rightarrow> bool" where
  "redis_core H c \<longleftrightarrow> rs_ok (rl_rs c) \<and> dom (chm_find H (rl_map c)) \<subseteq> set (vec (rl_rs c)) \<and> pool_ok c \<and>
     objects_ok (chm_find H (rl_map c)) (rl_objects c) (rl_next c)"

lemma redis_core_only_pool: "redis_core H c \<Longrightarrow> only_pool c c' \<Longrightarrow> redis_core H c'"
  by (simp add: redis_core_def only_poolD [of c c'])

lemma objects_okD:
  assumes "objects_ok M objs nxt" "M k = Some hv"
  shows "\<exists>ob. objs (rv_lru_object hv) = Some ob" "rv_lru_object hv < nxt"
  using assms by (auto simp: objects_ok_def)

lemma populate_loop_ok:
  assumes "redis_core H c"
  shows "\<exists>c'. populate_loop H clk i samples c = Inr c' \<and> only_pool c c'"
  using assms
proof (induction samples arbitrary: i c)
  case (Cons key samples)
  show ?case
  proof (cases "chm_find H (rl_map c) key")
    case None
    then show ?thesis using Cons.IH [OF Cons.prems] by simp
  next
    case (Some hv)
    obtain ob where ob: "rl_objects c (rv_lru_object hv) = Some ob"
      using Cons.prems Some objects_okD(1) unfolding redis_core_def by blast
    let ?t = "estimateObjectIdleTime (clk i) ob"
    let ?c = "if ?t = 0 then c else pool_place key ?t c"
    have o: "only_pool c ?c" by (simp add: pool_place_only)
    from Cons.IH [OF redis_core_only_pool [OF Cons.prems o], of "i + 1"] only_pool_trans [OF o]
    show ?thesis by (auto simp: Some ob Let_def)
  qed
qed simp

lemma clear_slot_only: "only_pool c (clear_slot k c)"
  by (simp add: only_pool_def clear_slot_def pool_ok_def)

lemma evict_scan_ok:
  assumes "redis_core H c"
  shows "\<exists>b c'. evict_scan H k c = Inr (b, c') \<and>
    (if b then \<exists>x rs c1. x \<in> dom (chm_find H (rl_map c)) \<and> rs_remove x (rl_rs c) = Inr (True, rs) \<and> only_pool c c1 \<and>
        c' = c1\<lparr>rl_map := snd (chm_erase H (rl_map c) x), rl_rs := rs\<rparr>
     else only_pool c c')"
  using assms
proof (induction k arbitrary: c)
  case (Suc k)
  let ?key = "pool_key (slot (pool_slots c) (pool_entries c) k)"
  consider (free) "?key = 0" | (stale) "?key \<noteq> 0" "chm_find H (rl_map c) ?key = None"
    | (stored) hv where "?key \<noteq> 0" "chm_find H (rl_map c) ?key = Some hv" by fastforce
  then show ?case
  proof cases
    case free
    then show ?thesis using Suc.IH [OF Suc.prems] by (simp add: Let_def)
  next
    case stale
    have o: "only_pool c (clear_slot k c)" by (rule clear_slot_only)
    have e: "evict_scan H (Suc k) c = evict_scan H k (clear_slot k c)" using stale by (simp add: Let_def)
    obtain b c' where c': "evict_scan H k (clear_slot k c) = Inr (b, c')"
      "if b then \<exists>x rs c1. x \<in> dom (chm_find H (rl_map (clear_slot k c))) \<and> rs_remove x (rl_rs (clear_slot k c)) = Inr (True, rs) \<and>
          only_pool (clear_slot k c) c1 \<and> c' = c1\<lparr>rl_map := snd (chm_erase H (rl_map (clear_slot k c)) x), rl_rs := rs\<rparr>
       else only_pool (clear_slot k c) c'"
      using Suc.IH [OF redis_core_only_pool [OF Suc.prems o]] by blast
    show ?thesis unfolding e c'(1) using c'(2) only_pool_trans [OF o] only_poolD [OF o]
      by (cases b) auto
  next
    case stored
    then have "?key \<in> set (vec (rl_rs c))" "rs_ok (rl_rs c)" using Suc.prems by (auto simp: redis_core_def)
    then obtain rs where rs: "rs_remove ?key (rl_rs c) = Inr (True, rs)" using rs_remove_present by blast
    have "clear_slot k (c\<lparr>rl_map := snd (chm_erase H (rl_map c) ?key), rl_rs := rs\<rparr>) =
        (clear_slot k c)\<lparr>rl_map := snd (chm_erase H (rl_map c) ?key), rl_rs := rs\<rparr>" by (simp add: clear_slot_def)
    moreover have "?key \<in> dom (chm_find H (rl_map c))" using stored(2) by blast
    ultimately have "\<exists>x rs' c1. x \<in> dom (chm_find H (rl_map c)) \<and> rs_remove x (rl_rs c) = Inr (True, rs') \<and> only_pool c c1 \<and>
        clear_slot k (c\<lparr>rl_map := snd (chm_erase H (rl_map c) ?key), rl_rs := rs\<rparr>) = c1\<lparr>rl_map := snd (chm_erase H (rl_map c) x), rl_rs := rs'\<rparr>"
      using rs clear_slot_only by blast
    moreover have "evict_scan H (Suc k) c = Inr (True, clear_slot k (c\<lparr>rl_map := snd (chm_erase H (rl_map c) ?key), rl_rs := rs\<rparr>))"
      using stored rs by (simp add: Let_def)
    ultimately show ?thesis by (intro exI [of _ True]) simp
  qed
qed (intro exI [of _ False], simp)

section \<open>The specification\<close>

definition redis_contents :: "('v, 'm) redis_table \<Rightarrow> 'm RedisLRUCache \<Rightarrow> (size_t \<rightharpoonup> 'v)" where
  "redis_contents H c = map_option rv_value \<circ> chm_find H (rl_map c)"

text \<open>A bounded map. A full one drops some key when a new one comes, which may be the new one.\<close>

inductive redis_spec :: "nat \<Rightarrow> 'v redis_op \<Rightarrow> (size_t \<rightharpoonup> 'v) \<Rightarrow> 'v cache_out \<Rightarrow> (size_t \<rightharpoonup> 'v) \<Rightarrow> bool" for cap where
  spec_find: "redis_spec cap (RFind sample now k) m (Found (m k)) m"
| spec_refuse: "m k \<noteq> None \<Longrightarrow> redis_spec cap (RInsert now d t k v) m (Inserted False) m"
| spec_store: "m k = None \<Longrightarrow> card (dom m) < cap \<Longrightarrow> redis_spec cap (RInsert now d t k v) m (Inserted True) (m(k \<mapsto> v))"
| spec_replace: "m k = None \<Longrightarrow> card (dom m) = cap \<Longrightarrow> x \<in> insert k (dom m) \<Longrightarrow>
    redis_spec cap (RInsert now d t k v) m (Inserted True) (m(k \<mapsto> v, x := None))"
| spec_clear: "redis_spec cap RClear m Done Map.empty"
| spec_size: "redis_spec cap RSize m (Count (card (dom m))) m"

inductive redis_trace :: "nat \<Rightarrow> 'v redis_op list \<Rightarrow> (size_t \<rightharpoonup> 'v) \<Rightarrow> 'v cache_out list \<Rightarrow> (size_t \<rightharpoonup> 'v) \<Rightarrow> bool" for cap where
  trace_Nil: "redis_trace cap [] m [] m"
| trace_Cons: "redis_spec cap op m out m' \<Longrightarrow> redis_trace cap ops m' outs m'' \<Longrightarrow> redis_trace cap (op # ops) m (out # outs) m''"

text \<open>What the environment provides: numbers in the range of the generator, and a clock beyond \<open>2^32\<close> microseconds.\<close>

fun draws_ok :: "'v redis_op \<Rightarrow> bool" where
  "draws_ok (RInsert now d t k v) \<longleftrightarrow> (\<forall>r i. unat (d r i) < 2147483647)"
| "draws_ok _ \<longleftrightarrow> True"

fun returning :: "'v redis_op \<Rightarrow> bool" where
  "returning (RInsert now d t k v) \<longleftrightarrow> k \<noteq> 0 \<and> (\<forall>r i. 2 ^ 32 + 100 \<le> unat (t r i))"
| "returning RClear \<longleftrightarrow> False"
| "returning _ \<longleftrightarrow> True"

lemma delete_objects_ok:
  assumes "distinct (map (rv_lru_object \<circ> snd) kvs)" "\<forall>kv \<in> set kvs. objs (rv_lru_object (snd kv)) \<noteq> None"
  shows "\<exists>objs'. delete_objects kvs objs = Inr objs'"
  using assms
proof (induction kvs objs rule: delete_objects.induct)
  case (2 k hv kvs objs)
  have "\<forall>kv \<in> set kvs. (objs(rv_lru_object hv := None)) (rv_lru_object (snd kv)) \<noteq> None" using "2.prems" by (fastforce simp: image_iff)
  moreover have p: "objs (rv_lru_object hv) \<noteq> None" "distinct (map (rv_lru_object \<circ> snd) kvs)" using "2.prems" by (auto simp: comp_def)
  ultimately obtain objs' where "delete_objects kvs (objs(rv_lru_object hv := None)) = Inr objs'" using "2.IH" by blast
  then show ?case using p(1) by (simp del: fun_upd_apply)
qed simp

section \<open>The table with its iterator\<close>

locale redis_cache = concurrent_hash_map H for H :: "('v, 'm) redis_table" +
  fixes items :: "'m \<Rightarrow> (size_t \<times> 'v RedisValue) list"
  assumes items_find: "map_of (items m) = chm_find H m"
    and items_distinct: "distinct (map fst (items m))"
begin

text \<open>What an eviction does to the state: one stored key is gone from the table and the set.\<close>

definition evicted :: "'m RedisLRUCache \<Rightarrow> 'm RedisLRUCache \<Rightarrow> bool" where
  "evicted c c' \<longleftrightarrow> redis_core H c' \<and> rl_s c' = rl_s c \<and> rl_n c' = rl_n c \<and> rl_objects c' = rl_objects c \<and> rl_next c' = rl_next c \<and>
     length (vec (rl_rs c')) \<le> length (vec (rl_rs c)) \<and>
     (\<exists>x \<in> dom (chm_find H (rl_map c)). chm_find H (rl_map c') = (chm_find H (rl_map c))(x := None) \<and>
        set (vec (rl_rs c')) = set (vec (rl_rs c)) - {x})"

lemma evict_scan_evicts:
  assumes "redis_core H c"
  shows "\<exists>b c'. evict_scan H k c = Inr (b, c') \<and> (if b then evicted c c' else only_pool c c')"
proof -
  obtain b c' where r: "evict_scan H k c = Inr (b, c')"
    "if b then \<exists>x rs c1. x \<in> dom (chm_find H (rl_map c)) \<and> rs_remove x (rl_rs c) = Inr (True, rs) \<and> only_pool c c1 \<and>
        c' = c1\<lparr>rl_map := snd (chm_erase H (rl_map c) x), rl_rs := rs\<rparr>
     else only_pool c c'"
    using evict_scan_ok [OF assms] by blast
  have "evicted c c'" if b: b
  proof -
    obtain x rs c1 where x: "x \<in> dom (chm_find H (rl_map c))" "rs_remove x (rl_rs c) = Inr (True, rs)" and o: "only_pool c c1"
      and c': "c' = c1\<lparr>rl_map := snd (chm_erase H (rl_map c) x), rl_rs := rs\<rparr>" using r(2) b by auto
    have k: "rs_ok (rl_rs c)" "dom (chm_find H (rl_map c)) \<subseteq> set (vec (rl_rs c))" "pool_ok c"
      "objects_ok (chm_find H (rl_map c)) (rl_objects c) (rl_next c)" using assms by (auto simp: redis_core_def)
    have rs: "rs_ok rs" "set (vec rs) = set (vec (rl_rs c)) - {x}" "length (vec rs) \<le> length (vec (rl_rs c))"
      using rs_remove_ok [OF k(1), of x] x(2) by auto
    have ob: "objects_ok ((chm_find H (rl_map c))(x := None)) (rl_objects c) (rl_next c)"
      using k(4) by (auto simp: objects_ok_def split: if_splits)
    have "pool_ok c'" using only_poolD(7) [OF o k(3)] by (simp add: c' pool_ok_def)
    moreover have "dom ((chm_find H (rl_map c))(x := None)) \<subseteq> set (vec rs)" using k(2) rs(2) by auto
    ultimately show ?thesis unfolding evicted_def redis_core_def using rs ob x(1)
      by (auto simp: c' only_poolD [OF o] find_erase)
  qed
  then show ?thesis using r by (cases b) auto
qed

lemma evicted_only_pool: "only_pool c c1 \<Longrightarrow> evicted c1 c2 \<Longrightarrow> evicted c c2"
  by (simp add: evicted_def only_poolD [of c c1])

lemma evictionPoolPopulate_ok:
  assumes "redis_core H c" "vec (rl_rs c) \<noteq> []" "\<forall>i. unat (d i) < 2147483647"
  shows "\<exists>c'. evictionPoolPopulate H d clk c = Inr c' \<and> only_pool c c'"
proof -
  obtain samples where "draw_samples d (rl_rs c) (EVICTION_SAMPLE * 2) 0 [] = Inr samples"
    using draw_samples_ok [OF assms(2,3), of "[]" "EVICTION_SAMPLE * 2" 0] by auto
  then show ?thesis using populate_loop_ok [OF assms(1)] by (simp add: evictionPoolPopulate_def)
qed

text \<open>An eviction that returns has removed one stored key.\<close>

lemma performEvictions_round:
  assumes "redis_core H c" "vec (rl_rs c) \<noteq> []" "\<forall>r i. unat (draws r i) < 2147483647"
  obtains c1 b c2 where "evictionPoolPopulate H (draws r) (clock r) c = Inr c1" "evict_scan H EVICTION_POOL_SIZE c1 = Inr (b, c2)"
    "only_pool c c1" "if b then evicted c c2 else only_pool c c2 \<and> redis_core H c2 \<and> vec (rl_rs c2) \<noteq> []"
proof -
  obtain c1 where c1: "evictionPoolPopulate H (draws r) (clock r) c = Inr c1" "only_pool c c1"
    using evictionPoolPopulate_ok [OF assms(1,2), of "draws r" "clock r"] assms(3) by blast
  obtain b c2 where c2: "evict_scan H EVICTION_POOL_SIZE c1 = Inr (b, c2)" "if b then evicted c1 c2 else only_pool c1 c2"
    using evict_scan_evicts [OF redis_core_only_pool [OF assms(1) c1(2)]] by blast
  have "only_pool c c2 \<and> redis_core H c2 \<and> vec (rl_rs c2) \<noteq> []" if "\<not> b"
  proof -
    have o: "only_pool c c2" using c2(2) that only_pool_trans [OF c1(2)] by simp
    then show ?thesis using redis_core_only_pool [OF assms(1) o] assms(2) by (simp add: only_poolD [OF o])
  qed
  then show ?thesis using that [OF c1(1) c2(1) c1(2)] c2(2) evicted_only_pool [OF c1(2)] by (cases b) auto
qed

lemma performEvictions_safe:
  assumes "performEvictions H draws clock r c = Some res" "redis_core H c" "vec (rl_rs c) \<noteq> []"
    "\<forall>r i. unat (draws r i) < 2147483647"
  shows "\<exists>c'. res = Inr c' \<and> evicted c c'"
proof -
  have "H' = H \<longrightarrow> draws' = draws \<longrightarrow> redis_core H c \<longrightarrow> vec (rl_rs c) \<noteq> [] \<longrightarrow> (\<exists>c'. res = Inr c' \<and> evicted c c')"
    if "performEvictions H' draws' clock r c = Some res" for H' draws' clock r c res
  proof (rule performEvictions.raw_induct [OF _ that], intro impI)
    fix loop :: "('v, 'm) redis_table \<Rightarrow> (nat \<Rightarrow> nat \<Rightarrow> uint32) \<Rightarrow> (nat \<Rightarrow> nat \<Rightarrow> uint64) \<Rightarrow> nat \<Rightarrow> 'm RedisLRUCache \<Rightarrow> 'm RedisLRUCache result option"
    fix H' draws' clock r c res
    assume IH: "\<And>H' draws' clock r c res. loop H' draws' clock r c = Some res \<Longrightarrow>
        H' = H \<longrightarrow> draws' = draws \<longrightarrow> redis_core H c \<longrightarrow> vec (rl_rs c) \<noteq> [] \<longrightarrow> (\<exists>c'. res = Inr c' \<and> evicted c c')"
      and eq: "p_bind (returns (evictionPoolPopulate H' (draws' r) (clock r) c)) (\<lambda>c. p_bind (returns (evict_scan H' EVICTION_POOL_SIZE c))
        (\<lambda>(evicted, c). if evicted then returns (Inr c) else loop H' draws' clock (r + 1) c)) = returns res"
      and h: "H' = H" "draws' = draws" and c: "redis_core H c" "vec (rl_rs c) \<noteq> []"
    obtain c1 b c2 where e: "evictionPoolPopulate H (draws r) (clock r) c = Inr c1" "evict_scan H EVICTION_POOL_SIZE c1 = Inr (b, c2)"
      and o: "if b then evicted c c2 else only_pool c c2 \<and> redis_core H c2 \<and> vec (rl_rs c2) \<noteq> []"
      by (rule performEvictions_round [OF c assms(4)])
    show "\<exists>c'. res = Inr c' \<and> evicted c c'"
    proof (cases b)
      case True
      then show ?thesis using eq o by (auto simp: h e)
    next
      case False
      then have "loop H draws clock (r + 1) c2 = Some res" using eq by (simp add: h e)
      from IH [OF this] False o evicted_only_pool show ?thesis by auto
    qed
  qed
  then show ?thesis using assms by blast
qed

subsection \<open>Evictions return\<close>

text \<open>
  A pool is live when one of its slots has a stored key. A round that places a sample makes it live, and
  a live pool leads to an eviction; a round that places nothing found the pool full, and its
  scan either evicts or empties the pool, so that the next round places its first sample.
\<close>

definition live :: "'m RedisLRUCache \<Rightarrow> nat \<Rightarrow> bool" where
  "live c k \<longleftrightarrow> (\<exists>j < k. pool_key (slot (pool_slots c) (pool_entries c) j) \<noteq> 0 \<and>
     chm_find H (rl_map c) (pool_key (slot (pool_slots c) (pool_entries c) j)) \<noteq> None)"

lemma slot_clear:
  "pool_key (slot (pool_slots (clear_slot k c)) (pool_entries (clear_slot k c)) j) =
    (if pool_slots c ! j = pool_slots c ! k \<and> pool_slots c ! k < length (pool_entries c) then 0
     else pool_key (slot (pool_slots c) (pool_entries c) j))"
proof (cases "pool_slots c ! j = pool_slots c ! k")
  case True
  then show ?thesis by (cases "pool_slots c ! k < length (pool_entries c)") (simp_all add: clear_slot_def slot_def list_update_beyond)
qed (simp add: clear_slot_def slot_def)

lemma evict_scan_live:
  assumes "live c k" "evict_scan H k c = Inr (b, c')"
  shows b
  using assms
proof (induction k arbitrary: c)
  case (Suc k)
  let ?key = "\<lambda>j. pool_key (slot (pool_slots c) (pool_entries c) j)"
  obtain j where j: "j < Suc k" "?key j \<noteq> 0" "chm_find H (rl_map c) (?key j) \<noteq> None" using Suc.prems(1) by (auto simp: live_def)
  consider (free) "?key k = 0" | (stale) "?key k \<noteq> 0" "chm_find H (rl_map c) (?key k) = None"
    | (stored) hv where "?key k \<noteq> 0" "chm_find H (rl_map c) (?key k) = Some hv" by fastforce
  then show ?case
  proof cases
    case free
    then have "j < k" using j by (cases "j = k") auto
    then have "live c k" using j by (auto simp: live_def)
    then show ?thesis using Suc.IH Suc.prems(2) free by (simp add: Let_def)
  next
    case stale
    then have "j \<noteq> k" "pool_slots c ! j \<noteq> pool_slots c ! k" using j by (auto simp: slot_def)
    then have "live (clear_slot k c) k" unfolding live_def slot_clear
      using j by (intro exI [of _ j]) (simp add: only_poolD [OF clear_slot_only])
    then show ?thesis using Suc.IH Suc.prems(2) stale by (simp add: Let_def)
  next
    case stored
    then show ?thesis using Suc.prems(2) by (auto simp: Let_def r_bind_eq_Inr)
  qed
qed (simp add: live_def)

lemma evict_scan_empties:
  assumes "evict_scan H k c = Inr (False, c')" "pool_ok c" "k \<le> EVICTION_POOL_SIZE"
  shows "pool_slots c' = pool_slots c \<and> (\<forall>j. pool_key (slot (pool_slots c) (pool_entries c) j) = 0 \<longrightarrow> pool_key (slot (pool_slots c') (pool_entries c') j) = 0) \<and>
    (\<forall>j < k. pool_key (slot (pool_slots c') (pool_entries c') j) = 0)"
  using assms
proof (induction k arbitrary: c)
  case (Suc k)
  let ?key = "pool_key (slot (pool_slots c) (pool_entries c) k)"
  show ?case
  proof (cases "?key = 0")
    case True
    then have "evict_scan H k c = Inr (False, c')" using Suc.prems(1) by (simp add: Let_def)
    from Suc.IH [OF this] Suc.prems True show ?thesis by (auto simp: less_Suc_eq)
  next
    case False
    then have e: "evict_scan H k (clear_slot k c) = Inr (False, c')"
      using Suc.prems(1) by (auto simp: Let_def r_bind_eq_Inr split: option.splits)
    have l: "pool_slots c ! k < length (pool_entries c)" using slot_less [OF Suc.prems(2)] Suc.prems(3) by simp
    have s: "pool_slots (clear_slot k c) = pool_slots c" by (simp add: clear_slot_def)
    have "pool_slots c' = pool_slots (clear_slot k c) \<and>
        (\<forall>j. pool_key (slot (pool_slots (clear_slot k c)) (pool_entries (clear_slot k c)) j) = 0 \<longrightarrow> pool_key (slot (pool_slots c') (pool_entries c') j) = 0) \<and>
        (\<forall>j < k. pool_key (slot (pool_slots c') (pool_entries c') j) = 0)"
      by (rule Suc.IH [OF e only_poolD(7) [OF clear_slot_only Suc.prems(2)] Suc_leD [OF Suc.prems(3)]])
    then show ?thesis using l unfolding slot_clear by (auto simp: less_Suc_eq s)
  qed
qed simp

text \<open>The clock of the program is far above \<open>2^32\<close> microseconds, so every object counts as idle.\<close>

lemma idle_positive:
  assumes "2 ^ 32 + 100 \<le> unat clk"
  shows "estimateObjectIdleTime clk ob \<noteq> 0"
proof -
  have u: "unat (ucast (lru ob) :: uint64) = unat (lru ob)" by (rule unat_ucast_up)
  have l: "unat (lru ob) < 2 ^ 32" using unsigned_less [of "lru ob", where ?'a = nat] by simp
  have le: "(ucast (lru ob) :: uint64) \<le> clk" using assms l u by (simp add: word_le_nat_alt)
  then have "unat (clk - ucast (lru ob)) = unat clk - unat (lru ob)" using u by (simp add: unat_sub)
  then have "unat ((clk - ucast (lru ob)) div 100) = (unat clk - unat (lru ob)) div 100" by (simp add: unat_div)
  moreover have "100 \<le> unat clk - unat (lru ob)" using assms l by linarith
  then have "0 < (unat clk - unat (lru ob)) div 100" by (simp add: div_greater_zero_iff)
  ultimately show ?thesis using le by (auto simp: estimateObjectIdleTime_def LRU_CLOCK_RESOLUTION_def)
qed

lemma pool_place_live:
  assumes "pool_ok c" "key \<noteq> 0" "chm_find H (rl_map c) key \<noteq> None"
  shows "live (pool_place key t c) EVICTION_POOL_SIZE \<or>
    pool_place key t c = c \<and> pool_key (slot (pool_slots c) (pool_entries c) 0) \<noteq> 0"
  using pool_place_slot [OF assms(1), of key t] assms(2,3) by (auto simp: live_def only_poolD [OF pool_place_only])

lemma populate_loop_live:
  assumes "redis_core H c" "populate_loop H clk i samples c = Inr c'" "\<forall>i. 2 ^ 32 + 100 \<le> unat (clk i)"
    "\<forall>k \<in> set samples. k \<noteq> 0 \<and> chm_find H (rl_map c) k \<noteq> None"
  shows "live c' EVICTION_POOL_SIZE \<or> c' = c \<and> (samples \<noteq> [] \<longrightarrow> pool_key (slot (pool_slots c) (pool_entries c) 0) \<noteq> 0)"
  using assms
proof (induction samples arbitrary: i c)
  case (Cons key samples)
  obtain hv where hv: "chm_find H (rl_map c) key = Some hv" "key \<noteq> 0" using Cons.prems(4) by auto
  obtain ob where ob: "rl_objects c (rv_lru_object hv) = Some ob"
    using Cons.prems(1) hv objects_okD(1) unfolding redis_core_def by blast
  let ?t = "estimateObjectIdleTime (clk i) ob"
  let ?c = "pool_place key ?t c"
  have r: "populate_loop H clk (i + 1) samples ?c = Inr c'"
    using Cons.prems(2,3) hv ob idle_positive [of "clk i" ob] by (simp add: Let_def)
  have o: "only_pool c ?c" by (rule pool_place_only)
  have "live c' EVICTION_POOL_SIZE \<or> c' = ?c"
    using Cons.IH [OF redis_core_only_pool [OF Cons.prems(1) o] r Cons.prems(3)] Cons.prems(4) only_poolD [OF o] by auto
  then show ?case using pool_place_live [of c key ?t] Cons.prems(1) hv by (auto simp: redis_core_def)
qed simp

lemma evictionPoolPopulate_live:
  assumes "redis_core H c" "vec (rl_rs c) \<noteq> []" "\<forall>i. unat (d i) < 2147483647" "\<forall>i. 2 ^ 32 + 100 \<le> unat (clk i)"
    "\<forall>k \<in> set (vec (rl_rs c)). k \<noteq> 0 \<and> chm_find H (rl_map c) k \<noteq> None" "evictionPoolPopulate H d clk c = Inr c'"
  shows "live c' EVICTION_POOL_SIZE \<or> c' = c \<and> pool_key (slot (pool_slots c) (pool_entries c) 0) \<noteq> 0"
proof -
  obtain samples where s: "draw_samples d (rl_rs c) (EVICTION_SAMPLE * 2) 0 [] = Inr samples" "set samples \<subseteq> set (vec (rl_rs c))" "samples \<noteq> []"
    using draw_samples_ok [OF assms(2,3), of "[]" "EVICTION_SAMPLE * 2" 0] by (auto simp: EVICTION_SAMPLE_def)
  then have p: "populate_loop H clk 0 samples c = Inr c'" using assms(6) by (simp add: evictionPoolPopulate_def)
  show ?thesis using populate_loop_live [OF assms(1) p assms(4)] s assms(5) by blast
qed

lemma performEvictions_returns:
  assumes c: "redis_core H c" "vec (rl_rs c) \<noteq> []" and d: "\<forall>r i. unat (draws r i) < 2147483647" and t: "\<forall>r i. 2 ^ 32 + 100 \<le> unat (clock r i)"
    and k: "\<forall>k \<in> set (vec (rl_rs c)). k \<noteq> 0 \<and> chm_find H (rl_map c) k \<noteq> None"
  shows "\<exists>c'. performEvictions H draws clock r c = Some (Inr c')"
proof -
  obtain c1 b c2 where e: "evictionPoolPopulate H (draws r) (clock r) c = Inr c1" "evict_scan H EVICTION_POOL_SIZE c1 = Inr (b, c2)"
    and o: "only_pool c c1" "if b then evicted c c2 else only_pool c c2 \<and> redis_core H c2 \<and> vec (rl_rs c2) \<noteq> []"
    by (rule performEvictions_round [OF c d])
  show ?thesis
  proof (cases b)
    case True
    then show ?thesis by (subst performEvictions.simps) (simp add: e)
  next
    case False
    then have c2: "only_pool c c2" "redis_core H c2" "vec (rl_rs c2) \<noteq> []" using o(2) by auto
    obtain c3 b' c4 where e': "evictionPoolPopulate H (draws (r + 1)) (clock (r + 1)) c2 = Inr c3" "evict_scan H EVICTION_POOL_SIZE c3 = Inr (b', c4)"
      by (rule performEvictions_round [OF c2(2,3) d])
    have e2: "evict_scan H EVICTION_POOL_SIZE c1 = Inr (False, c2)" using e(2) False by simp
    have "pool_ok c1" using c(1) only_poolD(7) [OF o(1)] by (simp add: redis_core_def)
    then have "\<forall>j < EVICTION_POOL_SIZE. pool_key (slot (pool_slots c2) (pool_entries c2) j) = 0"
      using evict_scan_empties [of EVICTION_POOL_SIZE c1 c2] e2 by blast
    then have "pool_key (slot (pool_slots c2) (pool_entries c2) 0) = 0" by (simp add: EVICTION_POOL_SIZE_def)
    then have "live c3 EVICTION_POOL_SIZE"
      using evictionPoolPopulate_live [OF c2(2,3) _ _ _ e'(1)] d t k by (auto simp: only_poolD [OF c2(1)])
    then have b' using evict_scan_live e'(2) by blast
    then show ?thesis using False by (subst performEvictions.simps, subst performEvictions.simps) (simp add: e e' [simplified])
  qed
qed

section \<open>The operations\<close>

lemma contents_upd:
  "chm_find H (rl_map c') = (chm_find H (rl_map c))(k \<mapsto> hv) \<Longrightarrow> redis_contents H c' = (redis_contents H c)(k \<mapsto> rv_value hv)"
  "chm_find H (rl_map c') = (chm_find H (rl_map c))(k := None) \<Longrightarrow> redis_contents H c' = (redis_contents H c)(k := None)"
  "dom (redis_contents H c) = dom (chm_find H (rl_map c))"
  by (auto simp: redis_contents_def fun_eq_iff)

definition redis_inv :: "'m RedisLRUCache \<Rightarrow> bool" where
  "redis_inv c \<longleftrightarrow> redis_core H c \<and> card (dom (chm_find H (rl_map c))) = unat (rl_s c) \<and> rl_s c \<le> rl_n c"

lemma redis_inv_new:
  "redis_inv (RedisLRUCache_new H n)" "redis_contents H (RedisLRUCache_new H n) = Map.empty" "vec (rl_rs (RedisLRUCache_new H n)) = []"
  "rl_n (RedisLRUCache_new H n) = n"
  by (auto simp: redis_inv_def redis_core_def RedisLRUCache_new_def find_init rs_ok_new pool_ok_def objects_ok_def redis_contents_def
      RandomizedSet_new_def)
    (simp add: rs_ok_new [unfolded RandomizedSet_new_def])

text \<open>Storing the new pair, before the count is looked at.\<close>

lemma redis_link:
  fixes ob v
  assumes "redis_core H c" "chm_find H (rl_map c) k = None" "length (vec (rl_rs c)) < 2 ^ 31"
  defines "c' \<equiv> c\<lparr>rl_objects := (rl_objects c)(rl_next c \<mapsto> ob), rl_next := rl_next c + 1,
    rl_map := snd (chm_insert H (rl_map c) k \<lparr>rv_value = v, rv_lru_object = rl_next c\<rparr>), rl_rs := snd (rs_insert k (rl_rs c))\<rparr>"
  shows "redis_core H c'" "chm_find H (rl_map c') = (chm_find H (rl_map c))(k \<mapsto> \<lparr>rv_value = v, rv_lru_object = rl_next c\<rparr>)"
    "set (vec (rl_rs c')) = insert k (set (vec (rl_rs c)))" "length (vec (rl_rs c')) \<le> Suc (length (vec (rl_rs c)))"
proof -
  have k: "rs_ok (rl_rs c)" "dom (chm_find H (rl_map c)) \<subseteq> set (vec (rl_rs c))" "pool_ok c"
    "objects_ok (chm_find H (rl_map c)) (rl_objects c) (rl_next c)" using assms(1) by (auto simp: redis_core_def)
  note i = rs_insert_ok [OF k(1) assms(3), of k]
  show m: "chm_find H (rl_map c') = (chm_find H (rl_map c))(k \<mapsto> \<lparr>rv_value = v, rv_lru_object = rl_next c\<rparr>)"
    using insert_new [OF assms(2)] by (simp add: c'_def)
  have "objects_ok (chm_find H (rl_map c')) (rl_objects c') (rl_next c')"
    using k(4) unfolding m by (fastforce simp: c'_def objects_ok_def split: if_splits)
  moreover have "dom (chm_find H (rl_map c')) \<subseteq> set (vec (rl_rs c'))" unfolding m using k(2) i(2) by (auto simp: c'_def)
  ultimately show "redis_core H c'" using i(1) k(3) unfolding redis_core_def by (simp add: c'_def pool_ok_def)
qed (simp_all add: c'_def rs_insert_ok [OF _ assms(3)] assms(1) [unfolded redis_core_def])

text \<open>The states in which the set of keys is exactly the table, as long as \<open>clear\<close> is not called.\<close>

definition exact :: "'m RedisLRUCache \<Rightarrow> bool" where
  "exact c \<longleftrightarrow> dom (chm_find H (rl_map c)) = set (vec (rl_rs c)) \<and> 0 \<notin> dom (chm_find H (rl_map c))"

abbreviation step_ok :: "'v redis_op \<Rightarrow> 'm RedisLRUCache \<Rightarrow> 'v cache_out \<Rightarrow> 'm RedisLRUCache \<Rightarrow> bool" where
  "step_ok op c out c' \<equiv> redis_inv c' \<and> rl_n c' = rl_n c \<and> length (vec (rl_rs c')) \<le> Suc (length (vec (rl_rs c))) \<and>
     redis_spec (unat (rl_n c)) op (redis_contents H c) out (redis_contents H c') \<and> (returning op \<longrightarrow> exact c \<longrightarrow> exact c')"

lemma redis_find_ok:
  assumes "redis_inv c"
  shows "\<exists>out c'. redis_step H items (RFind sample now k) c = Some (Inr (out, c')) \<and> step_ok (RFind sample now k) c out c'"
proof (cases "chm_find H (rl_map c) k")
  case None
  let ?c = "count_miss sample c"
  have f: "rl_map ?c = rl_map c" "rl_rs ?c = rl_rs c" "rl_objects ?c = rl_objects c" "rl_next ?c = rl_next c" "rl_n ?c = rl_n c" "rl_s ?c = rl_s c"
    "pool_ok ?c = pool_ok c" by (simp_all add: count_miss_def pool_ok_def)
  have "redis_contents H ?c = redis_contents H c" "redis_contents H c k = None" using None by (simp_all add: redis_contents_def f)
  then have "step_ok (RFind sample now k) c (Found None) ?c"
    using assms spec_find [of "unat (rl_n c)" sample now k "redis_contents H c"] by (auto simp: redis_inv_def redis_core_def f exact_def)
  then show ?thesis using None by (auto simp: RedisLRUCache_find_def)
next
  case (Some hv)
  obtain ob where ob: "rl_objects c (rv_lru_object hv) = Some ob"
    using assms Some objects_okD(1) unfolding redis_inv_def redis_core_def by blast
  let ?c = "count_hit sample (c\<lparr>rl_objects := (rl_objects c)(rv_lru_object hv \<mapsto> ob\<lparr>lru := ucast now\<rparr>)\<rparr>)"
  have f: "rl_map ?c = rl_map c" "rl_rs ?c = rl_rs c" "rl_objects ?c = (rl_objects c)(rv_lru_object hv \<mapsto> ob\<lparr>lru := ucast now\<rparr>)"
    "rl_next ?c = rl_next c" "rl_n ?c = rl_n c" "rl_s ?c = rl_s c" "pool_ok ?c = pool_ok c" by (simp_all add: count_hit_def pool_ok_def)
  have "objects_ok M objs nx \<Longrightarrow> objects_ok M (objs(a \<mapsto> x)) nx" for M :: "size_t \<rightharpoonup> 'v RedisValue" and objs nx a x
    by (auto simp: objects_ok_def)
  moreover have "redis_contents H ?c = redis_contents H c" "redis_contents H c k = Some (rv_value hv)" using Some by (simp_all add: redis_contents_def f)
  ultimately have "step_ok (RFind sample now k) c (Found (Some (rv_value hv))) ?c"
    using assms spec_find [of "unat (rl_n c)" sample now k "redis_contents H c"] by (auto simp: redis_inv_def redis_core_def f exact_def)
  then show ?thesis using Some ob by (auto simp: RedisLRUCache_find_def)
qed

lemma redis_clear_ok:
  assumes "redis_inv c"
  shows "\<exists>out c'. redis_step H items RClear c = Some (Inr (out, c')) \<and> step_ok RClear c out c'"
proof -
  let ?M = "chm_find H (rl_map c)"
  have k: "objects_ok ?M (rl_objects c) (rl_next c)" using assms by (simp add: redis_inv_def redis_core_def)
  have i: "(k, hv) \<in> set (items (rl_map c)) \<longleftrightarrow> ?M k = Some hv" for k hv
    using items_distinct by (metis items_find map_of_eq_Some_iff)
  have "inj_on (rv_lru_object \<circ> snd) (set (items (rl_map c)))"
  proof (rule inj_onI)
    fix x y assume x: "x \<in> set (items (rl_map c))" and y: "y \<in> set (items (rl_map c))" and e: "(rv_lru_object \<circ> snd) x = (rv_lru_object \<circ> snd) y"
    have "?M (fst x) = Some (snd x)" "?M (fst y) = Some (snd y)" using x y by (simp_all flip: i)
    moreover from this have "fst x = fst y" using k e by (auto simp: objects_ok_def)
    ultimately show "x = y" by (simp add: prod_eq_iff)
  qed
  then have "distinct (map (rv_lru_object \<circ> snd) (items (rl_map c)))"
    using items_distinct [of "rl_map c"] by (simp add: distinct_map)
  moreover have "\<forall>kv \<in> set (items (rl_map c)). rl_objects c (rv_lru_object (snd kv)) \<noteq> None" using k i by (auto simp: objects_ok_def)
  ultimately obtain objs where o: "delete_objects (items (rl_map c)) (rl_objects c) = Inr objs" using delete_objects_ok by blast
  let ?c = "c\<lparr>rl_objects := objs, rl_map := chm_clear H (rl_map c), rl_s := 0\<rparr>"
  have e: "redis_contents H ?c = Map.empty" by (simp add: redis_contents_def find_clear fun_eq_iff)
  have "redis_inv ?c" using assms by (simp add: redis_inv_def redis_core_def find_clear objects_ok_def pool_ok_def)
  then have "step_ok RClear c Done ?c" using spec_clear [of "unat (rl_n c)" "redis_contents H c"] e by simp
  then show ?thesis by (auto simp: RedisLRUCache_clear_def o)
qed

lemma redis_refuse_ok:
  assumes "redis_inv c" "chm_find H (rl_map c) k \<noteq> None"
  shows "\<exists>out c'. redis_step H items (RInsert now d t k v) c = Some (Inr (out, c')) \<and> step_ok (RInsert now d t k v) c out c'"
proof -
  let ?hv = "\<lparr>rv_value = v, rv_lru_object = rl_next c\<rparr>"
  let ?c = "c\<lparr>rl_objects := (rl_objects c)(rl_next c := None), rl_next := rl_next c + 1, rl_map := snd (chm_insert H (rl_map c) k ?hv)\<rparr>"
  have i: "\<not> fst (chm_insert H (rl_map c) k ?hv)" "chm_find H (snd (chm_insert H (rl_map c) k ?hv)) = chm_find H (rl_map c)"
    using insert_old [OF assms(2)] by auto
  have r: "redis_step H items (RInsert now d t k v) c = Some (Inr (Inserted False, ?c))"
    using i(1) by (simp add: RedisLRUCache_insert_def Let_def split_beta)
  have "objects_ok M objs nx \<Longrightarrow> objects_ok M (objs(nx := None)) (Suc nx)" for M :: "size_t \<rightharpoonup> 'v RedisValue" and objs nx
    by (fastforce simp: objects_ok_def)
  then have "redis_inv ?c" using assms(1) by (auto simp: redis_inv_def redis_core_def i(2) pool_ok_def)
  moreover have "redis_contents H ?c = redis_contents H c" "redis_contents H c k \<noteq> None" using assms(2) by (simp_all add: redis_contents_def i(2))
  moreover have "exact ?c = exact c" by (simp add: exact_def i(2))
  ultimately have "step_ok (RInsert now d t k v) c (Inserted False) ?c"
    using spec_refuse [of "redis_contents H c" k "unat (rl_n c)" now d t v] by simp
  then show ?thesis using r by blast
qed

lemma redis_insert_new:
  assumes "redis_inv c" "chm_find H (rl_map c) k = None" "length (vec (rl_rs c)) < 2 ^ 31" "draws_ok (RInsert now d t k v)"
  shows "redis_step H items (RInsert now d t k v) c = Some res \<Longrightarrow> \<exists>out c'. res = Inr (out, c') \<and> step_ok (RInsert now d t k v) c out c'"
    "returning (RInsert now d t k v) \<Longrightarrow> exact c \<Longrightarrow> redis_step H items (RInsert now d t k v) c \<noteq> None"
proof -
  let ?hv = "\<lparr>rv_value = v, rv_lru_object = rl_next c\<rparr>" and ?op = "RInsert now d t k v"
  define c1 where "c1 = c\<lparr>rl_objects := (rl_objects c)(rl_next c \<mapsto> lru_object_new now k), rl_next := rl_next c + 1,
    rl_map := snd (chm_insert H (rl_map c) k ?hv), rl_rs := snd (rs_insert k (rl_rs c))\<rparr>"
  have core: "redis_core H c" and card: "card (dom (chm_find H (rl_map c))) = unat (rl_s c)" and le: "rl_s c \<le> rl_n c"
    using assms(1) by (auto simp: redis_inv_def)
  note l = redis_link [OF core assms(2,3), where ob = "lru_object_new now k" and v = v, folded c1_def]
  have s1: "rl_s c1 = rl_s c" "rl_n c1 = rl_n c" by (simp_all add: c1_def)
  have con: "redis_contents H c1 = (redis_contents H c)(k \<mapsto> v)" using contents_upd(1) [OF l(2)] by simp
  have k: "redis_contents H c k = None" using assms(2) by (simp add: redis_contents_def)
  have card1: "card (dom (chm_find H (rl_map c1))) = Suc (unat (rl_s c))" using card assms(2) by (simp add: l(2) card_insert_if domIff)
  have step: "redis_step H items ?op c = (if rl_s c < rl_n c then Some (Inr (Inserted True, c1\<lparr>rl_s := rl_s c + 1\<rparr>))
      else p_bind (performEvictions H d t 0 c1) (\<lambda>c. Some (Inr (Inserted True, c))))"
    using insert_new [OF assms(2), of ?hv]
    by (simp add: RedisLRUCache_insert_def Let_def split_beta c1_def p_bind_def split: option.splits sum.splits)
  have ex1: "exact c1" if "returning ?op" "exact c" using that l(2,3) by (auto simp: exact_def)
  have ne: "vec (rl_rs c1) \<noteq> []" using l(3) by auto
  have full: "unat (rl_s c) = unat (rl_n c)" if "\<not> rl_s c < rl_n c" using that le by simp
  show "redis_step H items ?op c \<noteq> None" if ret: "returning ?op" "exact c"
  proof -
    have "\<forall>k \<in> set (vec (rl_rs c1)). k \<noteq> 0 \<and> chm_find H (rl_map c1) k \<noteq> None" using ex1 [OF ret] by (auto simp: exact_def)
    then obtain c' where "performEvictions H d t 0 c1 = Some (Inr c')"
      using performEvictions_returns [OF l(1) ne, of d t 0] assms(4) ret(1) by auto
    then show ?thesis unfolding step by simp
  qed
  assume "redis_step H items ?op c = Some res"
  note r = this [unfolded step]
  show "\<exists>out c'. res = Inr (out, c') \<and> step_ok ?op c out c'"
  proof (cases "rl_s c < rl_n c")
    case True
    let ?c = "c1\<lparr>rl_s := rl_s c + 1\<rparr>"
    have "unat (rl_s c + 1) = Suc (unat (rl_s c))" using True unat_inc [of "rl_s c" "rl_n c"] by (simp add: word_less_nat_alt)
    then have "redis_inv ?c" using l(1) card1 True by (simp add: redis_inv_def redis_core_def s1 pool_ok_def word_less_nat_alt word_le_nat_alt)
    moreover have "redis_contents H ?c = (redis_contents H c)(k \<mapsto> v)" using con by (simp add: redis_contents_def)
    ultimately have "step_ok ?op c (Inserted True) ?c"
      using spec_store [of "redis_contents H c" k "unat (rl_n c)" now d t v] k card True l(4) ex1
      by (auto simp: s1 contents_upd(3) word_less_nat_alt exact_def)
    then show ?thesis using r True by auto
  next
    case False
    then obtain res' where e: "performEvictions H d t 0 c1 = Some res'" using r by (cases "performEvictions H d t 0 c1") auto
    obtain c' where c': "res' = Inr c'" "evicted c1 c'" using performEvictions_safe [OF e l(1) ne] assms(4) by auto
    obtain x where x: "x \<in> dom (chm_find H (rl_map c1))" "chm_find H (rl_map c') = (chm_find H (rl_map c1))(x := None)"
      "set (vec (rl_rs c')) = set (vec (rl_rs c1)) - {x}" using c'(2) by (auto simp: evicted_def)
    have "card (dom (chm_find H (rl_map c'))) = unat (rl_s c)" using x(1) card1 by (simp add: x(2) domIff)
    then have "redis_inv c'" using c'(2) le by (simp add: redis_inv_def evicted_def s1)
    moreover have "redis_contents H c' = (redis_contents H c)(k \<mapsto> v, x := None)" using contents_upd(2) [OF x(2)] con by simp
    moreover have "x \<in> insert k (dom (redis_contents H c))" using x(1) l(2) by (auto simp: contents_upd(3))
    moreover have "exact c'" if "returning ?op" "exact c" using ex1 [OF that] x by (auto simp: exact_def)
    ultimately have "step_ok ?op c (Inserted True) c'"
      using spec_replace [of "redis_contents H c" k "unat (rl_n c)" x now d t v] k card full [OF False] l(4) c'(2)
      by (auto simp: s1 contents_upd(3) evicted_def)
    then show ?thesis using r False by (auto simp: e c'(1))
  qed
qed

lemma redis_step_ok:
  assumes "redis_inv c" "length (vec (rl_rs c)) < 2 ^ 31" "draws_ok op"
  shows "redis_step H items op c = Some res \<Longrightarrow> \<exists>out c'. res = Inr (out, c') \<and> step_ok op c out c'"
    "returning op \<Longrightarrow> exact c \<Longrightarrow> redis_step H items op c \<noteq> None"
proof -
  have "(redis_step H items op c = Some res \<longrightarrow> (\<exists>out c'. res = Inr (out, c') \<and> step_ok op c out c')) \<and>
    (returning op \<longrightarrow> exact c \<longrightarrow> redis_step H items op c \<noteq> None)"
  proof (cases op)
    case (RFind sample now k)
    then show ?thesis using redis_find_ok [OF assms(1), of sample now k] by auto
  next
    case (RInsert now d t k v)
    show ?thesis
    proof (cases "chm_find H (rl_map c) k = None")
      case True
      then show ?thesis unfolding RInsert using redis_insert_new [OF assms(1) True assms(2) assms(3) [unfolded RInsert]] by blast
    next
      case False
      then obtain out c' where "redis_step H items op c = Some (Inr (out, c'))" "step_ok op c out c'"
        using redis_refuse_ok [OF assms(1) False, of now d t v] unfolding RInsert by blast
      then show ?thesis by auto
    qed
  next
    case RClear
    then show ?thesis using redis_clear_ok [OF assms(1)] by auto
  next
    case RSize
    have "step_ok RSize c (Count (unat (rl_s c))) c"
      using assms(1) spec_size [of "unat (rl_n c)" "redis_contents H c"] by (simp add: redis_inv_def contents_upd(3))
    then show ?thesis using RSize by (auto simp: RedisLRUCache_size_def)
  qed
  then show "redis_step H items op c = Some res \<Longrightarrow> \<exists>out c'. res = Inr (out, c') \<and> step_ok op c out c'"
    "returning op \<Longrightarrow> exact c \<Longrightarrow> redis_step H items op c \<noteq> None" by blast+
qed

lemma redis_run_ok:
  assumes "redis_inv c" "length (vec (rl_rs c)) + length ops \<le> 2 ^ 31" "list_all draws_ok ops"
  shows "redis_run H items ops c = Some res \<Longrightarrow> \<exists>outs c'. res = Inr (outs, c') \<and> redis_inv c' \<and> rl_n c' = rl_n c \<and>
      redis_trace (unat (rl_n c)) ops (redis_contents H c) outs (redis_contents H c')"
    "list_all returning ops \<Longrightarrow> exact c \<Longrightarrow> redis_run H items ops c \<noteq> None"
proof -
  have "(redis_run H items ops c = Some res \<longrightarrow> (\<exists>outs c'. res = Inr (outs, c') \<and> redis_inv c' \<and> rl_n c' = rl_n c \<and>
      redis_trace (unat (rl_n c)) ops (redis_contents H c) outs (redis_contents H c'))) \<and>
    (list_all returning ops \<longrightarrow> exact c \<longrightarrow> redis_run H items ops c \<noteq> None)"
    using assms
  proof (induction ops arbitrary: c res)
    case Nil
    then show ?case by (auto intro: trace_Nil)
  next
    case (Cons op ops)
    have s: "length (vec (rl_rs c)) < 2 ^ 31" "draws_ok op" using Cons.prems by auto
    note step = redis_step_ok [OF Cons.prems(1) s]
    show ?case
    proof (cases "redis_step H items op c")
      case None
      then show ?thesis using step(2) by (auto simp del: redis_step.simps)
    next
      case (Some r)
      then obtain out c1 where c1: "r = Inr (out, c1)" "step_ok op c out c1" using step(1) by blast
      have "length (vec (rl_rs c1)) + length ops \<le> 2 ^ 31" "list_all draws_ok ops" using c1(2) Cons.prems by auto
      note IH = Cons.IH [OF conjunct1 [OF c1(2)] this]
      have run: "redis_run H items (op # ops) c = p_bind (redis_run H items ops c1) (\<lambda>(outs, c). Some (Inr (out # outs, c)))"
        by (simp add: Some c1(1) del: redis_step.simps)
      show ?thesis
      proof (cases "redis_run H items ops c1")
        case None
        then show ?thesis unfolding run using IH c1(2) by auto
      next
        case (Some r')
        then obtain outs c' where "r' = Inr (outs, c')" "redis_inv c'" "rl_n c' = rl_n c1"
          "redis_trace (unat (rl_n c1)) ops (redis_contents H c1) outs (redis_contents H c')" using IH by blast
        then show ?thesis unfolding run Some using c1(2) by (auto intro: trace_Cons)
      qed
    qed
  qed
  then show "redis_run H items ops c = Some res \<Longrightarrow> \<exists>outs c'. res = Inr (outs, c') \<and> redis_inv c' \<and> rl_n c' = rl_n c \<and>
      redis_trace (unat (rl_n c)) ops (redis_contents H c) outs (redis_contents H c')"
    "list_all returning ops \<Longrightarrow> exact c \<Longrightarrow> redis_run H items ops c \<noteq> None" by blast+
qed

lemma redis_new_exact: "exact (RedisLRUCache_new H n)"
  by (simp add: exact_def RedisLRUCache_new_def RandomizedSet_new_def find_init)

text \<open>\<open>performEviction\<close>, which nothing calls, evicts a stored key in its first round.\<close>

lemma sample_idlest_ok:
  assumes "redis_core H c" "vec (rl_rs c) \<noteq> []" "\<forall>i. unat (d i) < 2147483647" "\<forall>i. 2 ^ 32 + 100 \<le> unat (clk i)"
    "\<forall>k \<in> set (vec (rl_rs c)). chm_find H (rl_map c) k \<noteq> None" "best = (0, 0) \<or> chm_find H (rl_map c) (fst best) \<noteq> None"
  shows "\<exists>best'. sample_idlest H d clk c left i best = Inr best' \<and>
    (0 < left \<or> best \<noteq> (0, 0) \<longrightarrow> chm_find H (rl_map c) (fst best') \<noteq> None)"
  using assms(6)
proof (induction left arbitrary: i best)
  case (Suc left)
  obtain k where k: "k \<in> set (vec (rl_rs c))" "rs_getRandom (d i) (rl_rs c) = Inr k" using rs_getRandom_ok [OF assms(2)] assms(3) by blast
  obtain hv where hv: "chm_find H (rl_map c) k = Some hv" using assms(5) k(1) by auto
  obtain ob where ob: "rl_objects c (rv_lru_object hv) = Some ob" using assms(1) hv objects_okD(1) unfolding redis_core_def by blast
  let ?t = "estimateObjectIdleTime (clk i) ob"
  let ?best = "if ?t > snd best then (k, ?t) else best"
  have "?t \<noteq> 0" using assms(4) idle_positive by blast
  then have b: "?best \<noteq> (0, 0) \<and> chm_find H (rl_map c) (fst ?best) \<noteq> None" using Suc.prems hv by (auto simp: word_neq_0_conv)
  have "sample_idlest H d clk c (Suc left) i best = sample_idlest H d clk c left (i + 1) ?best" by (simp add: k(2) hv ob Let_def)
  then show ?case using Suc.IH [of ?best "i + 1"] b by metis
qed auto

lemma performEviction_evicts:
  assumes "redis_core H c" "vec (rl_rs c) \<noteq> []" "\<forall>r i. unat (draws r i) < 2147483647" "\<forall>r i. 2 ^ 32 + 100 \<le> unat (clock r i)"
    "\<forall>k \<in> set (vec (rl_rs c)). chm_find H (rl_map c) k \<noteq> None"
  shows "\<exists>x rs. x \<in> dom (chm_find H (rl_map c)) \<and> rs_remove x (rl_rs c) = Inr (True, rs) \<and>
    performEviction H draws clock r (0, 0) c = Some (Inr (c\<lparr>rl_map := snd (chm_erase H (rl_map c) x), rl_rs := rs\<rparr>))"
proof -
  obtain best where b: "sample_idlest H (draws r) (clock r) c EVICTION_SAMPLE 0 (0, 0) = Inr best" "chm_find H (rl_map c) (fst best) \<noteq> None"
    using sample_idlest_ok [OF assms(1,2) _ _ assms(5), of "draws r" "clock r" "(0, 0)" EVICTION_SAMPLE 0] assms(3,4)
    by (auto simp: EVICTION_SAMPLE_def)
  then have x: "fst best \<in> dom (chm_find H (rl_map c))" "fst best \<in> set (vec (rl_rs c))" "rs_ok (rl_rs c)" using assms(1) by (auto simp: redis_core_def)
  obtain rs where rs: "rs_remove (fst best) (rl_rs c) = Inr (True, rs)" using rs_remove_present [OF x(3,2)] by blast
  have "performEviction H draws clock r (0, 0) c = Some (Inr (c\<lparr>rl_map := snd (chm_erase H (rl_map c) (fst best)), rl_rs := rs\<rparr>))"
    using b(2) by (subst performEviction.simps) (auto simp: b(1) rs)
  then show ?thesis using x(1) rs by blast
qed

end

section \<open>The properties\<close>

text \<open>An association list is a table whose entries can be listed.\<close>

definition alist_chm :: "('k, 'v, ('k \<times> 'v) list) chm" where
  "alist_chm = \<lparr>
     chm_init = [],
     chm_find = map_of,
     chm_insert = (\<lambda>m k v. case map_of m k of None \<Rightarrow> (True, (k, v) # m) | Some _ \<Rightarrow> (False, m)),
     chm_assign = (\<lambda>m k v. (k, v) # m),
     chm_erase = (\<lambda>m k. (map_of m k \<noteq> None, AList.delete k m)),
     chm_clear = (\<lambda>_. [])\<rparr>"

interpretation alist_table: redis_cache alist_chm AList.clearjunk
  by unfold_locales
    (auto simp: alist_chm_def AList.delete_conv' map_of_clearjunk distinct_clearjunk)


text \<open>
  C17. Every call on a Redis cache returns: with keys other than 0, with a clock that shows a time more than
  \<open>2^32\<close> microseconds after its origin, and as long as \<open>clear\<close> is not called, no sequence of draws
  keeps an eviction sampling forever.
\<close>

theorem RedisLRUCache_returns:
  assumes "redis_cache H items" "list_all draws_ok ops" "list_all returning ops" "length ops \<le> 2 ^ 31"
  shows "\<exists>outs c. redis_run H items ops (RedisLRUCache_new H n) = Some (Inr (outs, c)) \<and> length outs = length ops"
proof -
  note new = redis_cache.redis_inv_new [OF assms(1), of n]
  have "redis_run H items ops (RedisLRUCache_new H n) \<noteq> None"
    using redis_cache.redis_run_ok(2) [OF assms(1) new(1) _ assms(2,3) redis_cache.redis_new_exact [OF assms(1)]] assms(4) new(3) by simp
  then obtain res where r: "redis_run H items ops (RedisLRUCache_new H n) = Some res" by blast
  then obtain outs c where "res = Inr (outs, c)" "redis_trace (unat n) ops Map.empty outs (redis_contents H c)"
    using redis_cache.redis_run_ok(1) [OF assms(1) new(1) _ assms(2) r] assms(4) new by auto
  moreover have "length outs = length ops" if "redis_trace cap ops m outs m'" for cap ops m outs and m' :: "size_t \<rightharpoonup> 'a"
    using that by induction simp_all
  ultimately show ?thesis using r by blast
qed

definition redis_demo :: "string redis_op list" where
  "redis_demo = [RInsert 5000000000 (\<lambda>_ _. 1) (\<lambda>_ _. 5000000000) 1 ''a'', RInsert 5000001000 (\<lambda>_ _. 1) (\<lambda>_ _. 5000001000) 2 ''b'', RFind True 5000002000 2]"

lemma redis_demo_ok: "list_all draws_ok redis_demo" "list_all returning redis_demo" "length redis_demo \<le> 2 ^ 31"
  by (simp_all add: redis_demo_def)

theorem RedisLRUCache_returns_witness:
  "\<exists>outs c. redis_run alist_chm AList.clearjunk redis_demo (RedisLRUCache_new alist_chm 1) = Some (Inr (outs, c)) \<and> length outs = length redis_demo"
  by (rule RedisLRUCache_returns [OF alist_table.redis_cache_axioms redis_demo_ok])


text \<open>Sequences of calls of \<open>RandomizedSet\<close>, and of a set.\<close>

datatype rs_op = RSInsert size_t | RSRemove size_t

fun rs_run :: "rs_op list \<Rightarrow> RandomizedSet \<Rightarrow> (bool list \<times> RandomizedSet) result" where
  "rs_run [] rs = Inr ([], rs)"
| "rs_run (RSInsert k # ops) rs =
     (let (b, rs) = rs_insert k rs in r_bind (rs_run ops rs) (\<lambda>(bs, rs). Inr (b # bs, rs)))"
| "rs_run (RSRemove k # ops) rs =
     r_bind (rs_remove k rs) (\<lambda>(b, rs). r_bind (rs_run ops rs) (\<lambda>(bs, rs). Inr (b # bs, rs)))"

fun set_run :: "rs_op list \<Rightarrow> size_t set \<Rightarrow> bool list \<times> size_t set" where
  "set_run [] S = ([], S)"
| "set_run (RSInsert k # ops) S = (let (bs, S') = set_run ops (insert k S) in ((k \<notin> S) # bs, S'))"
| "set_run (RSRemove k # ops) S = (let (bs, S') = set_run ops (S - {k}) in ((k \<in> S) # bs, S'))"

lemma rs_run_ok:
  assumes "rs_ok rs" "length (vec rs) + length ops \<le> 2 ^ 31"
  shows "\<exists>rs'. rs_run ops rs = Inr (fst (set_run ops (set (vec rs))), rs') \<and> rs_ok rs' \<and> set (vec rs') = snd (set_run ops (set (vec rs)))"
  using assms
proof (induction ops rs rule: rs_run.induct)
  case (2 k ops rs)
  have l: "length (vec rs) < 2 ^ 31" using "2.prems" by simp
  note i = rs_insert_ok [OF "2.prems"(1) l, of k]
  show ?case using "2.IH" [OF prod.collapse refl i(1)] i "2.prems"(2) by (auto simp: split_beta Let_def)
next
  case (3 k ops rs)
  obtain rs' where r: "rs_remove k rs = Inr (k \<in> set (vec rs), rs')" "rs_ok rs'" "set (vec rs') = set (vec rs) - {k}" "length (vec rs') \<le> length (vec rs)"
    using rs_remove_ok [OF "3.prems"(1)] by blast
  show ?case using "3.IH" [OF r(2)] r "3.prems"(2) by (auto simp: split_beta Let_def)
qed simp

text \<open>
  C33. \<open>RandomizedSet\<close> is a set: after any sequence of insertions and removals the vector holds the elements
  without repetition, the position map is its inverse, every call has returned whether it changed the set, and
  \<open>getRandom\<close> of a nonempty set returns an element for every number the generator produces.
\<close>

theorem RandomizedSet_is_set:
  assumes "length ops \<le> 2 ^ 31"
  shows "\<exists>rs. rs_run ops RandomizedSet_new = Inr (fst (set_run ops {}), rs) \<and> rs_ok rs \<and> set (vec rs) = snd (set_run ops {}) \<and>
    (\<forall>d. vec rs \<noteq> [] \<and> unat d < 2147483647 \<longrightarrow> (\<exists>k \<in> set (vec rs). rs_getRandom d rs = Inr k))"
proof -
  have "vec RandomizedSet_new = []" by (simp add: RandomizedSet_new_def)
  then show ?thesis using rs_run_ok [OF rs_ok_new, of ops] assms rs_getRandom_ok by auto
qed

theorem RandomizedSet_is_set_witness:
  "\<exists>rs. rs_run [RSInsert 1, RSInsert 2, RSInsert 1, RSInsert 3, RSRemove 1, RSRemove 4] RandomizedSet_new =
      Inr ([True, True, False, True, True, False], rs) \<and> set (vec rs) = {2, 3}"
proof -
  let ?ops = "[RSInsert 1, RSInsert 2, RSInsert 1, RSInsert 3, RSRemove 1, RSRemove 4]"
  have "set_run ?ops {} = ([True, True, False, True, True, False], {2, 3})" by auto
  with RandomizedSet_is_set [of ?ops] show ?thesis by auto
qed

text \<open>
  A sample that goes between two candidates of the pool overwrites the candidate it should move up: the
  array of pointers is moved, so that two slots point to the same entry, and the sample is then in both of them. The
  entry of the last slot is lost.
\<close>

theorem pool_place_overwrites:
  assumes "pool_ok c" "distinct (pool_slots c)" "p = pool_position (pool_slots c) (pool_entries c) t 0" "p < EVICTION_POOL_SIZE - 1"
    "pool_key (slot (pool_slots c) (pool_entries c) p) \<noteq> 0" "pool_key (slot (pool_slots c) (pool_entries c) (EVICTION_POOL_SIZE - 1)) = 0"
    "c' = pool_place key t c" "j < EVICTION_POOL_SIZE"
  shows "slot (pool_slots c') (pool_entries c') j =
    (if j < p then slot (pool_slots c) (pool_entries c) j
     else if j \<le> p + 1 then \<lparr>idle = t, pool_key = key\<rparr>
     else slot (pool_slots c) (pool_entries c) (j - 1))"
proof -
  let ?s = "pool_slots c" and ?es = "pool_entries c" and ?s' = "memmove (p + 1) p (EVICTION_POOL_SIZE - p - 1) (pool_slots c)"
  have l: "length ?s = EVICTION_POOL_SIZE" using assms(1) by (simp add: pool_ok_def)
  have n: "?s' ! j = ?s ! (if j \<le> p then j else j - 1)" if "j < EVICTION_POOL_SIZE" for j
    using that assms(4) l by (auto simp: memmove_def nth_append)
  have p: "p < EVICTION_POOL_SIZE" using assms(4) by simp
  have "\<not> (p < EVICTION_POOL_SIZE \<and> pool_key (slot ?s ?es p) = 0)" "\<not> (p = 0 \<and> pool_key (slot ?s ?es 0) \<noteq> 0 \<and> pool_key (slot ?s ?es (EVICTION_POOL_SIZE - 1)) \<noteq> 0)"
    using assms(5,6) by auto
  then have "pool_shift ?s ?es t = Some (p, ?s')"
    unfolding pool_shift_def Let_def assms(3) [symmetric] by (simp only: assms(6) if_False if_True simp_thms)
  then have c': "pool_slots c' = ?s'" "pool_entries c' = ?es[?s ! p := \<lparr>idle = t, pool_key = key\<rparr>]"
    using n [OF p] by (simp_all add: assms(7) pool_place_def)
  have i: "?s ! i = ?s ! p \<longleftrightarrow> i = p" if "i < EVICTION_POOL_SIZE" for i using nth_eq_iff_index_eq [OF assms(2)] that p l by simp
  have b: "?s ! p < length ?es" using slot_less [OF assms(1) p] .
  let ?i = "if j \<le> p then j else j - 1"
  have ii: "?i < EVICTION_POOL_SIZE" "?i = p \<longleftrightarrow> p \<le> j \<and> j \<le> p + 1" using assms(8) p by auto
  have "slot (pool_slots c') (pool_entries c') j = ?es[?s ! p := \<lparr>idle = t, pool_key = key\<rparr>] ! (?s ! ?i)"
    using n [OF assms(8)] by (simp add: slot_def c')
  also have "\<dots> = (if ?i = p then \<lparr>idle = t, pool_key = key\<rparr> else ?es ! (?s ! ?i))"
    using b i [OF ii(1)] by (simp only: nth_list_update eq_commute)
  finally show ?thesis using ii(2) by (auto simp: slot_def)
qed

definition pool_demo :: "(size_t \<times> string RedisValue) list RedisLRUCache" where
  "pool_demo = pool_place 1 500 (RedisLRUCache_new alist_chm 4)"

lemma pool_demo_facts:
  "pool_slots pool_demo = [0..<16]"
  "pool_entries pool_demo = \<lparr>idle = 500, pool_key = 1\<rparr> # replicate 15 \<lparr>idle = 0, pool_key = 0\<rparr>"
  "pool_position (pool_slots pool_demo) (pool_entries pool_demo) 300 0 = 0"
  by code_simp+

theorem pool_place_overwrites_witness:
  "slot (pool_slots (pool_place 2 300 pool_demo)) (pool_entries (pool_place 2 300 pool_demo)) 0 = \<lparr>idle = 300, pool_key = 2\<rparr> \<and>
   slot (pool_slots (pool_place 2 300 pool_demo)) (pool_entries (pool_place 2 300 pool_demo)) 1 = \<lparr>idle = 300, pool_key = 2\<rparr> \<and>
   slot (pool_slots (pool_place 2 300 pool_demo)) (pool_entries (pool_place 2 300 pool_demo)) 2 = \<lparr>idle = 0, pool_key = 0\<rparr>"
proof -
  have ok: "pool_ok pool_demo" "distinct (pool_slots pool_demo)" by (auto simp: pool_ok_def pool_demo_facts EVICTION_POOL_SIZE_def)
  have k: "pool_key (slot (pool_slots pool_demo) (pool_entries pool_demo) 0) \<noteq> 0"
    "pool_key (slot (pool_slots pool_demo) (pool_entries pool_demo) (EVICTION_POOL_SIZE - 1)) = 0"
    "slot (pool_slots pool_demo) (pool_entries pool_demo) 1 = \<lparr>idle = 0, pool_key = 0\<rparr>"
    by (simp_all add: slot_def pool_demo_facts EVICTION_POOL_SIZE_def)
  note w = pool_place_overwrites [OF ok pool_demo_facts(3) [symmetric] _ k(1,2) refl, where key = 2]
  show ?thesis using w [of 0] w [of 1] w [of 2] k(3) by (simp add: EVICTION_POOL_SIZE_def)
qed

text \<open>
  The access times are cut to 32 bits, while the clock is not: an object used just before a multiple of
  \<open>2^32\<close> microseconds is taken to be less idle, from then on, than one used at that multiple, although it was used earlier.
\<close>

theorem idle_time_wraps:
  assumes "0 < q" "2 ^ 32 * q \<le> unat now"
  shows "estimateObjectIdleTime now (lru_object_new (of_nat (2 ^ 32 * q - 1)) k) < estimateObjectIdleTime now (lru_object_new (of_nat (2 ^ 32 * q)) k')"
proof -
  have e: "unat (estimateObjectIdleTime now ob) = (unat now - unat (lru ob)) div 100" for ob
  proof -
    have u: "unat (ucast (lru ob) :: uint64) = unat (lru ob)" by (rule unat_ucast_up)
    have "unat (lru ob) < 2 ^ 32" using unsigned_less [of "lru ob", where ?'a = nat] by simp
    then have le: "(ucast (lru ob) :: uint64) \<le> now" using assms u by (simp add: word_le_nat_alt)
    then show ?thesis using u by (simp add: estimateObjectIdleTime_def LRU_CLOCK_RESOLUTION_def unat_div unat_sub)
  qed
  have "unat now < 2 ^ 64" using unsigned_less [of now, where ?'a = nat] by simp
  then have n: "2 ^ 32 * q < 2 ^ 64" using assms(2) by linarith
  have l: "unat (ucast (of_nat t :: uint64) :: uint32) = t mod 2 ^ 32" if "t < 2 ^ 64" for t
    using that by (simp add: unsigned_ucast_eq take_bit_eq_mod unat_of_nat)
  obtain q' where q': "q = Suc q'" using assms(1) by (cases q) auto
  have "2 ^ 32 * q - 1 = (2 ^ 32 - 1) + 2 ^ 32 * q'" unfolding q' by simp
  then have m: "(2 ^ 32 * q - 1) mod 2 ^ 32 = (2 ^ 32 - 1 :: nat)" by (simp only: mod_mult_self2) simp
  have "2 ^ 32 * q - 1 < 2 ^ 64" using n by linarith
  then have before: "unat (lru (lru_object_new (of_nat (2 ^ 32 * q - 1)) k)) = 2 ^ 32 - 1"
    by (simp only: lru_object_new_def lru_object.simps l m)
  have at: "unat (lru (lru_object_new (of_nat (2 ^ 32 * q)) k')) = 0"
    by (simp only: lru_object_new_def lru_object.simps l [OF n] mod_mult_self1_is_0)
  have "unat now - (2 ^ 32 - 1) + 100 \<le> unat now" using assms by simp
  then have "(unat now - (2 ^ 32 - 1) + 100) div 100 \<le> unat now div 100" by (rule div_le_mono)
  then have "(unat now - (2 ^ 32 - 1)) div 100 < unat now div 100" by simp
  then show ?thesis unfolding word_less_nat_alt e before at by (simp only: diff_zero)
qed

theorem idle_time_wraps_witness:
  "estimateObjectIdleTime 9000000000 (lru_object_new 4294967295 1) < estimateObjectIdleTime 9000000000 (lru_object_new 4294967296 2)"
  using idle_time_wraps [of 1 9000000000 1 2] by simp

end
