(* ===== verification/Frozen_List.thy ===== *)
theory Frozen_List
  imports Indexed_List
begin

text \<open>
  The data structure of the FrozenHot caches: one store with two lists, the main list between
  \<open>m_head\<close> and \<open>m_tail\<close> and the frozen list between \<open>m_fast_head\<close> and \<open>m_fast_tail\<close>, and one
  hash index over both. A deletion in a frozen state only overwrites the key of the node with
  \<open>TOMB_KEY\<close>; such a node is in a list and not in the index. \<open>fh_indexed h F pend xs fs\<close> says that
  store, index and lists agree; the lemmas say how the list operations move such a state.
\<close>

definition MARKER_KEY :: size_t where "MARKER_KEY = 2"
definition SPECIAL_KEY :: size_t where "SPECIAL_KEY = 0"
definition TOMB_KEY :: size_t where "TOMB_KEY = 1"
definition FC_RELAXATION :: size_t where "FC_RELAXATION = 20"

definition live :: "'z node_heap \<Rightarrow> loc \<Rightarrow> bool" where
  "live h x \<longleftrightarrow> key_at h x \<noteq> TOMB_KEY"

definition live_index :: "'z node_heap \<Rightarrow> (size_t \<Rightarrow> 'v HashMapValue option) \<Rightarrow> loc set \<Rightarrow> bool" where
  "live_index h F N \<longleftrightarrow>
     (\<forall>x \<in> N. live h x \<longrightarrow> (\<exists>v. F (key_at h x) = Some \<lparr>m_value = v, m_listNode = At x\<rparr>)) \<and>
     dom F = key_at h ` {x \<in> N. live h x}"

abbreviation sentinels :: "loc list" where
  "sentinels \<equiv> [m_head, m_tail, m_fast_head, m_fast_tail]"

definition fh_indexed ::
    "'z node_heap \<Rightarrow> (size_t \<Rightarrow> 'v HashMapValue option) \<Rightarrow> loc list \<Rightarrow> loc list \<Rightarrow> loc list \<Rightarrow> bool" where
  "fh_indexed h F pend xs fs \<longleftrightarrow>
     chain h m_head xs m_tail \<and> chain h m_fast_head fs m_fast_tail \<and>
     distinct (sentinels @ pend @ xs @ fs) \<and> dom h = set (sentinels @ pend @ xs @ fs) \<and>
     (\<forall>l \<in> set sentinels. key_at h l = SPECIAL_KEY) \<and>
     live_index h F (set (pend @ xs @ fs))"

text \<open>The pairs of the nodes of a list that are not tombstones.\<close>

definition live_kvs ::
    "'z node_heap \<Rightarrow> (size_t \<Rightarrow> 'v HashMapValue option) \<Rightarrow> loc list \<Rightarrow> (size_t \<times> 'v) list" where
  "live_kvs h F xs = map (kv_at h F) (filter (live h) xs)"

section \<open>The index\<close>

lemma live_index_cong:
  assumes "\<And>x. x \<in> N \<Longrightarrow> key_at h' x = key_at h x"
  shows "live_index h' F N = live_index h F N"
proof -
  have l: "live h' x = live h x" if "x \<in> N" for x using assms that by (simp add: live_def)
  then have "key_at h' ` {x \<in> N. live h' x} = key_at h ` {x \<in> N. live h x}"
    using assms by (auto simp: image_iff)
  with assms l show ?thesis by (auto simp: live_index_def)
qed

lemma live_index_node:
  assumes "live_index h F N" "x \<in> N" "live h x"
  shows "\<exists>v. F (key_at h x) = Some \<lparr>m_value = v, m_listNode = At x\<rparr> \<and> kv_at h F x = (key_at h x, v)"
proof -
  from assms obtain v where "F (key_at h x) = Some \<lparr>m_value = v, m_listNode = At x\<rparr>"
    unfolding live_index_def by blast
  then show ?thesis by (simp add: kv_at_def)
qed

lemma live_index_inj:
  assumes "live_index h F N" "x \<in> N" "y \<in> N" "live h x" "key_at h x = key_at h y"
  shows "x = y"
proof -
  have "live h y" using assms(4,5) by (simp add: live_def)
  then obtain v w where "F (key_at h x) = Some \<lparr>m_value = v, m_listNode = At x\<rparr>"
    "F (key_at h y) = Some \<lparr>m_value = w, m_listNode = At y\<rparr>"
    using live_index_node [OF assms(1,2,4)] live_index_node [OF assms(1,3)] by blast
  then show ?thesis unfolding assms(5) by simp
qed

lemma live_index_find:
  assumes "live_index h F N" "F k = Some hv"
  obtains x where "x \<in> N" "live h x" "key_at h x = k" "m_listNode hv = At x" "kv_at h F x = (k, m_value hv)"
proof -
  from assms have "k \<in> key_at h ` {x \<in> N. live h x}" unfolding live_index_def by blast
  then obtain x where x: "x \<in> N" "live h x" "key_at h x = k" by blast
  with live_index_node [OF assms(1) x(1,2)] assms(2) show ?thesis by (intro that) auto
qed

lemma live_index_tomb_key:
  assumes "live_index h F N"
  shows "F TOMB_KEY = None"
proof -
  have "TOMB_KEY \<notin> key_at h ` {x \<in> N. live h x}" by (auto simp: live_def)
  with assms show ?thesis unfolding live_index_def by blast
qed

text \<open>Taking a node out of the index, adding one, turning one into a tombstone.\<close>

lemma live_index_erase:
  assumes i: "live_index h F N" and x: "x \<in> N" "live h x"
    and k: "\<And>y. y \<in> N - {x} \<Longrightarrow> key_at h' y = key_at h y"
  shows "live_index h' (F(key_at h x := None)) (N - {x})"
proof -
  have ne: "key_at h y \<noteq> key_at h x" if "y \<in> N - {x}" for y
    using live_index_inj [OF i, of x y] x that by auto
  have "dom (F(key_at h x := None)) = key_at h ` {y \<in> N. live h y} - {key_at h x}"
    using i by (simp add: live_index_def)
  also have "\<dots> = key_at h ` {y \<in> N - {x}. live h y}" by (auto simp: ne)
  finally have "live_index h (F(key_at h x := None)) (N - {x})"
    using i ne by (simp add: live_index_def)
  then show ?thesis using live_index_cong [OF k] by blast
qed

lemma live_index_drop_tomb:
  assumes "live_index h F N" "\<not> live h x"
    and k: "\<And>y. y \<in> N - {x} \<Longrightarrow> key_at h' y = key_at h y"
  shows "live_index h' F (N - {x})"
proof -
  have "{y \<in> N - {x}. live h y} = {y \<in> N. live h y}" using assms(2) by auto
  then have "live_index h F (N - {x})" using assms(1) by (simp add: live_index_def)
  then show ?thesis using live_index_cong [OF k] by blast
qed

lemma live_index_add:
  assumes i: "live_index h F N" and a: "a \<notin> N" and k: "F k = None" "k \<noteq> TOMB_KEY" "key_at h' a = k"
    and kk: "\<And>y. y \<in> N \<Longrightarrow> key_at h' y = key_at h y"
  shows "live_index h' (F(k \<mapsto> \<lparr>m_value = v, m_listNode = At a\<rparr>)) (insert a N)"
proof -
  have i': "live_index h' F N" using i live_index_cong [OF kk] by blast
  have ne: "key_at h' y \<noteq> k" if "y \<in> N" "live h' y" for y
    using live_index_node [OF i' that] k(1) by auto
  have l: "live h' a" using k by (simp add: live_def)
  have "{x \<in> insert a N. live h' x} = insert a {x \<in> N. live h' x}" using l by auto
  moreover have "dom (F(k \<mapsto> \<lparr>m_value = v, m_listNode = At a\<rparr>)) = insert k (key_at h' ` {x \<in> N. live h' x})"
    using i' by (simp add: live_index_def)
  moreover have "\<exists>w. (F(k \<mapsto> \<lparr>m_value = v, m_listNode = At a\<rparr>)) (key_at h' y) = Some \<lparr>m_value = w, m_listNode = At y\<rparr>"
    if "y \<in> insert a N" "live h' y" for y
  proof (cases "y = a")
    case False
    with that have y: "y \<in> N" by simp
    show ?thesis using live_index_node [OF i' y that(2)] ne [OF y that(2)] by auto
  qed (use k(3) in simp)
  ultimately show ?thesis using k(3) by (simp add: live_index_def)
qed

lemma live_index_entomb:
  assumes i: "live_index h F N" and x: "x \<in> N" "live h x" and t: "key_at h' x = TOMB_KEY"
    and k: "\<And>y. y \<in> N - {x} \<Longrightarrow> key_at h' y = key_at h y"
  shows "live_index h' (F(key_at h x := None)) N"
proof -
  have e: "live_index h' (F(key_at h x := None)) (N - {x})" by (rule live_index_erase [OF i x k])
  have l: "\<not> live h' x" using t by (simp add: live_def)
  then have "{y \<in> N. live h' y} = {y \<in> N - {x}. live h' y}" by auto
  moreover have "y \<in> N - {x}" if "y \<in> N" "live h' y" for y using l that by auto
  ultimately show ?thesis using e by (simp add: live_index_def)
qed

section \<open>Two lists in one store\<close>

lemma fh_chains:
  assumes "fh_indexed h F pend xs fs"
  shows "chain h m_head xs m_tail" "chain h m_fast_head fs m_fast_tail"
    "distinct (sentinels @ pend @ xs @ fs)" "dom h = set (sentinels @ pend @ xs @ fs)"
    "live_index h F (set (pend @ xs @ fs))" "\<And>l. l \<in> set sentinels \<Longrightarrow> key_at h l = SPECIAL_KEY"
  using assms unfolding fh_indexed_def by blast+

lemma fh_alloc: "fh_indexed h F pend xs fs \<Longrightarrow> x \<in> set (sentinels @ pend @ xs @ fs) \<Longrightarrow> h x \<noteq> None"
  using fh_chains(4) [of h F pend xs fs] by blast

lemma fh_relink:
  assumes i: "fh_indexed h F pend xs fs" and sp: "same_payload h h'"
    and ch: "chain h' m_head xs' m_tail" "chain h' m_fast_head fs' m_fast_tail"
    and s: "set (pend' @ xs' @ fs') = set (pend @ xs @ fs)" "distinct (pend' @ xs' @ fs')"
  shows "fh_indexed h' F pend' xs' fs'"
proof -
  note ic = fh_chains [OF i]
  have k: "key_at h' x = key_at h x" if "x \<in> set (sentinels @ pend @ xs @ fs)" for x
    by (rule same_payload_key_at [OF sp fh_alloc [OF i that]])
  have "live_index h' F (set (pend @ xs @ fs))"
    using ic(5) live_index_cong [of "set (pend @ xs @ fs)" h' h F] k by simp
  then have "live_index h' F (set (pend' @ xs' @ fs'))" using s(1) by simp
  moreover have "\<And>l. l \<in> set sentinels \<Longrightarrow> key_at h' l = SPECIAL_KEY"
    using ic(6) k by (metis Un_iff set_append)
  moreover have "dom h' = set (sentinels @ pend' @ xs' @ fs')"
    using same_payload_dom_eq [OF sp] ic(4) s(1) by auto
  moreover have "distinct (sentinels @ pend' @ xs' @ fs')"
  proof -
    have "set sentinels \<inter> set (pend' @ xs' @ fs') = {}"
      using ic(3) unfolding s(1) distinct_append by blast
    moreover have "distinct sentinels" by simp
    ultimately show ?thesis using s(2) unfolding distinct_append by blast
  qed
  ultimately show ?thesis using ch unfolding fh_indexed_def by blast
qed

lemma live_kvs_cong:
  assumes "\<And>y. y \<in> set xs \<Longrightarrow> key_at h' y = key_at h y"
    "\<And>y. y \<in> set xs \<Longrightarrow> live h y \<Longrightarrow> F' (key_at h y) = F (key_at h y)"
  shows "live_kvs h' F' xs = live_kvs h F xs"
  using assms by (induction xs) (simp_all add: live_kvs_def live_def kv_at_def)

lemma fh_same_kvs:
  assumes i: "fh_indexed h F pend xs fs" and sp: "same_payload h h'" and ws: "set ws \<subseteq> set (pend @ xs @ fs)"
  shows "live_kvs h' F ws = live_kvs h F ws"
proof (rule live_kvs_cong)
  fix y
  assume "y \<in> set ws"
  then have "h y \<noteq> None" using ws by (intro fh_alloc [OF i]) auto
  then show "key_at h' y = key_at h y" by (rule same_payload_key_at [OF sp])
qed simp

lemma live_kvs_append [simp]: "live_kvs h F (xs @ ys) = live_kvs h F xs @ live_kvs h F ys"
  by (simp add: live_kvs_def)

lemma live_kvs_Cons [simp]:
  "live_kvs h F (x # xs) = (if live h x then kv_at h F x # live_kvs h F xs else live_kvs h F xs)"
  by (simp add: live_kvs_def)

lemma live_kvs_Nil [simp]: "live_kvs h F [] = []"
  by (simp add: live_kvs_def)

section \<open>Operations on the main list\<close>

text \<open>An operation on the main list leaves the links of the frozen list alone, and the other way round.\<close>

lemma fast_chain_kept:
  assumes "chain h m_fast_head fs m_fast_tail" "agrees_off h h' (set (m_head # xs @ [m_tail]))"
    "distinct (sentinels @ xs @ fs)"
  shows "chain h' m_fast_head fs m_fast_tail"
proof -
  have "set (m_fast_head # fs @ [m_fast_tail]) \<inter> set (m_head # xs @ [m_tail]) = {}"
    using assms(3) by auto
  with chain_agrees_off [OF assms(2)] assms(1) show ?thesis by blast
qed

lemma fh_delink:
  assumes i: "fh_indexed h F pend (ys @ x # zs) fs"
  obtains h1 where "checked_delink h (At x) = Inr h1" "chain h1 m_head (ys @ zs) m_tail"
    "chain h1 m_fast_head fs m_fast_tail" "same_payload h h1" "prv h1 x = Some OutOfListMarker"
proof -
  note ic = fh_chains [OF i]
  have d: "distinct (m_head # ys @ x # zs @ [m_tail])" using ic(3) by auto
  obtain h1 where h1: "delink h (At x) = Inr h1" "chain h1 m_head (ys @ zs) m_tail"
    "same_payload h h1" "prv h1 x = Some OutOfListMarker"
    "agrees_off h h1 (set (m_head # ys @ x # zs @ [m_tail]))"
    using delink_chain [OF ic(1) d] by blast
  have "chain h1 m_fast_head fs m_fast_tail"
    using ic(3) by (intro fast_chain_kept [OF ic(2), of h1 "ys @ x # zs"]) (use h1(5) in auto)
  with h1 checked_delink_eq [OF ic(1)] show ?thesis by (intro that) auto
qed

lemma fh_promote:
  assumes i: "fh_indexed h F [] (ys @ x # zs) fs"
  obtains h1 h2 where "checked_delink h (At x) = Inr h1" "pushFront h1 (At x) = Inr h2"
    "fh_indexed h2 F [] (x # ys @ zs) fs" "same_payload h h2"
proof -
  note ic = fh_chains [OF i]
  obtain h1 where h1: "checked_delink h (At x) = Inr h1" "chain h1 m_head (ys @ zs) m_tail"
    "chain h1 m_fast_head fs m_fast_tail" "same_payload h h1"
    by (rule fh_delink [OF i])
  have "h x \<noteq> None" by (rule fh_alloc [OF i]) simp
  then have x: "h1 x \<noteq> None" using same_payload_dom [OF h1(4)] by simp
  have d: "distinct (m_head # x # (ys @ zs) @ [m_tail])" using ic(3) by auto
  obtain h2 where h2: "pushFront h1 (At x) = Inr h2" "chain h2 m_head (x # ys @ zs) m_tail"
    "same_payload h1 h2" "agrees_off h1 h2 (set (m_head # x # (ys @ zs) @ [m_tail]))"
    using pushFront_chain [OF h1(2) d x] by blast
  have f: "chain h2 m_fast_head fs m_fast_tail"
    using ic(3) by (intro fast_chain_kept [OF h1(3), of h2 "x # ys @ zs"]) (use h2(4) in auto)
  have sp: "same_payload h h2" using h1(4) h2(3) by (rule same_payload_trans)
  have "fh_indexed h2 F [] (x # ys @ zs) fs"
    using ic(3) by (intro fh_relink [OF i sp h2(2) f]) auto
  with h1(1) h2(1) sp show ?thesis using that by blast
qed

text \<open>Freeing a node that has been taken out of the main list.\<close>

lemma fh_free:
  assumes i: "fh_indexed h F pend (ys @ x # zs) fs" and sp: "same_payload h h1"
    and ch: "chain h1 m_head (ys @ zs) m_tail" "chain h1 m_fast_head fs m_fast_tail"
    and F': "live_index (h1(x := None)) F' (set (pend @ (ys @ x # zs) @ fs) - {x})"
  shows "fh_indexed (h1(x := None)) F' pend (ys @ zs) fs"
proof -
  note ic = fh_chains [OF i]
  let ?h = "h1(x := None)"
  have nx: "x \<notin> set (sentinels @ pend @ (ys @ zs) @ fs)" using ic(3) by auto
  have "set (pend @ (ys @ x # zs) @ fs) - {x} = set (pend @ (ys @ zs) @ fs)" using ic(3) by auto
  then have li: "live_index ?h F' (set (pend @ (ys @ zs) @ fs))" using F' by simp
  have c1: "chain ?h m_head (ys @ zs) m_tail = chain h1 m_head (ys @ zs) m_tail"
    using nx by (intro chain_cong) auto
  have c2: "chain ?h m_fast_head fs m_fast_tail = chain h1 m_fast_head fs m_fast_tail"
    using nx by (intro chain_cong) auto
  have dm: "dom ?h = set (sentinels @ pend @ (ys @ zs) @ fs)"
    using same_payload_dom_eq [OF sp] ic(4) nx by auto
  have "key_at ?h l = SPECIAL_KEY" if "l \<in> set sentinels" for l
  proof -
    have "l \<noteq> x" "l \<in> set (sentinels @ pend @ (ys @ x # zs) @ fs)" using nx that by auto
    with same_payload_key_at [OF sp fh_alloc [OF i]] ic(6) [OF that] show ?thesis
      by (simp add: key_at_def)
  qed
  moreover have "distinct (sentinels @ pend @ (ys @ zs) @ fs)" using ic(3) by auto
  ultimately show ?thesis using ch c1 c2 dm li unfolding fh_indexed_def by blast
qed

text \<open>Removing a live node together with its entry in the index, and removing a tombstone.\<close>

lemma fh_remove:
  assumes i: "fh_indexed h F pend (ys @ x # zs) fs" and l: "live h x"
  obtains h1 n where "checked_delink h (At x) = Inr h1" "h1 x = Some n" "m_key n = key_at h x"
    "fh_indexed (h1(x := None)) (F(key_at h x := None)) pend (ys @ zs) fs"
    "\<And>ws. set ws \<subseteq> set (pend @ ys @ zs @ fs) \<Longrightarrow>
       live_kvs (h1(x := None)) (F(key_at h x := None)) ws = live_kvs h F ws"
proof -
  note ic = fh_chains [OF i]
  obtain h1 where h1: "checked_delink h (At x) = Inr h1" "chain h1 m_head (ys @ zs) m_tail"
    "chain h1 m_fast_head fs m_fast_tail" "same_payload h h1"
    by (rule fh_delink [OF i])
  have k: "key_at (h1(x := None)) y = key_at h y" if "y \<in> set (pend @ (ys @ x # zs) @ fs) - {x}" for y
    using same_payload_key_at [OF h1(4) fh_alloc [OF i, of y]] that by (auto simp: key_at_def)
  have x: "x \<in> set (pend @ (ys @ x # zs) @ fs)" by simp
  have "fh_indexed (h1(x := None)) (F(key_at h x := None)) pend (ys @ zs) fs"
    by (rule fh_free [OF i h1(4,2,3) live_index_erase [OF ic(5) x l k]])
  moreover have "h x \<noteq> None" by (rule fh_alloc [OF i]) simp
  then obtain n where "h1 x = Some n" "m_key n = key_at h x"
    using same_payload_key_at [OF h1(4), of x] same_payload_dom [OF h1(4), of x]
    by (auto simp: key_at_def)
  moreover have "live_kvs (h1(x := None)) (F(key_at h x := None)) ws = live_kvs h F ws"
    if "set ws \<subseteq> set (pend @ ys @ zs @ fs)" for ws
  proof (rule live_kvs_cong)
    fix y
    assume "y \<in> set ws"
    then have y: "y \<in> set (pend @ (ys @ x # zs) @ fs) - {x}" using that ic(3) by auto
    then show "key_at (h1(x := None)) y = key_at h y" by (rule k)
    show "(F(key_at h x := None)) (key_at h y) = F (key_at h y)" if "live h y"
      using live_index_inj [OF ic(5) _ x that] y by auto
  qed
  ultimately show ?thesis using h1(1) that by blast
qed

lemma fh_remove_tomb:
  assumes i: "fh_indexed h F pend (ys @ x # zs) fs" and l: "\<not> live h x"
  obtains h1 n where "checked_delink h (At x) = Inr h1" "h1 x = Some n"
    "fh_indexed (h1(x := None)) F pend (ys @ zs) fs"
    "\<And>ws. set ws \<subseteq> set (pend @ ys @ zs @ fs) \<Longrightarrow> live_kvs (h1(x := None)) F ws = live_kvs h F ws"
    "\<And>y. y \<in> set (pend @ ys @ zs @ fs) \<Longrightarrow> key_at (h1(x := None)) y = key_at h y"
proof -
  note ic = fh_chains [OF i]
  obtain h1 where h1: "checked_delink h (At x) = Inr h1" "chain h1 m_head (ys @ zs) m_tail"
    "chain h1 m_fast_head fs m_fast_tail" "same_payload h h1"
    by (rule fh_delink [OF i])
  have k: "key_at (h1(x := None)) y = key_at h y" if "y \<in> set (pend @ (ys @ x # zs) @ fs) - {x}" for y
    using same_payload_key_at [OF h1(4) fh_alloc [OF i, of y]] that by (auto simp: key_at_def)
  have "fh_indexed (h1(x := None)) F pend (ys @ zs) fs"
    by (rule fh_free [OF i h1(4,2,3) live_index_drop_tomb [OF ic(5) l k]])
  moreover have "h x \<noteq> None" by (rule fh_alloc [OF i]) simp
  then obtain n where "h1 x = Some n" using same_payload_dom [OF h1(4), of x] by auto
  moreover have k': "key_at (h1(x := None)) y = key_at h y" if "y \<in> set (pend @ ys @ zs @ fs)" for y
    using that ic(3) by (intro k) auto
  moreover have "live_kvs (h1(x := None)) F ws = live_kvs h F ws"
    if "set ws \<subseteq> set (pend @ ys @ zs @ fs)" for ws
    using that by (intro live_kvs_cong k') auto
  ultimately show ?thesis using h1(1) that by blast
qed

text \<open>A new node: first in the store and the index, then at the front of the main list.\<close>

lemma fh_new:
  fixes v :: 'v
  assumes i: "fh_indexed h F [] xs fs" and k: "F (m_key n) = None" "m_key n \<noteq> TOMB_KEY" and a: "a \<notin> dom h"
  defines "h' \<equiv> h(a \<mapsto> n)" and "F' \<equiv> F(m_key n \<mapsto> \<lparr>m_value = v, m_listNode = At a\<rparr>)"
  shows "fh_indexed h' F' [a] xs fs"
    and "\<And>ws. set ws \<subseteq> set (xs @ fs) \<Longrightarrow> live_kvs h' F' ws = live_kvs h F ws"
proof -
  note ic = fh_chains [OF i]
  have na: "a \<notin> set (sentinels @ xs @ fs)" using a ic(4) by simp
  have kk: "key_at h' y = key_at h y" if "y \<in> set (sentinels @ xs @ fs)" for y
    using that na by (auto simp: h'_def key_at_def)
  have ka: "key_at h' a = m_key n" by (simp add: h'_def key_at_def)
  have kx: "key_at h' y = key_at h y" if "y \<in> set ([] @ xs @ fs)" for y using that by (intro kk) auto
  have nx: "a \<notin> set ([] @ xs @ fs)" using na by simp
  have "live_index h' F' (insert a (set ([] @ xs @ fs)))"
    unfolding F'_def by (rule live_index_add [OF ic(5) nx k ka kx])
  then have li: "live_index h' F' (set ([a] @ xs @ fs))" by simp
  have c1: "chain h' m_head xs m_tail = chain h m_head xs m_tail"
    using na unfolding h'_def by (intro chain_cong) auto
  have c2: "chain h' m_fast_head fs m_fast_tail = chain h m_fast_head fs m_fast_tail"
    using na unfolding h'_def by (intro chain_cong) auto
  have dm: "dom h' = set (sentinels @ [a] @ xs @ fs)" using ic(4) by (auto simp: h'_def)
  have "\<forall>l \<in> set sentinels. key_at h' l = SPECIAL_KEY" using kk ic(6) by (metis Un_iff set_append)
  moreover have "distinct (sentinels @ [a] @ xs @ fs)" using ic(3) na by auto
  ultimately show "fh_indexed h' F' [a] xs fs"
    using ic(1,2) c1 c2 dm li unfolding fh_indexed_def by blast
  show "live_kvs h' F' ws = live_kvs h F ws" if ws: "set ws \<subseteq> set (xs @ fs)" for ws
  proof (rule live_kvs_cong)
    fix y
    assume "y \<in> set ws"
    then have y: "y \<in> set ([] @ xs @ fs)" using ws by auto
    then show "key_at h' y = key_at h y" by (rule kx)
    show "F' (key_at h y) = F (key_at h y)" if "live h y"
      using live_index_node [OF ic(5) y that] k(1) by (auto simp: F'_def)
  qed
qed

lemma fh_push:
  assumes i: "fh_indexed h F [x] xs fs"
  obtains h' where "pushFront h (At x) = Inr h'" "fh_indexed h' F [] (x # xs) fs" "same_payload h h'"
proof -
  note ic = fh_chains [OF i]
  have d: "distinct (m_head # x # xs @ [m_tail])" using ic(3) by auto
  have x: "h x \<noteq> None" by (rule fh_alloc [OF i]) simp
  obtain h' where h': "pushFront h (At x) = Inr h'" "chain h' m_head (x # xs) m_tail"
    "same_payload h h'" "agrees_off h h' (set (m_head # x # xs @ [m_tail]))"
    using pushFront_chain [OF ic(1) d x] by blast
  have "chain h' m_fast_head fs m_fast_tail"
    using ic(3) by (intro fast_chain_kept [OF ic(2), of h' "x # xs"]) (use h'(4) in auto)
  then have "fh_indexed h' F [] (x # xs) fs"
    using ic(3) by (intro fh_relink [OF i h'(3,2)]) auto
  with h' show ?thesis using that by blast
qed

section \<open>Tombstones\<close>

lemma fh_entomb:
  fixes h :: "'z node_heap"
  assumes i: "fh_indexed h F [] xs fs" and x: "x \<in> set (xs @ fs)" "live h x" and n: "h x = Some n"
  defines "h' \<equiv> h(x \<mapsto> n\<lparr>m_key := TOMB_KEY\<rparr>)"
  shows "fh_indexed h' (F(key_at h x := None)) [] xs fs"
    and "\<And>ws. set ws \<subseteq> set (xs @ fs) \<Longrightarrow>
      live_kvs h' (F(key_at h x := None)) ws = live_kvs h F (filter (\<lambda>y. y \<noteq> x) ws)"
proof -
  note ic = fh_chains [OF i]
  have kx: "key_at h' x = TOMB_KEY" by (simp add: h'_def key_at_def)
  have ky: "key_at h' y = key_at h y" if "y \<noteq> x" for y using that by (simp add: h'_def key_at_def)
  have x': "x \<in> set ([] @ xs @ fs)" using x by simp
  have li: "live_index h' (F(key_at h x := None)) (set ([] @ xs @ fs))"
    by (rule live_index_entomb [OF ic(5) x' x(2) kx]) (simp add: ky)
  have l: "nxt h' y = nxt h y" "prv h' y = prv h y" for y using n by (auto simp: h'_def nxt_def prv_def)
  have c1: "chain h' m_head xs m_tail = chain h m_head xs m_tail" by (intro chain_cong l)
  have c2: "chain h' m_fast_head fs m_fast_tail = chain h m_fast_head fs m_fast_tail" by (intro chain_cong l)
  have dm: "dom h' = dom h" using n by (auto simp: h'_def)
  have "\<forall>y \<in> set sentinels. key_at h' y = SPECIAL_KEY"
  proof
    fix y
    assume y: "y \<in> set sentinels"
    then have "y \<noteq> x" using x(1) ic(3) by auto
    with ky ic(6) [OF y] show "key_at h' y = SPECIAL_KEY" by simp
  qed
  then show "fh_indexed h' (F(key_at h x := None)) [] xs fs"
    using ic(1,2,3,4) c1 c2 dm li unfolding fh_indexed_def by simp
  show "live_kvs h' (F(key_at h x := None)) ws = live_kvs h F (filter (\<lambda>y. y \<noteq> x) ws)"
    if ws: "set ws \<subseteq> set (xs @ fs)" for ws
  proof -
    have "live_kvs h' (F(key_at h x := None)) (filter (\<lambda>y. y \<noteq> x) ws) = live_kvs h F (filter (\<lambda>y. y \<noteq> x) ws)"
    proof (rule live_kvs_cong)
      fix y
      assume y: "y \<in> set (filter (\<lambda>y. y \<noteq> x) ws)"
      then show "key_at h' y = key_at h y" by (simp add: ky)
      show "(F(key_at h x := None)) (key_at h y) = F (key_at h y)" if "live h y"
        using live_index_inj [OF ic(5) _ x' that] y ws by auto
    qed
    moreover have "\<not> live h' x" using kx by (simp add: live_def)
    then have "filter (live h') ws = filter (live h') (filter (\<lambda>y. y \<noteq> x) ws)"
      by (induction ws) auto
    ultimately show ?thesis by (simp add: live_kvs_def)
  qed
qed

end
