(* ===== verification/FH_Stats.thy ===== *)
theory FH_Stats
  imports Base_Cache
begin

text \<open>
  \<open>Cache::FHCacheAPI\<close> of \<^verbatim>\<open>src/cache/FHCache.h\<close>: the counters of the FrozenHot caches (frozen
  hits, hits in the dynamic part, misses, insertions), the cursors that mark the start of a
  measuring step, and the functions that turn differences into ratios. \<open>sample_flag\<close> and
  \<open>curve_container\<close> are the members of \<open>Cache::CacheAPI\<close> these caches use. The counters are
  \<open>size_t\<close>; the ratios are real numbers. A printed pair of ratios is a result.
\<close>

record curve_data_node =
  curve_size :: real
  curve_FC_hit :: real
  curve_miss :: real

record FHCacheAPI =
  fast_find_hit :: size_t
  tbb_find_miss :: size_t
  end_to_end_find_succ :: size_t
  insert_count :: size_t
  fast_hit_cursor :: size_t
  miss_cursor :: size_t
  o_hit_cursor :: size_t
  insert_cursor :: size_t
  sample_flag :: bool
  curve_container :: "curve_data_node list"

type_synonym 'z fh_stats = "'z FHCacheAPI_scheme"

text \<open>
  \<open>sample_generator\<close> counts every access while a curve is measured and otherwise samples;
  \<open>sample\<close> is what the random comparison yields.
\<close>

definition FH_sample_generator :: "'z fh_stats \<Rightarrow> bool \<Rightarrow> bool" where
  "FH_sample_generator c sample \<longleftrightarrow> (if \<not> sample_flag c then True else sample)"

text \<open>\<open>x *= 0.01\<close> on a \<open>size_t\<close>: multiply in \<open>double\<close>, convert back by truncation.\<close>

definition scale_down :: "size_t \<Rightarrow> size_t" where
  "scale_down x = word_of_int \<lfloor>to_double x * sample_percentage\<rfloor>"

definition FH_GetStat2 :: "'z fh_stats \<Rightarrow> (size_t \<times> size_t) \<times> 'z fh_stats" where
  "FH_GetStat2 c =
     (let hit = fast_find_hit c + end_to_end_find_succ c;
          miss = tbb_find_miss c;
          (hit, miss) = (if \<not> sample_flag c then (scale_down hit, scale_down miss) else (hit, miss))
      in ((hit, miss), c\<lparr>fast_find_hit := 0, tbb_find_miss := 0, end_to_end_find_succ := 0\<rparr>))"

definition FH_GetStat3 :: "'z fh_stats \<Rightarrow> (size_t \<times> size_t \<times> size_t) \<times> 'z fh_stats" where
  "FH_GetStat3 c =
     (let FH_hit = fast_find_hit c; miss = tbb_find_miss c; O_hit = end_to_end_find_succ c
      in ((FH_hit, O_hit, miss),
          c\<lparr>fast_find_hit := 0, tbb_find_miss := 0, end_to_end_find_succ := 0\<rparr>))"

definition FH_get_miss_ratio :: "'z fh_stats \<Rightarrow> real \<times> size_t \<times> 'z fh_stats" where
  "FH_get_miss_ratio c =
     (let total_access = fast_find_hit c + tbb_find_miss c + end_to_end_find_succ c;
          temp = (if total_access = 0 then 1 else to_double (tbb_find_miss c) / to_double total_access)
      in (temp, total_access,
          c\<lparr>fast_find_hit := 0, tbb_find_miss := 0, end_to_end_find_succ := 0\<rparr>))"

definition FH_reset_stat :: "'z fh_stats \<Rightarrow> 'z fh_stats" where
  "FH_reset_stat c = c\<lparr>
     fast_find_hit := 0, tbb_find_miss := 0, end_to_end_find_succ := 0, insert_count := 0,
     fast_hit_cursor := 0, miss_cursor := 0, o_hit_cursor := 0, insert_cursor := 0\<rparr>"

definition FH_reset_cursor :: "'z fh_stats \<Rightarrow> 'z fh_stats" where
  "FH_reset_cursor c = c\<lparr>
     fast_hit_cursor := fast_find_hit c, miss_cursor := tbb_find_miss c,
     o_hit_cursor := end_to_end_find_succ c, insert_cursor := insert_count c\<rparr>"

text \<open>The parameterless \<open>print_step\<close> prints both ratios and then sets the cursors.\<close>

definition FH_print_step0 :: "'z fh_stats \<Rightarrow> (real \<times> real) \<times> 'z fh_stats" where
  "FH_print_step0 c =
     (let fast_hit = fast_find_hit c - fast_hit_cursor c;
          miss = tbb_find_miss c - miss_cursor c;
          o_hit = end_to_end_find_succ c - o_hit_cursor c;
          insert_num = insert_count c - insert_cursor c;
          tot = to_double (fast_hit + insert_num + o_hit);
          (temp, global_miss) =
            (if tot = 0 then (1, 1) else (1 - to_double fast_hit / tot, to_double insert_num / tot))
      in ((temp, global_miss),
          c\<lparr>fast_hit_cursor := fast_hit, miss_cursor := miss, o_hit_cursor := o_hit,
            insert_cursor := insert_num\<rparr>))"

text \<open>\<open>print_step(FC_hit, global_miss)\<close> and \<open>get_step\<close> return the pair and change nothing.\<close>

definition FH_print_step :: "'z fh_stats \<Rightarrow> real \<times> real" where
  "FH_print_step c =
     (let fast_hit = fast_find_hit c - fast_hit_cursor c;
          o_hit = end_to_end_find_succ c - o_hit_cursor c;
          insert_num = insert_count c - insert_cursor c;
          tot = to_double (fast_hit + insert_num + o_hit);
          (temp, global_miss) =
            (if tot = 0 then (1, 1) else (1 - to_double fast_hit / tot, to_double insert_num / tot))
      in (1 - temp, global_miss))"

definition FH_get_step :: "'z fh_stats \<Rightarrow> real \<times> real" where
  "FH_get_step c =
     (let fast_hit = fast_find_hit c - fast_hit_cursor c;
          miss = tbb_find_miss c - miss_cursor c;
          o_hit = end_to_end_find_succ c - o_hit_cursor c;
          insert_num = insert_count c - insert_cursor c;
          tot = to_double (insert_num + fast_hit + o_hit);
          (temp, global_miss) =
            (if tot = 0 then (1, 0) else (1 - to_double fast_hit / tot, to_double miss / tot))
      in (1 - temp, global_miss))"

definition FH_fast_hash_ratios :: "'z fh_stats \<Rightarrow> real \<times> real" where
  "FH_fast_hash_ratios c =
     (let tot = to_double (fast_find_hit c + tbb_find_miss c + end_to_end_find_succ c)
      in if tot = 0 then (1, 1)
         else (1 - to_double (fast_find_hit c) / tot, to_double (tbb_find_miss c) / tot))"

definition FH_print_reset_fast_hash :: "'z fh_stats \<Rightarrow> (real \<times> real) \<times> real \<times> 'z fh_stats" where
  "FH_print_reset_fast_hash c =
     (let (temp, global_miss) = FH_fast_hash_ratios c
      in ((temp, global_miss), temp,
          c\<lparr>fast_find_hit := 0, tbb_find_miss := 0, end_to_end_find_succ := 0\<rparr>))"

definition FH_print_fast_hash :: "'z fh_stats \<Rightarrow> (real \<times> real) \<times> real" where
  "FH_print_fast_hash c =
     (let (temp, global_miss) = FH_fast_hash_ratios c in ((temp, global_miss), temp))"

section \<open>Steps\<close>

text \<open>
  What happened since the cursors were set: with \<open>dh\<close>, \<open>dm\<close>, \<open>dO\<close>, \<open>di\<close> further frozen hits,
  misses, dynamic hits and insertions counted, the step functions see exactly these numbers, also
  when a counter wraps in between.
\<close>

definition advance :: "size_t \<Rightarrow> size_t \<Rightarrow> size_t \<Rightarrow> size_t \<Rightarrow> 'z fh_stats \<Rightarrow> 'z fh_stats" where
  "advance dh dm dO di c = c\<lparr>
     fast_find_hit := fast_find_hit c + dh, tbb_find_miss := tbb_find_miss c + dm,
     end_to_end_find_succ := end_to_end_find_succ c + dO, insert_count := insert_count c + di\<rparr>"

lemma get_step_advance:
  assumes "unat di + unat dh + unat dO < 2 ^ 64" "di + dh + dO \<noteq> 0"
  shows "FH_get_step (advance dh dm dO di (FH_reset_cursor c)) =
    (to_double dh / (to_double di + to_double dh + to_double dO),
     to_double dm / (to_double di + to_double dh + to_double dO))"
proof -
  have a: "unat di + unat dh < 2 ^ 64" using assms by simp
  have "to_double (di + dh + dO) = to_double di + to_double dh + to_double dO"
    using assms(1) by (subst to_double_add) (simp_all add: unat_add_exact [OF a] to_double_add [OF a])
  then show ?thesis
    using assms(2) by (auto simp: FH_get_step_def advance_def FH_reset_cursor_def Let_def)
qed

text \<open>
  The cursors that the parameterless \<open>print_step\<close> leaves are the differences, not the counters:
  the next step starts at the counters only if the cursors were 0 before.
\<close>

lemma print_step0_cursor:
  "fast_hit_cursor (snd (FH_print_step0 c)) = fast_find_hit c - fast_hit_cursor c"
  "insert_cursor (snd (FH_print_step0 c)) = insert_count c - insert_cursor c"
  by (simp_all add: FH_print_step0_def Let_def)

end
