(* ===== verification/LRU_FH.thy ===== *)
theory LRU_FH
  imports Frozen_List FH_Stats
begin

text \<open>
  \<open>Cache::LRU_FHCache\<close> of \<^verbatim>\<open>src/cache/hhvm_lru_cache_FH.h\<close>, the FrozenHot LRU cache. Beside the
  hash map and the list of the plain LRU cache there is a second list between \<open>m_fast_head\<close> and
  \<open>m_fast_tail\<close> and the fast hash table: \<open>construct_ratio\<close> moves the most recent part of the list
  over and fills the fast table, \<open>construct_tier\<close> moves all of it and rejects insertions,
  \<open>deconstruct\<close> moves everything back. While a part is frozen, \<open>find\<close> asks the fast table first.
  The macros \<open>FH_STAT\<close>, \<open>HANDLE_WRITE\<close> and \<open>RECENCY\<close> are defined in the source and the model
  follows those branches.

  Values are shared pointers. Arguments stand for what a call does not control: \<open>locked\<close>
  (\<open>try_lock\<close>), \<open>sample\<close> (the sampling draw) and \<open>now\<close> (\<open>SPDK_TIME\<close>). The loops of \<open>evict\<close> and
  of the construction functions are partial functions; the theory \<open>Frozen_Proofs\<close> shows that they
  return.
\<close>

record FHListNode = ListNode +
  m_time :: uint64

type_synonym fh_heap = "loc \<Rightarrow> FHListNode option"

record ('m, 'f) LRU_FHCache = FHCacheAPI +
  m_maxSize :: size_t
  m_size :: size_t
  m_map :: 'm
  m_fasthash :: 'f
  heap :: fh_heap
  next_addr :: nat
  fast_hash_ready :: bool
  fast_hash_construct :: bool
  tier_ready :: bool
  tier_no_insert :: bool
  curve_flag :: bool
  movement_counter :: size_t
  eviction_counter :: size_t
  unreachable_counter :: size_t
  m_marker :: ptr

type_synonym 'm fh_table = "(size_t, shared_ptr HashMapValue, 'm) chm"

section \<open>Constructor, lookup\<close>

definition new_node :: "size_t \<Rightarrow> uint64 \<Rightarrow> FHListNode" where
  "new_node key now = \<lparr>m_key = key, m_prev = OutOfListMarker, m_next = nullptr, m_time = now\<rparr>"

definition sentinel :: "ptr \<Rightarrow> ptr \<Rightarrow> FHListNode" where
  "sentinel p q = \<lparr>m_key = SPECIAL_KEY, m_prev = p, m_next = q, m_time = 0\<rparr>"

text \<open>\<open>fast\<close> is the fast table that \<open>new FastHash::CLHT\<close> returns.\<close>

definition LRU_FHCache_new :: "'m fh_table \<Rightarrow> 'f \<Rightarrow> size_t \<Rightarrow> ('m, 'f) LRU_FHCache" where
  "LRU_FHCache_new H fast maxSize = \<lparr>
     fast_find_hit = 0, tbb_find_miss = 0, end_to_end_find_succ = 0, insert_count = 0,
     fast_hit_cursor = 0, miss_cursor = 0, o_hit_cursor = 0, insert_cursor = 0,
     sample_flag = True, curve_container = [],
     m_maxSize = maxSize, m_size = 0, m_map = chm_init H, m_fasthash = fast,
     heap = [m_head \<mapsto> sentinel nullptr (At m_tail), m_tail \<mapsto> sentinel (At m_head) nullptr,
             m_fast_head \<mapsto> sentinel nullptr (At m_fast_tail),
             m_fast_tail \<mapsto> sentinel (At m_fast_head) nullptr],
     next_addr = 0,
     fast_hash_ready = False, fast_hash_construct = False, tier_ready = False,
     tier_no_insert = False, curve_flag = False, movement_counter = 0, eviction_counter = 0,
     unreachable_counter = 0, m_marker = nullptr\<rparr>"

definition FH_is_full :: "('m, 'f) LRU_FHCache \<Rightarrow> bool" where
  "FH_is_full c \<longleftrightarrow> m_size c \<ge> m_maxSize c"

definition count_fast_hit :: "bool \<Rightarrow> 'z fh_stats \<Rightarrow> 'z fh_stats" where
  "count_fast_hit yes c = (if yes then c\<lparr>fast_find_hit := fast_find_hit c + 1\<rparr> else c)"

definition count_tbb_miss :: "bool \<Rightarrow> 'z fh_stats \<Rightarrow> 'z fh_stats" where
  "count_tbb_miss yes c = (if yes then c\<lparr>tbb_find_miss := tbb_find_miss c + 1\<rparr> else c)"

definition count_succ :: "bool \<Rightarrow> 'z fh_stats \<Rightarrow> 'z fh_stats" where
  "count_succ yes c = (if yes then c\<lparr>end_to_end_find_succ := end_to_end_find_succ c + 1\<rparr> else c)"

definition FH_promote :: "('m, 'f) LRU_FHCache \<Rightarrow> ptr \<Rightarrow> ('m, 'f) LRU_FHCache result" where
  "FH_promote c node =
     r_bind (deref (heap c) node) (\<lambda>n.
     if isInList n
     then r_bind (checked_delink (heap c) node) (\<lambda>h.
          r_bind (pushFront h node) (\<lambda>h. Inr (c\<lparr>heap := h\<rparr>)))
     else Inr c)"

text \<open>
  The branch of \<open>find\<close> that runs while a curve is measured: a node that was last touched before
  the marker was placed counts as a hit in the dynamic part and moves in front of the marker.
\<close>

definition FH_find_curve ::
    "bool \<Rightarrow> uint64 \<Rightarrow> ('m, 'f) LRU_FHCache \<Rightarrow> ptr \<Rightarrow> ('m, 'f) LRU_FHCache result" where
  "FH_find_curve stat_yes now c node =
     r_bind (deref (heap c) node) (\<lambda>n. let last_update = m_time n in
     r_bind (if m_marker c \<noteq> nullptr
             then r_bind (deref (heap c) (m_marker c)) (\<lambda>m. Inr (last_update \<le> m_time m))
             else Inr False) (\<lambda>older.
     if older then
       let c = count_succ stat_yes c; c = c\<lparr>movement_counter := movement_counter c + 1\<rparr> in
       r_bind (modify (heap c) node (\<lambda>n. n\<lparr>m_time := now\<rparr>)) (\<lambda>h.
       FH_promote (c\<lparr>heap := h\<rparr>) node)
     else Inr (count_fast_hit stat_yes c)))"

text \<open>The frozen part of \<open>find\<close>: \<open>Some v\<close> when the fast table answers.\<close>

definition FH_find_fast :: "'f fast_hash \<Rightarrow> ('m, 'f) LRU_FHCache \<Rightarrow> size_t \<Rightarrow> shared_ptr option" where
  "FH_find_fast F c key =
     (if tier_ready c \<or> fast_hash_ready c
      then (case fh_find F (m_fasthash c) (ucast key) of
              Some ac \<Rightarrow> if ac \<noteq> 0 then Some ac else None
            | None \<Rightarrow> None)
      else None)"

definition LRU_FHCache_find ::
    "'m fh_table \<Rightarrow> 'f fast_hash \<Rightarrow> bool \<Rightarrow> bool \<Rightarrow> uint64 \<Rightarrow> ('m, 'f) LRU_FHCache \<Rightarrow> size_t \<Rightarrow>
      (shared_ptr option \<times> ('m, 'f) LRU_FHCache) result" where
  "LRU_FHCache_find H F locked sample now c key =
     (let stat_yes = FH_sample_generator c sample in
      r_assert (\<not> (tier_ready c \<or> fast_hash_ready c) \<or> \<not> curve_flag c)
        ''!(tier_ready || fast_hash_ready) || !curve_flag''
      (case FH_find_fast F c key of
         Some ac \<Rightarrow> Inr (Some ac, count_fast_hit stat_yes c)
       | None \<Rightarrow>
           if tier_ready c then Inr (None, count_tbb_miss stat_yes c)
           else
             (case chm_find H (m_map c) key of
                None \<Rightarrow> Inr (None, count_tbb_miss stat_yes c)
              | Some hv \<Rightarrow>
                  let ac = m_value hv; node = m_listNode hv in
                  if \<not> fast_hash_construct c \<and> curve_flag c
                  then r_bind (FH_find_curve stat_yes now c node) (\<lambda>c. Inr (Some ac, c))
                  else
                    r_bind (if \<not> fast_hash_construct c \<and> locked then FH_promote c node else Inr c)
                      (\<lambda>c. Inr (Some ac, count_succ stat_yes c)))))"

section \<open>Eviction, insertion, deletion\<close>

text \<open>The loop of \<open>evict\<close> that drops tombstones from the end of the list.\<close>

partial_function (option) evict_tombs :: "fh_heap \<Rightarrow> ptr \<Rightarrow> (fh_heap \<times> ptr) result option" where
  "evict_tombs h moribund =
     p_bind (returns (deref h moribund)) (\<lambda>n.
     if m_key n = TOMB_KEY
     then p_bind (returns (
            r_bind (checked_delink h moribund) (\<lambda>h.
            r_bind (free_node h moribund) (\<lambda>h.
            r_bind (deref h (At m_tail)) (\<lambda>t. Inr (h, m_prev t))))))
          (\<lambda>(h, moribund). evict_tombs h moribund)
     else Some (Inr (h, moribund)))"

definition FH_evict ::
    "'m fh_table \<Rightarrow> ('m, 'f) LRU_FHCache \<Rightarrow> (bool \<times> ('m, 'f) LRU_FHCache) result option" where
  "FH_evict H c =
     p_bind (returns (deref (heap c) (At m_tail))) (\<lambda>t.
     p_bind (evict_tombs (heap c) (m_prev t)) (\<lambda>(h, moribund). returns (
     let c = c\<lparr>heap := h\<rparr> in
     if moribund = At m_head then Inr (False, c)
     else
       r_bind (checked_delink (heap c) moribund) (\<lambda>h.
       let c = c\<lparr>heap := h\<rparr> in
       r_bind (deref h moribund) (\<lambda>n.
       case chm_find H (m_map c) (m_key n) of
         None \<Rightarrow> Inr (False, c\<lparr>unreachable_counter := unreachable_counter c + 1\<rparr>)
       | Some _ \<Rightarrow>
           let c = c\<lparr>m_map := snd (chm_erase H (m_map c) (m_key n))\<rparr> in
           r_bind (free_node (heap c) moribund) (\<lambda>h. Inr (True, c\<lparr>heap := h\<rparr>)))))))"

text \<open>The second half of \<open>insert\<close>, from the push into the list on.\<close>

definition FH_insert_link ::
    "'m fh_table \<Rightarrow> ('m, 'f) LRU_FHCache \<Rightarrow> size_t \<Rightarrow> ptr \<Rightarrow> size_t \<Rightarrow> bool \<Rightarrow>
      (bool \<times> ('m, 'f) LRU_FHCache) result option" where
  "FH_insert_link H c key node s evictionDone =
     (if tier_no_insert c
      then returns (
        let c = c\<lparr>m_map := snd (chm_erase H (m_map c) key)\<rparr> in
        r_bind (free_node (heap c) node) (\<lambda>h. Inr (False, c\<lparr>heap := h\<rparr>)))
      else
        p_bind (returns (
          if \<not> curve_flag c then pushFront (heap c) node
          else
            r_bind (deref (heap c) (m_marker c)) (\<lambda>m.
            r_bind (modify (heap c) node (\<lambda>n. n\<lparr>m_time := m_time m\<rparr>)) (\<lambda>h.
            pushAfter h (m_marker c) node)))) (\<lambda>h.
        let c = c\<lparr>heap := h\<rparr>;
            (s, c) = (if evictionDone then (s, c) else (m_size c, c\<lparr>m_size := m_size c + 1\<rparr>))
        in if s > m_maxSize c
           then p_bind (FH_evict H c) (\<lambda>(done, c).
                  Some (Inr (True, if done then c\<lparr>m_size := m_size c - 1\<rparr> else c)))
           else Some (Inr (True, c))))"

definition FH_insert ::
    "'m fh_table \<Rightarrow> bool \<Rightarrow> uint64 \<Rightarrow> ('m, 'f) LRU_FHCache \<Rightarrow> size_t \<Rightarrow> shared_ptr \<Rightarrow>
      (bool \<times> ('m, 'f) LRU_FHCache) result option" where
  "FH_insert H sample now c key value =
     (let c = (if FH_sample_generator c sample then c\<lparr>insert_count := insert_count c + 1\<rparr> else c) in
      if tier_no_insert c then Some (Inr (False, c))
      else
        let node = heap_node (next_addr c);
            c = c\<lparr>heap := (heap c)(node \<mapsto> new_node key now), next_addr := next_addr c + 1\<rparr>;
            hashMapValue = \<lparr>m_value = value, m_listNode = At node\<rparr>;
            (inserted, m) = chm_insert H (m_map c) key hashMapValue;
            c = c\<lparr>m_map := m\<rparr>
        in if \<not> inserted
           then Some (Inr (False, c\<lparr>m_map := chm_assign H (m_map c) key hashMapValue\<rparr>))
           else
             let c = (if fast_hash_construct c
                      then c\<lparr>eviction_counter := eviction_counter c + 1\<rparr> else c);
                 s = m_size c
             in p_bind (if s \<ge> m_maxSize c then FH_evict H c else Some (Inr (False, c)))
                  (\<lambda>(evictionDone, c). FH_insert_link H c key (At node) s evictionDone))"

definition FH_delete_key ::
    "'m fh_table \<Rightarrow> 'f fast_hash \<Rightarrow> ('m, 'f) LRU_FHCache \<Rightarrow> size_t \<Rightarrow> ('m, 'f) LRU_FHCache result" where
  "FH_delete_key H F c key =
     (case chm_find H (m_map c) key of
        None \<Rightarrow> Inr c
      | Some hv \<Rightarrow>
          let node = m_listNode hv;
              erase = (\<lambda>h. let (erased, m) = chm_erase H (m_map c) key;
                               c = c\<lparr>heap := h, m_map := m\<rparr>
                           in Inr (if erased then c\<lparr>m_size := m_size c - 1\<rparr> else c))
          in
          if fast_hash_construct c \<or> FH_find_fast F c key \<noteq> None
          then r_bind (modify (heap c) node (\<lambda>n. n\<lparr>m_key := TOMB_KEY\<rparr>)) erase
          else
            r_bind (deref (heap c) node) (\<lambda>n.
            if \<not> isInList n then Inr c
            else
              r_bind (checked_delink (heap c) node) (\<lambda>h.
              r_bind (free_node h node) erase)))"

section \<open>Freezing a part of the list: construct\_ratio\<close>

text \<open>The local variables of the scan. \<open>stop\<close> is the \<open>break\<close> of the loop.\<close>

record scan =
  scan_count :: size_t
  fail_count :: size_t
  first_pass_flag :: bool
  temp_node :: ptr
  stop :: bool

definition construct_sizes :: "real \<Rightarrow> size_t \<Rightarrow> size_t \<times> size_t" where
  "construct_sizes FC_ratio maxSize =
     (let FC_size = word_of_int \<lfloor>FC_ratio * to_double maxSize\<rfloor> in (FC_size, maxSize - FC_size))"

text \<open>
  The first way to cut: the scan has seen enough nodes, and the nodes from \<open>m_fast_head.m_next\<close> up
  to the one before \<open>temp\<close> become the frozen list.
\<close>

definition cut_front :: "fh_heap \<Rightarrow> ptr \<Rightarrow> fh_heap result" where
  "cut_front h temp =
     r_bind (deref h (At m_fast_head)) (\<lambda>fh.
     r_bind (deref h (m_next fh)) (\<lambda>f. let nodeBefore = m_prev f; nodeAfter = temp in
     r_bind (deref h temp) (\<lambda>t.
     r_bind (set_prev h (At m_fast_tail) (m_prev t)) (\<lambda>h.
     r_bind (deref h temp) (\<lambda>t.
     r_bind (set_next h (m_prev t) (At m_fast_tail)) (\<lambda>h.
     r_bind (deref h (At m_fast_head)) (\<lambda>fh.
     r_bind (set_prev h (m_next fh) (At m_fast_head)) (\<lambda>h.
     r_bind (set_next h nodeBefore nodeAfter) (\<lambda>h.
     set_prev h nodeAfter nodeBefore)))))))))"

text \<open>
  The second way: so many insertions have come in that the frozen nodes are the end of the list;
  everything from \<open>m_fast_head.m_next\<close> to the tail becomes the frozen list.
\<close>

definition cut_back :: "fh_heap \<Rightarrow> fh_heap result" where
  "cut_back h =
     r_bind (deref h (At m_fast_head)) (\<lambda>fh. let node = m_next fh in
     r_bind (deref h (At m_tail)) (\<lambda>t.
     r_bind (set_prev h (At m_fast_tail) (m_prev t)) (\<lambda>h.
     r_bind (deref h (At m_tail)) (\<lambda>t.
     r_bind (set_next h (m_prev t) (At m_fast_tail)) (\<lambda>h.
     r_bind (deref h node) (\<lambda>n.
     r_bind (set_prev h (At m_tail) (m_prev n)) (\<lambda>h.
     r_bind (deref h (At m_tail)) (\<lambda>t.
     r_bind (set_next h (m_prev t) (At m_tail)) (\<lambda>h.
     set_prev h node (At m_fast_head))))))))))"

definition construct_ratio_step ::
    "'m fh_table \<Rightarrow> 'f fast_hash \<Rightarrow> size_t \<Rightarrow> size_t \<Rightarrow> scan \<Rightarrow> ('m, 'f) LRU_FHCache \<Rightarrow>
      (scan \<times> ('m, 'f) LRU_FHCache) result" where
  "construct_ratio_step H F FC_size DC_size l c =
     (let l = l\<lparr>scan_count := scan_count l + 1\<rparr>; eviction_count = eviction_counter c in
      r_bind (deref (heap c) (temp_node l)) (\<lambda>n.
      case chm_find H (m_map c) (m_key n) of
        None \<Rightarrow>
          let delete_temp = temp_node l; l = l\<lparr>temp_node := m_next n\<rparr> in
          r_bind (if isInList n then checked_delink (heap c) delete_temp else Inr (heap c)) (\<lambda>h.
          r_bind (free_node h delete_temp) (\<lambda>h.
          Inr (l\<lparr>fail_count := fail_count l + 1\<rparr>, c\<lparr>heap := h\<rparr>)))
      | Some hv \<Rightarrow>
          let c = c\<lparr>m_fasthash := snd (fh_insert F (m_fasthash c) (ucast (m_key n)) (m_value hv))\<rparr>;
              l = l\<lparr>temp_node := m_next n\<rparr>
          in if scan_count l > FC_size - FC_RELAXATION \<and> first_pass_flag l
             then r_bind (cut_front (heap c) (temp_node l)) (\<lambda>h.
                  Inr (l\<lparr>stop := True\<rparr>, c\<lparr>heap := h\<rparr>))
             else if eviction_count > DC_size - FC_RELAXATION \<and> first_pass_flag l
             then r_bind (cut_back (heap c)) (\<lambda>h.
                  Inr (l\<lparr>first_pass_flag := False\<rparr>, c\<lparr>heap := h\<rparr>))
             else Inr (l, c)))"

partial_function (option) construct_ratio_loop ::
    "'m fh_table \<Rightarrow> 'f fast_hash \<Rightarrow> size_t \<Rightarrow> size_t \<Rightarrow> scan \<Rightarrow> ('m, 'f) LRU_FHCache \<Rightarrow>
      (scan \<times> ('m, 'f) LRU_FHCache) result option" where
  "construct_ratio_loop H F FC_size DC_size l c =
     (if stop l \<or> temp_node l = At m_fast_tail then Some (Inr (l, c))
      else p_bind (returns (construct_ratio_step H F FC_size DC_size l c))
             (\<lambda>(l, c). construct_ratio_loop H F FC_size DC_size l c))"

definition construct_ratio_begin ::
    "real \<Rightarrow> ('m, 'f) LRU_FHCache \<Rightarrow> (scan \<times> ('m, 'f) LRU_FHCache) result" where
  "construct_ratio_begin FC_ratio c =
     r_assert (FC_ratio \<le> 1 \<and> FC_ratio \<ge> 0) ''FC_ratio <= 1 && FC_ratio >= 0'' (
     r_bind (deref (heap c) (At m_fast_head)) (\<lambda>fh.
     r_assert (m_next fh = At m_fast_tail) ''m_fast_head.m_next == &m_fast_tail'' (
     r_bind (deref (heap c) (At m_fast_tail)) (\<lambda>ft.
     r_assert (m_prev ft = At m_fast_head) ''m_fast_tail.m_prev == &m_fast_head'' (
     let c = (if eviction_counter c > 0 then c\<lparr>eviction_counter := 0\<rparr> else c) in
     r_bind (deref (heap c) (At m_head)) (\<lambda>hd.
     r_bind (set_next (heap c) (At m_fast_head) (m_next hd)) (\<lambda>h.
     Inr (\<lparr>scan_count = 0, fail_count = 0, first_pass_flag = True, temp_node = m_next hd, stop = False\<rparr>,
          c\<lparr>heap := h, fast_hash_construct := True\<rparr>)))))))) "

definition FH_construct_ratio ::
    "'m fh_table \<Rightarrow> 'f fast_hash \<Rightarrow> real \<Rightarrow> ('m, 'f) LRU_FHCache \<Rightarrow>
      (bool \<times> ('m, 'f) LRU_FHCache) result option" where
  "FH_construct_ratio H F FC_ratio c =
     p_bind (returns (construct_ratio_begin FC_ratio c)) (\<lambda>(l, c).
     let (FC_size, DC_size) = construct_sizes FC_ratio (m_maxSize c) in
     p_bind (construct_ratio_loop H F FC_size DC_size l c) (\<lambda>(l, c).
     Some (Inr (True, c\<lparr>fast_hash_ready := True, fast_hash_construct := False,
                        eviction_counter := 0\<rparr>))))"

section \<open>Freezing everything: construct\_tier; thawing: deconstruct\<close>

definition tier_move :: "fh_heap \<Rightarrow> fh_heap result" where
  "tier_move h =
     r_bind (deref h (At m_head)) (\<lambda>hd.
     r_bind (set_next h (At m_fast_head) (m_next hd)) (\<lambda>h.
     r_bind (deref h (At m_head)) (\<lambda>hd.
     r_bind (set_prev h (m_next hd) (At m_fast_head)) (\<lambda>h.
     r_bind (deref h (At m_tail)) (\<lambda>t.
     r_bind (set_prev h (At m_fast_tail) (m_prev t)) (\<lambda>h.
     r_bind (deref h (At m_tail)) (\<lambda>t.
     r_bind (set_next h (m_prev t) (At m_fast_tail)) (\<lambda>h.
     r_bind (set_next h (At m_head) (At m_tail)) (\<lambda>h.
     set_prev h (At m_tail) (At m_head))))))))))"

text \<open>One iteration of the scan of \<open>construct_tier\<close>, on the node \<open>temp_node\<close>.\<close>

definition construct_tier_step ::
    "'m fh_table \<Rightarrow> 'f fast_hash \<Rightarrow> ptr \<times> int \<Rightarrow> ('m, 'f) LRU_FHCache \<Rightarrow>
      ((ptr \<times> int) \<times> ('m, 'f) LRU_FHCache) result" where
  "construct_tier_step H F l c =
     (case l of (temp, cnt) \<Rightarrow>
      r_bind (deref (heap c) temp) (\<lambda>n.
      if m_key n = TOMB_KEY
      then r_bind (checked_delink (heap c) temp) (\<lambda>h.
           r_bind (free_node h temp) (\<lambda>h. Inr ((m_next n, cnt), c\<lparr>heap := h\<rparr>)))
      else
        case chm_find H (m_map c) (m_key n) of
          None \<Rightarrow>
            r_bind (if isInList n then checked_delink (heap c) temp else Inr (heap c)) (\<lambda>h.
            r_bind (free_node h temp) (\<lambda>h. Inr ((m_next n, cnt), c\<lparr>heap := h\<rparr>)))
        | Some hv \<Rightarrow>
            Inr ((m_next n, cnt + 1),
              c\<lparr>m_fasthash := snd (fh_insert F (m_fasthash c) (ucast (m_key n)) (m_value hv))\<rparr>)))"

partial_function (option) construct_tier_loop ::
    "'m fh_table \<Rightarrow> 'f fast_hash \<Rightarrow> ptr \<times> int \<Rightarrow> ('m, 'f) LRU_FHCache \<Rightarrow>
      ((ptr \<times> int) \<times> ('m, 'f) LRU_FHCache) result option" where
  "construct_tier_loop H F l c =
     (if fst l = At m_fast_tail then Some (Inr (l, c))
      else p_bind (returns (construct_tier_step H F l c)) (\<lambda>(l, c). construct_tier_loop H F l c))"

definition FH_construct_tier ::
    "'m fh_table \<Rightarrow> 'f fast_hash \<Rightarrow> ('m, 'f) LRU_FHCache \<Rightarrow>
      (bool \<times> ('m, 'f) LRU_FHCache) result option" where
  "FH_construct_tier H F c =
     p_bind (returns (
       let c = c\<lparr>fast_hash_construct := True, tier_no_insert := True\<rparr> in
       r_bind (deref (heap c) (At m_fast_head)) (\<lambda>fh.
       r_assert (m_next fh = At m_fast_tail) ''m_fast_head.m_next == &m_fast_tail'' (
       r_bind (deref (heap c) (At m_fast_tail)) (\<lambda>ft.
       r_assert (m_prev ft = At m_fast_head) ''m_fast_tail.m_prev == &m_fast_head'' (
       r_bind (tier_move (heap c)) (\<lambda>h.
       r_bind (deref h (At m_fast_head)) (\<lambda>fh. Inr (m_next fh, c\<lparr>heap := h\<rparr>))))))))) (\<lambda>(temp, c).
     p_bind (construct_tier_loop H F (temp, 0) c) (\<lambda>(_, c).
     Some (Inr (True, c\<lparr>tier_ready := True, fast_hash_construct := False\<rparr>))))"

definition thaw :: "fh_heap \<Rightarrow> fh_heap result" where
  "thaw h =
     r_bind (deref h (At m_head)) (\<lambda>hd. let node = m_next hd in
     r_bind (deref h (At m_fast_head)) (\<lambda>fh.
     r_bind (set_prev h (m_next fh) (At m_head)) (\<lambda>h.
     r_bind (deref h (At m_fast_tail)) (\<lambda>ft.
     r_bind (set_next h (m_prev ft) node) (\<lambda>h.
     r_bind (deref h (At m_fast_head)) (\<lambda>fh.
     r_bind (set_next h (At m_head) (m_next fh)) (\<lambda>h.
     r_bind (deref h (At m_fast_tail)) (\<lambda>ft.
     r_bind (set_prev h node (m_prev ft)) (\<lambda>h.
     r_bind (set_next h (At m_fast_head) (At m_fast_tail)) (\<lambda>h.
     set_prev h (At m_fast_tail) (At m_fast_head)))))))))))"

definition FH_deconstruct ::
    "'f fast_hash \<Rightarrow> ('m, 'f) LRU_FHCache \<Rightarrow> ('m, 'f) LRU_FHCache result" where
  "FH_deconstruct F c =
     r_bind (deref (heap c) (At m_fast_head)) (\<lambda>fh.
     r_bind (deref (heap c) (At m_fast_tail)) (\<lambda>ft.
     r_assert ((m_next fh = At m_fast_tail) = (m_prev ft = At m_fast_head))
       ''!((m_fast_head.m_next == &m_fast_tail) ^ (m_fast_tail.m_prev == &m_fast_head))'' (
     if m_next fh = At m_fast_tail then Inr c
     else
       r_bind (thaw (heap c)) (\<lambda>h.
       let c = c\<lparr>heap := h\<rparr>;
           c = (if tier_ready c then c\<lparr>tier_no_insert := False, tier_ready := False\<rparr> else c);
           c = (if fast_hash_ready c then c\<lparr>fast_hash_ready := False\<rparr> else c)
       in Inr (c\<lparr>m_fasthash := fh_clear F (m_fasthash c)\<rparr>)))))"

section \<open>The profiling pass: get\_curve\<close>

text \<open>
  \<open>get_curve\<close> places the marker, then measures while the clients run, then removes the marker. The
  three parts are separate definitions; between them the state changes by client calls.
  \<open>curve_wait\<close> is the condition under which the inner loop keeps waiting in pass \<open>i\<close>, and
  \<open>curve_pass\<close> is what the pass does once the waiting ends: \<open>None\<close> is the \<open>break\<close>. The early-stop
  threshold \<open>thr\<close> is 0.992 here and 0.993 in \<open>FIFO_FHCache\<close>.
\<close>

definition FH_get_curve_begin ::
    "uint64 \<Rightarrow> ('m, 'f) LRU_FHCache \<Rightarrow> ('m, 'f) LRU_FHCache result" where
  "FH_get_curve_begin now c =
     r_assert (\<not> tier_no_insert c) ''!tier_no_insert'' (
     let marker = heap_node (next_addr c);
         c = c\<lparr>heap := (heap c)(marker \<mapsto> new_node MARKER_KEY now), next_addr := next_addr c + 1,
               m_marker := At marker\<rparr>
     in r_bind (pushFront (heap c) (m_marker c)) (\<lambda>h.
        let c = FH_reset_cursor (c\<lparr>heap := h, curve_flag := True\<rparr>);
            c = c\<lparr>sample_flag := False\<rparr>
        in r_assert (curve_container c = []) ''curve_container.size() == 0'' (Inr c)))"

definition curve_wait :: "real \<Rightarrow> bool \<Rightarrow> nat \<Rightarrow> ('m, 'f) LRU_FHCache \<Rightarrow> bool" where
  "curve_wait thr should_stop i c \<longleftrightarrow>
     (let (temp_hit, temp_miss) = FH_get_step c; FC_size = movement_counter c
      in if temp_hit + temp_miss > thr then False
         else to_double FC_size \<le> to_double (m_maxSize c) * real i / 100 * 2 \<and> \<not> should_stop)"

definition curve_pass :: "real \<Rightarrow> ('m, 'f) LRU_FHCache \<Rightarrow> ('m, 'f) LRU_FHCache option" where
  "curve_pass thr c =
     (let FC_ratio = to_double (movement_counter c) / to_double (m_maxSize c);
          (FC_hit, miss) = FH_print_step c
      in if FC_hit + miss > thr \<or> FC_ratio > 9 / 10 then None
         else Some (c\<lparr>curve_container := curve_container c @
                [\<lparr>curve_size = FC_ratio, curve_FC_hit = FC_hit, curve_miss = miss\<rparr>]\<rparr>))"

definition FH_get_curve_end :: "('m, 'f) LRU_FHCache \<Rightarrow> ('m, 'f) LRU_FHCache result" where
  "FH_get_curve_end c =
     (let c = c\<lparr>sample_flag := True, curve_flag := False\<rparr> in
      r_bind (checked_delink (heap c) (m_marker c)) (\<lambda>h.
      r_bind (free_node h (m_marker c)) (\<lambda>h.
      Inr (c\<lparr>heap := h, m_marker := nullptr, movement_counter := 0\<rparr>))))"

section \<open>Clearing, snapshots, debug walk\<close>

definition FH_clear ::
    "'m fh_table \<Rightarrow> 'f fast_hash \<Rightarrow> ('m, 'f) LRU_FHCache \<Rightarrow> ('m, 'f) LRU_FHCache result option" where
  "FH_clear H F c =
     (let c = c\<lparr>m_map := chm_clear H (m_map c), m_fasthash := fh_clear F (m_fasthash c)\<rparr> in
      p_bind (returns (deref (heap c) (At m_head))) (\<lambda>hd.
      p_bind (free_list (heap c) (At m_tail) (m_next hd)) (\<lambda>h.
      p_bind (returns (
        r_bind (set_next h (At m_head) (At m_tail)) (\<lambda>h.
        r_bind (set_prev h (At m_tail) (At m_head)) (\<lambda>h.
        r_bind (deref h (At m_fast_head)) (\<lambda>fh. Inr (h, m_next fh)))))) (\<lambda>(h, node).
      p_bind (free_list h (At m_fast_tail) node) (\<lambda>h.
      returns (
        r_bind (set_next h (At m_fast_head) (At m_fast_tail)) (\<lambda>h.
        r_bind (set_prev h (At m_fast_tail) (At m_fast_head)) (\<lambda>h.
        Inr (c\<lparr>heap := h, m_size := 0\<rparr>)))))))))"

definition FH_snapshotKeys :: "('m, 'f) LRU_FHCache \<Rightarrow> size_t list \<Rightarrow> size_t list result option" where
  "FH_snapshotKeys c keys =
     p_bind (returns (deref (heap c) (At m_head))) (\<lambda>hd.
     collect_keys (heap c) (At m_tail) (m_next hd) keys)"

text \<open>\<open>debug\<close> walks a list and prints its length: the main list, or with status 1 the frozen one.\<close>

partial_function (option) count_nodes :: "fh_heap \<Rightarrow> ptr \<Rightarrow> ptr \<Rightarrow> int \<Rightarrow> int result option" where
  "count_nodes h last_node temp cnt =
     (if temp = last_node then Some (Inr cnt)
      else if temp = nullptr then Some (Inl (AssertFailed ''temp != nullptr''))
      else p_bind (returns (deref h temp)) (\<lambda>n. count_nodes h last_node (m_next n) (cnt + 1)))"

definition FH_debug :: "int \<Rightarrow> ('m, 'f) LRU_FHCache \<Rightarrow> int option result option" where
  "FH_debug status c =
     (if status = 0 \<or> status = 2
      then p_bind (returns (deref (heap c) (At m_head))) (\<lambda>hd.
           p_bind (count_nodes (heap c) (At m_tail) (m_next hd) 0) (\<lambda>n. Some (Inr (Some n))))
      else if status = 1
      then p_bind (returns (deref (heap c) (At m_fast_head))) (\<lambda>hd.
           p_bind (count_nodes (heap c) (At m_fast_tail) (m_next hd) 0) (\<lambda>n. Some (Inr (Some n))))
      else Some (Inr None))"

end
