(* ===== verification/Frozen_Spec.thy ===== *)
theory Frozen_Spec
  imports Cache_Spec Hash_Map
begin

text \<open>
  The abstract specification of a FrozenHot cache: the dynamic part \<open>dc\<close> and the frozen part \<open>fc\<close>
  as lists of pairs, the snapshot \<open>snap\<close> that the fast table answers from, and the mode. In mode
  \<open>Dynamic\<close> everything is in \<open>dc\<close>; in mode \<open>Ratio\<close> the front of the list is frozen and the rest still
  evicts and accepts insertions; in mode \<open>Tier\<close> everything is frozen and insertions are rejected.
  A deletion removes the pair from \<open>dc\<close> or \<open>fc\<close> but leaves the snapshot as it is: the fast table
  keeps answering with the deleted value until the cache is thawed.
\<close>

datatype mode = Dynamic | Ratio | Tier

record frozen_spec =
  dc :: "shared_ptr contents"
  fc :: "shared_ptr contents"
  snap :: "size_t \<rightharpoonup> shared_ptr"
  mode :: mode

text \<open>
  The keys a client may use: not one of the three reserved ones, and below \<open>2^32\<close>, the range of the
  fast table.
\<close>

definition valid_key :: "size_t \<Rightarrow> bool" where
  "valid_key k \<longleftrightarrow> 2 < unat k \<and> unat k < 2 ^ 32"

definition fs_size :: "frozen_spec \<Rightarrow> nat" where
  "fs_size s = length (dc s) + length (fc s)"

definition fs_lookup :: "size_t \<Rightarrow> frozen_spec \<Rightarrow> shared_ptr option" where
  "fs_lookup k s = map_of (dc s @ fc s) k"

text \<open>What a lookup returns: the snapshot wins while something is frozen.\<close>

definition fs_find :: "bool \<Rightarrow> size_t \<Rightarrow> frozen_spec \<Rightarrow> shared_ptr option \<times> frozen_spec" where
  "fs_find promote k s =
     (case (if mode s = Dynamic then None else snap s k) of
        Some v \<Rightarrow> (Some v, s)
      | None \<Rightarrow>
          if mode s = Tier then (None, s)
          else (fs_lookup k s, s\<lparr>dc := spec_find promote k (dc s)\<rparr>))"

text \<open>
  An insertion of an absent key. A cache that is at its capacity drops the last pair of the dynamic
  part first; if the dynamic part is empty nothing is dropped, the size exceeds the capacity by one,
  and the next insertion drops a pair twice.
\<close>

definition fs_insert :: "nat \<Rightarrow> size_t \<Rightarrow> shared_ptr \<Rightarrow> frozen_spec \<Rightarrow> bool \<times> frozen_spec" where
  "fs_insert cap k v s =
     (if mode s = Tier then (False, s)
      else
        let d = (k, v) # (if fs_size s \<ge> cap then butlast (dc s) else dc s)
        in (True, s\<lparr>dc := (if fs_size s > cap then butlast d else d)\<rparr>))"

definition fs_delete :: "size_t \<Rightarrow> frozen_spec \<Rightarrow> frozen_spec" where
  "fs_delete k s = s\<lparr>dc := spec_delete k (dc s), fc := spec_delete k (fc s)\<rparr>"

definition fs_freeze :: "nat \<Rightarrow> frozen_spec \<Rightarrow> frozen_spec" where
  "fs_freeze n s =
     s\<lparr>dc := drop n (dc s), fc := take n (dc s), snap := map_of (take n (dc s)), mode := Ratio\<rparr>"

definition fs_freeze_all :: "frozen_spec \<Rightarrow> frozen_spec" where
  "fs_freeze_all s = s\<lparr>dc := [], fc := dc s, snap := map_of (dc s), mode := Tier\<rparr>"

definition fs_thaw :: "frozen_spec \<Rightarrow> frozen_spec" where
  "fs_thaw s = s\<lparr>dc := fc s @ dc s, fc := [], snap := Map.empty, mode := Dynamic\<rparr>"

text \<open>
  Well-formedness: keys are distinct and valid, values are not null, the frozen pairs are in the
  snapshot, and each mode has its shape.
\<close>

definition fs_ok :: "nat \<Rightarrow> frozen_spec \<Rightarrow> bool" where
  "fs_ok cap s \<longleftrightarrow>
     distinct (map fst (dc s @ fc s)) \<and>
     (\<forall>p \<in> set (dc s @ fc s). valid_key (fst p) \<and> snd p \<noteq> 0) \<and>
     map_of (fc s) \<subseteq>\<^sub>m snap s \<and>
     (\<forall>k v. snap s k = Some v \<longrightarrow> valid_key k \<and> v \<noteq> 0) \<and>
     fs_size s \<le> Suc cap \<and>
     (mode s = Dynamic \<longrightarrow> fc s = [] \<and> snap s = Map.empty) \<and>
     (mode s = Tier \<longrightarrow> dc s = [])"

section \<open>The specification keeps its invariant\<close>

lemma fs_ok_delete: "fs_ok cap s \<Longrightarrow> fs_ok cap (fs_delete k s)"
proof -
  assume o: "fs_ok cap s"
  have "map_of (spec_delete k (fc s)) \<subseteq>\<^sub>m snap s"
    using o by (auto simp: fs_ok_def spec_delete_def map_of_filter_key map_le_def)
  moreover have "fs_size (fs_delete k s) \<le> fs_size s"
    by (simp add: fs_size_def fs_delete_def spec_delete_def add_mono)
  moreover have "distinct (map fst (spec_delete k (dc s) @ spec_delete k (fc s)))"
  proof -
    have "spec_delete k (dc s) @ spec_delete k (fc s) = filter (\<lambda>p. fst p \<noteq> k) (dc s @ fc s)"
      by (simp add: spec_delete_def)
    then show ?thesis using o by (simp only: fs_ok_def distinct_map_filter)
  qed
  ultimately show ?thesis using o by (auto simp: fs_ok_def fs_delete_def spec_delete_def)
qed

lemma fs_ok_dc:
  assumes "fs_ok cap s" "mode s \<noteq> Tier" "distinct (map fst (d @ fc s))"
    "\<And>p. p \<in> set d \<Longrightarrow> valid_key (fst p) \<and> snd p \<noteq> 0" "length d + length (fc s) \<le> Suc cap"
  shows "fs_ok cap (s\<lparr>dc := d\<rparr>)"
  using assms by (auto simp: fs_ok_def fs_size_def)

lemma fs_ok_find: "fs_ok cap s \<Longrightarrow> fs_ok cap (snd (fs_find promote k s))"
proof -
  assume o: "fs_ok cap s"
  let ?d = "spec_find promote k (dc s)"
  have perm: "mset ?d = mset (dc s)" using o by (intro spec_find_mset) (simp add: fs_ok_def)
  then have st: "set ?d = set (dc s)" by (rule mset_eq_setD)
  have ln: "length ?d = length (dc s)" by (rule mset_eq_length [OF perm])
  have "mset (map fst (?d @ fc s)) = mset (map fst (dc s @ fc s))" using perm by simp
  then have dd: "distinct (map fst (?d @ fc s)) = distinct (map fst (dc s @ fc s))"
    by (rule mset_eq_imp_distinct_iff)
  have "mode s \<noteq> Tier \<Longrightarrow> fs_ok cap (s\<lparr>dc := ?d\<rparr>)"
    using o st ln dd by (intro fs_ok_dc) (auto simp: fs_ok_def fs_size_def)
  then show ?thesis using o by (auto simp: fs_find_def split: option.splits)
qed

lemma fs_ok_insert:
  assumes o: "fs_ok cap s" and k: "valid_key k" "v \<noteq> 0" "fs_lookup k s = None" and c: "0 < cap"
  shows "fs_ok cap (snd (fs_insert cap k v s))"
proof (cases "mode s = Tier")
  case False
  define e where "e = (if fs_size s \<ge> cap then butlast (dc s) else dc s)"
  define d where "d = (if fs_size s > cap then butlast ((k, v) # e) else (k, v) # e)"
  have nk: "k \<notin> fst ` set (dc s @ fc s)" using k(3) by (simp add: fs_lookup_def map_of_eq_None_iff image_Un)
  have b: "distinct (map fst (butlast as @ fc s))" if "distinct (map fst (as @ fc s))" for as :: "shared_ptr contents"
    using that by (cases as rule: rev_cases) auto
  have sub: "set (butlast as) \<subseteq> set as" for as :: "shared_ptr contents" by (auto dest: in_set_butlastD)
  have "distinct (map fst (dc s @ fc s))" using o by (simp add: fs_ok_def)
  then have "distinct (map fst (e @ fc s))" using b by (simp only: e_def split: if_split) blast
  moreover have se: "set e \<subseteq> set (dc s)" using sub by (simp add: e_def)
  then have "k \<notin> fst ` set (e @ fc s)" using nk by auto
  ultimately have "distinct (map fst (((k, v) # e) @ fc s))" by (simp add: image_Un)
  then have "distinct (map fst (d @ fc s))" using b by (simp only: d_def split: if_split) blast
  moreover have "set d \<subseteq> insert (k, v) (set (dc s))"
    using se sub [of "(k, v) # e"] by (simp only: d_def split: if_split) auto
  moreover have "length d + length (fc s) \<le> Suc cap"
  proof -
    have "fs_size s \<le> Suc cap" using o by (simp add: fs_ok_def)
    moreover have "length e = (if fs_size s \<ge> cap then length (dc s) - 1 else length (dc s))"
      by (simp add: e_def)
    moreover have "length d = (if fs_size s > cap then length e else Suc (length e))" by (simp add: d_def)
    ultimately show ?thesis using c by (auto simp: fs_size_def split: if_splits)
  qed
  ultimately have "fs_ok cap (s\<lparr>dc := d\<rparr>)"
    using o k by (intro fs_ok_dc False) (auto simp: fs_ok_def)
  then show ?thesis
    using False unfolding d_def e_def by (simp only: fs_insert_def Let_def if_False snd_conv)
qed (use o in \<open>simp add: fs_insert_def\<close>)

lemma map_of_valid:
  assumes "\<And>p. p \<in> set kvs \<Longrightarrow> valid_key (fst p) \<and> snd p \<noteq> 0" "map_of kvs k = Some v"
  shows "valid_key k \<and> v \<noteq> 0"
  using assms(1) [OF map_of_SomeD [OF assms(2)]] by simp

lemma fs_ok_freeze:
  assumes o: "fs_ok cap s" and m: "mode s = Dynamic"
  shows "fs_ok cap (fs_freeze n s)"
proof -
  have d: "distinct (map fst (dc s))" and v: "\<And>p. p \<in> set (dc s) \<Longrightarrow> valid_key (fst p) \<and> snd p \<noteq> 0"
    and f: "fc s = []" using o m by (auto simp: fs_ok_def)
  have "mset (map fst (drop n (dc s)) @ map fst (take n (dc s))) = mset (map fst (take n (dc s)) @ map fst (drop n (dc s)))"
    by (simp only: mset_append union_commute)
  also have "map fst (take n (dc s)) @ map fst (drop n (dc s)) = map fst (dc s)"
    by (simp only: map_append [symmetric] append_take_drop_id)
  finally have "distinct (map fst (drop n (dc s)) @ map fst (take n (dc s))) = distinct (map fst (dc s))"
    by (rule mset_eq_imp_distinct_iff)
  then have dd: "distinct (map fst (drop n (dc s) @ take n (dc s)))" using d by (simp only: map_append)
  have vt: "\<And>p. p \<in> set (take n (dc s)) \<Longrightarrow> valid_key (fst p) \<and> snd p \<noteq> 0"
    and vd: "\<And>p. p \<in> set (drop n (dc s)) \<Longrightarrow> valid_key (fst p) \<and> snd p \<noteq> 0"
    using v by (auto dest: in_set_takeD in_set_dropD)
  have "fs_size (fs_freeze n s) = fs_size s" using f by (simp add: fs_size_def fs_freeze_def)
  moreover have "fs_size s \<le> Suc cap" using o by (simp add: fs_ok_def)
  moreover have "\<forall>p \<in> set (drop n (dc s) @ take n (dc s)). valid_key (fst p) \<and> snd p \<noteq> 0"
    using vt vd by (auto simp del: append_take_drop_id)
  ultimately show ?thesis
    using dd map_of_valid [OF vt] unfolding fs_ok_def by (simp add: fs_freeze_def)
qed

lemma fs_ok_freeze_all:
  assumes "fs_ok cap s" "mode s = Dynamic"
  shows "fs_ok cap (fs_freeze_all s)"
proof -
  have v: "\<And>p. p \<in> set (dc s) \<Longrightarrow> valid_key (fst p) \<and> snd p \<noteq> 0" using assms by (auto simp: fs_ok_def)
  show ?thesis
    using assms map_of_valid [OF v] unfolding fs_ok_def fs_freeze_all_def fs_size_def by simp
qed

lemma fs_ok_thaw:
  assumes o: "fs_ok cap s"
  shows "fs_ok cap (fs_thaw s)"
proof -
  have "mset (map fst (fc s @ dc s)) = mset (map fst (dc s @ fc s))" by simp
  then have "distinct (map fst (fc s @ dc s)) = distinct (map fst (dc s @ fc s))"
    by (rule mset_eq_imp_distinct_iff)
  with o show ?thesis unfolding fs_ok_def fs_thaw_def fs_size_def by auto
qed

lemma fs_insert_length:
  "mode s \<noteq> Tier \<Longrightarrow> length (dc (snd (fs_insert cap k v s))) =
    (let e = (if fs_size s \<ge> cap then length (dc s) - 1 else length (dc s)) in if fs_size s > cap then e else Suc e)"
  by (simp add: fs_insert_def Let_def del: butlast.simps)

section \<open>Freezing and thawing do not change what is cached\<close>

text \<open>Freezing a dynamic cache changes no lookup; thawing restores the list in its order.\<close>

lemma fs_find_dynamic: "mode s = Dynamic \<Longrightarrow> fc s = [] \<Longrightarrow> fst (fs_find p k s) = map_of (dc s) k"
  by (simp add: fs_find_def fs_lookup_def)

lemma fs_find_freeze:
  assumes "distinct (map fst (dc s))"
  shows "fst (fs_find p k (fs_freeze n s)) = map_of (dc s) k"
proof -
  have a: "map_of (dc s) k = (case map_of (take n (dc s)) k of Some v \<Rightarrow> Some v | None \<Rightarrow> map_of (drop n (dc s)) k)"
    using map_of_append [of "take n (dc s)" "drop n (dc s)"] by (simp add: map_add_def)
  show ?thesis
    unfolding a by (auto simp: fs_find_def fs_freeze_def fs_lookup_def map_add_def split: option.splits)
qed

lemma fs_find_freeze_all: "fst (fs_find p k (fs_freeze_all s)) = map_of (dc s) k"
  by (auto simp: fs_find_def fs_freeze_all_def split: option.splits)

lemma fs_thaw_freeze:
  assumes "mode s = Dynamic" "fc s = []" "snap s = Map.empty"
  shows "fs_thaw (fs_freeze n s) = s" "fs_thaw (fs_freeze_all s) = s"
proof -
  show "fs_thaw (fs_freeze n s) = s"
    by (rule frozen_spec.equality) (simp_all add: assms fs_thaw_def fs_freeze_def)
  show "fs_thaw (fs_freeze_all s) = s"
    by (rule frozen_spec.equality) (simp_all add: assms fs_thaw_def fs_freeze_all_def)
qed

text \<open>A frozen key is never evicted by an insertion.\<close>

lemma fs_insert_keeps_frozen: "fc (snd (fs_insert cap k v s)) = fc s \<and> snap (snd (fs_insert cap k v s)) = snap s"
  by (simp add: fs_insert_def Let_def)

end
