(* ===== verification/Frozen_Proofs.thy ===== *)
theory Frozen_Proofs
  imports LRU_FH Frozen_Spec
begin

text \<open>
  The FrozenHot LRU cache implements the specification of \<open>Frozen_Spec\<close>. \<open>FH_repr H F c s\<close> relates
  a state of the cache to an abstract state. The lemmas are stated in the locale \<open>fh_tables\<close>, which
  combines the contracts of the two hash tables.
\<close>

locale fh_tables = concurrent_hash_map H + fast_hash_api F
  for H :: "'m fh_table" and F :: "'f fast_hash"

definition FH_flags :: "('m, 'f) LRU_FHCache \<Rightarrow> mode \<Rightarrow> bool" where
  "FH_flags c md \<longleftrightarrow>
     \<not> fast_hash_construct c \<and> \<not> curve_flag c \<and>
     fast_hash_ready c = (md = Ratio) \<and> tier_ready c = (md = Tier) \<and> tier_no_insert c = (md = Tier)"

definition flags_of :: "('m, 'f) LRU_FHCache \<Rightarrow> bool \<times> bool \<times> bool \<times> bool \<times> bool" where
  "flags_of c = (fast_hash_ready c, fast_hash_construct c, tier_ready c, tier_no_insert c, curve_flag c)"

lemma FH_flags_cong: "flags_of c = flags_of c' \<Longrightarrow> FH_flags c md = FH_flags c' md"
  by (simp add: flags_of_def FH_flags_def)

definition FH_nodes ::
    "'m fh_table \<Rightarrow> ('m, 'f) LRU_FHCache \<Rightarrow> loc list \<Rightarrow> loc list \<Rightarrow> loc list \<Rightarrow> bool" where
  "FH_nodes H c pend xs fs \<longleftrightarrow>
     fh_indexed (heap c) (chm_find H (m_map c)) pend xs fs \<and>
     set (pend @ xs @ fs) \<subseteq> heap_node ` {..<next_addr c}"

definition FH_repr ::
    "'m fh_table \<Rightarrow> 'f fast_hash \<Rightarrow> ('m, 'f) LRU_FHCache \<Rightarrow> frozen_spec \<Rightarrow> bool" where
  "FH_repr H F c s \<longleftrightarrow>
     (\<exists>xs fs. FH_nodes H c [] xs fs \<and>
        dc s = live_kvs (heap c) (chm_find H (m_map c)) xs \<and>
        fc s = live_kvs (heap c) (chm_find H (m_map c)) fs \<and>
        (mode s = Dynamic) = (fs = []) \<and> (mode s = Tier \<longrightarrow> xs = [])) \<and>
     (\<forall>k. valid_key k \<longrightarrow> fh_find F (m_fasthash c) (ucast k) = snap s k) \<and>
     FH_flags c (mode s) \<and> fs_ok (unat (m_maxSize c)) s \<and>
     unat (m_size c) = fs_size s \<and> 0 < unat (m_maxSize c) \<and> unat (m_maxSize c) < 2 ^ 63"

section \<open>Valid keys\<close>

lemma valid_unat: "valid_key k \<Longrightarrow> unat (ucast k :: uint32) = unat k"
  by (simp add: valid_key_def unsigned_ucast_eq take_bit_eq_mod [where 'a = nat])

lemma valid_key_code [code]: "valid_key k \<longleftrightarrow> 2 < k \<and> k < 0x100000000"
  by (simp add: valid_key_def word_less_nat_alt)

lemma valid_keyD [simp]:
  assumes "valid_key k"
  shows "k \<noteq> TOMB_KEY" "k \<noteq> SPECIAL_KEY" "k \<noteq> MARKER_KEY" "(ucast k :: uint32) \<noteq> 0"
proof -
  from assms show "k \<noteq> TOMB_KEY" "k \<noteq> SPECIAL_KEY" "k \<noteq> MARKER_KEY"
    by (auto simp: valid_key_def TOMB_KEY_def SPECIAL_KEY_def MARKER_KEY_def)
  show "(ucast k :: uint32) \<noteq> 0" using assms valid_unat [OF assms] by (auto simp: valid_key_def)
qed

lemma valid_ucast_inj:
  assumes "valid_key j" "valid_key k" "(ucast j :: uint32) = ucast k"
  shows "j = k"
  using valid_unat [OF assms(1)] valid_unat [OF assms(2)] assms(3) by (simp add: word_unat_eq_iff)

section \<open>Eviction\<close>

text \<open>The tombstone loop returns, having dropped exactly the tombstones at the end of the list.\<close>

lemma evict_tombs_drops:
  assumes "fh_indexed h F pend (ys @ ts) fs" "\<And>t. t \<in> set ts \<Longrightarrow> \<not> live h t"
    "ys = [] \<or> live h (last ys)"
  shows "\<exists>h'. evict_tombs h (At (last (m_head # ys @ ts))) = Some (Inr (h', At (last (m_head # ys)))) \<and>
    fh_indexed h' F pend ys fs \<and>
    (\<forall>ws. set ws \<subseteq> set (pend @ ys @ fs) \<longrightarrow> live_kvs h' F ws = live_kvs h F ws) \<and>
    (\<forall>y \<in> set (pend @ ys @ fs). key_at h' y = key_at h y)"
  using assms
proof (induction ts arbitrary: h rule: rev_induct)
  case Nil
  note ic = fh_chains [OF Nil.prems(1)]
  let ?l = "last (m_head # ys)"
  have "key_at h ?l \<noteq> TOMB_KEY"
  proof (cases ys rule: rev_cases)
    case Nil
    then show ?thesis using ic(6) [of m_head] by (simp add: SPECIAL_KEY_def TOMB_KEY_def)
  next
    case (snoc ys' y)
    then show ?thesis using Nil.prems(3) by (simp add: live_def)
  qed
  moreover have "h ?l \<noteq> None"
    by (rule fh_alloc [OF Nil.prems(1)]) (use last_in_set [of "m_head # ys"] in auto)
  ultimately have "evict_tombs h (At ?l) = Some (Inr (h, At ?l))"
    by (subst evict_tombs.simps) (auto simp: key_at_def)
  with Nil.prems(1) show ?case by simp
next
  case (snoc t ts)
  have i: "fh_indexed h F pend ((ys @ ts) @ t # []) fs" using snoc.prems(1) by simp
  have t: "\<not> live h t" using snoc.prems(2) by simp
  obtain h1 n where h1: "checked_delink h (At t) = Inr h1" "h1 t = Some n"
    "fh_indexed (h1(t := None)) F pend ((ys @ ts) @ []) fs"
    "\<And>ws. set ws \<subseteq> set (pend @ (ys @ ts) @ [] @ fs) \<Longrightarrow> live_kvs (h1(t := None)) F ws = live_kvs h F ws"
    "\<And>y. y \<in> set (pend @ (ys @ ts) @ [] @ fs) \<Longrightarrow> key_at (h1(t := None)) y = key_at h y"
    by (rule fh_remove_tomb [OF i t]) blast
  let ?h = "h1(t := None)"
  have i': "fh_indexed ?h F pend (ys @ ts) fs" using h1(3) by simp
  obtain m where m: "?h m_tail = Some m" "m_prev m = At (last (m_head # ys @ ts))"
    using chain_last [OF fh_chains(1) [OF i']] unfolding prv_eq_Some by blast
  have nt: "\<not> live ?h u" if "u \<in> set ts" for u
    using snoc.prems(2) [of u] h1(5) [of u] that by (simp add: live_def)
  have ny: "ys = [] \<or> live ?h (last ys)"
    using snoc.prems(3) h1(5) [of "last ys"] by (auto simp: live_def)
  from snoc.IH [OF i' nt ny] obtain h' where
    h': "evict_tombs ?h (At (last (m_head # ys @ ts))) = Some (Inr (h', At (last (m_head # ys))))"
    "fh_indexed h' F pend ys fs"
    "\<forall>ws. set ws \<subseteq> set (pend @ ys @ fs) \<longrightarrow> live_kvs h' F ws = live_kvs ?h F ws"
    "\<forall>y \<in> set (pend @ ys @ fs). key_at h' y = key_at ?h y"
    by blast
  obtain n0 where n0: "h t = Some n0" "m_key n0 = TOMB_KEY"
    using fh_alloc [OF i, of t] t by (auto simp: live_def key_at_def)
  have "evict_tombs h (At (last (m_head # ys @ ts @ [t]))) = Some (Inr (h', At (last (m_head # ys))))"
    using n0 h1(1,2) m h'(1) by (subst evict_tombs.simps) (simp del: fun_upd_apply)
  moreover have "live_kvs h' F ws = live_kvs h F ws" if "set ws \<subseteq> set (pend @ ys @ fs)" for ws
    using h'(3) h1(4) [of ws] that by auto
  moreover have "key_at h' y = key_at h y" if "y \<in> set (pend @ ys @ fs)" for y
    using h'(4) h1(5) [of y] that by auto
  ultimately show ?case using h'(2) by blast
qed

lemma live_kvs_empty: "live_kvs h F xs = [] \<longleftrightarrow> (\<forall>x \<in> set xs. \<not> live h x)"
  by (simp add: live_kvs_def filter_empty_conv)

text \<open>A list ends in its last live node, followed by tombstones, or holds only tombstones.\<close>

lemma split_last_live:
  "\<exists>ys ts. xs = ys @ ts \<and> (\<forall>t \<in> set ts. \<not> live h t) \<and> (ys = [] \<or> live h (last ys))"
proof (induction xs rule: rev_induct)
  case (snoc x xs)
  then obtain ys ts where s: "xs = ys @ ts" "\<forall>t \<in> set ts. \<not> live h t" "ys = [] \<or> live h (last ys)" by blast
  show ?case
  proof (cases "live h x")
    case True
    then show ?thesis by (intro exI [of _ "xs @ [x]"] exI [of _ "[]"]) simp
  next
    case False
    with s show ?thesis by (intro exI [of _ ys] exI [of _ "ts @ [x]"]) auto
  qed
qed simp

context fh_tables
begin

text \<open>
  \<open>evict\<close> removes the last live node of the main list together with its map entry, and reports
  whether there was one. Tombstones behind it are gone as well.
\<close>

lemma evict_last_live:
  assumes i: "fh_indexed (heap c) (chm_find H (m_map c)) pend xs fs"
  obtains h m xs' where
    "FH_evict H c = Some (Inr (live_kvs (heap c) (chm_find H (m_map c)) xs \<noteq> [], c\<lparr>heap := h, m_map := m\<rparr>))"
    "fh_indexed h (chm_find H m) pend xs' fs" "set xs' \<subseteq> set xs"
    "live_kvs h (chm_find H m) xs' = butlast (live_kvs (heap c) (chm_find H (m_map c)) xs)"
    "\<And>ws. set ws \<subseteq> set (pend @ fs) \<Longrightarrow>
      live_kvs h (chm_find H m) ws = live_kvs (heap c) (chm_find H (m_map c)) ws"
proof -
  let ?F = "chm_find H (m_map c)"
  obtain ys ts where xs: "xs = ys @ ts" and ts: "\<And>t. t \<in> set ts \<Longrightarrow> \<not> live (heap c) t"
    and ys: "ys = [] \<or> live (heap c) (last ys)"
    using split_last_live [of xs "heap c"] by blast
  obtain h1 where h1: "evict_tombs (heap c) (At (last (m_head # ys @ ts))) = Some (Inr (h1, At (last (m_head # ys))))"
    and i1: "fh_indexed h1 ?F pend ys fs"
    and kv1: "\<And>ws. set ws \<subseteq> set (pend @ ys @ fs) \<Longrightarrow> live_kvs h1 ?F ws = live_kvs (heap c) ?F ws"
    and k1: "\<And>y. y \<in> set (pend @ ys @ fs) \<Longrightarrow> key_at h1 y = key_at (heap c) y"
    using evict_tombs_drops [OF i [unfolded xs] ts ys] by blast
  obtain t where t: "heap c m_tail = Some t" "m_prev t = At (last (m_head # ys @ ts))"
    using chain_last [OF fh_chains(1) [OF i]] xs unfolding prv_eq_Some by blast
  have e: "live_kvs (heap c) ?F xs = live_kvs (heap c) ?F ys"
    using xs ts by (simp add: live_kvs_empty)
  show ?thesis
  proof (cases ys rule: rev_cases)
    case Nil
    have "FH_evict H c = Some (Inr (False, c\<lparr>heap := h1, m_map := m_map c\<rparr>))"
      using t h1 Nil by (simp add: FH_evict_def)
    with i1 kv1 e Nil show ?thesis by (intro that [of "m_map c" h1 "[]"]) simp_all
  next
    case (snoc zs x)
    have l0: "live (heap c) x" using ys snoc by auto
    then have l: "live h1 x" using k1 [of x] snoc by (simp add: live_def)
    have i1': "fh_indexed h1 ?F pend (zs @ x # []) fs" using i1 snoc by simp
    obtain h2 n where h2: "checked_delink h1 (At x) = Inr h2" "h2 x = Some n" "m_key n = key_at h1 x"
      and i2: "fh_indexed (h2(x := None)) (?F(key_at h1 x := None)) pend (zs @ []) fs"
      and kv2: "\<And>ws. set ws \<subseteq> set (pend @ zs @ [] @ fs) \<Longrightarrow>
        live_kvs (h2(x := None)) (?F(key_at h1 x := None)) ws = live_kvs h1 ?F ws"
      by (rule fh_remove [OF i1' l]) blast
    let ?m = "snd (chm_erase H (m_map c) (key_at h1 x))"
    have "x \<in> set (pend @ ys @ fs)" using snoc by simp
    then obtain hv where hv: "?F (key_at h1 x) = Some hv"
      using live_index_node [OF fh_chains(5) [OF i1] _ l] by blast
    have "x \<noteq> m_head" using fh_chains(3) [OF i1] snoc by auto
    then have "FH_evict H c = Some (Inr (True, c\<lparr>heap := h2(x := None), m_map := ?m\<rparr>))"
      using t h1 snoc h2 hv by (simp add: FH_evict_def Let_def)
    moreover have "live_kvs (h2(x := None)) (chm_find H ?m) ws = live_kvs (heap c) ?F ws"
      if "set ws \<subseteq> set (pend @ zs @ fs)" for ws
      using kv2 [of ws] kv1 [of ws] that snoc by (auto simp: find_erase)
    ultimately show ?thesis
      using i2 e snoc l0 xs by (intro that [of ?m "h2(x := None)" zs]) (auto simp: find_erase)
  qed
qed

end

section \<open>Reading the representation\<close>

lemma FH_reprE:
  assumes "FH_repr H F c s"
  obtains xs fs where "fh_indexed (heap c) (chm_find H (m_map c)) [] xs fs"
    "set (xs @ fs) \<subseteq> heap_node ` {..<next_addr c}"
    "dc s = live_kvs (heap c) (chm_find H (m_map c)) xs" "fc s = live_kvs (heap c) (chm_find H (m_map c)) fs"
    "(mode s = Dynamic) = (fs = [])" "mode s = Tier \<longrightarrow> xs = []"
  using assms by (auto simp: FH_repr_def FH_nodes_def)

lemma FH_reprI:
  assumes "fh_indexed (heap c) (chm_find H (m_map c)) [] xs fs" "set (xs @ fs) \<subseteq> heap_node ` {..<next_addr c}"
    "dc s = live_kvs (heap c) (chm_find H (m_map c)) xs" "fc s = live_kvs (heap c) (chm_find H (m_map c)) fs"
    "(mode s = Dynamic) = (fs = [])" "mode s = Tier \<Longrightarrow> xs = []"
    "\<And>k. valid_key k \<Longrightarrow> fh_find F (m_fasthash c) (ucast k) = snap s k" "FH_flags c (mode s)"
    "fs_ok (unat (m_maxSize c)) s" "unat (m_size c) = fs_size s" "0 < unat (m_maxSize c)"
    "unat (m_maxSize c) < 2 ^ 63"
  shows "FH_repr H F c s"
  unfolding FH_repr_def FH_nodes_def using assms by auto

lemma FH_repr_facts:
  assumes "FH_repr H F c s"
  shows "\<And>k. valid_key k \<Longrightarrow> fh_find F (m_fasthash c) (ucast k) = snap s k" "FH_flags c (mode s)"
    "fs_ok (unat (m_maxSize c)) s" "unat (m_size c) = fs_size s" "0 < unat (m_maxSize c)"
    "unat (m_maxSize c) < 2 ^ 63"
  using assms by (auto simp: FH_repr_def)

text \<open>The part of the state the representation reads; everything else may change.\<close>

definition same_core :: "('m, 'f) LRU_FHCache \<Rightarrow> ('m, 'f) LRU_FHCache \<Rightarrow> bool" where
  "same_core c c' \<longleftrightarrow>
     heap c' = heap c \<and> m_map c' = m_map c \<and> m_fasthash c' = m_fasthash c \<and> next_addr c' = next_addr c \<and>
     m_size c' = m_size c \<and> m_maxSize c' = m_maxSize c \<and> fast_hash_ready c' = fast_hash_ready c \<and>
     fast_hash_construct c' = fast_hash_construct c \<and> tier_ready c' = tier_ready c \<and>
     tier_no_insert c' = tier_no_insert c \<and> curve_flag c' = curve_flag c"

lemma FH_repr_core: "same_core c c' \<Longrightarrow> FH_repr H F c' s = FH_repr H F c s"
  by (simp add: same_core_def FH_repr_def FH_nodes_def FH_flags_def)

lemma same_core_count [simp]:
  "same_core c (count_fast_hit b c)" "same_core c (count_tbb_miss b c)" "same_core c (count_succ b c)"
  by (simp_all add: same_core_def count_fast_hit_def count_tbb_miss_def count_succ_def)

lemma repr_counted [simp]:
  "FH_repr H F (count_fast_hit b c) s = FH_repr H F c s"
  "FH_repr H F (count_tbb_miss b c) s = FH_repr H F c s"
  "FH_repr H F (count_succ b c) s = FH_repr H F c s"
  "m_maxSize (count_fast_hit b c) = m_maxSize c" "m_maxSize (count_tbb_miss b c) = m_maxSize c"
  "m_maxSize (count_succ b c) = m_maxSize c"
  by (simp_all add: FH_repr_core) (simp_all add: count_fast_hit_def count_tbb_miss_def count_succ_def)

lemma live_kvs_lookup:
  assumes "live_index h F N" "set ws \<subseteq> N"
  shows "map_of (live_kvs h F ws) k =
    (if \<exists>x \<in> set ws. live h x \<and> key_at h x = k then map_option m_value (F k) else None)"
  using assms(2)
proof (induction ws)
  case (Cons w ws)
  show ?case
  proof (cases "live h w \<and> key_at h w = k")
    case True
    then obtain v where "F (key_at h w) = Some \<lparr>m_value = v, m_listNode = At w\<rparr>" "kv_at h F w = (k, v)"
      using live_index_node [OF assms(1), of w] Cons.prems by auto
    with True show ?thesis by simp
  next
    case False
    with Cons show ?thesis by (auto simp: kv_at_def)
  qed
qed simp

text \<open>A key of the map is a live node of one of the two lists, and the pairs are what the map says.\<close>

lemma repr_find_node:
  assumes i: "fh_indexed h F [] xs fs" and k: "F k = Some hv"
  obtains (main) ys x zs where "xs = ys @ x # zs" "live h x" "key_at h x = k" "m_listNode hv = At x"
      "kv_at h F x = (k, m_value hv)" "x \<notin> set fs"
    | (frozen) ys x zs where "fs = ys @ x # zs" "live h x" "key_at h x = k" "m_listNode hv = At x"
      "kv_at h F x = (k, m_value hv)" "x \<notin> set xs"
proof -
  note ic = fh_chains [OF i]
  obtain x where x: "x \<in> set ([] @ xs @ fs)" "live h x" "key_at h x = k" "m_listNode hv = At x"
    "kv_at h F x = (k, m_value hv)"
    by (rule live_index_find [OF ic(5) k])
  then consider "x \<in> set xs" "x \<notin> set fs" | "x \<in> set fs" "x \<notin> set xs" using ic(3) by auto
  then show ?thesis
  proof cases
    case 1
    then show ?thesis using split_list x(2-) main by metis
  next
    case 2
    then show ?thesis using split_list x(2-) frozen by metis
  qed
qed

lemma repr_lookup_map:
  assumes i: "fh_indexed h F [] xs fs"
  shows "map_of (live_kvs h F xs @ live_kvs h F fs) k = map_option m_value (F k)"
proof -
  note ic = fh_chains [OF i]
  have "map_of (live_kvs h F (xs @ fs)) k = map_option m_value (F k)"
  proof (cases "F k")
    case None
    then show ?thesis by (subst live_kvs_lookup [OF ic(5)]) auto
  next
    case (Some hv)
    then obtain x where "x \<in> set (xs @ fs)" "live h x" "key_at h x = k"
      by (metis append_Nil live_index_find [OF ic(5)])
    then show ?thesis by (subst live_kvs_lookup [OF ic(5)]) auto
  qed
  then show ?thesis by simp
qed

lemma live_kvs_remove:
  assumes "distinct (map fst (live_kvs h F (ys @ x # zs)))" "live h x" "kv_at h F x = (k, v)"
  shows "filter (\<lambda>p. fst p \<noteq> k) (live_kvs h F (ys @ x # zs)) = live_kvs h F (ys @ zs)"
  using filter_split [of "live_kvs h F ys" k v "live_kvs h F zs"] assms by simp

context fh_tables
begin

lemma find_fast_repr:
  assumes r: "FH_repr H F c s" and k: "valid_key k"
  shows "FH_find_fast F c k = (if mode s = Dynamic then None else snap s k)"
proof -
  note rf = FH_repr_facts [OF r]
  have "snap s k = Some v \<Longrightarrow> v \<noteq> 0" for v using rf(3) by (auto simp: fs_ok_def)
  moreover have "(tier_ready c \<or> fast_hash_ready c) = (mode s \<noteq> Dynamic)"
    using rf(2) by (cases "mode s") (auto simp: FH_flags_def)
  ultimately show ?thesis
    using rf(1) [OF k] by (auto simp: FH_find_fast_def split: option.splits)
qed

lemma repr_lookup:
  assumes r: "FH_repr H F c s"
  shows "fs_lookup k s = map_option m_value (chm_find H (m_map c) k)"
proof -
  obtain xs fs where i: "fh_indexed (heap c) (chm_find H (m_map c)) [] xs fs"
    and d: "dc s = live_kvs (heap c) (chm_find H (m_map c)) xs" "fc s = live_kvs (heap c) (chm_find H (m_map c)) fs"
    by (rule FH_reprE [OF r]) blast
  show ?thesis using repr_lookup_map [OF i, of k] d by (simp add: fs_lookup_def)
qed

text \<open>A lookup that promotes: the node moves to the front of the main list.\<close>

lemma promote_repr:
  assumes r: "FH_repr H F c s" and v: "chm_find H (m_map c) k = Some hv" and k: "valid_key k"
    and f: "FH_find_fast F c k = None"
  shows "\<exists>c'. FH_promote c (m_listNode hv) = Inr c' \<and> m_maxSize c' = m_maxSize c \<and>
    FH_repr H F c' (s\<lparr>dc := spec_find True k (dc s)\<rparr>)"
proof -
  let ?F = "chm_find H (m_map c)"
  note rf = FH_repr_facts [OF r]
  obtain xs fs where i: "fh_indexed (heap c) ?F [] xs fs" and fr: "set (xs @ fs) \<subseteq> heap_node ` {..<next_addr c}"
    and d: "dc s = live_kvs (heap c) ?F xs" "fc s = live_kvs (heap c) ?F fs"
    and m: "(mode s = Dynamic) = (fs = [])" "mode s = Tier \<longrightarrow> xs = []"
    by (rule FH_reprE [OF r]) blast
  from i v show ?thesis
  proof (cases rule: repr_find_node)
    case (main ys x zs)
    obtain h1 h2 where h: "checked_delink (heap c) (At x) = Inr h1" "pushFront h1 (At x) = Inr h2"
      "fh_indexed h2 ?F [] (x # ys @ zs) fs" "same_payload (heap c) h2"
      by (rule fh_promote [OF i [unfolded main(1)]])
    have ch: "chain (heap c) m_head xs m_tail" by (rule fh_chains(1) [OF i])
    obtain n where n: "heap c x = Some n" "isInList n"
      using chain_member_prv [OF ch, of x] main(1) by (auto simp: prv_eq_Some isInList_def)
    then have p: "FH_promote c (m_listNode hv) = Inr (c\<lparr>heap := h2\<rparr>)"
      using h main(4) by (simp add: FH_promote_def)
    have same: "live_kvs h2 ?F ws = live_kvs (heap c) ?F ws" if "set ws \<subseteq> set (xs @ fs)" for ws
      using that by (intro fh_same_kvs [OF i h(4)]) simp
    have dd: "distinct (map fst (dc s))" using rf(3) by (simp add: fs_ok_def)
    have "map_of (dc s) k = Some (m_value hv)"
      using live_kvs_lookup [OF fh_chains(5) [OF i], of xs k] d(1) main v by auto
    then have "spec_find True k (dc s) = kv_at (heap c) ?F x # live_kvs (heap c) ?F (ys @ zs)"
      using live_kvs_remove [of "heap c" ?F ys x zs] dd d(1) main by (simp add: spec_find_def)
    also have "\<dots> = live_kvs (heap c) ?F (x # ys @ zs)" using main(2) by simp
    also have "\<dots> = live_kvs h2 ?F (x # ys @ zs)" using main(1) by (intro same [symmetric]) auto
    finally have dc': "spec_find True k (dc s) = live_kvs h2 ?F (x # ys @ zs)" .
    have "mset (spec_find True k (dc s)) = mset (dc s)" by (rule spec_find_mset [OF dd])
    then have sz: "length (spec_find True k (dc s)) = length (dc s)" by (rule mset_eq_length)
    have nt: "mode s \<noteq> Tier" using m(2) main(1) by auto
    have find: "snd (fs_find True k s) = s\<lparr>dc := spec_find True k (dc s)\<rparr>"
      using find_fast_repr [OF r k] f nt by (auto simp: fs_find_def)
    have ok: "fs_ok (unat (m_maxSize c)) (s\<lparr>dc := spec_find True k (dc s)\<rparr>)"
      using fs_ok_find [OF rf(3), of True k] find by simp
    have "FH_repr H F (c\<lparr>heap := h2\<rparr>) (s\<lparr>dc := spec_find True k (dc s)\<rparr>)"
      unfolding FH_repr_def
    proof (intro conjI exI)
      show "FH_nodes H (c\<lparr>heap := h2\<rparr>) [] (x # ys @ zs) fs" using h(3) fr main(1) by (simp add: FH_nodes_def)
      show "fc (s\<lparr>dc := spec_find True k (dc s)\<rparr>) = live_kvs (heap (c\<lparr>heap := h2\<rparr>)) (chm_find H (m_map (c\<lparr>heap := h2\<rparr>))) fs"
        using d(2) same [of fs] by simp
    qed (use dc' m nt rf ok sz in \<open>simp_all add: FH_flags_def fs_size_def\<close>)
    with p show ?thesis by (intro exI [of _ "c\<lparr>heap := h2\<rparr>"]) simp
  next
    case (frozen ys x zs)
    have "map_of (fc s) k = Some (m_value hv)"
      using live_kvs_lookup [OF fh_chains(5) [OF i], of fs k] d(2) frozen v by auto
    then have "snap s k = Some (m_value hv)" using rf(3) by (auto simp: fs_ok_def map_le_def dom_def)
    moreover have "mode s \<noteq> Dynamic" using m(1) frozen(1) by simp
    ultimately show ?thesis using find_fast_repr [OF r k] f by simp
  qed
qed

theorem find_refines:
  assumes r: "FH_repr H F c s" and k: "valid_key k"
  shows "\<exists>c'. LRU_FHCache_find H F locked sample now c k = Inr (fst (fs_find locked k s), c') \<and>
    FH_repr H F c' (snd (fs_find locked k s)) \<and> m_maxSize c' = m_maxSize c"
proof -
  note rf = FH_repr_facts [OF r]
  have fl: "\<not> curve_flag c" "\<not> fast_hash_construct c" "tier_ready c = (mode s = Tier)"
    using rf(2) by (auto simp: FH_flags_def)
  show ?thesis
  proof (cases "FH_find_fast F c k")
    case (Some v)
    then have "fs_find locked k s = (Some v, s)"
      using find_fast_repr [OF r k] by (auto simp: fs_find_def split: if_splits)
    with Some fl r show ?thesis by (simp add: LRU_FHCache_find_def)
  next
    case None
    then have n: "(if mode s = Dynamic then None else snap s k) = None" using find_fast_repr [OF r k] by simp
    show ?thesis
    proof (cases "mode s = Tier")
      case True
      then have "fs_find locked k s = (None, s)" using n by (simp add: fs_find_def)
      with True None fl r show ?thesis by (simp add: LRU_FHCache_find_def)
    next
      case False
      then have fs: "fs_find locked k s = (fs_lookup k s, s\<lparr>dc := spec_find locked k (dc s)\<rparr>)"
        using n by (simp add: fs_find_def)
      show ?thesis
      proof (cases "chm_find H (m_map c) k")
        case None': None
        then have "fs_lookup k s = None" using repr_lookup [OF r, of k] by simp
        then have "spec_find locked k (dc s) = dc s"
          by (auto simp: fs_lookup_def spec_find_def map_add_def split: option.splits)
        with None None' False fl fs r \<open>fs_lookup k s = None\<close> show ?thesis by (simp add: LRU_FHCache_find_def)
      next
        case (Some hv)
        then have lk: "fs_lookup k s = Some (m_value hv)" using repr_lookup [OF r, of k] by simp
        show ?thesis
        proof (cases locked)
          case True
          obtain c' where c': "FH_promote c (m_listNode hv) = Inr c'" "m_maxSize c' = m_maxSize c"
            "FH_repr H F c' (s\<lparr>dc := spec_find True k (dc s)\<rparr>)"
            using promote_repr [OF r Some k None] by blast
          with True Some None False fl fs lk show ?thesis by (simp add: LRU_FHCache_find_def Let_def)
        next
          case False': False
          then have "spec_find locked k (dc s) = dc s" by (simp add: spec_find_def split: option.splits)
          with False' Some None False fl fs lk r show ?thesis by (simp add: LRU_FHCache_find_def Let_def)
        qed
      qed
    qed
  qed
qed

text \<open>The two evictions of \<open>insert\<close> are conditional.\<close>

lemma evict_when:
  assumes i: "fh_indexed (heap c) (chm_find H (m_map c)) pend xs fs"
  obtains h m xs' where
    "(if b then FH_evict H c else Some (Inr (False, c))) =
       Some (Inr (b \<and> live_kvs (heap c) (chm_find H (m_map c)) xs \<noteq> [], c\<lparr>heap := h, m_map := m\<rparr>))"
    "fh_indexed h (chm_find H m) pend xs' fs" "set xs' \<subseteq> set xs"
    "live_kvs h (chm_find H m) xs' =
       (if b then butlast (live_kvs (heap c) (chm_find H (m_map c)) xs)
        else live_kvs (heap c) (chm_find H (m_map c)) xs)"
    "\<And>ws. set ws \<subseteq> set (pend @ fs) \<Longrightarrow>
      live_kvs h (chm_find H m) ws = live_kvs (heap c) (chm_find H (m_map c)) ws"
proof (cases b)
  case True
  obtain h m xs' where
    "FH_evict H c = Some (Inr (live_kvs (heap c) (chm_find H (m_map c)) xs \<noteq> [], c\<lparr>heap := h, m_map := m\<rparr>))"
    "fh_indexed h (chm_find H m) pend xs' fs" "set xs' \<subseteq> set xs"
    "live_kvs h (chm_find H m) xs' = butlast (live_kvs (heap c) (chm_find H (m_map c)) xs)"
    "\<And>ws. set ws \<subseteq> set (pend @ fs) \<Longrightarrow>
      live_kvs h (chm_find H m) ws = live_kvs (heap c) (chm_find H (m_map c)) ws"
    by (rule evict_last_live [OF i]) blast
  with True show ?thesis by (intro that [of m h xs']) simp_all
next
  case False
  with i show ?thesis by (intro that [of "m_map c" "heap c" xs]) simp_all
qed

text \<open>
  The second half of \<open>insert\<close>: the pending node \<open>a\<close> goes to the front, the count grows unless
  something was evicted before, and an overfull cache evicts once more.
\<close>

lemma link_refines:
  assumes i: "fh_indexed (heap c) (chm_find H (m_map c)) [a] xs fs" and l: "live (heap c) a"
    and fl: "\<not> tier_no_insert c" "\<not> curve_flag c" and sz: "unat (m_size c) < 2 ^ 64 - 1"
    and sm: "sz = m_size c"
  defines "kvs \<equiv> kv_at (heap c) (chm_find H (m_map c)) a # live_kvs (heap c) (chm_find H (m_map c)) xs"
  obtains h m xs' where
    "FH_insert_link H c key (At a) sz done = Some (Inr (True, c\<lparr>heap := h, m_map := m,
       m_size := (if done then m_size c else m_size c + 1) - (if sz > m_maxSize c then 1 else 0)\<rparr>))"
    "fh_indexed h (chm_find H m) [] xs' fs" "set xs' \<subseteq> insert a (set xs)"
    "live_kvs h (chm_find H m) xs' = (if sz > m_maxSize c then butlast kvs else kvs)"
    "live_kvs h (chm_find H m) fs = live_kvs (heap c) (chm_find H (m_map c)) fs"
proof -
  let ?F = "chm_find H (m_map c)"
  obtain h1 where h1: "pushFront (heap c) (At a) = Inr h1" "fh_indexed h1 ?F [] (a # xs) fs"
    "same_payload (heap c) h1"
    by (rule fh_push [OF i])
  have kv1: "live_kvs h1 ?F ws = live_kvs (heap c) ?F ws" if "set ws \<subseteq> set ([a] @ xs @ fs)" for ws
    by (rule fh_same_kvs [OF i h1(3) that])
  have "live_kvs h1 ?F (a # xs) = live_kvs (heap c) ?F (a # xs)" by (rule kv1) auto
  then have k1: "live_kvs h1 ?F (a # xs) = kvs" using l by (simp add: kvs_def del: live_kvs_Cons) simp
  let ?c = "c\<lparr>heap := h1, m_size := (if done then m_size c else m_size c + 1)\<rparr>"
  have i2: "fh_indexed (heap ?c) (chm_find H (m_map ?c)) [] (a # xs) fs" using h1(2) by simp
  obtain h m xs' where ev:
    "(if sz > m_maxSize c then FH_evict H ?c else Some (Inr (False, ?c))) =
       Some (Inr (sz > m_maxSize c \<and> live_kvs (heap ?c) (chm_find H (m_map ?c)) (a # xs) \<noteq> [],
         ?c\<lparr>heap := h, m_map := m\<rparr>))"
    and i3: "fh_indexed h (chm_find H m) [] xs' fs" and sub: "set xs' \<subseteq> set (a # xs)"
    and kv: "live_kvs h (chm_find H m) xs' =
       (if sz > m_maxSize c then butlast (live_kvs (heap ?c) (chm_find H (m_map ?c)) (a # xs))
        else live_kvs (heap ?c) (chm_find H (m_map ?c)) (a # xs))"
    and kf: "\<And>ws. set ws \<subseteq> set ([] @ fs) \<Longrightarrow>
      live_kvs h (chm_find H m) ws = live_kvs (heap ?c) (chm_find H (m_map ?c)) ws"
    by (rule evict_when [OF i2, of "sz > m_maxSize c"]) blast
  have ne: "live_kvs (heap ?c) (chm_find H (m_map ?c)) (a # xs) = kvs" using k1 by simp
  have link: "FH_insert_link H c key (At a) sz done =
      (if sz > m_maxSize c
       then p_bind (FH_evict H ?c) (\<lambda>(done, c). Some (Inr (True, if done then c\<lparr>m_size := m_size c - 1\<rparr> else c)))
       else Some (Inr (True, ?c)))"
    using h1(1) fl sm by (cases "done") (simp_all add: FH_insert_link_def)
  have "FH_insert_link H c key (At a) sz done = Some (Inr (True, c\<lparr>heap := h, m_map := m,
       m_size := (if done then m_size c else m_size c + 1) - (if sz > m_maxSize c then 1 else 0)\<rparr>))"
  proof (cases "sz > m_maxSize c")
    case True
    then have "FH_evict H ?c = Some (Inr (True, ?c\<lparr>heap := h, m_map := m\<rparr>))" using ev ne by (simp add: kvs_def)
    with True link show ?thesis by simp
  next
    case False
    then have "?c = ?c\<lparr>heap := h, m_map := m\<rparr>" using ev by simp
    with False link show ?thesis by simp
  qed
  moreover have "live_kvs h (chm_find H m) fs = live_kvs (heap c) ?F fs" using kf [of fs] kv1 [of fs] by auto
  ultimately show ?thesis using i3 sub kv ne by (intro that [of m h xs']) simp_all
qed

text \<open>The state of \<open>insert\<close> once the new node is in the store and in the hash map.\<close>

lemma insert_start:
  assumes "\<not> tier_no_insert c" "chm_find H (m_map c) k = None" "\<not> fast_hash_construct c"
  obtains c1 where
    "FH_insert H sample now c k v =
       p_bind (if m_size c \<ge> m_maxSize c then FH_evict H c1 else Some (Inr (False, c1)))
         (\<lambda>(evictionDone, c). FH_insert_link H c k (At (heap_node (next_addr c1 - 1))) (m_size c1) evictionDone)"
    "heap c1 = (heap c)(heap_node (next_addr c) \<mapsto> new_node k now)" "next_addr c1 = Suc (next_addr c)"
    "chm_find H (m_map c1) = (chm_find H (m_map c))(k \<mapsto> \<lparr>m_value = v, m_listNode = At (heap_node (next_addr c))\<rparr>)"
    "m_size c1 = m_size c" "m_maxSize c1 = m_maxSize c" "m_fasthash c1 = m_fasthash c"
    "flags_of c1 = flags_of c"
proof -
  let ?hv = "\<lparr>m_value = v, m_listNode = At (heap_node (next_addr c))\<rparr>"
  let ?c0 = "if FH_sample_generator c sample then c\<lparr>insert_count := insert_count c + 1\<rparr> else c"
  let ?c1 = "?c0\<lparr>heap := (heap c)(heap_node (next_addr c) \<mapsto> new_node k now), next_addr := next_addr c + 1,
      m_map := snd (chm_insert H (m_map c) k ?hv)\<rparr>"
  have "fst (chm_insert H (m_map c) k ?hv)" using assms(2) by (simp add: insert_fst)
  then have "FH_insert H sample now c k v =
       p_bind (if m_size c \<ge> m_maxSize c then FH_evict H ?c1 else Some (Inr (False, ?c1)))
         (\<lambda>(evictionDone, c). FH_insert_link H c k (At (heap_node (next_addr ?c1 - 1))) (m_size ?c1) evictionDone)"
    using assms by (auto simp: FH_insert_def Let_def case_prod_beta)
  then show ?thesis
    using assms by (intro that [of ?c1]) (auto simp: find_insert flags_of_def)
qed

lemma insert_tier:
  assumes r: "FH_repr H F c s" and t: "mode s = Tier"
  shows "\<exists>c'. FH_insert H sample now c k v = Some (Inr (False, c')) \<and> FH_repr H F c' s \<and> m_maxSize c' = m_maxSize c"
proof -
  let ?c = "if FH_sample_generator c sample then c\<lparr>insert_count := insert_count c + 1\<rparr> else c"
  have "tier_no_insert c" using FH_repr_facts(2) [OF r] t by (simp add: FH_flags_def)
  then have "FH_insert H sample now c k v = Some (Inr (False, ?c))" by (simp add: FH_insert_def Let_def)
  moreover have "same_core c ?c" by (simp add: same_core_def)
  then have "FH_repr H F ?c s" using r FH_repr_core by blast
  ultimately show ?thesis by (intro exI [of _ ?c]) simp
qed

text \<open>Insertion into a cache that is not frozen as a whole, from the state of \<open>insert_start\<close> on.\<close>

lemma insert_nodes:
  fixes v :: shared_ptr
  assumes i: "fh_indexed (heap c) (chm_find H (m_map c)) [] xs fs" and n: "heap_node (next_addr c) \<notin> dom (heap c)"
    and k: "chm_find H (m_map c) k = None" "k \<noteq> TOMB_KEY"
    and fl: "\<not> tier_no_insert c" "\<not> fast_hash_construct c" "\<not> curve_flag c" and sz: "unat (m_size c) < 2 ^ 64 - 1"
  defines "kvs \<equiv> live_kvs (heap c) (chm_find H (m_map c)) xs"
  defines "d \<equiv> (k, v) # (if m_size c \<ge> m_maxSize c then butlast kvs else kvs)"
  shows "\<exists>c' xs'. FH_insert H sample now c k v = Some (Inr (True, c')) \<and>
    fh_indexed (heap c') (chm_find H (m_map c')) [] xs' fs \<and> set xs' \<subseteq> insert (heap_node (next_addr c)) (set xs) \<and>
    live_kvs (heap c') (chm_find H (m_map c')) xs' = (if m_size c > m_maxSize c then butlast d else d) \<and>
    live_kvs (heap c') (chm_find H (m_map c')) fs = live_kvs (heap c) (chm_find H (m_map c)) fs \<and>
    m_size c' = (if m_size c \<ge> m_maxSize c \<and> kvs \<noteq> [] then m_size c else m_size c + 1) -
      (if m_size c > m_maxSize c then 1 else 0) \<and>
    m_maxSize c' = m_maxSize c \<and> m_fasthash c' = m_fasthash c \<and> next_addr c' = Suc (next_addr c) \<and>
    flags_of c' = flags_of c"
proof -
  let ?a = "heap_node (next_addr c)" and ?F = "chm_find H (m_map c)"
  obtain c1 where c1: "FH_insert H sample now c k v =
       p_bind (if m_size c \<ge> m_maxSize c then FH_evict H c1 else Some (Inr (False, c1)))
         (\<lambda>(evictionDone, c). FH_insert_link H c k (At (heap_node (next_addr c1 - 1))) (m_size c1) evictionDone)"
    and h1: "heap c1 = (heap c)(?a \<mapsto> new_node k now)" and na: "next_addr c1 = Suc (next_addr c)"
    and m1: "chm_find H (m_map c1) = ?F(k \<mapsto> \<lparr>m_value = v, m_listNode = At ?a\<rparr>)"
    and same: "m_size c1 = m_size c" "m_maxSize c1 = m_maxSize c" "m_fasthash c1 = m_fasthash c"
      "flags_of c1 = flags_of c"
    by (rule insert_start [OF fl(1) k(1) fl(2)])
  have nn: "m_key (new_node k now) = k" by (simp add: new_node_def)
  have kn: "?F (m_key (new_node k now)) = None" "m_key (new_node k now) \<noteq> TOMB_KEY" using k nn by simp_all
  note new = fh_new [OF i kn n, where v = v, unfolded nn, folded h1 m1]
  have la: "live_kvs (heap c1) (chm_find H (m_map c1)) [?a] = [(k, v)]"
    using k(2) nn by (simp add: live_def kv_at_def key_at_def h1 m1)
  let ?b = "m_size c \<ge> m_maxSize c"
  obtain h m xs1 where ev: "(if ?b then FH_evict H c1 else Some (Inr (False, c1))) =
       Some (Inr (?b \<and> live_kvs (heap c1) (chm_find H (m_map c1)) xs \<noteq> [], c1\<lparr>heap := h, m_map := m\<rparr>))"
    and i2: "fh_indexed h (chm_find H m) [?a] xs1 fs" and s1: "set xs1 \<subseteq> set xs"
    and kv1: "live_kvs h (chm_find H m) xs1 = (if ?b then butlast (live_kvs (heap c1) (chm_find H (m_map c1)) xs)
        else live_kvs (heap c1) (chm_find H (m_map c1)) xs)"
    and kf: "\<And>ws. set ws \<subseteq> set ([?a] @ fs) \<Longrightarrow>
      live_kvs h (chm_find H m) ws = live_kvs (heap c1) (chm_find H (m_map c1)) ws"
    by (rule evict_when [OF new(1), of ?b]) blast
  let ?c2 = "c1\<lparr>heap := h, m_map := m\<rparr>" and ?done = "?b \<and> live_kvs (heap c1) (chm_find H (m_map c1)) xs \<noteq> []"
  have "live_kvs h (chm_find H m) [?a] = [(k, v)]" using kf [of "[?a]"] la by simp
  then have a2: "live h ?a" "kv_at h (chm_find H m) ?a = (k, v)" by (simp_all split: if_splits)
  have i3: "fh_indexed (heap ?c2) (chm_find H (m_map ?c2)) [?a] xs1 fs" "live (heap ?c2) ?a" using i2 a2 by simp_all
  have fl2: "\<not> tier_no_insert ?c2" "\<not> curve_flag ?c2" using same(4) fl by (auto simp: flags_of_def)
  have sz2: "unat (m_size ?c2) < 2 ^ 64 - 1" "m_size c1 = m_size ?c2" using sz same by simp_all
  obtain h3 m3 xs' where ln: "FH_insert_link H ?c2 k (At ?a) (m_size c1) ?done = Some (Inr (True, ?c2\<lparr>heap := h3, m_map := m3,
       m_size := (if ?done then m_size ?c2 else m_size ?c2 + 1) - (if m_size c1 > m_maxSize ?c2 then 1 else 0)\<rparr>))"
    and i4: "fh_indexed h3 (chm_find H m3) [] xs' fs" and s4: "set xs' \<subseteq> insert ?a (set xs1)"
    and kv4: "live_kvs h3 (chm_find H m3) xs' = (if m_size c1 > m_maxSize ?c2
        then butlast (kv_at (heap ?c2) (chm_find H (m_map ?c2)) ?a # live_kvs (heap ?c2) (chm_find H (m_map ?c2)) xs1)
        else kv_at (heap ?c2) (chm_find H (m_map ?c2)) ?a # live_kvs (heap ?c2) (chm_find H (m_map ?c2)) xs1)"
    and kf4: "live_kvs h3 (chm_find H m3) fs = live_kvs (heap ?c2) (chm_find H (m_map ?c2)) fs"
    by (rule link_refines [OF i3 fl2 sz2, of k ?done]) blast
  let ?c3 = "?c2\<lparr>heap := h3, m_map := m3,
       m_size := (if ?done then m_size ?c2 else m_size ?c2 + 1) - (if m_size c1 > m_maxSize ?c2 then 1 else 0)\<rparr>"
  have e: "live_kvs (heap c1) (chm_find H (m_map c1)) xs = kvs" using new(2) [of xs] by (simp add: kvs_def)
  have "FH_insert H sample now c k v = Some (Inr (True, ?c3))"
    unfolding c1 ev using ln na by simp
  moreover have "live_kvs h3 (chm_find H m3) xs' = (if m_size c > m_maxSize c then butlast d else d)"
    using kv4 kv1 a2 same e by (simp add: d_def)
  moreover have "live_kvs h3 (chm_find H m3) fs = live_kvs (heap c) ?F fs"
    using kf4 kf [of fs] new(2) [of fs] by auto
  ultimately show ?thesis
    using i4 s4 s1 same na e by (intro exI [of _ ?c3] exI [of _ xs']) (auto simp: flags_of_def)
qed

text \<open>The element count after an insertion.\<close>

lemma insert_count_size:
  fixes ms mx :: size_t
  assumes "unat ms = nd + nf" "nd + nf \<le> Suc (unat mx)" "unat mx < 2 ^ 63" "0 < unat mx"
  shows "unat ((if ms \<ge> mx \<and> nd \<noteq> 0 then ms else ms + 1) - (if ms > mx then 1 else 0)) =
    (let e = (if ms \<ge> mx then nd - 1 else nd) in if ms > mx then e else Suc e) + nf"
proof -
  have inc: "unat (ms + 1) = Suc (unat ms)" if "unat ms < 2 ^ 64 - 1"
    using that by (simp add: unat_word_ariths)
  show ?thesis
  proof (cases "ms > mx")
    case True
    then have "nd + nf = Suc (unat mx)" using assms by (simp add: size_simps)
    with True assms inc show ?thesis by (cases "nd = 0") (auto simp: size_simps Let_def)
  next
    case False
    then have "unat ms \<le> unat mx" by (simp add: size_simps)
    with False assms inc show ?thesis by (cases "ms \<ge> mx"; cases "nd = 0") (auto simp: size_simps Let_def)
  qed
qed

theorem insert_refines:
  assumes r: "FH_repr H F c s" and k: "valid_key k" "v \<noteq> 0" and a: "fs_lookup k s = None"
  shows "\<exists>c'. FH_insert H sample now c k v = Some (Inr (fst (fs_insert (unat (m_maxSize c)) k v s), c')) \<and>
    FH_repr H F c' (snd (fs_insert (unat (m_maxSize c)) k v s)) \<and> m_maxSize c' = m_maxSize c"
proof (cases "mode s = Tier")
  case True
  with insert_tier [OF r True] show ?thesis by (simp add: fs_insert_def)
next
  case False
  note rf = FH_repr_facts [OF r]
  let ?F = "chm_find H (m_map c)"
  obtain xs fs where i: "fh_indexed (heap c) ?F [] xs fs" and fr: "set (xs @ fs) \<subseteq> heap_node ` {..<next_addr c}"
    and d: "dc s = live_kvs (heap c) ?F xs" "fc s = live_kvs (heap c) ?F fs"
    and m: "(mode s = Dynamic) = (fs = [])"
    by (rule FH_reprE [OF r]) blast
  have na: "heap_node (next_addr c) \<notin> dom (heap c)" using fh_chains(4) [OF i] fr by auto
  have nk: "?F k = None" using repr_lookup [OF r, of k] a by simp
  have fl: "\<not> tier_no_insert c" "\<not> fast_hash_construct c" "\<not> curve_flag c"
    using rf(2) False by (auto simp: FH_flags_def)
  have szs: "fs_size s \<le> Suc (unat (m_maxSize c))" using rf(3) by (simp add: fs_ok_def)
  then have sz: "unat (m_size c) < 2 ^ 64 - 1" using rf(4,6) by simp
  define d' where "d' = dc (snd (fs_insert (unat (m_maxSize c)) k v s))"
  have ins: "fs_insert (unat (m_maxSize c)) k v s = (True, s\<lparr>dc := d'\<rparr>)"
    using False by (simp add: d'_def fs_insert_def Let_def)
  have ge: "(fs_size s \<ge> unat (m_maxSize c)) = (m_size c \<ge> m_maxSize c)"
    "(fs_size s > unat (m_maxSize c)) = (m_size c > m_maxSize c)"
    using rf(4) by (simp_all add: size_simps)
  obtain c' xs' where c': "FH_insert H sample now c k v = Some (Inr (True, c'))"
    "fh_indexed (heap c') (chm_find H (m_map c')) [] xs' fs" "set xs' \<subseteq> insert (heap_node (next_addr c)) (set xs)"
    "live_kvs (heap c') (chm_find H (m_map c')) xs' = d'"
    "live_kvs (heap c') (chm_find H (m_map c')) fs = fc s"
    "m_size c' = (if m_size c \<ge> m_maxSize c \<and> dc s \<noteq> [] then m_size c else m_size c + 1) -
      (if m_size c > m_maxSize c then 1 else 0)"
    "m_maxSize c' = m_maxSize c" "m_fasthash c' = m_fasthash c" "next_addr c' = Suc (next_addr c)"
    "flags_of c' = flags_of c"
    using insert_nodes [OF i na nk valid_keyD(1) [OF k(1)] fl sz, of sample now v] False
    unfolding d'_def fs_insert_def Let_def d [symmetric] ge by auto
  have "unat (m_size c') = length d' + length (fc s)"
    using insert_count_size [of "m_size c" "length (dc s)" "length (fc s)" "m_maxSize c"] rf(4,5,6) szs
    unfolding c'(6) d'_def fs_insert_length [OF False] ge by (simp add: fs_size_def)
  moreover have "FH_flags c' (mode s)" using FH_flags_cong [OF c'(10)] rf(2) by blast
  moreover have "fs_ok (unat (m_maxSize c)) (s\<lparr>dc := d'\<rparr>)" using fs_ok_insert [OF rf(3) k a rf(5)] ins by simp
  moreover have "set (xs' @ fs) \<subseteq> heap_node ` {..<next_addr c'}" using c'(3,9) fr by (auto simp: lessThan_Suc)
  ultimately have "FH_repr H F c' (s\<lparr>dc := d'\<rparr>)"
    using rf(6) by (intro FH_reprI [OF c'(2)]) (simp_all add: c'(4,5,7,8) rf(1-5) m False fs_size_def)
  with c'(1,7) ins show ?thesis by auto
qed

text \<open>
  Deletion. In a frozen state a key that the fast table knows becomes a tombstone in its list;
  otherwise its node is unlinked and freed. Either way the pair is gone from the contents.
\<close>

lemma delete_size:
  assumes o: "fs_ok cap s" and k: "fs_lookup k s \<noteq> None"
  shows "Suc (fs_size (fs_delete k s)) = fs_size s"
proof -
  have d: "distinct (map fst (dc s @ fc s))" using o by (simp add: fs_ok_def)
  obtain v where "map_of (dc s @ fc s) k = Some v" using k unfolding fs_lookup_def by blast
  from length_filter_key [OF d this] show ?thesis
    by (simp add: fs_size_def fs_delete_def spec_delete_def)
qed

lemma entomb_repr:
  assumes r: "FH_repr H F c s" and v: "chm_find H (m_map c) k = Some hv" and k: "valid_key k"
  shows "\<exists>h. modify (heap c) (m_listNode hv) (\<lambda>n. n\<lparr>m_key := TOMB_KEY\<rparr>) = Inr h \<and>
    FH_repr H F (c\<lparr>heap := h, m_map := snd (chm_erase H (m_map c) k), m_size := m_size c - 1\<rparr>) (fs_delete k s)"
proof -
  let ?F = "chm_find H (m_map c)"
  note rf = FH_repr_facts [OF r]
  obtain xs fs where i: "fh_indexed (heap c) ?F [] xs fs" and fr: "set (xs @ fs) \<subseteq> heap_node ` {..<next_addr c}"
    and d: "dc s = live_kvs (heap c) ?F xs" "fc s = live_kvs (heap c) ?F fs"
    and m: "(mode s = Dynamic) = (fs = [])" "mode s = Tier \<longrightarrow> xs = []"
    by (rule FH_reprE [OF r]) blast
  obtain x where x: "x \<in> set ([] @ xs @ fs)" "live (heap c) x" "key_at (heap c) x = k" "m_listNode hv = At x"
    "kv_at (heap c) ?F x = (k, m_value hv)"
    by (rule live_index_find [OF fh_chains(5) [OF i] v])
  obtain n where n: "heap c x = Some n" using fh_alloc [OF i, of x] x(1) by auto
  let ?h = "(heap c)(x \<mapsto> n\<lparr>m_key := TOMB_KEY\<rparr>)" and ?m = "snd (chm_erase H (m_map c) k)"
  have x1: "x \<in> set (xs @ fs)" using x(1) by simp
  note en = fh_entomb [OF i x1 x(2) n, unfolded x(3)]
  have del: "live_kvs ?h (?F(k := None)) ws = spec_delete k (live_kvs (heap c) ?F ws)" if ws: "set ws \<subseteq> set (xs @ fs)" for ws
  proof -
    have "(fst (kv_at (heap c) ?F y) \<noteq> k) = (y \<noteq> x)" if "y \<in> set ws" "live (heap c) y" for y
      using live_index_inj [OF fh_chains(5) [OF i] _ x(1) that(2)] that(1) ws x(3) by (auto simp: kv_at_def)
    then have "filter (\<lambda>p. fst p \<noteq> k) (live_kvs (heap c) ?F ws) = live_kvs (heap c) ?F (filter (\<lambda>y. y \<noteq> x) ws)"
      by (induction ws) auto
    then show ?thesis using en(2) [OF ws] by (simp add: spec_delete_def)
  qed
  have sz: "Suc (fs_size (fs_delete k s)) = fs_size s"
    using v repr_lookup [OF r, of k] by (intro delete_size [OF rf(3)]) simp
  have i': "fh_indexed ?h (chm_find H ?m) [] xs fs" using en(1) by (simp add: find_erase)
  have "FH_repr H F (c\<lparr>heap := ?h, m_map := ?m, m_size := m_size c - 1\<rparr>) (fs_delete k s)"
    using rf(4,5,6) fr m sz fs_ok_delete [OF rf(3), of k] rf(2) i'
    by (intro FH_reprI [of _ _ xs fs])
      (simp_all add: del find_erase fs_delete_def d rf(1) size_simps FH_flags_def)
  moreover have "modify (heap c) (m_listNode hv) (\<lambda>n. n\<lparr>m_key := TOMB_KEY\<rparr>) = Inr ?h"
    using n x(4) by (simp add: modify_def)
  ultimately show ?thesis by blast
qed

lemma unlink_repr:
  assumes r: "FH_repr H F c s" and v: "chm_find H (m_map c) k = Some hv" and k: "valid_key k"
    and f: "FH_find_fast F c k = None"
  shows "\<exists>n h1 h. deref (heap c) (m_listNode hv) = Inr n \<and> isInList n \<and>
    checked_delink (heap c) (m_listNode hv) = Inr h1 \<and> free_node h1 (m_listNode hv) = Inr h \<and>
    FH_repr H F (c\<lparr>heap := h, m_map := snd (chm_erase H (m_map c) k), m_size := m_size c - 1\<rparr>) (fs_delete k s)"
proof -
  let ?F = "chm_find H (m_map c)"
  note rf = FH_repr_facts [OF r]
  obtain xs fs where i: "fh_indexed (heap c) ?F [] xs fs" and fr: "set (xs @ fs) \<subseteq> heap_node ` {..<next_addr c}"
    and d: "dc s = live_kvs (heap c) ?F xs" "fc s = live_kvs (heap c) ?F fs"
    and m: "(mode s = Dynamic) = (fs = [])" "mode s = Tier \<longrightarrow> xs = []"
    by (rule FH_reprE [OF r]) blast
  have dd: "distinct (map fst (dc s))" and fcs: "map_of (fc s) \<subseteq>\<^sub>m snap s" using rf(3) by (auto simp: fs_ok_def)
  have nf: "map_of (fc s) k = None"
  proof (cases "fs = []")
    case False
    then have "snap s k = None" using find_fast_repr [OF r k] f m(1) by (auto split: if_splits)
    then show ?thesis using fcs by (metis domIff map_le_implies_dom_le subsetD)
  qed (use d(2) in simp)
  from i v show ?thesis
  proof (cases rule: repr_find_node)
    case (main ys x zs)
    obtain n where n: "heap c x = Some n" "isInList n"
      using chain_member_prv [OF fh_chains(1) [OF i], of x] main(1) by (auto simp: prv_eq_Some isInList_def)
    obtain h1 n1 where h1: "checked_delink (heap c) (At x) = Inr h1" "h1 x = Some n1"
      and i': "fh_indexed (h1(x := None)) (?F(k := None)) [] (ys @ zs) fs"
      and kv: "\<And>ws. set ws \<subseteq> set ([] @ ys @ zs @ fs) \<Longrightarrow>
        live_kvs (h1(x := None)) (?F(k := None)) ws = live_kvs (heap c) ?F ws"
      by (rule fh_remove [OF i [unfolded main(1)] main(2), unfolded main(3)]) blast
    let ?h = "h1(x := None)" and ?m = "snd (chm_erase H (m_map c) k)"
    have dc': "spec_delete k (dc s) = live_kvs ?h (chm_find H ?m) (ys @ zs)"
    proof -
      have "spec_delete k (dc s) = live_kvs (heap c) ?F (ys @ zs)"
        using live_kvs_remove [of "heap c" ?F ys x zs, OF _ main(2,5)] dd d(1) main(1) by (simp add: spec_delete_def)
      also have "\<dots> = live_kvs ?h (chm_find H ?m) (ys @ zs)" unfolding find_erase by (rule kv [symmetric]) auto
      finally show ?thesis .
    qed
    have fc': "spec_delete k (fc s) = live_kvs ?h (chm_find H ?m) fs"
    proof -
      have "spec_delete k (fc s) = fc s"
        using nf by (auto simp: spec_delete_def map_of_eq_None_iff intro!: filter_True)
      also have "fc s = live_kvs ?h (chm_find H ?m) fs"
        unfolding d(2) find_erase by (rule kv [symmetric]) auto
      finally show ?thesis .
    qed
    have sz: "Suc (fs_size (fs_delete k s)) = fs_size s"
      using v repr_lookup [OF r, of k] by (intro delete_size [OF rf(3)]) simp
    have "fh_indexed ?h (chm_find H ?m) [] (ys @ zs) fs" using i' by (simp add: find_erase)
    then have "FH_repr H F (c\<lparr>heap := ?h, m_map := ?m, m_size := m_size c - 1\<rparr>) (fs_delete k s)"
      using rf(4,5,6) fr m sz fs_ok_delete [OF rf(3), of k] rf(2) main(1) dc' fc'
      by (intro FH_reprI [of _ _ "ys @ zs" fs]) (simp_all add: fs_delete_def rf(1) size_simps FH_flags_def)
    then show ?thesis using n h1 main(4) by auto
  next
    case (frozen ys x zs)
    have "map_of (fc s) k = Some (m_value hv)"
      using live_kvs_lookup [OF fh_chains(5) [OF i], of fs k] d(2) frozen v by auto
    with nf show ?thesis by simp
  qed
qed

theorem delete_refines:
  assumes r: "FH_repr H F c s" and k: "valid_key k"
  shows "\<exists>c'. FH_delete_key H F c k = Inr c' \<and> FH_repr H F c' (fs_delete k s) \<and> m_maxSize c' = m_maxSize c"
proof (cases "chm_find H (m_map c) k")
  case None
  then have "k \<notin> fst ` set (dc s @ fc s)"
    using repr_lookup [OF r, of k] by (simp add: fs_lookup_def map_of_eq_None_iff image_Un)
  then have "fs_delete k s = s"
    by (intro frozen_spec.equality) (auto simp: fs_delete_def spec_delete_def intro!: filter_True)
  with None r show ?thesis by (simp add: FH_delete_key_def)
next
  case (Some hv)
  have fc: "\<not> fast_hash_construct c" using FH_repr_facts(2) [OF r] by (simp add: FH_flags_def)
  have er: "fst (chm_erase H (m_map c) k)" using Some by (simp add: erase_found)
  show ?thesis
  proof (cases "FH_find_fast F c k")
    case None
    with Some fc er unlink_repr [OF r Some k None] show ?thesis
      by (auto simp: FH_delete_key_def Let_def case_prod_beta)
  next
    case (Some v')
    obtain h where h: "modify (heap c) (m_listNode hv) (\<lambda>n. n\<lparr>m_key := TOMB_KEY\<rparr>) = Inr h"
      "FH_repr H F (c\<lparr>heap := h, m_map := snd (chm_erase H (m_map c) k), m_size := m_size c - 1\<rparr>) (fs_delete k s)"
      using entomb_repr [OF r \<open>chm_find H (m_map c) k = Some hv\<close> k] by blast
    with Some er \<open>chm_find H (m_map c) k = Some hv\<close> show ?thesis
      by (auto simp: FH_delete_key_def Let_def case_prod_beta)
  qed
qed

end

end
