(* ===== verification/Freeze_Proofs.thy ===== *)
theory Freeze_Proofs
  imports Frozen_Proofs
begin

text \<open>
  Freezing and thawing: \<open>construct_ratio\<close>, \<open>construct_tier\<close> and \<open>deconstruct\<close> return, move the
  nodes between the two lists as the specification says, and fill or empty the fast table.
\<close>

section \<open>Moving a run of nodes to other neighbours\<close>

lemma chain_retail:
  assumes "chain h x xs b" "distinct (x # xs)"
    "nxt h' (last (x # xs)) = Some (At b')" "prv h' b' = Some (At (last (x # xs)))"
    "\<And>l. l \<in> set (x # xs) \<Longrightarrow> l \<noteq> last (x # xs) \<Longrightarrow> nxt h' l = nxt h l"
    "\<And>l. l \<in> set xs \<Longrightarrow> prv h' l = prv h l"
  shows "chain h' x xs b'"
  using assms
proof (induction xs arbitrary: x)
  case (Cons y ys)
  have "x \<noteq> last (y # ys)" using Cons.prems(2) last_in_set [of "y # ys"] by auto
  with Cons.prems have "nxt h' x = Some (At y)" "prv h' y = Some (At x)" by simp_all
  moreover have "chain h' y ys b'"
    using Cons.prems by (intro Cons.IH) auto
  ultimately show ?case by simp
qed simp

lemma chain_rewire:
  assumes "chain h a xs b" "xs \<noteq> []" "distinct xs"
    "nxt h' a' = Some (At (hd xs))" "prv h' (hd xs) = Some (At a')"
    "nxt h' (last xs) = Some (At b')" "prv h' b' = Some (At (last xs))"
    "\<And>l. l \<in> set xs \<Longrightarrow> l \<noteq> last xs \<Longrightarrow> nxt h' l = nxt h l"
    "\<And>l. l \<in> set xs \<Longrightarrow> l \<noteq> hd xs \<Longrightarrow> prv h' l = prv h l"
  shows "chain h' a' xs b'"
proof (cases xs)
  case (Cons x ys)
  have l: "last (x # ys) = last xs" using Cons by simp
  have "chain h' x ys b'"
  proof (rule chain_retail [of h x ys b])
    show "chain h x ys b" "distinct (x # ys)" using assms(1,3) Cons by simp_all
    show "nxt h' (last (x # ys)) = Some (At b')" "prv h' b' = Some (At (last (x # ys)))"
      using assms(6,7) unfolding l by simp_all
    show "nxt h' k = nxt h k" if "k \<in> set (x # ys)" "k \<noteq> last (x # ys)" for k
      using that assms(8) [of k] Cons by simp
    show "prv h' k = prv h k" if "k \<in> set ys" for k
      using that assms(3) assms(9) [of k] Cons by auto
  qed
  with assms(4,5) Cons show ?thesis by simp
qed (use assms in simp)

text \<open>The end of a list: re-attaching the first node to another predecessor.\<close>

lemma chain_rehead:
  assumes "chain h a xs b" "a' \<notin> set xs" "distinct (xs @ [b])"
    "nxt h' a' = Some (At (hd (xs @ [b])))" "prv h' (hd (xs @ [b])) = Some (At a')"
    "\<And>l. l \<in> set xs \<Longrightarrow> nxt h' l = nxt h l"
    "\<And>l. l \<in> set (xs @ [b]) \<Longrightarrow> l \<noteq> hd (xs @ [b]) \<Longrightarrow> prv h' l = prv h l"
  shows "chain h' a' xs b"
proof (cases xs)
  case (Cons x ys)
  have "chain h' x ys b = chain h x ys b" using assms Cons by (intro chain_cong) auto
  with assms Cons show ?thesis by simp
qed (use assms in simp)

section \<open>The lists during a scan\<close>

text \<open>
  While \<open>construct_ratio\<close> scans, the main list is intact and \<open>m_fast_head\<close> points at its first node
  \<open>f\<close>; \<open>m_fast_tail\<close> still points back at \<open>m_fast_head\<close>.
\<close>

definition scanning ::
    "'z node_heap \<Rightarrow> (size_t \<Rightarrow> 'v HashMapValue option) \<Rightarrow> loc list \<Rightarrow> loc \<Rightarrow> bool" where
  "scanning h F xs f \<longleftrightarrow>
     chain h m_head xs m_tail \<and> nxt h m_fast_head = Some (At f) \<and> prv h m_fast_tail = Some (At m_fast_head) \<and>
     distinct (sentinels @ xs) \<and> dom h = set (sentinels @ xs) \<and>
     (\<forall>l \<in> set sentinels. key_at h l = SPECIAL_KEY) \<and> live_index h F (set xs)"

lemma scanning_start:
  assumes i: "fh_indexed h F [] xs []" and n: "h m_fast_head = Some n"
  shows "scanning (h(m_fast_head \<mapsto> n\<lparr>m_next := At f\<rparr>)) F xs f"
proof -
  note ic = fh_chains [OF i]
  let ?h = "h(m_fast_head \<mapsto> n\<lparr>m_next := At f\<rparr>)"
  have k: "key_at ?h l = key_at h l" for l using n by (simp add: key_at_def)
  have "m_fast_head \<notin> set xs" using ic(3) by auto
  then have "chain ?h m_head xs m_tail = chain h m_head xs m_tail" by (intro chain_cong) (auto simp: nxt_def prv_def n)
  moreover have "live_index ?h F (set xs) = live_index h F (set xs)" by (rule live_index_cong) (rule k)
  moreover have "dom ?h = dom h" using n by auto
  moreover have "prv ?h m_fast_tail = prv h m_fast_tail" by simp
  ultimately show ?thesis using ic unfolding scanning_def by (simp add: k)
qed

text \<open>Cutting, as updates of the two link functions.\<close>

lemma alloc_same: "same_payload h h' \<Longrightarrow> h l \<noteq> None \<Longrightarrow> h' l \<noteq> None"
  using same_payload_dom [of h h' l] by simp

lemma nxt_alloc: "nxt h l = Some p \<Longrightarrow> h l \<noteq> None"
  by (auto simp: nxt_def)

lemma prv_alloc: "prv h l = Some p \<Longrightarrow> h l \<noteq> None"
  by (auto simp: prv_def)

lemma cut_front_links:
  assumes n: "nxt h m_fast_head = Some (At f)" and p: "prv h f = Some (At u)" "prv h T = Some (At l)"
    and al: "h l \<noteq> None" "h u \<noteq> None" "h m_fast_tail \<noteq> None"
    and ne: "T \<noteq> m_fast_tail" "l \<noteq> m_fast_head"
  shows "\<exists>h'. cut_front h (At T) = Inr h' \<and> nxt h' = (nxt h)(l \<mapsto> At m_fast_tail, u \<mapsto> At T) \<and>
    prv h' = (prv h)(m_fast_tail \<mapsto> At l, f \<mapsto> At m_fast_head, T \<mapsto> At u) \<and> same_payload h h'"
proof -
  obtain fh where fh: "deref h (At m_fast_head) = Inr fh" "m_next fh = At f"
    using deref_nxt [OF n] by blast
  obtain nf where nf: "deref h (At f) = Inr nf" "m_prev nf = At u"
    using deref_prv [OF p(1)] by blast
  obtain t where t: "deref h (At T) = Inr t" "m_prev t = At l"
    using deref_prv [OF p(2)] by blast
  obtain h1 where h1: "set_prev h (At m_fast_tail) (At l) = Inr h1" "nxt h1 = nxt h"
    "prv h1 = (prv h)(m_fast_tail \<mapsto> At l)" "same_payload h h1"
    using set_prev_links [of h m_fast_tail "At l"] al(3) by blast
  obtain t1 where t1: "deref h1 (At T) = Inr t1" "m_prev t1 = At l"
    using deref_prv [of h1 T "At l"] p(2) h1(3) ne(1) by auto
  obtain h2 where h2: "set_next h1 (At l) (At m_fast_tail) = Inr h2" "nxt h2 = (nxt h1)(l \<mapsto> At m_fast_tail)"
    "prv h2 = prv h1" "same_payload h1 h2"
    using set_next_links [of h1 l "At m_fast_tail"] alloc_same [OF h1(4) al(1)] by blast
  have s2: "same_payload h h2" using h1(4) h2(4) by (rule same_payload_trans)
  obtain fh2 where fh2: "deref h2 (At m_fast_head) = Inr fh2" "m_next fh2 = At f"
    using deref_nxt [of h2 m_fast_head "At f"] n h1(2) h2(2) ne(2) by auto
  obtain h3 where h3: "set_prev h2 (At f) (At m_fast_head) = Inr h3" "nxt h3 = nxt h2"
    "prv h3 = (prv h2)(f \<mapsto> At m_fast_head)" "same_payload h2 h3"
    using set_prev_links [of h2 f "At m_fast_head"] alloc_same [OF s2 prv_alloc [OF p(1)]] by blast
  have s3: "same_payload h h3" using s2 h3(4) by (rule same_payload_trans)
  obtain h4 where h4: "set_next h3 (At u) (At T) = Inr h4" "nxt h4 = (nxt h3)(u \<mapsto> At T)"
    "prv h4 = prv h3" "same_payload h3 h4"
    using set_next_links [of h3 u "At T"] alloc_same [OF s3 al(2)] by blast
  have s4: "same_payload h h4" using s3 h4(4) by (rule same_payload_trans)
  obtain h5 where h5: "set_prev h4 (At T) (At u) = Inr h5" "nxt h5 = nxt h4"
    "prv h5 = (prv h4)(T \<mapsto> At u)" "same_payload h4 h5"
    using set_prev_links [of h4 T "At u"] alloc_same [OF s4 prv_alloc [OF p(2)]] by blast
  have "same_payload h h5" using s4 h5(4) by (rule same_payload_trans)
  moreover have "cut_front h (At T) = Inr h5"
    using fh nf t h1(1) t1 h2(1) fh2 h3(1) h4(1) h5(1) by (simp add: cut_front_def Let_def)
  ultimately show ?thesis using h1 h2 h3 h4 h5 by (intro exI [of _ h5]) simp
qed

text \<open>The scanned nodes \<open>as\<close> become the frozen list, the rest stays.\<close>

lemma cut_front_lists:
  assumes s: "scanning h F (as @ bs) (hd as)" and ne: "as \<noteq> []"
  shows "\<exists>h'. cut_front h (At (hd (bs @ [m_tail]))) = Inr h' \<and> fh_indexed h' F [] bs as \<and> same_payload h h'"
proof -
  let ?f = "hd as" and ?l = "last as" and ?T = "hd (bs @ [m_tail])"
  from s have ch: "chain h m_head (as @ bs) m_tail" and d: "distinct (sentinels @ as @ bs)"
    and dm: "dom h = set (sentinels @ as @ bs)" and sk: "\<forall>l \<in> set sentinels. key_at h l = SPECIAL_KEY"
    and li: "live_index h F (set (as @ bs))"
    by (auto simp: scanning_def)
  have cf: "chain h m_head as ?T" using ch by (cases bs) (simp_all add: chain_append)
  obtain as' where as: "as = as' @ [?l]" using ne append_butlast_last_id by metis
  have c2: "chain h ?l bs m_tail"
    using ch chain_append [of h m_head as' ?l bs m_tail] as by (metis append.assoc append_Cons append_Nil)
  have fl: "?f \<in> set as" "?l \<in> set as" using ne by simp_all
  have T: "?T \<in> insert m_tail (set bs)" by (cases bs) auto
  have al: "h x \<noteq> None" if "x \<in> set (sentinels @ as @ bs)" for x using dm that by blast
  have pf: "prv h ?f = Some (At m_head)" using chain_first [OF cf] ne by simp
  have pT: "prv h ?T = Some (At ?l)" using chain_first [OF c2] by simp
  have ds: "?T \<noteq> m_fast_tail" "?l \<noteq> m_fast_head" "?l \<noteq> m_head" "?f \<noteq> m_fast_tail" "?f \<noteq> m_tail" "?T \<noteq> ?f" "?T \<notin> set as"
    "m_head \<notin> set (as @ bs)" "m_fast_tail \<notin> set (as @ bs)" "?l \<notin> set bs" "?f \<notin> set bs"
    using d fl T by auto
  have nf: "nxt h m_fast_head = Some (At ?f)" using s by (simp add: scanning_def)
  obtain h' where h': "cut_front h (At ?T) = Inr h'" and nx: "nxt h' = (nxt h)(?l \<mapsto> At m_fast_tail, m_head \<mapsto> At ?T)"
    and pr: "prv h' = (prv h)(m_fast_tail \<mapsto> At ?l, ?f \<mapsto> At m_fast_head, ?T \<mapsto> At m_head)"
    and sp: "same_payload h h'"
    using cut_front_links [OF nf pf pT al al al ds(1,2)] fl(2) by auto
  have "chain h' m_fast_head as m_fast_tail"
    using ds d ne nf by (intro chain_rewire [OF cf ne]) (auto simp: nx pr)
  moreover have "chain h' m_head bs m_tail"
    using ds d T by (intro chain_rehead [OF c2]) (auto simp: nx pr)
  moreover have "distinct (bs @ as)" using d by auto
  moreover have k: "key_at h' x = key_at h x" if "x \<in> set (sentinels @ as @ bs)" for x
    by (rule same_payload_key_at [OF sp al [OF that]])
  have "live_index h' F (set (as @ bs)) = live_index h F (set (as @ bs))"
    using k by (intro live_index_cong) auto
  moreover have "dom h' = set (sentinels @ [] @ bs @ as)" using same_payload_dom_eq [OF sp] dm by auto
  moreover have "distinct (sentinels @ [] @ bs @ as)" using d by auto
  moreover have "\<forall>l \<in> set sentinels. key_at h' l = SPECIAL_KEY" using sk k by (metis Un_iff set_append)
  moreover have "set ([] @ bs @ as) = set (as @ bs)" by auto
  ultimately have "fh_indexed h' F [] bs as" using li unfolding fh_indexed_def by simp
  with h' sp show ?thesis by blast
qed

text \<open>A tombstone that the scan meets is unlinked and freed.\<close>

lemma scanning_remove:
  assumes s: "scanning h F (ys @ x # zs) f" and l: "\<not> live h x"
  shows "\<exists>h1 n. checked_delink h (At x) = Inr h1 \<and> h1 x = Some n \<and> scanning (h1(x := None)) F (ys @ zs) f \<and>
    (\<forall>y \<in> set (ys @ zs). key_at (h1(x := None)) y = key_at h y)"
proof -
  from s have ch: "chain h m_head (ys @ x # zs) m_tail" and d: "distinct (sentinels @ ys @ x # zs)"
    and dm: "dom h = set (sentinels @ ys @ x # zs)" and sk: "\<forall>l \<in> set sentinels. key_at h l = SPECIAL_KEY"
    and li: "live_index h F (set (ys @ x # zs))" and f: "nxt h m_fast_head = Some (At f)" "prv h m_fast_tail = Some (At m_fast_head)"
    by (auto simp: scanning_def)
  have d': "distinct (m_head # ys @ x # zs @ [m_tail])" using d by auto
  obtain h1 where h1: "delink h (At x) = Inr h1" "chain h1 m_head (ys @ zs) m_tail" "same_payload h h1"
    "agrees_off h h1 (set (m_head # ys @ x # zs @ [m_tail]))"
    using delink_chain [OF ch d'] by blast
  let ?h = "h1(x := None)"
  have al: "h y \<noteq> None" if "y \<in> set (sentinels @ ys @ x # zs)" for y using dm that by blast
  have k: "key_at ?h y = key_at h y" if "y \<in> set (sentinels @ ys @ zs)" for y
  proof -
    have "y \<noteq> x" "y \<in> set (sentinels @ ys @ x # zs)" using d that by auto
    then show ?thesis using same_payload_key_at [OF h1(3) al] by (simp add: key_at_def)
  qed
  have c: "chain ?h m_head (ys @ zs) m_tail = chain h1 m_head (ys @ zs) m_tail"
    using d by (intro chain_cong) auto
  have fh: "nxt ?h m_fast_head = Some (At f)" "prv ?h m_fast_tail = Some (At m_fast_head)"
    using f h1(4) d by (auto simp: agrees_off_def nxt_def prv_def)
  have "set (ys @ x # zs) - {x} = set (ys @ zs)" using d by auto
  then have li': "live_index ?h F (set (ys @ zs))"
    using live_index_drop_tomb [OF li l, of ?h] k by simp
  have dm': "dom ?h = set (sentinels @ ys @ zs)" using same_payload_dom_eq [OF h1(3)] dm d by auto
  have "\<forall>l \<in> set sentinels. key_at ?h l = SPECIAL_KEY" using sk k by (metis Un_iff set_append)
  moreover have "distinct (sentinels @ ys @ zs)" using d by auto
  ultimately have "scanning ?h F (ys @ zs) f"
    using h1(2) c fh li' dm' unfolding scanning_def by blast
  moreover obtain n where "h1 x = Some n" using al [of x] alloc_same [OF h1(3), of x] by auto
  moreover have "\<forall>y \<in> set (ys @ zs). key_at ?h y = key_at h y" using k by (metis Un_iff set_append)
  ultimately show ?thesis using h1(1) checked_delink_eq [OF ch] by auto
qed

section \<open>The scan of construct\_ratio\<close>

text \<open>
  Where the scan stops: it counts every node, removes the tombstones, and cuts behind the first
  live node from position \<open>n\<close> on. \<open>None\<close>: there is no such node.
\<close>

fun scan_split :: "(loc \<Rightarrow> bool) \<Rightarrow> nat \<Rightarrow> loc list \<Rightarrow> (loc list \<times> loc list) option" where
  "scan_split lv n [] = None"
| "scan_split lv n (x # xs) =
     (if lv x
      then if n \<le> 1 then Some ([x], xs)
           else map_option (\<lambda>(as, bs). (x # as, bs)) (scan_split lv (n - 1) xs)
      else scan_split lv (n - 1) xs)"

lemma scan_split_cong: "(\<And>x. x \<in> set xs \<Longrightarrow> lv' x = lv x) \<Longrightarrow> scan_split lv' n xs = scan_split lv n xs"
  by (induction xs arbitrary: n) auto

lemma scan_split_sub:
  "scan_split lv n xs = Some (as, bs) \<Longrightarrow> set (as @ bs) \<subseteq> set xs \<and> (\<forall>a \<in> set as. lv a) \<and> as \<noteq> []"
  by (induction xs arbitrary: n as) (fastforce split: if_splits)+

text \<open>Without tombstones the scan takes the first \<open>n\<close> nodes.\<close>

lemma scan_split_all_live:
  assumes "\<And>x. x \<in> set xs \<Longrightarrow> lv x" "0 < n" "n \<le> length xs"
  shows "scan_split lv n xs = Some (take n xs, drop n xs)"
  using assms
proof (induction xs arbitrary: n)
  case (Cons x xs)
  show ?case
  proof (cases "n \<le> 1")
    case True
    with Cons.prems have "n = 1" by simp
    with Cons.prems show ?thesis by simp
  next
    case False
    then have "scan_split lv (n - 1) xs = Some (take (n - 1) xs, drop (n - 1) xs)"
      using Cons.prems by (intro Cons.IH) auto
    with False Cons.prems(1) show ?thesis by (simp add: take_Cons' drop_Cons')
  qed
qed simp

text \<open>
  What the loop works with: the scanned live nodes \<open>ys\<close> are in the fast table, \<open>zs\<close> is still to be
  scanned, \<open>f\<close> is the first node.
\<close>

definition scan_inv ::
    "'m fh_table \<Rightarrow> 'f fast_hash \<Rightarrow> loc list \<Rightarrow> loc list \<Rightarrow> loc \<Rightarrow> scan \<Rightarrow> ('m, 'f) LRU_FHCache \<Rightarrow> bool" where
  "scan_inv H F ys zs f l c \<longleftrightarrow>
     scanning (heap c) (chm_find H (m_map c)) (ys @ zs) f \<and> (\<forall>y \<in> set ys. live (heap c) y) \<and>
     temp_node l = At (hd (zs @ [m_tail])) \<and> \<not> stop l \<and> first_pass_flag l \<and> unat (scan_count l) + length zs < 2 ^ 64 \<and>
     (\<forall>p \<in> set (live_kvs (heap c) (chm_find H (m_map c)) (ys @ zs)). valid_key (fst p) \<and> snd p \<noteq> 0) \<and>
     distinct (map fst (live_kvs (heap c) (chm_find H (m_map c)) (ys @ zs))) \<and>
     (\<forall>k. valid_key k \<longrightarrow> fh_find F (m_fasthash c) (ucast k) = map_of (live_kvs (heap c) (chm_find H (m_map c)) ys) k)"

context fh_tables
begin

lemma fast_insert:
  assumes "\<And>j. valid_key j \<Longrightarrow> fh_find F f (ucast j) = M j" "valid_key k" "v \<noteq> 0" "M k = None" "valid_key j"
  shows "fh_find F (snd (fh_insert F f (ucast k) v)) (ucast j) = (M(k \<mapsto> v)) j"
  using assms valid_ucast_inj [of j k] by (auto simp: fh_find_insert)

lemma step_live:
  assumes i: "scan_inv H F ys (z # zs) f l c" and z: "live (heap c) z" and ev: "\<not> eviction_counter c > DC - FC_RELAXATION"
  obtains v where "kv_at (heap c) (chm_find H (m_map c)) z = (key_at (heap c) z, v)"
    "\<And>k. valid_key k \<Longrightarrow> fh_find F (snd (fh_insert F (m_fasthash c) (ucast (key_at (heap c) z)) v)) (ucast k) =
       map_of (live_kvs (heap c) (chm_find H (m_map c)) (ys @ [z])) k"
    "construct_ratio_step H F FC DC l c =
       (let l' = l\<lparr>scan_count := scan_count l + 1, temp_node := At (hd (zs @ [m_tail]))\<rparr>;
            c' = c\<lparr>m_fasthash := snd (fh_insert F (m_fasthash c) (ucast (key_at (heap c) z)) v)\<rparr>
        in if scan_count l + 1 > FC - FC_RELAXATION
           then r_bind (cut_front (heap c) (At (hd (zs @ [m_tail])))) (\<lambda>h. Inr (l'\<lparr>stop := True\<rparr>, c'\<lparr>heap := h\<rparr>))
           else Inr (l', c'))"
proof -
  let ?F = "chm_find H (m_map c)" and ?k = "key_at (heap c) z"
  from i have sc: "scanning (heap c) ?F (ys @ z # zs) f" and tn: "temp_node l = At z" "first_pass_flag l"
    and vk: "\<forall>p \<in> set (live_kvs (heap c) ?F (ys @ z # zs)). valid_key (fst p) \<and> snd p \<noteq> 0"
    and dk: "distinct (map fst (live_kvs (heap c) ?F (ys @ z # zs)))"
    and ff: "\<And>k. valid_key k \<Longrightarrow> fh_find F (m_fasthash c) (ucast k) = map_of (live_kvs (heap c) ?F ys) k"
    by (auto simp: scan_inv_def)
  from sc have ch: "chain (heap c) m_head (ys @ z # zs) m_tail" and li: "live_index (heap c) ?F (set (ys @ z # zs))"
    by (auto simp: scanning_def)
  obtain v where v: "?F ?k = Some \<lparr>m_value = v, m_listNode = At z\<rparr>" "kv_at (heap c) ?F z = (?k, v)"
    using live_index_node [OF li _ z] by auto
  have vz: "valid_key ?k" "v \<noteq> 0" using vk v(2) z by auto
  have "chain (heap c) z zs m_tail" using ch by (simp add: chain_append)
  then obtain n where n: "heap c z = Some n" "m_next n = At (hd (zs @ [m_tail]))" "m_key n = ?k"
    using chain_first [of "heap c" z zs m_tail] by (auto simp: nxt_eq_Some key_at_def)
  have "?k \<notin> fst ` set (live_kvs (heap c) ?F ys)" using dk v(2) z by auto
  then have nk: "map_of (live_kvs (heap c) ?F ys) ?k = None" by (simp add: map_of_eq_None_iff)
  have "map_of (live_kvs (heap c) ?F (ys @ [z])) = (map_of (live_kvs (heap c) ?F ys))(?k \<mapsto> v)"
    using z v(2) nk by (auto simp: fun_eq_iff map_add_def split: option.splits)
  then have fi: "fh_find F (snd (fh_insert F (m_fasthash c) (ucast ?k) v)) (ucast k) =
      map_of (live_kvs (heap c) ?F (ys @ [z])) k" if "valid_key k" for k
    using fast_insert [OF ff vz nk that] by simp
  have st: "construct_ratio_step H F FC DC l c =
       (let l' = l\<lparr>scan_count := scan_count l + 1, temp_node := At (hd (zs @ [m_tail]))\<rparr>;
            c' = c\<lparr>m_fasthash := snd (fh_insert F (m_fasthash c) (ucast ?k) v)\<rparr>
        in if scan_count l + 1 > FC - FC_RELAXATION
           then r_bind (cut_front (heap c) (At (hd (zs @ [m_tail])))) (\<lambda>h. Inr (l'\<lparr>stop := True\<rparr>, c'\<lparr>heap := h\<rparr>))
           else Inr (l', c'))"
    using n tn v(1) ev by (simp add: construct_ratio_step_def Let_def)
  show ?thesis by (rule that [OF v(2) fi st])
qed

lemma step_tomb:
  assumes i: "scan_inv H F ys (z # zs) f l c" and z: "\<not> live (heap c) z"
  obtains h where "construct_ratio_step H F FC DC l c =
      Inr (l\<lparr>scan_count := scan_count l + 1, temp_node := At (hd (zs @ [m_tail])), fail_count := fail_count l + 1\<rparr>,
           c\<lparr>heap := h\<rparr>)"
    "scan_inv H F ys zs f
      (l\<lparr>scan_count := scan_count l + 1, temp_node := At (hd (zs @ [m_tail])), fail_count := fail_count l + 1\<rparr>)
      (c\<lparr>heap := h\<rparr>)"
    "\<And>y. y \<in> set (ys @ zs) \<Longrightarrow> key_at h y = key_at (heap c) y"
proof -
  let ?F = "chm_find H (m_map c)"
  from i have sc: "scanning (heap c) ?F (ys @ z # zs) f" by (simp add: scan_inv_def)
  then have ch: "chain (heap c) m_head (ys @ z # zs) m_tail" and li: "live_index (heap c) ?F (set (ys @ z # zs))"
    by (auto simp: scanning_def)
  obtain h1 n1 where h1: "checked_delink (heap c) (At z) = Inr h1" "h1 z = Some n1"
    and sc': "scanning (h1(z := None)) ?F (ys @ zs) f"
    and k: "\<forall>y \<in> set (ys @ zs). key_at (h1(z := None)) y = key_at (heap c) y"
    using scanning_remove [OF sc z] by blast
  let ?h = "h1(z := None)"
  have cz: "chain (heap c) z zs m_tail" and pz: "prv (heap c) z \<noteq> Some OutOfListMarker"
    using ch chain_member_prv [OF ch, of z] by (auto simp: chain_append)
  then obtain n where n: "heap c z = Some n" "m_next n = At (hd (zs @ [m_tail]))" "m_key n = TOMB_KEY" "isInList n"
    using chain_first [OF cz] z by (auto simp: nxt_eq_Some key_at_def live_def prv_def isInList_def)
  have st: "construct_ratio_step H F FC DC l c =
      Inr (l\<lparr>scan_count := scan_count l + 1, temp_node := At (hd (zs @ [m_tail])), fail_count := fail_count l + 1\<rparr>,
           c\<lparr>heap := ?h\<rparr>)"
    using n h1 i live_index_tomb_key [OF li] by (simp add: construct_ratio_step_def Let_def scan_inv_def)
  have lv: "live ?h y = live (heap c) y" if "y \<in> set (ys @ zs)" for y using k that by (simp add: live_def)
  have kv: "live_kvs ?h ?F ws = live_kvs (heap c) ?F ws" if "set ws \<subseteq> set (ys @ zs)" for ws
    using k that by (intro live_kvs_cong) auto
  have kvz: "live_kvs (heap c) ?F (ys @ z # zs) = live_kvs ?h ?F (ys @ zs)" using z kv [of ys] kv [of zs] by simp
  have u: "unat (scan_count l + 1) \<le> Suc (unat (scan_count l))" by (simp add: unat_word_ariths)
  have "scan_inv H F ys zs f
      (l\<lparr>scan_count := scan_count l + 1, temp_node := At (hd (zs @ [m_tail])), fail_count := fail_count l + 1\<rparr>) (c\<lparr>heap := ?h\<rparr>)"
    using i sc' lv kvz kv [of ys] u by (auto simp: scan_inv_def)
  with st k show ?thesis by (intro that [of ?h]) auto
qed

lemma scan_finish:
  assumes i: "scan_inv H F ys (z # zs) f l c" and z: "live (heap c) z" and f: "f = hd (ys @ z # zs)"
    and n: "scan_count l + 1 > FC - FC_RELAXATION" and ev: "\<not> eviction_counter c > DC - FC_RELAXATION"
  shows "\<exists>l' h' fast. construct_ratio_step H F FC DC l c = Inr (l', c\<lparr>heap := h', m_fasthash := fast\<rparr>) \<and> stop l' \<and>
    fh_indexed h' (chm_find H (m_map c)) [] zs (ys @ [z]) \<and>
    (\<forall>y \<in> set (ys @ [z] @ zs). key_at h' y = key_at (heap c) y) \<and>
    (\<forall>k. valid_key k \<longrightarrow> fh_find F fast (ucast k) = map_of (live_kvs (heap c) (chm_find H (m_map c)) (ys @ [z])) k)"
proof -
  let ?F = "chm_find H (m_map c)"
  obtain v where v: "kv_at (heap c) ?F z = (key_at (heap c) z, v)"
    and fi: "\<And>k. valid_key k \<Longrightarrow> fh_find F (snd (fh_insert F (m_fasthash c) (ucast (key_at (heap c) z)) v)) (ucast k) =
       map_of (live_kvs (heap c) ?F (ys @ [z])) k"
    and st: "construct_ratio_step H F FC DC l c =
       (let l' = l\<lparr>scan_count := scan_count l + 1, temp_node := At (hd (zs @ [m_tail]))\<rparr>;
            c' = c\<lparr>m_fasthash := snd (fh_insert F (m_fasthash c) (ucast (key_at (heap c) z)) v)\<rparr>
        in if scan_count l + 1 > FC - FC_RELAXATION
           then r_bind (cut_front (heap c) (At (hd (zs @ [m_tail])))) (\<lambda>h. Inr (l'\<lparr>stop := True\<rparr>, c'\<lparr>heap := h\<rparr>))
           else Inr (l', c'))"
    by (rule step_live [OF i z ev, where FC = FC]) blast
  have "hd (ys @ z # zs) = hd (ys @ [z])" by (cases ys) auto
  then have sc: "scanning (heap c) ?F ((ys @ [z]) @ zs) (hd (ys @ [z]))" using i f by (simp add: scan_inv_def)
  then obtain h' where h': "cut_front (heap c) (At (hd (zs @ [m_tail]))) = Inr h'" "fh_indexed h' ?F [] zs (ys @ [z])"
    "same_payload (heap c) h'"
    using cut_front_lists [OF sc] by auto
  have keys: "\<forall>y \<in> set (ys @ [z] @ zs). key_at h' y = key_at (heap c) y"
    using sc by (intro ballI same_payload_key_at [OF h'(3)]) (auto simp: scanning_def)
  let ?fast = "snd (fh_insert F (m_fasthash c) (ucast (key_at (heap c) z)) v)"
  let ?l = "l\<lparr>scan_count := scan_count l + 1, temp_node := At (hd (zs @ [m_tail])), stop := True\<rparr>"
  have "construct_ratio_step H F FC DC l c = Inr (?l, c\<lparr>heap := h', m_fasthash := ?fast\<rparr>)"
    using st h'(1) n by (simp add: Let_def)
  moreover have "stop ?l" by simp
  ultimately show ?thesis using h'(2) keys fi by blast
qed

lemma scan_continue:
  assumes i: "scan_inv H F ys (z # zs) f l c" and z: "live (heap c) z"
    and n: "\<not> scan_count l + 1 > FC - FC_RELAXATION" and ev: "\<not> eviction_counter c > DC - FC_RELAXATION"
  obtains fast where
    "construct_ratio_step H F FC DC l c =
       Inr (l\<lparr>scan_count := scan_count l + 1, temp_node := At (hd (zs @ [m_tail]))\<rparr>, c\<lparr>m_fasthash := fast\<rparr>)"
    "scan_inv H F (ys @ [z]) zs f (l\<lparr>scan_count := scan_count l + 1, temp_node := At (hd (zs @ [m_tail]))\<rparr>)
       (c\<lparr>m_fasthash := fast\<rparr>)"
proof -
  let ?F = "chm_find H (m_map c)"
  obtain v where v: "kv_at (heap c) ?F z = (key_at (heap c) z, v)"
    and fi: "\<And>k. valid_key k \<Longrightarrow> fh_find F (snd (fh_insert F (m_fasthash c) (ucast (key_at (heap c) z)) v)) (ucast k) =
       map_of (live_kvs (heap c) ?F (ys @ [z])) k"
    and st: "construct_ratio_step H F FC DC l c =
       (let l' = l\<lparr>scan_count := scan_count l + 1, temp_node := At (hd (zs @ [m_tail]))\<rparr>;
            c' = c\<lparr>m_fasthash := snd (fh_insert F (m_fasthash c) (ucast (key_at (heap c) z)) v)\<rparr>
        in if scan_count l + 1 > FC - FC_RELAXATION
           then r_bind (cut_front (heap c) (At (hd (zs @ [m_tail])))) (\<lambda>h. Inr (l'\<lparr>stop := True\<rparr>, c'\<lparr>heap := h\<rparr>))
           else Inr (l', c'))"
    by (rule step_live [OF i z ev, where FC = FC]) blast
  let ?fast = "snd (fh_insert F (m_fasthash c) (ucast (key_at (heap c) z)) v)"
  have u: "unat (scan_count l + 1) \<le> Suc (unat (scan_count l))" by (simp add: unat_word_ariths)
  have "scan_inv H F (ys @ [z]) zs f (l\<lparr>scan_count := scan_count l + 1, temp_node := At (hd (zs @ [m_tail]))\<rparr>)
       (c\<lparr>m_fasthash := ?fast\<rparr>)"
    using i z fi u by (auto simp: scan_inv_def)
  with st n show ?thesis by (intro that [of ?fast]) (simp_all add: Let_def)
qed

lemma scan_loop:
  assumes "scan_inv H F ys zs f l c" "ys \<noteq> [] \<or> (zs \<noteq> [] \<and> live (heap c) (hd zs))" "f = hd (ys @ zs)"
    "scan_split (live (heap c)) n zs = Some (as, bs)" "n = Suc (unat (FC - FC_RELAXATION)) - unat (scan_count l)"
    "\<not> eviction_counter c > DC - FC_RELAXATION"
  shows "\<exists>l' h' fast. construct_ratio_loop H F FC DC l c = Some (Inr (l', c\<lparr>heap := h', m_fasthash := fast\<rparr>)) \<and>
    fh_indexed h' (chm_find H (m_map c)) [] bs (ys @ as) \<and>
    (\<forall>y \<in> set (ys @ as @ bs). key_at h' y = key_at (heap c) y) \<and>
    (\<forall>k. valid_key k \<longrightarrow> fh_find F fast (ucast k) = map_of (live_kvs (heap c) (chm_find H (m_map c)) (ys @ as)) k)"
  using assms
proof (induction zs arbitrary: ys c l n as)
  case (Cons z zs)
  let ?F = "chm_find H (m_map c)"
  have tn: "temp_node l = At z" "\<not> stop l" "z \<noteq> m_fast_tail" using Cons.prems(1) by (auto simp: scan_inv_def scanning_def)
  have unf: "construct_ratio_loop H F FC DC l c =
      p_bind (Some (construct_ratio_step H F FC DC l c)) (\<lambda>(l, c). construct_ratio_loop H F FC DC l c)"
    using tn by (subst construct_ratio_loop.simps) simp
  have cnt: "unat (scan_count l + 1) = Suc (unat (scan_count l))"
    using Cons.prems(1) by (simp add: scan_inv_def unat_word_ariths)
  have gt: "(scan_count l + 1 > FC - FC_RELAXATION) = (n \<le> 1)"
    using Cons.prems(5) cnt by (auto simp: size_simps)
  show ?case
  proof (cases "live (heap c) z")
    case True
    show ?thesis
    proof (cases "n \<le> 1")
      case n: True
      have ab: "as = [z]" "bs = zs" using Cons.prems(4) True n by auto
      obtain l' h' fast where st: "construct_ratio_step H F FC DC l c = Inr (l', c\<lparr>heap := h', m_fasthash := fast\<rparr>)" "stop l'"
        and r: "fh_indexed h' ?F [] zs (ys @ [z])" "\<forall>y \<in> set (ys @ [z] @ zs). key_at h' y = key_at (heap c) y"
          "\<forall>k. valid_key k \<longrightarrow> fh_find F fast (ucast k) = map_of (live_kvs (heap c) ?F (ys @ [z])) k"
        using scan_finish [OF Cons.prems(1) True Cons.prems(3) _ Cons.prems(6)] gt n by blast
      have "construct_ratio_loop H F FC DC l c = Some (Inr (l', c\<lparr>heap := h', m_fasthash := fast\<rparr>))"
        using unf st by (simp add: construct_ratio_loop.simps)
      with r ab show ?thesis by blast
    next
      case n: False
      obtain as' where ab: "as = z # as'" "scan_split (live (heap c)) (n - 1) zs = Some (as', bs)"
        using Cons.prems(4) True n by auto
      let ?l = "l\<lparr>scan_count := scan_count l + 1, temp_node := At (hd (zs @ [m_tail]))\<rparr>"
      obtain fast where st: "construct_ratio_step H F FC DC l c = Inr (?l, c\<lparr>m_fasthash := fast\<rparr>)"
        and si: "scan_inv H F (ys @ [z]) zs f ?l (c\<lparr>m_fasthash := fast\<rparr>)"
        using scan_continue [OF Cons.prems(1) True _ Cons.prems(6)] gt n by blast
      have "f = hd ((ys @ [z]) @ zs)" using Cons.prems(3) by simp
      moreover have "n - 1 = Suc (unat (FC - FC_RELAXATION)) - unat (scan_count ?l)" using Cons.prems(5) cnt by simp
      ultimately have "\<exists>l' h' fast'. construct_ratio_loop H F FC DC ?l (c\<lparr>m_fasthash := fast\<rparr>) =
          Some (Inr (l', c\<lparr>heap := h', m_fasthash := fast'\<rparr>)) \<and> fh_indexed h' ?F [] bs ((ys @ [z]) @ as') \<and>
          (\<forall>y \<in> set ((ys @ [z]) @ as' @ bs). key_at h' y = key_at (heap c) y) \<and>
          (\<forall>k. valid_key k \<longrightarrow> fh_find F fast' (ucast k) = map_of (live_kvs (heap c) ?F ((ys @ [z]) @ as')) k)"
        using Cons.IH [OF si] ab(2) Cons.prems(6) by simp
      with unf st ab show ?thesis by simp
    qed
  next
    case False
    then have ab: "ys \<noteq> []" "scan_split (live (heap c)) (n - 1) zs = Some (as, bs)" using Cons.prems(2,4) by auto
    let ?l = "l\<lparr>scan_count := scan_count l + 1, temp_node := At (hd (zs @ [m_tail])), fail_count := fail_count l + 1\<rparr>"
    obtain h where st: "construct_ratio_step H F FC DC l c = Inr (?l, c\<lparr>heap := h\<rparr>)"
      and si: "scan_inv H F ys zs f ?l (c\<lparr>heap := h\<rparr>)"
      and k: "\<And>y. y \<in> set (ys @ zs) \<Longrightarrow> key_at h y = key_at (heap c) y"
      by (rule step_tomb [OF Cons.prems(1) False, where FC = FC and DC = DC]) blast
    have sp: "scan_split (live h) (n - 1) zs = Some (as, bs)"
      using ab(2) scan_split_cong [of zs "live h" "live (heap c)"] k by (simp add: live_def)
    have sub: "set (ys @ as @ bs) \<subseteq> set (ys @ zs)" using scan_split_sub [OF sp] by auto
    have "f = hd (ys @ zs)" using Cons.prems(3) ab(1) by (cases ys) auto
    moreover have "n - 1 = Suc (unat (FC - FC_RELAXATION)) - unat (scan_count ?l)" using Cons.prems(5) cnt by simp
    ultimately obtain l' h' fast where lp: "construct_ratio_loop H F FC DC ?l (c\<lparr>heap := h\<rparr>) =
          Some (Inr (l', c\<lparr>heap := h', m_fasthash := fast\<rparr>))" and r: "fh_indexed h' ?F [] bs (ys @ as)"
          "\<forall>y \<in> set (ys @ as @ bs). key_at h' y = key_at h y"
          "\<forall>k. valid_key k \<longrightarrow> fh_find F fast (ucast k) = map_of (live_kvs h ?F (ys @ as)) k"
      using Cons.IH [OF si] sp ab(1) Cons.prems(6) by auto
    have sub': "y \<in> set (ys @ zs)" if "y \<in> set (ys @ as @ bs)" for y using sub that by (rule subsetD)
    have kv: "live_kvs h ?F (ys @ as) = live_kvs (heap c) ?F (ys @ as)"
      by (rule live_kvs_cong) (rule k, rule sub', auto)
    have keys: "\<forall>y \<in> set (ys @ as @ bs). key_at h' y = key_at (heap c) y"
    proof
      fix y assume y: "y \<in> set (ys @ as @ bs)"
      then have "key_at h' y = key_at h y" using r(2) by blast
      also have "\<dots> = key_at (heap c) y" by (rule k [OF sub' [OF y]])
      finally show "key_at h' y = key_at (heap c) y" .
    qed
    have "construct_ratio_loop H F FC DC l c = Some (Inr (l', c\<lparr>heap := h', m_fasthash := fast\<rparr>))"
      using unf st lp by simp
    with r(1,3) kv keys show ?thesis by (metis (no_types, lifting))
  qed
qed simp

end

end
