(* ===== verification/Freeze_Refine.thy ===== *)
theory Freeze_Refine
  imports Freeze_Proofs
begin

text \<open>
  \<open>construct_ratio\<close>, \<open>construct_tier\<close>, \<open>deconstruct\<close> and \<open>clear\<close> implement the operations of the
  specification. The loops return on every state the lemmas speak of.
\<close>

text \<open>No deletion has left a tombstone behind.\<close>

definition no_tombs :: "('m, 'f) LRU_FHCache \<Rightarrow> bool" where
  "no_tombs c \<longleftrightarrow> (\<forall>n \<in> ran (heap c). m_key n \<noteq> TOMB_KEY)"

lemma no_tombs_live: "no_tombs c \<Longrightarrow> heap c x \<noteq> None \<Longrightarrow> live (heap c) x"
  by (auto simp: no_tombs_def live_def key_at_def ran_def)

lemma no_tombsI:
  assumes "fh_indexed (heap c) G [] xs fs" "\<And>x. x \<in> set (xs @ fs) \<Longrightarrow> live (heap c) x"
  shows "no_tombs c"
  unfolding no_tombs_def
proof
  note ic = fh_chains [OF assms(1)]
  fix n assume "n \<in> ran (heap c)"
  then obtain x where x: "heap c x = Some n" by (auto simp: ran_def)
  then have "x \<in> set sentinels \<or> x \<in> set (xs @ fs)" using assms(1) by (auto simp: fh_indexed_def)
  then show "m_key n \<noteq> TOMB_KEY"
  proof
    assume "x \<in> set sentinels"
    then have "key_at (heap c) x = SPECIAL_KEY" using assms(1) unfolding fh_indexed_def by blast
    with x show ?thesis by (simp add: key_at_def SPECIAL_KEY_def TOMB_KEY_def)
  next
    assume "x \<in> set (xs @ fs)"
    with assms(2) x show ?thesis by (fastforce simp: live_def key_at_def)
  qed
qed

lemma live_kvs_all:
  "(\<And>x. x \<in> set xs \<Longrightarrow> live h x) \<Longrightarrow> live_kvs h G xs = map (kv_at h G) xs"
  by (simp add: live_kvs_def filter_True)

lemma scan_split_kvs:
  "scan_split (live h) n xs = Some (as, bs) \<Longrightarrow> live_kvs h G xs = live_kvs h G as @ live_kvs h G bs"
  by (induction xs arbitrary: n as) (fastforce split: if_splits)+

section \<open>construct\_ratio\<close>

lemma ratio_begin:
  assumes i: "fh_indexed (heap c) G [] xs []" and r: "0 \<le> r" "r \<le> 1"
  shows "\<exists>h'. construct_ratio_begin r c =
      Inr (\<lparr>scan_count = 0, fail_count = 0, first_pass_flag = True, temp_node = At (hd (xs @ [m_tail])), stop = False\<rparr>,
           c\<lparr>eviction_counter := 0, heap := h', fast_hash_construct := True\<rparr>) \<and>
    scanning h' G xs (hd (xs @ [m_tail])) \<and> (\<forall>y. key_at h' y = key_at (heap c) y) \<and>
    nxt h' m_tail = nxt (heap c) m_tail"
proof -
  note ic = fh_chains [OF i]
  obtain fh where fh: "heap c m_fast_head = Some fh" "m_next fh = At m_fast_tail"
    using chain_first [OF ic(2)] by (auto simp: nxt_eq_Some)
  obtain ft where ft: "heap c m_fast_tail = Some ft" "m_prev ft = At m_fast_head"
    using chain_last [OF ic(2)] by (auto simp: prv_eq_Some)
  obtain mh where mh: "heap c m_head = Some mh" "m_next mh = At (hd (xs @ [m_tail]))"
    using chain_first [OF ic(1)] by (auto simp: nxt_eq_Some)
  let ?h = "(heap c)(m_fast_head \<mapsto> fh\<lparr>m_next := At (hd (xs @ [m_tail]))\<rparr>)"
  have ev: "(if eviction_counter c > 0 then c\<lparr>eviction_counter := 0\<rparr> else c) = c\<lparr>eviction_counter := 0\<rparr>"
    by (cases c) (auto simp: word_gt_0)
  have "construct_ratio_begin r c =
      Inr (\<lparr>scan_count = 0, fail_count = 0, first_pass_flag = True, temp_node = At (hd (xs @ [m_tail])), stop = False\<rparr>,
           c\<lparr>eviction_counter := 0, heap := ?h, fast_hash_construct := True\<rparr>)"
    using fh ft mh r by (simp add: construct_ratio_begin_def ev)
  moreover have "scanning ?h G xs (hd (xs @ [m_tail]))" by (rule scanning_start [OF i fh(1)])
  moreover have "key_at ?h y = key_at (heap c) y" for y using fh(1) by (simp add: key_at_def)
  moreover have "nxt ?h m_tail = nxt (heap c) m_tail" by (simp add: nxt_def)
  ultimately show ?thesis by blast
qed

lemma zero_counter: "\<not> (0 :: size_t) > n" by simp

context fh_tables
begin

lemma construct_ratio_nodes:
  assumes r: "FH_repr H F c s" and m: "mode s = Dynamic" and i: "fh_indexed (heap c) (chm_find H (m_map c)) [] xs []"
    and sub: "set xs \<subseteq> heap_node ` {..<next_addr c}"
    and d: "dc s = live_kvs (heap c) (chm_find H (m_map c)) xs" and ne: "xs \<noteq> []" "live (heap c) (hd xs)"
    and len: "length xs < 2 ^ 64" and ra: "0 \<le> q" "q \<le> 1" and sz: "construct_sizes q (m_maxSize c) = (FC, DC)"
    and sp: "scan_split (live (heap c)) (Suc (unat (FC - FC_RELAXATION))) xs = Some (as, bs)"
  obtains h' fast where "FH_construct_ratio H F q c = Some (Inr (True,
      c\<lparr>heap := h', m_fasthash := fast, fast_hash_ready := True, fast_hash_construct := False, eviction_counter := 0\<rparr>))"
    "fh_indexed h' (chm_find H (m_map c)) [] bs as" "\<And>y. y \<in> set (as @ bs) \<Longrightarrow> key_at h' y = key_at (heap c) y"
    "\<And>k. valid_key k \<Longrightarrow> fh_find F fast (ucast k) = map_of (live_kvs (heap c) (chm_find H (m_map c)) as) k"
proof -
  let ?G = "chm_find H (m_map c)"
  let ?l = "\<lparr>scan_count = 0, fail_count = 0, first_pass_flag = True, temp_node = At (hd (xs @ [m_tail])), stop = False\<rparr>"
  obtain h0 where b: "construct_ratio_begin q c = Inr (?l, c\<lparr>eviction_counter := 0, heap := h0, fast_hash_construct := True\<rparr>)"
    and sc: "scanning h0 ?G xs (hd (xs @ [m_tail]))" and k0: "\<forall>y. key_at h0 y = key_at (heap c) y"
    using ratio_begin [OF i ra] by blast
  let ?c = "c\<lparr>eviction_counter := 0, heap := h0, fast_hash_construct := True\<rparr>"
  have lv: "live h0 = live (heap c)" using k0 by (simp add: live_def fun_eq_iff)
  have kv: "live_kvs h0 ?G ws = live_kvs (heap c) ?G ws" for ws using k0 by (intro live_kvs_cong) auto
  note rf = FH_repr_facts [OF r]
  have sn: "snap s = Map.empty" "fc s = []" and dk: "distinct (map fst (dc s))"
    and vk: "\<forall>p \<in> set (dc s). valid_key (fst p) \<and> snd p \<noteq> 0" using rf(3) m by (auto simp: fs_ok_def)
  have f0: "\<forall>k. valid_key k \<longrightarrow> fh_find F (m_fasthash c) (ucast k) = None" using rf(1) sn(1) by simp
  have hd: "hd (xs @ [m_tail]) = hd ([] @ xs)" using ne(1) by simp
  have inv: "scan_inv H F [] xs (hd ([] @ xs)) ?l ?c"
    unfolding scan_inv_def using sc hd len f0 dk vk kv d by simp
  have nn: "Suc (unat (FC - FC_RELAXATION)) = Suc (unat (FC - FC_RELAXATION)) - unat (scan_count ?l)" by simp
  obtain l' h' fast where lp: "construct_ratio_loop H F FC DC ?l ?c = Some (Inr (l', ?c\<lparr>heap := h', m_fasthash := fast\<rparr>))"
    and res: "fh_indexed h' ?G [] bs as" "\<forall>y \<in> set (as @ bs). key_at h' y = key_at h0 y"
      "\<forall>k. valid_key k \<longrightarrow> fh_find F fast (ucast k) = map_of (live_kvs h0 ?G as) k"
    using scan_loop [OF inv _ refl _ nn, where as = as and bs = bs and DC = DC] ne lv sp by auto
  have "FH_construct_ratio H F q c = Some (Inr (True,
      c\<lparr>heap := h', m_fasthash := fast, fast_hash_ready := True, fast_hash_construct := False, eviction_counter := 0\<rparr>))"
    using b lp sz by (simp add: FH_construct_ratio_def)
  moreover have "key_at h' y = key_at (heap c) y" if "y \<in> set (as @ bs)" for y using res(2) k0 that by simp
  ultimately show ?thesis using res(1,3) kv by (intro that [of fast h']) simp_all
qed

lemma construct_ratio_general:
  assumes r: "FH_repr H F c s" and m: "mode s = Dynamic" and i: "fh_indexed (heap c) (chm_find H (m_map c)) [] xs []"
    and sub: "set xs \<subseteq> heap_node ` {..<next_addr c}"
    and d: "dc s = live_kvs (heap c) (chm_find H (m_map c)) xs" and ne: "xs \<noteq> []" "live (heap c) (hd xs)"
    and len: "length xs < 2 ^ 64" and ra: "0 \<le> q" "q \<le> 1" and sz: "construct_sizes q (m_maxSize c) = (FC, DC)"
    and sp: "scan_split (live (heap c)) (Suc (unat (FC - FC_RELAXATION))) xs = Some (as, bs)"
  shows "\<exists>c'. FH_construct_ratio H F q c = Some (Inr (True, c')) \<and> FH_repr H F c' (fs_freeze (length as) s) \<and>
    m_maxSize c' = m_maxSize c \<and> fh_indexed (heap c') (chm_find H (m_map c')) [] bs as \<and>
    (\<forall>x \<in> set (as @ bs). key_at (heap c') x = key_at (heap c) x)"
proof -
  let ?G = "chm_find H (m_map c)"
  obtain h' fast where e: "FH_construct_ratio H F q c = Some (Inr (True,
      c\<lparr>heap := h', m_fasthash := fast, fast_hash_ready := True, fast_hash_construct := False, eviction_counter := 0\<rparr>))"
    and i': "fh_indexed h' ?G [] bs as" and k: "\<And>y. y \<in> set (as @ bs) \<Longrightarrow> key_at h' y = key_at (heap c) y"
    and f: "\<And>k. valid_key k \<Longrightarrow> fh_find F fast (ucast k) = map_of (live_kvs (heap c) ?G as) k"
    by (rule construct_ratio_nodes [OF r m i sub d ne len ra sz sp]) blast
  let ?c = "c\<lparr>heap := h', m_fasthash := fast, fast_hash_ready := True, fast_hash_construct := False, eviction_counter := 0\<rparr>"
  note rf = FH_repr_facts [OF r] and ss = scan_split_sub [OF sp]
  have kv: "live_kvs h' ?G ws = live_kvs (heap c) ?G ws" if "set ws \<subseteq> set (as @ bs)" for ws
    by (rule live_kvs_cong) (use k that in auto)
  have la: "length (live_kvs (heap c) ?G as) = length as" using ss by (simp add: live_kvs_all)
  have td: "take (length as) (dc s) = live_kvs (heap c) ?G as" "drop (length as) (dc s) = live_kvs (heap c) ?G bs"
    unfolding d scan_split_kvs [OF sp] la [symmetric] by simp_all
  have kv': "live_kvs h' ?G as = live_kvs (heap c) ?G as" "live_kvs h' ?G bs = live_kvs (heap c) ?G bs"
    by (rule kv, simp)+
  have fc0: "fc s = []" using rf(3) m by (simp add: fs_ok_def)
  have "FH_repr H F ?c (fs_freeze (length as) s)"
  proof (rule FH_reprI [of _ _ bs as])
    show "fh_indexed (heap ?c) (chm_find H (m_map ?c)) [] bs as" using i' by simp
    show "set (bs @ as) \<subseteq> heap_node ` {..<next_addr ?c}" using ss sub by auto
    show "dc (fs_freeze (length as) s) = live_kvs (heap ?c) (chm_find H (m_map ?c)) bs"
      "fc (fs_freeze (length as) s) = live_kvs (heap ?c) (chm_find H (m_map ?c)) as"
      using kv' td by (simp_all add: fs_freeze_def)
    show "(mode (fs_freeze (length as) s) = Dynamic) = (as = [])" using ss by (simp add: fs_freeze_def)
    show "fh_find F (m_fasthash ?c) (ucast k) = snap (fs_freeze (length as) s) k" if "valid_key k" for k
      using f [OF that] td by (simp add: fs_freeze_def)
    show "FH_flags ?c (mode (fs_freeze (length as) s))" using rf(2) m by (simp add: fs_freeze_def FH_flags_def)
    show "fs_ok (unat (m_maxSize ?c)) (fs_freeze (length as) s)" using fs_ok_freeze [OF rf(3) m] by simp
    show "unat (m_size ?c) = fs_size (fs_freeze (length as) s)" using rf(4) fc0 by (simp add: fs_size_def fs_freeze_def)
  qed (use rf(5,6) in \<open>simp_all add: fs_freeze_def\<close>)
  with e i' k show ?thesis by (intro exI [of _ ?c]) simp
qed

text \<open>
  Without tombstones the scan freezes exactly \<open>FC_size - FC_RELAXATION + 1\<close> pairs, provided that
  many are there. The hypothesis on \<open>n\<close> excludes the unsigned underflow of the subtraction.
\<close>

lemma construct_ratio_refines:
  assumes r: "FH_repr H F c s" and m: "mode s = Dynamic" and nt: "no_tombs c"
    and ra: "0 \<le> q" "q \<le> 1" and sz: "construct_sizes q (m_maxSize c) = (FC, DC)"
    and n: "n = Suc (unat (FC - FC_RELAXATION))" "n \<le> length (dc s)"
  shows "\<exists>c'. FH_construct_ratio H F q c = Some (Inr (True, c')) \<and> FH_repr H F c' (fs_freeze n s) \<and>
    m_maxSize c' = m_maxSize c \<and> no_tombs c'"
proof -
  let ?G = "chm_find H (m_map c)"
  obtain xs fs where i: "fh_indexed (heap c) ?G [] xs fs" and sub: "set (xs @ fs) \<subseteq> heap_node ` {..<next_addr c}"
    and d: "dc s = live_kvs (heap c) ?G xs" and fs: "fs = []"
    using FH_reprE [OF r] m by metis
  have i0: "fh_indexed (heap c) ?G [] xs []" and sub0: "set xs \<subseteq> heap_node ` {..<next_addr c}" using i sub fs by simp_all
  have lv: "live (heap c) x" if "x \<in> set xs" for x using that fh_alloc [OF i0, of x] by (intro no_tombs_live [OF nt]) simp
  have ld: "length (dc s) = length xs" using lv d by (simp add: live_kvs_all)
  have ne: "xs \<noteq> []" using n ld by auto
  note rf = FH_repr_facts [OF r]
  have "length xs < 2 ^ 64" using rf(3,6) ld by (simp add: fs_ok_def fs_size_def)
  moreover have sp: "scan_split (live (heap c)) (Suc (unat (FC - FC_RELAXATION))) xs = Some (take n xs, drop n xs)"
    using scan_split_all_live [of xs "live (heap c)" n] lv n ld by simp
  ultimately obtain c' where c': "FH_construct_ratio H F q c = Some (Inr (True, c'))"
    "FH_repr H F c' (fs_freeze (length (take n xs)) s)" "m_maxSize c' = m_maxSize c"
    "fh_indexed (heap c') (chm_find H (m_map c')) [] (drop n xs) (take n xs)"
    "\<forall>x \<in> set (take n xs @ drop n xs). key_at (heap c') x = key_at (heap c) x"
    using construct_ratio_general [OF r m i0 sub0 d ne(1) _ _ ra sz sp] lv hd_in_set [OF ne] by blast
  have "no_tombs c'"
  proof (rule no_tombsI [OF c'(4)])
    fix x assume "x \<in> set (drop n xs @ take n xs)"
    then have "x \<in> set (take n xs @ drop n xs)" by (simp only: set_append) blast
    then show "live (heap c') x" using c'(5) lv by (simp add: live_def)
  qed
  with c' n ld show ?thesis by simp
qed

end

section \<open>construct\_tier\<close>

lemma tier_move_links:
  assumes n: "nxt h m_head = Some (At f)" "prv h m_tail = Some (At l)"
    and al: "h m_fast_head \<noteq> None" "h m_fast_tail \<noteq> None" "h f \<noteq> None" "h l \<noteq> None"
    and ne: "f \<noteq> m_tail" "l \<noteq> m_head"
  shows "\<exists>h'. tier_move h = Inr h' \<and>
    nxt h' = (nxt h)(m_fast_head \<mapsto> At f, l \<mapsto> At m_fast_tail, m_head \<mapsto> At m_tail) \<and>
    prv h' = (prv h)(f \<mapsto> At m_fast_head, m_fast_tail \<mapsto> At l, m_tail \<mapsto> At m_head) \<and> same_payload h h'"
proof -
  obtain d1 where d1: "deref h (At m_head) = Inr d1" "m_next d1 = At f" using deref_nxt [OF n(1)] by blast
  obtain h1 where h1: "set_next h (At m_fast_head) (At f) = Inr h1" "nxt h1 = (nxt h)(m_fast_head \<mapsto> At f)"
    "prv h1 = prv h" "same_payload h h1" using set_next_links [of h m_fast_head "At f"] al(1) by blast
  obtain d2 where d2: "deref h1 (At m_head) = Inr d2" "m_next d2 = At f"
    using deref_nxt [of h1 m_head "At f"] h1(2) n(1) by auto
  obtain h2 where h2: "set_prev h1 (At f) (At m_fast_head) = Inr h2" "nxt h2 = nxt h1"
    "prv h2 = (prv h1)(f \<mapsto> At m_fast_head)" "same_payload h1 h2"
    using set_prev_links [of h1 f "At m_fast_head"] alloc_same [OF h1(4) al(3)] by blast
  have s2: "same_payload h h2" using h1(4) h2(4) by (rule same_payload_trans)
  obtain d3 where d3: "deref h2 (At m_tail) = Inr d3" "m_prev d3 = At l"
    using deref_prv [of h2 m_tail "At l"] h2(3) h1(3) n(2) ne(1) by auto
  obtain h3 where h3: "set_prev h2 (At m_fast_tail) (At l) = Inr h3" "nxt h3 = nxt h2"
    "prv h3 = (prv h2)(m_fast_tail \<mapsto> At l)" "same_payload h2 h3"
    using set_prev_links [of h2 m_fast_tail "At l"] alloc_same [OF s2 al(2)] by blast
  have s3: "same_payload h h3" using s2 h3(4) by (rule same_payload_trans)
  obtain d4 where d4: "deref h3 (At m_tail) = Inr d4" "m_prev d4 = At l"
    using deref_prv [of h3 m_tail "At l"] h3(3) h2(3) h1(3) n(2) ne(1) by auto
  obtain h4 where h4: "set_next h3 (At l) (At m_fast_tail) = Inr h4" "nxt h4 = (nxt h3)(l \<mapsto> At m_fast_tail)"
    "prv h4 = prv h3" "same_payload h3 h4"
    using set_next_links [of h3 l "At m_fast_tail"] alloc_same [OF s3 al(4)] by blast
  have s4: "same_payload h h4" using s3 h4(4) by (rule same_payload_trans)
  obtain h5 where h5: "set_next h4 (At m_head) (At m_tail) = Inr h5" "nxt h5 = (nxt h4)(m_head \<mapsto> At m_tail)"
    "prv h5 = prv h4" "same_payload h4 h5"
    using set_next_links [of h4 m_head "At m_tail"] alloc_same [OF s4 nxt_alloc [OF n(1)]] by blast
  have s5: "same_payload h h5" using s4 h5(4) by (rule same_payload_trans)
  obtain h6 where h6: "set_prev h5 (At m_tail) (At m_head) = Inr h6" "nxt h6 = nxt h5"
    "prv h6 = (prv h5)(m_tail \<mapsto> At m_head)" "same_payload h5 h6"
    using set_prev_links [of h5 m_tail "At m_head"] alloc_same [OF s5 prv_alloc [OF n(2)]] by blast
  have "same_payload h h6" using s5 h6(4) by (rule same_payload_trans)
  moreover have "tier_move h = Inr h6"
    using d1 d2 d3 d4 h1(1) h2(1) h3(1) h4(1) h5(1) h6(1) by (simp add: tier_move_def)
  ultimately show ?thesis using h1 h2 h3 h4 h5 h6 by (intro exI [of _ h6]) simp
qed

text \<open>The whole main list becomes the frozen list.\<close>

lemma tier_move_lists:
  assumes i: "fh_indexed h G [] xs []" and ne: "xs \<noteq> []"
  shows "\<exists>h'. tier_move h = Inr h' \<and> fh_indexed h' G [] [] xs \<and> same_payload h h'"
proof -
  note ic = fh_chains [OF i]
  have al: "h x \<noteq> None" if "x \<in> set (sentinels @ xs)" for x using that by (intro fh_alloc [OF i]) simp
  have fl: "hd xs \<in> set xs" "last xs \<in> set xs" using ne by simp_all
  have n: "nxt h m_head = Some (At (hd xs))" "prv h m_tail = Some (At (last xs))"
    using chain_first [OF ic(1)] chain_last [OF ic(1)] ne by simp_all
  have ds: "hd xs \<noteq> m_tail" "last xs \<noteq> m_head" "hd xs \<noteq> m_fast_tail" "last xs \<noteq> m_fast_head" "m_head \<notin> set xs" "m_fast_tail \<notin> set xs" "m_fast_head \<notin> set xs" "m_tail \<notin> set xs"
    using ic(3) fl by auto
  obtain h' where h': "tier_move h = Inr h'" "same_payload h h'"
    and nx: "nxt h' = (nxt h)(m_fast_head \<mapsto> At (hd xs), last xs \<mapsto> At m_fast_tail, m_head \<mapsto> At m_tail)"
    and pr: "prv h' = (prv h)(hd xs \<mapsto> At m_fast_head, m_fast_tail \<mapsto> At (last xs), m_tail \<mapsto> At m_head)"
    using tier_move_links [OF n al al al al ds(1,2)] fl by auto
  have "chain h' m_fast_head xs m_fast_tail"
    using ds fl ic(3) ne by (intro chain_rewire [OF ic(1) ne]) (auto simp: nx pr)
  moreover have "chain h' m_head [] m_tail" by (simp add: nx pr)
  ultimately have "fh_indexed h' G [] [] xs" using ic(3) by (intro fh_relink [OF i h'(2)]) auto
  with h' show ?thesis by blast
qed

lemma fast_remove_tomb:
  assumes i: "fh_indexed h G [] [] (ys @ x # zs)" and l: "\<not> live h x"
  shows "\<exists>h1 n. checked_delink h (At x) = Inr h1 \<and> h1 x = Some n \<and> fh_indexed (h1(x := None)) G [] [] (ys @ zs) \<and>
    (\<forall>y \<in> set (ys @ zs). key_at (h1(x := None)) y = key_at h y)"
proof -
  note ic = fh_chains [OF i]
  have d: "distinct (m_fast_head # ys @ x # zs @ [m_fast_tail])" using ic(3) by auto
  obtain h1 where h1: "delink h (At x) = Inr h1" "chain h1 m_fast_head (ys @ zs) m_fast_tail" "same_payload h h1"
    "agrees_off h h1 (set (m_fast_head # ys @ x # zs @ [m_fast_tail]))"
    using delink_chain [OF ic(2) d] by blast
  let ?h = "h1(x := None)"
  have k: "key_at ?h y = key_at h y" if "y \<in> set (sentinels @ ys @ zs)" for y
  proof -
    have "y \<noteq> x" "y \<in> set (sentinels @ [] @ [] @ ys @ x # zs)" using ic(3) that by auto
    then show ?thesis using same_payload_key_at [OF h1(3) fh_alloc [OF i]] by (simp add: key_at_def)
  qed
  have c: "chain ?h m_fast_head (ys @ zs) m_fast_tail = chain h1 m_fast_head (ys @ zs) m_fast_tail"
    using ic(3) by (intro chain_cong) auto
  have m: "chain ?h m_head [] m_tail"
    using ic(1,3) h1(4) by (auto simp: agrees_off_def nxt_def prv_def)
  have "set (ys @ x # zs) - {x} = set (ys @ zs)" using ic(3) by auto
  then have li: "live_index ?h G (set (ys @ zs))"
    using live_index_drop_tomb [OF ic(5) l, of ?h] k by simp
  have dm: "dom ?h = set (sentinels @ ys @ zs)" using same_payload_dom_eq [OF h1(3)] ic(3,4) by auto
  have "\<forall>l \<in> set sentinels. key_at ?h l = SPECIAL_KEY" using ic(6) k by (metis Un_iff set_append)
  moreover have "distinct (sentinels @ ys @ zs)" using ic(3) by auto
  ultimately have "fh_indexed ?h G [] [] (ys @ zs)"
    using h1(2) c m li dm unfolding fh_indexed_def by simp
  moreover obtain n where "h1 x = Some n" using fh_alloc [OF i, of x] alloc_same [OF h1(3), of x] by auto
  moreover have "\<forall>y \<in> set (ys @ zs). key_at ?h y = key_at h y" using k by (metis Un_iff set_append)
  ultimately show ?thesis using h1(1) checked_delink_eq [OF ic(2)] by auto
qed

text \<open>The scan of \<open>construct_tier\<close>: \<open>ys\<close> has been entered into the fast table, \<open>zs\<close> is to come.\<close>

definition tier_inv ::
    "'m fh_table \<Rightarrow> 'f fast_hash \<Rightarrow> loc list \<Rightarrow> loc list \<Rightarrow> ('m, 'f) LRU_FHCache \<Rightarrow> bool" where
  "tier_inv H F ys zs c \<longleftrightarrow>
     fh_indexed (heap c) (chm_find H (m_map c)) [] [] (ys @ zs) \<and> (\<forall>y \<in> set ys. live (heap c) y) \<and>
     (\<forall>p \<in> set (live_kvs (heap c) (chm_find H (m_map c)) (ys @ zs)). valid_key (fst p) \<and> snd p \<noteq> 0) \<and>
     distinct (map fst (live_kvs (heap c) (chm_find H (m_map c)) (ys @ zs))) \<and>
     (\<forall>k. valid_key k \<longrightarrow> fh_find F (m_fasthash c) (ucast k) = map_of (live_kvs (heap c) (chm_find H (m_map c)) ys) k)"

context fh_tables
begin

lemma tier_step_live:
  assumes i: "tier_inv H F ys (z # zs) c" and z: "live (heap c) z"
  shows "\<exists>fast. construct_tier_step H F (At z, n) c =
      Inr ((At (hd (zs @ [m_fast_tail])), n + 1), c\<lparr>m_fasthash := fast\<rparr>) \<and>
    tier_inv H F (ys @ [z]) zs (c\<lparr>m_fasthash := fast\<rparr>)"
proof -
  let ?G = "chm_find H (m_map c)" and ?k = "key_at (heap c) z"
  from i have fi: "fh_indexed (heap c) ?G [] [] (ys @ z # zs)"
    and vk: "\<forall>p \<in> set (live_kvs (heap c) ?G (ys @ z # zs)). valid_key (fst p) \<and> snd p \<noteq> 0"
    and dk: "distinct (map fst (live_kvs (heap c) ?G (ys @ z # zs)))"
    and ff: "\<And>k. valid_key k \<Longrightarrow> fh_find F (m_fasthash c) (ucast k) = map_of (live_kvs (heap c) ?G ys) k"
    by (auto simp: tier_inv_def)
  note ic = fh_chains [OF fi]
  obtain v where v: "?G ?k = Some \<lparr>m_value = v, m_listNode = At z\<rparr>" "kv_at (heap c) ?G z = (?k, v)"
    using live_index_node [OF ic(5) _ z] by auto
  have vz: "valid_key ?k" "v \<noteq> 0" using vk v(2) z by auto
  have "chain (heap c) z zs m_fast_tail" using ic(2) by (simp add: chain_append)
  then obtain m where m: "heap c z = Some m" "m_next m = At (hd (zs @ [m_fast_tail]))" "m_key m = ?k"
    using chain_first [of "heap c" z zs m_fast_tail] by (auto simp: nxt_eq_Some key_at_def)
  have "?k \<notin> fst ` set (live_kvs (heap c) ?G ys)" using dk v(2) z by auto
  then have nk: "map_of (live_kvs (heap c) ?G ys) ?k = None" by (simp add: map_of_eq_None_iff)
  have mk: "map_of (live_kvs (heap c) ?G (ys @ [z])) = (map_of (live_kvs (heap c) ?G ys))(?k \<mapsto> v)"
    using z v(2) nk by (auto simp: fun_eq_iff map_add_def split: option.splits)
  let ?fast = "snd (fh_insert F (m_fasthash c) (ucast ?k) v)"
  have "fh_find F ?fast (ucast k) = map_of (live_kvs (heap c) ?G (ys @ [z])) k" if "valid_key k" for k
    using fast_insert [OF ff vz nk that] mk by simp
  then have "tier_inv H F (ys @ [z]) zs (c\<lparr>m_fasthash := ?fast\<rparr>)" using i z by (simp add: tier_inv_def)
  moreover have "construct_tier_step H F (At z, n) c =
      Inr ((At (hd (zs @ [m_fast_tail])), n + 1), c\<lparr>m_fasthash := ?fast\<rparr>)"
    using m v(1) z by (simp add: construct_tier_step_def live_def)
  ultimately show ?thesis by blast
qed

lemma tier_step_tomb:
  assumes i: "tier_inv H F ys (z # zs) c" and z: "\<not> live (heap c) z"
  shows "\<exists>h. construct_tier_step H F (At z, n) c = Inr ((At (hd (zs @ [m_fast_tail])), n), c\<lparr>heap := h\<rparr>) \<and>
    tier_inv H F ys zs (c\<lparr>heap := h\<rparr>) \<and> (\<forall>y \<in> set (ys @ zs). key_at h y = key_at (heap c) y)"
proof -
  let ?G = "chm_find H (m_map c)"
  from i have fi: "fh_indexed (heap c) ?G [] [] (ys @ z # zs)" by (simp add: tier_inv_def)
  note ic = fh_chains [OF fi]
  obtain h1 n1 where h1: "checked_delink (heap c) (At z) = Inr h1" "h1 z = Some n1"
    and fi': "fh_indexed (h1(z := None)) ?G [] [] (ys @ zs)"
    and k: "\<forall>y \<in> set (ys @ zs). key_at (h1(z := None)) y = key_at (heap c) y"
    using fast_remove_tomb [OF fi z] by blast
  let ?h = "h1(z := None)"
  have "chain (heap c) z zs m_fast_tail" using ic(2) by (simp add: chain_append)
  then obtain m where m: "heap c z = Some m" "m_next m = At (hd (zs @ [m_fast_tail]))" "m_key m = TOMB_KEY"
    using chain_first [of "heap c" z zs m_fast_tail] z by (auto simp: nxt_eq_Some key_at_def live_def)
  have st: "construct_tier_step H F (At z, n) c = Inr ((At (hd (zs @ [m_fast_tail])), n), c\<lparr>heap := ?h\<rparr>)"
    using m h1 by (simp add: construct_tier_step_def)
  have lv: "live ?h y = live (heap c) y" if "y \<in> set (ys @ zs)" for y using k that by (simp add: live_def)
  have kv: "live_kvs ?h ?G ws = live_kvs (heap c) ?G ws" if "set ws \<subseteq> set (ys @ zs)" for ws
    using k that by (intro live_kvs_cong) auto
  have kvz: "live_kvs (heap c) ?G (ys @ z # zs) = live_kvs ?h ?G (ys @ zs)" using z kv [of ys] kv [of zs] by simp
  have "tier_inv H F ys zs (c\<lparr>heap := ?h\<rparr>)" using i fi' lv kvz kv [of ys] by (auto simp: tier_inv_def)
  with st k show ?thesis by blast
qed

lemma tier_loop:
  assumes "tier_inv H F ys zs c"
  shows "\<exists>l c'. construct_tier_loop H F (At (hd (zs @ [m_fast_tail])), n) c = Some (Inr (l, c')) \<and>
    tier_inv H F (ys @ filter (live (heap c)) zs) [] c' \<and>
    c' = c\<lparr>heap := heap c', m_fasthash := m_fasthash c'\<rparr> \<and>
    (\<forall>y \<in> set (ys @ filter (live (heap c)) zs). key_at (heap c') y = key_at (heap c) y)"
  using assms
proof (induction zs arbitrary: ys c n)
  case Nil
  then show ?case by (subst construct_tier_loop.simps) simp
next
  case (Cons z zs)
  have "z \<noteq> m_fast_tail" using Cons.prems by (auto simp: tier_inv_def fh_indexed_def)
  then have unf: "construct_tier_loop H F (At (hd ((z # zs) @ [m_fast_tail])), n) c =
      p_bind (Some (construct_tier_step H F (At z, n) c)) (\<lambda>(l, c). construct_tier_loop H F l c)"
    by (subst construct_tier_loop.simps) simp
  show ?case
  proof (cases "live (heap c) z")
    case True
    obtain fast where st: "construct_tier_step H F (At z, n) c =
        Inr ((At (hd (zs @ [m_fast_tail])), n + 1), c\<lparr>m_fasthash := fast\<rparr>)"
      and ti: "tier_inv H F (ys @ [z]) zs (c\<lparr>m_fasthash := fast\<rparr>)"
      using tier_step_live [OF Cons.prems True] by blast
    from Cons.IH [OF ti, of "n + 1"] obtain l c' where
      "construct_tier_loop H F (At (hd (zs @ [m_fast_tail])), n + 1) (c\<lparr>m_fasthash := fast\<rparr>) = Some (Inr (l, c'))"
      "tier_inv H F ((ys @ [z]) @ filter (live (heap c)) zs) [] c'"
      "c' = c\<lparr>m_fasthash := fast, heap := heap c', m_fasthash := m_fasthash c'\<rparr>"
      "\<forall>y \<in> set ((ys @ [z]) @ filter (live (heap c)) zs). key_at (heap c') y = key_at (heap c) y" by auto
    with unf st True show ?thesis by simp
  next
    case False
    obtain h where st: "construct_tier_step H F (At z, n) c = Inr ((At (hd (zs @ [m_fast_tail])), n), c\<lparr>heap := h\<rparr>)"
      and ti: "tier_inv H F ys zs (c\<lparr>heap := h\<rparr>)" and k: "\<forall>y \<in> set (ys @ zs). key_at h y = key_at (heap c) y"
      using tier_step_tomb [OF Cons.prems False] by blast
    have fl: "filter (live h) zs = filter (live (heap c)) zs" using k by (intro filter_cong) (auto simp: live_def)
    from Cons.IH [OF ti, of n] fl obtain l c' where
      r: "construct_tier_loop H F (At (hd (zs @ [m_fast_tail])), n) (c\<lparr>heap := h\<rparr>) = Some (Inr (l, c'))"
      "tier_inv H F (ys @ filter (live (heap c)) zs) [] c'"
      "c' = c\<lparr>heap := h, heap := heap c', m_fasthash := m_fasthash c'\<rparr>"
      "\<forall>y \<in> set (ys @ filter (live (heap c)) zs). key_at (heap c') y = key_at h y" by auto
    have "\<forall>y \<in> set (ys @ filter (live (heap c)) zs). key_at (heap c') y = key_at (heap c) y"
      using r(4) k by (metis Un_iff filter_is_subset set_append subsetD)
    with unf st False r show ?thesis by simp
  qed
qed

end

end
