(* ===== verification/Thaw_Refine.thy ===== *)
theory Thaw_Refine
  imports Freeze_Refine
begin

text \<open>
  \<open>construct_tier\<close>, \<open>deconstruct\<close> and \<open>clear\<close> of the FrozenHot LRU cache implement the
  specification.
\<close>

context fh_tables
begin

lemma construct_tier_refines:
  assumes r: "FH_repr H F c s" and m: "mode s = Dynamic" and ne: "dc s \<noteq> []"
  shows "\<exists>c'. FH_construct_tier H F c = Some (Inr (True, c')) \<and> FH_repr H F c' (fs_freeze_all s) \<and>
    m_maxSize c' = m_maxSize c \<and> no_tombs c'"
proof -
  let ?G = "chm_find H (m_map c)"
  obtain xs fs where i0: "fh_indexed (heap c) ?G [] xs fs" and sub: "set (xs @ fs) \<subseteq> heap_node ` {..<next_addr c}"
    and d: "dc s = live_kvs (heap c) ?G xs" and fs: "fs = []"
    using FH_reprE [OF r] m by metis
  have i: "fh_indexed (heap c) ?G [] xs []" using i0 fs by simp
  note rf = FH_repr_facts [OF r] and ic = fh_chains [OF i]
  have xs: "xs \<noteq> []" using ne d by auto
  have sn: "snap s = Map.empty" "fc s = []" and dk: "distinct (map fst (dc s))"
    and vk: "\<forall>p \<in> set (dc s). valid_key (fst p) \<and> snd p \<noteq> 0" using rf(3) m by (auto simp: fs_ok_def)
  obtain h1 where h1: "tier_move (heap c) = Inr h1" "fh_indexed h1 ?G [] [] xs" "same_payload (heap c) h1"
    using tier_move_lists [OF i xs] by blast
  have k1: "key_at h1 y = key_at (heap c) y" if "y \<in> set xs" for y
    using that fh_alloc [OF i, of y] by (intro same_payload_key_at [OF h1(3)]) simp
  have kv1: "live_kvs h1 ?G xs = live_kvs (heap c) ?G xs" using k1 by (intro live_kvs_cong) auto
  let ?c1 = "c\<lparr>fast_hash_construct := True, tier_no_insert := True, heap := h1\<rparr>"
  have f0: "\<forall>k. valid_key k \<longrightarrow> fh_find F (m_fasthash c) (ucast k) = None" using rf(1) sn(1) by simp
  have "tier_inv H F [] xs ?c1" unfolding tier_inv_def using h1(2) vk dk d kv1 f0 by simp
  from tier_loop [OF this, of 0] obtain l c2 where
    lp: "construct_tier_loop H F (At (hd (xs @ [m_fast_tail])), 0) ?c1 = Some (Inr (l, c2))"
    and t2: "tier_inv H F (filter (live h1) xs) [] c2"
    and c2: "c2 = ?c1\<lparr>heap := heap c2, m_fasthash := m_fasthash c2\<rparr>"
    and k2: "\<forall>y \<in> set (filter (live h1) xs). key_at (heap c2) y = key_at h1 y" by auto
  let ?fs = "filter (live h1) xs" and ?c3 = "c2\<lparr>tier_ready := True, fast_hash_construct := False\<rparr>"
  have map2: "m_map c2 = m_map c" "m_maxSize c2 = m_maxSize c" "m_size c2 = m_size c" "next_addr c2 = next_addr c"
    "tier_no_insert c2" "curve_flag c2 = curve_flag c" "fast_hash_ready c2 = fast_hash_ready c"
    by (subst c2, simp)+
  have "live_kvs (heap c2) ?G ?fs = live_kvs h1 ?G ?fs" using k2 by (intro live_kvs_cong) auto
  also have "\<dots> = live_kvs h1 ?G xs" by (simp add: live_kvs_def)
  finally have kv2: "live_kvs (heap c2) ?G ?fs = dc s" using kv1 d by simp
  from t2 have i2: "fh_indexed (heap c2) ?G [] [] ?fs" and lv: "\<forall>y \<in> set ?fs. live (heap c2) y"
    and f2: "\<And>k. valid_key k \<Longrightarrow> fh_find F (m_fasthash c2) (ucast k) = map_of (dc s) k"
    using kv2 map2(1) by (auto simp: tier_inv_def)
  obtain fh where fh: "heap c m_fast_head = Some fh" "m_next fh = At m_fast_tail"
    using chain_first [OF ic(2)] by (auto simp: nxt_eq_Some)
  obtain ft where ft: "heap c m_fast_tail = Some ft" "m_prev ft = At m_fast_head"
    using chain_last [OF ic(2)] by (auto simp: prv_eq_Some)
  obtain f1 where f1: "h1 m_fast_head = Some f1" "m_next f1 = At (hd (xs @ [m_fast_tail]))"
    using chain_first [OF fh_chains(2) [OF h1(2)]] by (auto simp: nxt_eq_Some)
  have e: "FH_construct_tier H F c = Some (Inr (True, ?c3))"
    using fh ft f1 h1(1) lp by (simp add: FH_construct_tier_def Let_def)
  have "?fs \<noteq> []" using kv2 ne by auto
  then have "FH_repr H F ?c3 (fs_freeze_all s)"
    using i2 sub fs kv2 f2 map2 rf fs_ok_freeze_all [OF rf(3) m] sn(2) m
    by (intro FH_reprI [of _ _ "[]" ?fs]) (auto simp: fs_freeze_all_def FH_flags_def fs_size_def)
  moreover have "no_tombs ?c3" by (rule no_tombsI [of _ ?G "[]" ?fs]) (use i2 lv in auto)
  ultimately show ?thesis using e map2(2) by auto
qed

end

section \<open>deconstruct\<close>

lemma thaw_links:
  assumes n: "nxt h m_head = Some (At x)" "nxt h m_fast_head = Some (At f)" "prv h m_fast_tail = Some (At l)"
    and al: "h x \<noteq> None" "h f \<noteq> None" "h l \<noteq> None"
    and ne: "f \<noteq> m_fast_tail" "l \<noteq> m_fast_head" "x \<noteq> m_fast_tail"
  shows "\<exists>h'. thaw h = Inr h' \<and>
    nxt h' = (nxt h)(l \<mapsto> At x, m_head \<mapsto> At f, m_fast_head \<mapsto> At m_fast_tail) \<and>
    prv h' = (prv h)(f \<mapsto> At m_head, x \<mapsto> At l, m_fast_tail \<mapsto> At m_fast_head) \<and> same_payload h h'"
proof -
  obtain d0 where d0: "deref h (At m_head) = Inr d0" "m_next d0 = At x" using deref_nxt [OF n(1)] by blast
  obtain d1 where d1: "deref h (At m_fast_head) = Inr d1" "m_next d1 = At f" using deref_nxt [OF n(2)] by blast
  obtain h1 where h1: "set_prev h (At f) (At m_head) = Inr h1" "nxt h1 = nxt h"
    "prv h1 = (prv h)(f \<mapsto> At m_head)" "same_payload h h1" using set_prev_links [of h f "At m_head"] al(2) by blast
  obtain d2 where d2: "deref h1 (At m_fast_tail) = Inr d2" "m_prev d2 = At l"
    using deref_prv [of h1 m_fast_tail "At l"] h1(3) n(3) ne(1) by auto
  obtain h2 where h2: "set_next h1 (At l) (At x) = Inr h2" "nxt h2 = (nxt h1)(l \<mapsto> At x)"
    "prv h2 = prv h1" "same_payload h1 h2"
    using set_next_links [of h1 l "At x"] alloc_same [OF h1(4) al(3)] by blast
  have s2: "same_payload h h2" using h1(4) h2(4) by (rule same_payload_trans)
  obtain d3 where d3: "deref h2 (At m_fast_head) = Inr d3" "m_next d3 = At f"
    using deref_nxt [of h2 m_fast_head "At f"] h2(2) h1(2) n(2) ne(2) by auto
  obtain h3 where h3: "set_next h2 (At m_head) (At f) = Inr h3" "nxt h3 = (nxt h2)(m_head \<mapsto> At f)"
    "prv h3 = prv h2" "same_payload h2 h3"
    using set_next_links [of h2 m_head "At f"] alloc_same [OF s2 nxt_alloc [OF n(1)]] by blast
  have s3: "same_payload h h3" using s2 h3(4) by (rule same_payload_trans)
  obtain d4 where d4: "deref h3 (At m_fast_tail) = Inr d4" "m_prev d4 = At l"
    using deref_prv [of h3 m_fast_tail "At l"] h3(3) h2(3) h1(3) n(3) ne(1) by auto
  obtain h4 where h4: "set_prev h3 (At x) (At l) = Inr h4" "nxt h4 = nxt h3"
    "prv h4 = (prv h3)(x \<mapsto> At l)" "same_payload h3 h4"
    using set_prev_links [of h3 x "At l"] alloc_same [OF s3 al(1)] by blast
  have s4: "same_payload h h4" using s3 h4(4) by (rule same_payload_trans)
  obtain h5 where h5: "set_next h4 (At m_fast_head) (At m_fast_tail) = Inr h5"
    "nxt h5 = (nxt h4)(m_fast_head \<mapsto> At m_fast_tail)" "prv h5 = prv h4" "same_payload h4 h5"
    using set_next_links [of h4 m_fast_head "At m_fast_tail"] alloc_same [OF s4 nxt_alloc [OF n(2)]] by blast
  have s5: "same_payload h h5" using s4 h5(4) by (rule same_payload_trans)
  obtain h6 where h6: "set_prev h5 (At m_fast_tail) (At m_fast_head) = Inr h6" "nxt h6 = nxt h5"
    "prv h6 = (prv h5)(m_fast_tail \<mapsto> At m_fast_head)" "same_payload h5 h6"
    using set_prev_links [of h5 m_fast_tail "At m_fast_head"] alloc_same [OF s5 prv_alloc [OF n(3)]] by blast
  have "same_payload h h6" using s5 h6(4) by (rule same_payload_trans)
  moreover have "thaw h = Inr h6"
    using d0 d1 d2 d3 d4 h1(1) h2(1) h3(1) h4(1) h5(1) h6(1) by (simp add: thaw_def Let_def)
  ultimately show ?thesis using h1 h2 h3 h4 h5 h6 by (intro exI [of _ h6]) simp
qed

text \<open>The frozen list goes in front of the main list.\<close>

lemma thaw_lists:
  assumes i: "fh_indexed h G [] xs fs" and ne: "fs \<noteq> []"
  shows "\<exists>h'. thaw h = Inr h' \<and> fh_indexed h' G [] (fs @ xs) [] \<and> same_payload h h'"
proof -
  note ic = fh_chains [OF i]
  let ?x = "hd (xs @ [m_tail])"
  have fl: "hd fs \<in> set fs" "last fs \<in> set fs" using ne by simp_all
  have x: "?x \<in> insert m_tail (set xs)" by (cases xs) auto
  have al: "h y \<noteq> None" if "y \<in> set (sentinels @ xs @ fs)" for y using that by (intro fh_alloc [OF i]) simp
  have n: "nxt h m_head = Some (At ?x)" "nxt h m_fast_head = Some (At (hd fs))" "prv h m_fast_tail = Some (At (last fs))"
    using chain_first [OF ic(1)] chain_first [OF ic(2)] chain_last [OF ic(2)] ne by simp_all
  have ds: "hd fs \<noteq> m_fast_tail" "last fs \<noteq> m_fast_head" "?x \<noteq> m_fast_tail" "?x \<noteq> hd fs" "?x \<notin> set fs" "last fs \<notin> set xs"
    "hd fs \<notin> set xs" "m_head \<notin> set fs" "m_fast_head \<notin> set fs" "m_fast_tail \<notin> set fs" "m_head \<notin> set xs" "m_fast_head \<notin> set xs"
    "m_fast_tail \<notin> set xs" "m_head \<noteq> last fs" "hd fs \<noteq> m_tail" "m_tail \<notin> set fs"
    using ic(3) fl x by auto
  have ax: "h ?x \<noteq> None" using x by (intro al) auto
  obtain h' where h': "thaw h = Inr h'" "same_payload h h'"
    and nx: "nxt h' = (nxt h)(last fs \<mapsto> At ?x, m_head \<mapsto> At (hd fs), m_fast_head \<mapsto> At m_fast_tail)"
    and pr: "prv h' = (prv h)(hd fs \<mapsto> At m_head, ?x \<mapsto> At (last fs), m_fast_tail \<mapsto> At m_fast_head)"
    using thaw_links [OF n ax al al ds(1-3)] fl by auto
  have c1: "chain h' m_head fs ?x"
    using ds fl ic(3) ne by (intro chain_rewire [OF ic(2) ne]) (auto simp: nx pr)
  have c2: "chain h' (last fs) xs m_tail"
    using ds x ic(3) by (intro chain_rehead [OF ic(1)]) (auto simp: nx pr)
  have "chain h' m_head (fs @ xs) m_tail"
    using c1 c2 by (cases xs) (simp_all add: chain_append)
  moreover have "chain h' m_fast_head [] m_fast_tail" by (simp add: nx pr)
  ultimately have "fh_indexed h' G [] (fs @ xs) []" using ic(3) by (intro fh_relink [OF i h'(2)]) auto
  with h' show ?thesis by blast
qed

lemma fast_ends:
  assumes "fh_indexed h G pend xs fs"
  obtains fh ft where "h m_fast_head = Some fh" "m_next fh = At (hd (fs @ [m_fast_tail]))"
    "h m_fast_tail = Some ft" "m_prev ft = At (last (m_fast_head # fs))"
proof -
  note ic = fh_chains [OF assms]
  obtain fh where "h m_fast_head = Some fh" "m_next fh = At (hd (fs @ [m_fast_tail]))"
    using chain_first [OF ic(2)] by (auto simp: nxt_eq_Some)
  moreover obtain ft where "h m_fast_tail = Some ft" "m_prev ft = At (last (m_fast_head # fs))"
    using chain_last [OF ic(2)] unfolding prv_eq_Some by blast
  ultimately show ?thesis by (rule that)
qed

lemma fast_ends_iff:
  assumes "fh_indexed h G pend xs fs"
  shows "(hd (fs @ [m_fast_tail]) = m_fast_tail) = (fs = [])" "(last (m_fast_head # fs) = m_fast_head) = (fs = [])"
proof -
  have "m_fast_tail \<notin> set fs" "m_fast_head \<notin> set fs" using fh_chains(3) [OF assms] by auto
  then show "(hd (fs @ [m_fast_tail]) = m_fast_tail) = (fs = [])" "(last (m_fast_head # fs) = m_fast_head) = (fs = [])"
    using hd_in_set [of fs] last_in_set [of fs] by (cases "fs = []"; auto)+
qed

lemma no_tombs_iff: "no_tombs c \<longleftrightarrow> (\<forall>x. heap c x \<noteq> None \<longrightarrow> live (heap c) x)"
  by (auto simp: no_tombs_def live_def key_at_def ran_def)

lemma no_tombs_same:
  assumes "no_tombs c" "same_payload (heap c) (heap c')"
  shows "no_tombs c'"
  unfolding no_tombs_iff
proof (intro allI impI)
  fix x assume "heap c' x \<noteq> None"
  then have a: "heap c x \<noteq> None" using same_payload_dom [OF assms(2), of x] by simp
  with assms(1) have "live (heap c) x" unfolding no_tombs_iff by blast
  then show "live (heap c') x" using same_payload_key_at [OF assms(2) a] by (simp add: live_def)
qed

context fh_tables
begin

lemma deconstruct_dynamic:
  assumes r: "FH_repr H F c s" and m: "mode s = Dynamic"
  shows "FH_deconstruct F c = Inr c"
proof -
  let ?G = "chm_find H (m_map c)"
  obtain xs fs where i: "fh_indexed (heap c) ?G [] xs fs" and fs: "fs = []" using FH_reprE [OF r] m by metis
  obtain fh ft where "heap c m_fast_head = Some fh" "m_next fh = At (hd (fs @ [m_fast_tail]))"
    "heap c m_fast_tail = Some ft" "m_prev ft = At (last (m_fast_head # fs))" by (rule fast_ends [OF i])
  with fs show ?thesis by (simp add: FH_deconstruct_def)
qed

lemma deconstruct_refines:
  assumes r: "FH_repr H F c s"
  shows "\<exists>c'. FH_deconstruct F c = Inr c' \<and> FH_repr H F c' (fs_thaw s) \<and> m_maxSize c' = m_maxSize c \<and>
    (no_tombs c \<longrightarrow> no_tombs c')"
proof (cases "mode s = Dynamic")
  case True
  then have "fc s = []" "snap s = Map.empty" using FH_repr_facts(3) [OF r] by (auto simp: fs_ok_def)
  with True have "fs_thaw s = s" by (intro frozen_spec.equality) (simp_all add: fs_thaw_def)
  with True deconstruct_dynamic [OF r True] r show ?thesis by auto
next
  case False
  let ?G = "chm_find H (m_map c)"
  note rf = FH_repr_facts [OF r]
  obtain xs fs where i: "fh_indexed (heap c) ?G [] xs fs" and sub: "set (xs @ fs) \<subseteq> heap_node ` {..<next_addr c}"
    and d: "dc s = live_kvs (heap c) ?G xs" "fc s = live_kvs (heap c) ?G fs" and fs: "fs \<noteq> []"
    using FH_reprE [OF r] False by metis
  obtain fh ft where e: "heap c m_fast_head = Some fh" "m_next fh = At (hd (fs @ [m_fast_tail]))"
    "heap c m_fast_tail = Some ft" "m_prev ft = At (last (m_fast_head # fs))" by (rule fast_ends [OF i])
  obtain h' where h': "thaw (heap c) = Inr h'" "fh_indexed h' ?G [] (fs @ xs) []" "same_payload (heap c) h'"
    using thaw_lists [OF i fs] by blast
  let ?c = "c\<lparr>heap := h', tier_no_insert := False, tier_ready := False, fast_hash_ready := False,
      m_fasthash := fh_clear F (m_fasthash c)\<rparr>"
  have "tier_no_insert c = tier_ready c" using rf(2) by (simp add: FH_flags_def)
  then have st: "FH_deconstruct F c = Inr ?c"
    using e h'(1) fast_ends_iff [OF i] fs by (cases c) (auto simp: FH_deconstruct_def Let_def)
  have kv: "live_kvs h' ?G ws = live_kvs (heap c) ?G ws" if "set ws \<subseteq> set (xs @ fs)" for ws
    using that by (intro fh_same_kvs [OF i h'(3)]) simp
  have "FH_repr H F ?c (fs_thaw s)"
  proof (rule FH_reprI [of _ _ "fs @ xs" "[]"])
    show "fh_indexed (heap ?c) (chm_find H (m_map ?c)) [] (fs @ xs) []" using h'(2) by simp
    show "dc (fs_thaw s) = live_kvs (heap ?c) (chm_find H (m_map ?c)) (fs @ xs)"
      using kv [of xs] kv [of fs] d by (simp add: fs_thaw_def)
    show "fh_find F (m_fasthash ?c) (ucast k) = snap (fs_thaw s) k" if "valid_key k" for k
      using that by (simp add: fs_thaw_def fh_find_clear)
    show "FH_flags ?c (mode (fs_thaw s))" using rf(2) by (simp add: fs_thaw_def FH_flags_def)
    show "fs_ok (unat (m_maxSize ?c)) (fs_thaw s)" using fs_ok_thaw [OF rf(3)] by simp
  qed (use sub rf(4,5,6) in \<open>auto simp: fs_thaw_def fs_size_def\<close>)
  moreover have "no_tombs c \<longrightarrow> no_tombs ?c" using no_tombs_same [of c ?c] h'(3) by simp
  ultimately show ?thesis using st by auto
qed

end

end
