(* ===== verification/Frozen_Run.thy ===== *)
theory Frozen_Run
  imports Thaw_Refine
begin

text \<open>
  Sequences of calls on a FrozenHot LRU cache: accesses (a lookup, and an insertion when the key is
  absent, as the client of the cache does), deletions, freezing and thawing. The run of a cache
  follows the run of the specification.
\<close>

section \<open>Only deletions leave tombstones\<close>

definition clean :: "fh_heap \<Rightarrow> bool" where
  "clean h \<longleftrightarrow> (\<forall>l n. h l = Some n \<longrightarrow> m_key n \<noteq> TOMB_KEY)"

lemma no_tombs_clean: "no_tombs c = clean (heap c)"
  by (auto simp: no_tombs_def clean_def ran_def)

lemma clean_upd: "clean h \<Longrightarrow> m_key n \<noteq> TOMB_KEY \<Longrightarrow> clean (h(l \<mapsto> n))"
  by (simp add: clean_def)

lemma clean_free: "clean h \<Longrightarrow> clean (h(l := None))"
  by (simp add: clean_def)

lemma clean_deref: "deref h p = Inr n \<Longrightarrow> clean h \<Longrightarrow> m_key n \<noteq> TOMB_KEY"
  by (auto simp: deref_def clean_def split: ptr.splits option.splits)

lemma modify_clean: "modify h p f = Inr h' \<Longrightarrow> (\<And>n. m_key (f n) = m_key n) \<Longrightarrow> clean h \<Longrightarrow> clean h'"
  by (auto simp: modify_def clean_def split: ptr.splits option.splits if_splits)

lemma time_clean: "modify h p (\<lambda>n. n\<lparr>m_time := t\<rparr>) = Inr h' \<Longrightarrow> clean h \<Longrightarrow> clean h'"
  by (erule modify_clean) simp_all

text \<open>What every result of a computation satisfies.\<close>

definition yields :: "('a \<Rightarrow> bool) \<Rightarrow> 'a result \<Rightarrow> bool" where
  "yields P r \<longleftrightarrow> (\<forall>a. r = Inr a \<longrightarrow> P a)"

definition p_yields :: "('a \<Rightarrow> bool) \<Rightarrow> 'a result option \<Rightarrow> bool" where
  "p_yields P p \<longleftrightarrow> (\<forall>a. p = Some (Inr a) \<longrightarrow> P a)"

lemma yields_intros:
  "P a \<Longrightarrow> yields P (Inr a)"
  "(b \<Longrightarrow> yields P k) \<Longrightarrow> yields P (r_assert b msg k)"
  "(b \<Longrightarrow> yields P r) \<Longrightarrow> (\<not> b \<Longrightarrow> yields P r') \<Longrightarrow> yields P (if b then r else r')"
  "(opt = None \<Longrightarrow> yields P r) \<Longrightarrow> (\<And>x. opt = Some x \<Longrightarrow> yields P (f x)) \<Longrightarrow>
    yields P (case opt of None \<Rightarrow> r | Some x \<Rightarrow> f x)"
  "yields P r \<Longrightarrow> p_yields P (Some r)"
  "(b \<Longrightarrow> p_yields P p) \<Longrightarrow> (\<not> b \<Longrightarrow> p_yields P p') \<Longrightarrow> p_yields P (if b then p else p')"
  by (auto simp: yields_def p_yields_def r_assert_def split: option.splits)

lemma yields_bind: "yields Q r \<Longrightarrow> (\<And>a. Q a \<Longrightarrow> yields P (f a)) \<Longrightarrow> yields P (r_bind r f)"
  by (auto simp: yields_def r_bind_eq_Inr)

lemma p_yields_bind: "p_yields Q p \<Longrightarrow> (\<And>a. Q a \<Longrightarrow> p_yields P (f a)) \<Longrightarrow> p_yields P (p_bind p f)"
  by (auto simp: p_yields_def p_bind_eq_Inr)

lemma yields_any: "yields (\<lambda>_. True) r" "p_yields (\<lambda>_. True) p"
  by (simp_all add: yields_def p_yields_def)

lemma set_clean:
  "clean h \<Longrightarrow> yields clean (set_prev h p q)" "clean h \<Longrightarrow> yields clean (set_next h p q)"
  "clean h \<Longrightarrow> yields clean (free_node h p)" "clean h \<Longrightarrow> yields clean (modify h p (\<lambda>n. n\<lparr>m_time := t\<rparr>))"
proof -
  assume "clean h"
  then show "yields clean (set_prev h p q)" "yields clean (set_next h p q)" "yields clean (modify h p (\<lambda>n. n\<lparr>m_time := t\<rparr>))"
    unfolding yields_def set_prev_def set_next_def by (auto elim!: modify_clean)
  show "yields clean (free_node h p)" using \<open>clean h\<close>
    by (auto simp: yields_def free_node_def intro: clean_free split: ptr.splits option.splits)
qed

lemmas walk = yields_bind [OF set_clean(1)] yields_bind [OF set_clean(2)] yields_bind [OF set_clean(3)]
  yields_bind [OF set_clean(4)] yields_bind [OF yields_any(1) [of "deref h p" for h p]]

lemma list_ops_clean:
  "clean h \<Longrightarrow> yields clean (checked_delink h p)" "clean h \<Longrightarrow> yields clean (pushFront h p)"
  "clean h \<Longrightarrow> yields clean (pushAfter h p q)"
  unfolding checked_delink_def pushFront_def pushAfter_def Let_def
  by (assumption | rule set_clean walk yields_intros)+

lemmas walks = walk list_ops_clean [THEN yields_bind]

abbreviation cleaned :: "'a \<times> ('m, 'f) LRU_FHCache \<Rightarrow> bool" where
  "cleaned r \<equiv> clean (heap (snd r))"

lemma evict_tombs_clean: "clean h \<Longrightarrow> p_yields (\<lambda>r. clean (fst r)) (evict_tombs h p)"
  by (subst evict_tombs.simps) (auto simp: p_yields_def p_bind_eq_Inr dest: clean_deref split: if_splits)

lemma evict_clean: "clean (heap c) \<Longrightarrow> p_yields cleaned (FH_evict H c)"
  unfolding FH_evict_def Let_def case_prod_beta
  by (assumption | rule p_yields_bind [OF yields_any(2)] p_yields_bind [OF evict_tombs_clean] walks yields_intros | simp)+

lemma counted_heap [simp]:
  "heap (count_fast_hit b c) = heap c" "heap (count_tbb_miss b c) = heap c" "heap (count_succ b c) = heap c"
  by (simp_all add: count_fast_hit_def count_tbb_miss_def count_succ_def)

lemma promote_clean: "clean (heap c) \<Longrightarrow> yields (\<lambda>c. clean (heap c)) (FH_promote c p)"
  unfolding FH_promote_def by (assumption | rule walks yields_intros | simp)+

lemma find_curve_clean: "clean (heap c) \<Longrightarrow> yields (\<lambda>c. clean (heap c)) (FH_find_curve b now c p)"
  unfolding FH_find_curve_def Let_def
  by (assumption | rule walk(4) yields_bind [OF yields_any(1)] promote_clean yields_intros | simp)+

lemma find_clean: "clean (heap c) \<Longrightarrow> yields cleaned (LRU_FHCache_find H F locked sample now c k)"
  unfolding LRU_FHCache_find_def Let_def
  by (assumption | rule yields_bind [where Q = "\<lambda>c. clean (heap c)"] find_curve_clean promote_clean yields_intros | simp)+

lemma insert_link_clean: "clean (heap c) \<Longrightarrow> p_yields cleaned (FH_insert_link H c k p s b)"
  unfolding FH_insert_link_def Let_def case_prod_beta
  by (assumption | rule p_yields_bind [OF evict_clean] p_yields_bind [where Q = clean] walks list_ops_clean yields_intros | simp)+

lemma insert_clean:
  assumes c: "clean (heap c)" and k: "k \<noteq> TOMB_KEY"
  shows "p_yields cleaned (FH_insert H sample now c k v)"
proof -
  have "clean ((heap c)(l \<mapsto> new_node k now))" for l using k c by (intro clean_upd) (simp_all add: new_node_def)
  then show ?thesis using c
    unfolding FH_insert_def Let_def case_prod_beta
    by (intro yields_intros p_yields_bind [where Q = cleaned] evict_clean insert_link_clean) (simp_all split: if_splits)
qed

lemma delete_clean:
  assumes "clean (heap c)" "\<not> fast_hash_construct c" "FH_find_fast F c k = None"
  shows "yields (\<lambda>c. clean (heap c)) (FH_delete_key H F c k)"
  unfolding FH_delete_key_def Let_def case_prod_beta
  by (insert assms) ((assumption | rule walks yields_intros | simp)+)

section \<open>Sequences of calls\<close>

text \<open>
  \<open>Access locked s1 s2 now k v\<close> is the client's step: \<open>find\<close>, and \<open>insert\<close> of the value it loaded
  when the key is absent. \<open>Freeze q\<close>, \<open>FreezeAll\<close> and \<open>Thaw\<close> are the monitor's calls of
  \<open>construct_ratio\<close>, \<open>construct_tier\<close> and \<open>deconstruct\<close>.
\<close>

datatype fh_op =
    Access bool bool bool uint64 size_t shared_ptr | Delete size_t | Freeze real | FreezeAll | Thaw

datatype fh_out = Hit shared_ptr | Miss bool | Ok

definition FH_step ::
    "'m fh_table \<Rightarrow> 'f fast_hash \<Rightarrow> fh_op \<Rightarrow> ('m, 'f) LRU_FHCache \<Rightarrow>
      (fh_out \<times> ('m, 'f) LRU_FHCache) result option" where
  "FH_step H F x c = (case x of
     Access locked s1 s2 now k v \<Rightarrow>
       p_bind (returns (LRU_FHCache_find H F locked s1 now c k)) (\<lambda>(r, c). case r of
         Some w \<Rightarrow> Some (Inr (Hit w, c))
       | None \<Rightarrow> p_bind (FH_insert H s2 now c k v) (\<lambda>(b, c). Some (Inr (Miss b, c))))
   | Delete k \<Rightarrow> p_bind (returns (FH_delete_key H F c k)) (\<lambda>c. Some (Inr (Ok, c)))
   | Freeze q \<Rightarrow> p_bind (FH_construct_ratio H F q c) (\<lambda>(_, c). Some (Inr (Ok, c)))
   | FreezeAll \<Rightarrow> p_bind (FH_construct_tier H F c) (\<lambda>(_, c). Some (Inr (Ok, c)))
   | Thaw \<Rightarrow> p_bind (returns (FH_deconstruct F c)) (\<lambda>c. Some (Inr (Ok, c))))"

fun FH_run ::
    "'m fh_table \<Rightarrow> 'f fast_hash \<Rightarrow> fh_op list \<Rightarrow> ('m, 'f) LRU_FHCache \<Rightarrow>
      (fh_out list \<times> ('m, 'f) LRU_FHCache) result option" where
  "FH_run H F [] c = Some (Inr ([], c))"
| "FH_run H F (x # xs) c =
     p_bind (FH_step H F x c) (\<lambda>(out, c).
     p_bind (FH_run H F xs c) (\<lambda>(outs, c). Some (Inr (out # outs, c))))"

text \<open>
  The run of the specification. The flag records that no tombstone is left. \<open>None\<close>: the call is
  outside of what the specification describes, because the key or the value is reserved, because
  something is frozen already, or because there are not enough pairs to freeze.
\<close>

definition freeze_count :: "real \<Rightarrow> size_t \<Rightarrow> nat" where
  "freeze_count q maxSize = Suc (unat (fst (construct_sizes q maxSize) - FC_RELAXATION))"

definition fs_step :: "size_t \<Rightarrow> fh_op \<Rightarrow> frozen_spec \<times> bool \<Rightarrow> (fh_out \<times> frozen_spec \<times> bool) option" where
  "fs_step maxSize x st = (case st of (s, no_tomb) \<Rightarrow> (case x of
     Access locked s1 s2 now k v \<Rightarrow>
       if valid_key k \<and> v \<noteq> 0
       then (case fs_find locked k s of
               (Some w, s) \<Rightarrow> Some (Hit w, s, no_tomb)
             | (None, s) \<Rightarrow> (case fs_insert (unat maxSize) k v s of (b, s) \<Rightarrow> Some (Miss b, s, no_tomb)))
       else None
   | Delete k \<Rightarrow>
       if valid_key k then Some (Ok, fs_delete k s, no_tomb \<and> mode s = Dynamic) else None
   | Freeze q \<Rightarrow>
       if no_tomb \<and> mode s = Dynamic \<and> 0 \<le> q \<and> q \<le> 1 \<and> freeze_count q maxSize \<le> length (dc s)
       then Some (Ok, fs_freeze (freeze_count q maxSize) s, True) else None
   | FreezeAll \<Rightarrow> if mode s = Dynamic \<and> dc s \<noteq> [] then Some (Ok, fs_freeze_all s, True) else None
   | Thaw \<Rightarrow> Some (Ok, fs_thaw s, no_tomb)))"

fun fs_run :: "size_t \<Rightarrow> fh_op list \<Rightarrow> frozen_spec \<times> bool \<Rightarrow> (fh_out list \<times> frozen_spec \<times> bool) option" where
  "fs_run maxSize [] st = Some ([], st)"
| "fs_run maxSize (x # xs) st = (case fs_step maxSize x st of
     None \<Rightarrow> None
   | Some (out, st) \<Rightarrow> (case fs_run maxSize xs st of None \<Rightarrow> None | Some (outs, st) \<Rightarrow> Some (out # outs, st)))"

definition fs_init :: frozen_spec where
  "fs_init = \<lparr>dc = [], fc = [], snap = Map.empty, mode = Dynamic\<rparr>"

text \<open>After a miss the key is absent, so the insertion of the client's step is of an absent key.\<close>

lemma miss_absent:
  assumes "fs_ok cap s" "fst (fs_find locked k s) = None"
  shows "fs_lookup k (snd (fs_find locked k s)) = None"
proof (cases "mode s = Tier")
  case True
  then have "snap s k = None" using assms(2) by (auto simp: fs_find_def split: option.splits)
  then have "map_of (fc s) k = None" using assms(1) unfolding fs_ok_def map_le_def by (metis domIff)
  with True assms show ?thesis by (auto simp: fs_find_def fs_lookup_def fs_ok_def split: option.splits)
next
  case False
  then have l: "fs_lookup k s = None" "snd (fs_find locked k s) = s\<lparr>dc := spec_find locked k (dc s)\<rparr>"
    using assms(2) by (auto simp: fs_find_def split: option.splits if_splits)
  then have "map_of (dc s) k = None" by (auto simp: fs_lookup_def map_add_def split: option.splits)
  then have "spec_find locked k (dc s) = dc s" by (simp add: spec_find_def)
  with l show ?thesis by (simp add: fs_lookup_def)
qed

definition FH_sim :: "'m fh_table \<Rightarrow> 'f fast_hash \<Rightarrow> ('m, 'f) LRU_FHCache \<Rightarrow> frozen_spec \<times> bool \<Rightarrow> bool" where
  "FH_sim H F c st \<longleftrightarrow> FH_repr H F c (fst st) \<and> (snd st \<longrightarrow> clean (heap c))"

lemma yieldsD: "yields P r \<Longrightarrow> r = Inr a \<Longrightarrow> P a"
  by (simp add: yields_def)

lemma p_yieldsD: "p_yields P p \<Longrightarrow> p = Some (Inr a) \<Longrightarrow> P a"
  by (simp add: p_yields_def)

context fh_tables
begin

lemma access_sim:
  assumes i: "FH_sim H F c (s, cl)" and k: "valid_key k" "v \<noteq> 0"
    and st: "fs_step (m_maxSize c) (Access locked s1 s2 now k v) (s, cl) = Some (out, st')"
  shows "\<exists>c'. FH_step H F (Access locked s1 s2 now k v) c = Some (Inr (out, c')) \<and> FH_sim H F c' st' \<and>
    m_maxSize c' = m_maxSize c"
proof -
  have r: "FH_repr H F c s" and cl: "cl \<Longrightarrow> clean (heap c)" using i by (auto simp: FH_sim_def)
  obtain c1 where c1: "LRU_FHCache_find H F locked s1 now c k = Inr (fst (fs_find locked k s), c1)"
    "FH_repr H F c1 (snd (fs_find locked k s))" "m_maxSize c1 = m_maxSize c"
    using find_refines [OF r k(1)] by blast
  have cl1: "clean (heap c1)" if cl using yieldsD [OF find_clean [OF cl [OF that]] c1(1)] by simp
  show ?thesis
  proof (cases "fst (fs_find locked k s)")
    case (Some w)
    then have "out = Hit w" "st' = (snd (fs_find locked k s), cl)"
      using st k by (auto simp: fs_step_def split: prod.splits)
    with Some c1 cl1 show ?thesis by (auto simp: FH_step_def FH_sim_def)
  next
    case None
    note ab = miss_absent [OF FH_repr_facts(3) [OF r] None]
    obtain c2 where c2: "FH_insert H s2 now c1 k v =
        Some (Inr (fst (fs_insert (unat (m_maxSize c1)) k v (snd (fs_find locked k s))), c2))"
      "FH_repr H F c2 (snd (fs_insert (unat (m_maxSize c1)) k v (snd (fs_find locked k s))))" "m_maxSize c2 = m_maxSize c1"
      using insert_refines [OF c1(2) k ab] by blast
    have cl2: "clean (heap c2)" if cl
      using p_yieldsD [OF insert_clean [OF cl1 [OF that] valid_keyD(1) [OF k(1)]] c2(1)] by simp
    have "out = Miss (fst (fs_insert (unat (m_maxSize c)) k v (snd (fs_find locked k s))))"
      "st' = (snd (fs_insert (unat (m_maxSize c)) k v (snd (fs_find locked k s))), cl)"
      using st k None by (auto simp: fs_step_def split: prod.splits)
    with None c1 c2 cl2 show ?thesis by (auto simp: FH_step_def FH_sim_def)
  qed
qed

lemma delete_sim:
  assumes i: "FH_sim H F c (s, cl)" and k: "valid_key k"
  shows "\<exists>c'. FH_delete_key H F c k = Inr c' \<and> FH_sim H F c' (fs_delete k s, cl \<and> mode s = Dynamic) \<and>
    m_maxSize c' = m_maxSize c"
proof -
  have r: "FH_repr H F c s" and cl: "cl \<Longrightarrow> clean (heap c)" using i by (auto simp: FH_sim_def)
  obtain c' where c': "FH_delete_key H F c k = Inr c'" "FH_repr H F c' (fs_delete k s)" "m_maxSize c' = m_maxSize c"
    using delete_refines [OF r k] by blast
  have "clean (heap c')" if "cl" "mode s = Dynamic"
  proof -
    have "\<not> fast_hash_construct c" using FH_repr_facts(2) [OF r] by (simp add: FH_flags_def)
    moreover have "FH_find_fast F c k = None" using find_fast_repr [OF r k] that(2) by simp
    ultimately show ?thesis using yieldsD [OF delete_clean [OF cl [OF that(1)]] c'(1)] by simp
  qed
  with c' show ?thesis by (auto simp: FH_sim_def)
qed

lemma step_sim:
  assumes i: "FH_sim H F c st" and st: "fs_step (m_maxSize c) x st = Some (out, st')"
  shows "\<exists>c'. FH_step H F x c = Some (Inr (out, c')) \<and> FH_sim H F c' st' \<and> m_maxSize c' = m_maxSize c"
proof -
  obtain s cl where s: "st = (s, cl)" by (cases st)
  have r: "FH_repr H F c s" and cl: "cl \<Longrightarrow> no_tombs c" using i by (auto simp: FH_sim_def s no_tombs_clean)
  show ?thesis
  proof (cases x)
    case (Access locked s1 s2 now k v)
    then have "valid_key k" "v \<noteq> 0" using st by (auto simp: fs_step_def s split: if_splits)
    with access_sim i st Access s show ?thesis by blast
  next
    case (Delete k)
    then have "valid_key k" "out = Ok" "st' = (fs_delete k s, cl \<and> mode s = Dynamic)"
      using st by (auto simp: fs_step_def s split: if_splits)
    with Delete delete_sim [of c s cl k] i s show ?thesis by (auto simp: FH_step_def)
  next
    case (Freeze q)
    then have g: "cl" "mode s = Dynamic" "0 \<le> q" "q \<le> 1" "freeze_count q (m_maxSize c) \<le> length (dc s)"
      and o: "out = Ok" "st' = (fs_freeze (freeze_count q (m_maxSize c)) s, True)"
      using st by (auto simp: fs_step_def s split: if_splits)
    have sz: "construct_sizes q (m_maxSize c) = (fst (construct_sizes q (m_maxSize c)), snd (construct_sizes q (m_maxSize c)))"
      by simp
    obtain c' where "FH_construct_ratio H F q c = Some (Inr (True, c'))" "m_maxSize c' = m_maxSize c" "no_tombs c'"
      "FH_repr H F c' (fs_freeze (freeze_count q (m_maxSize c)) s)"
      using construct_ratio_refines [OF r g(2) cl [OF g(1)] g(3,4) sz freeze_count_def g(5)] by blast
    with o Freeze show ?thesis by (auto simp: FH_step_def FH_sim_def no_tombs_clean)
  next
    case FreezeAll
    then have "mode s = Dynamic" "dc s \<noteq> []" "out = Ok" "st' = (fs_freeze_all s, True)"
      using st by (auto simp: fs_step_def s split: if_splits)
    with FreezeAll construct_tier_refines [OF r] show ?thesis by (auto simp: FH_step_def FH_sim_def no_tombs_clean)
  next
    case Thaw
    then have "out = Ok" "st' = (fs_thaw s, cl)" using st by (auto simp: fs_step_def s)
    with Thaw deconstruct_refines [OF r] cl show ?thesis by (auto simp: FH_step_def FH_sim_def no_tombs_clean)
  qed
qed

lemma run_sim:
  assumes "FH_sim H F c st" "fs_run (m_maxSize c) xs st = Some (outs, st')"
  shows "\<exists>c'. FH_run H F xs c = Some (Inr (outs, c')) \<and> FH_sim H F c' st' \<and> m_maxSize c' = m_maxSize c"
  using assms
proof (induction xs arbitrary: c st outs)
  case (Cons x xs)
  obtain out st1 outs1 where st1: "fs_step (m_maxSize c) x st = Some (out, st1)"
    "fs_run (m_maxSize c) xs st1 = Some (outs1, st')" "outs = out # outs1"
    using Cons.prems(2) by (auto split: option.splits prod.splits)
  obtain c1 where c1: "FH_step H F x c = Some (Inr (out, c1))" "FH_sim H F c1 st1" "m_maxSize c1 = m_maxSize c"
    using step_sim [OF Cons.prems(1) st1(1)] by blast
  with Cons.IH [OF c1(2), of outs1] st1(2,3) show ?case by auto
qed simp

lemma FH_sim_new:
  assumes "\<And>k. valid_key k \<Longrightarrow> fh_find F fast (ucast k) = None" "0 < unat maxSize" "unat maxSize < 2 ^ 63"
  shows "FH_sim H F (LRU_FHCache_new H fast maxSize) (fs_init, True)"
proof -
  let ?c = "LRU_FHCache_new H fast maxSize"
  have "fh_indexed (heap ?c) (chm_find H (m_map ?c)) [] [] []"
    by (auto simp: fh_indexed_def LRU_FHCache_new_def find_init live_index_def nxt_def prv_def key_at_def sentinel_def)
  then have "FH_repr H F ?c fs_init"
    using assms by (intro FH_reprI [of _ _ "[]" "[]"])
      (auto simp: LRU_FHCache_new_def fs_init_def fs_ok_def fs_size_def FH_flags_def)
  moreover have "clean (heap ?c)"
    by (auto simp: clean_def LRU_FHCache_new_def sentinel_def SPECIAL_KEY_def TOMB_KEY_def split: if_splits)
  ultimately show ?thesis by (simp add: FH_sim_def)
qed

end

end
