(* ===== verification/Freeze_Errors.thy ===== *)
theory Freeze_Errors
  imports Frozen_Run
begin

text \<open>
  The states in which the FrozenHot LRU cache fails: a list that is shorter than the part to be
  frozen, an empty list that is frozen as a whole, and an insertion of a key that is present.
\<close>

section \<open>construct\_ratio on a list that is too short\<close>

context fh_tables
begin

lemma special_absent:
  assumes li: "live_index h G (set xs)" and vk: "\<forall>p \<in> set (live_kvs h G xs). valid_key (fst p)"
  shows "G SPECIAL_KEY = None"
proof (rule ccontr)
  assume "G SPECIAL_KEY \<noteq> None"
  then have "SPECIAL_KEY \<in> key_at h ` {x \<in> set xs. live h x}"
    using li unfolding live_index_def dom_def by blast
  then obtain x where x: "x \<in> set xs" "live h x" "key_at h x = SPECIAL_KEY" by auto
  then have "kv_at h G x \<in> set (live_kvs h G xs)" by (auto simp: live_kvs_def)
  then have "valid_key (fst (kv_at h G x))" using vk by blast
  moreover have "fst (kv_at h G x) = SPECIAL_KEY"
    using live_index_node [OF li x(1,2)] x(3) by auto
  ultimately show False by (simp add: valid_key_def SPECIAL_KEY_def)
qed

text \<open>The step on the sentinel \<open>m_tail\<close> itself: its \<open>m_next\<close> is null.\<close>

lemma step_tail:
  assumes i: "scan_inv H F ys [] f l c" and t: "nxt (heap c) m_tail = Some nullptr"
  shows "construct_ratio_step H F FC DC l c = Inl (AssertFailed ''next != nullptr'')"
proof -
  let ?G = "chm_find H (m_map c)"
  from i have sc: "scanning (heap c) ?G ys f" and tn: "temp_node l = At m_tail"
    and vk: "\<forall>p \<in> set (live_kvs (heap c) ?G ys). valid_key (fst p)" by (auto simp: scan_inv_def)
  from sc have ch: "chain (heap c) m_head ys m_tail" and li: "live_index (heap c) ?G (set ys)"
    and sk: "key_at (heap c) m_tail = SPECIAL_KEY" and dm: "dom (heap c) = set (sentinels @ ys)"
    by (auto simp: scanning_def)
  obtain n where n: "heap c m_tail = Some n" "m_prev n = At (last (m_head # ys))" "m_next n = nullptr" "m_key n = SPECIAL_KEY"
    using chain_last [OF ch] t sk by (auto simp: prv_eq_Some nxt_eq_Some key_at_def simp del: last.simps)
  have "last (m_head # ys) \<in> set (sentinels @ ys)" using last_in_set [of "m_head # ys"] by auto
  then obtain m where m: "heap c (last (m_head # ys)) = Some m" using dm by blast
  have "checked_delink (heap c) (At m_tail) = Inl (AssertFailed ''next != nullptr'')"
    using n m by (simp add: checked_delink_def Let_def del: last.simps)
  moreover have "isInList n" using n(2) by (simp add: isInList_def)
  moreover have "?G SPECIAL_KEY = None" by (rule special_absent [OF li vk])
  ultimately show ?thesis using n tn by (simp add: construct_ratio_step_def Let_def)
qed

lemma scan_exhaust:
  assumes "scan_inv H F ys zs f l c" "\<forall>z \<in> set zs. live (heap c) z" "nxt (heap c) m_tail = Some nullptr"
    "unat (scan_count l) + length zs \<le> unat (FC - FC_RELAXATION)" "\<not> eviction_counter c > DC - FC_RELAXATION"
  shows "construct_ratio_loop H F FC DC l c = Some (Inl (AssertFailed ''next != nullptr''))"
  using assms
proof (induction zs arbitrary: ys l c)
  case Nil
  have "temp_node l = At m_tail" "\<not> stop l" using Nil.prems(1) by (auto simp: scan_inv_def)
  with step_tail [OF Nil.prems(1,3)] show ?case by (subst construct_ratio_loop.simps) simp
next
  case (Cons z zs)
  have tn: "temp_node l = At z" "\<not> stop l" "z \<noteq> m_fast_tail" using Cons.prems(1) by (auto simp: scan_inv_def scanning_def)
  have cnt: "unat (scan_count l + 1) = Suc (unat (scan_count l))"
    using Cons.prems(1) by (simp add: scan_inv_def unat_word_ariths)
  then have le: "\<not> scan_count l + 1 > FC - FC_RELAXATION" using Cons.prems(4) by (simp add: size_simps)
  have z: "live (heap c) z" using Cons.prems(2) by simp
  let ?l = "l\<lparr>scan_count := scan_count l + 1, temp_node := At (hd (zs @ [m_tail]))\<rparr>"
  obtain fast where st: "construct_ratio_step H F FC DC l c = Inr (?l, c\<lparr>m_fasthash := fast\<rparr>)"
    and si: "scan_inv H F (ys @ [z]) zs f ?l (c\<lparr>m_fasthash := fast\<rparr>)"
    using scan_continue [OF Cons.prems(1) z le Cons.prems(5)] by blast
  have "construct_ratio_loop H F FC DC ?l (c\<lparr>m_fasthash := fast\<rparr>) = Some (Inl (AssertFailed ''next != nullptr''))"
    using Cons.prems(2-5) cnt by (intro Cons.IH [OF si]) auto
  with st tn show ?case by (subst construct_ratio_loop.simps) simp
qed

lemma construct_ratio_too_short:
  assumes r: "FH_repr H F c s" and m: "mode s = Dynamic" and nt: "no_tombs c" and ra: "0 \<le> q" "q \<le> 1"
    and t: "nxt (heap c) m_tail = Some nullptr" and n: "length (dc s) < freeze_count q (m_maxSize c)"
  shows "FH_construct_ratio H F q c = Some (Inl (AssertFailed ''next != nullptr''))"
proof -
  let ?G = "chm_find H (m_map c)"
  obtain xs fs where i0: "fh_indexed (heap c) ?G [] xs fs" and d: "dc s = live_kvs (heap c) ?G xs" and fs: "fs = []"
    using FH_reprE [OF r] m by metis
  have i: "fh_indexed (heap c) ?G [] xs []" using i0 fs by simp
  note rf = FH_repr_facts [OF r]
  have lv: "live (heap c) x" if "x \<in> set xs" for x using that fh_alloc [OF i, of x] by (intro no_tombs_live [OF nt]) simp
  have ld: "length (dc s) = length xs" using lv d by (simp add: live_kvs_all)
  let ?l = "\<lparr>scan_count = 0, fail_count = 0, first_pass_flag = True, temp_node = At (hd (xs @ [m_tail])), stop = False\<rparr>"
  obtain h0 where b: "construct_ratio_begin q c = Inr (?l, c\<lparr>eviction_counter := 0, heap := h0, fast_hash_construct := True\<rparr>)"
    and sc: "scanning h0 ?G xs (hd (xs @ [m_tail]))" and k0: "\<forall>y. key_at h0 y = key_at (heap c) y"
    and n0: "nxt h0 m_tail = nxt (heap c) m_tail"
    using ratio_begin [OF i ra] by blast
  let ?c = "c\<lparr>eviction_counter := 0, heap := h0, fast_hash_construct := True\<rparr>"
  have kv: "live_kvs h0 ?G ws = live_kvs (heap c) ?G ws" for ws using k0 by (intro live_kvs_cong) auto
  have "snap s = Map.empty" "distinct (map fst (dc s))" "\<forall>p \<in> set (dc s). valid_key (fst p) \<and> snd p \<noteq> 0"
    using rf(3) m by (auto simp: fs_ok_def)
  moreover have "length xs < 2 ^ 64" using rf(3,6) ld by (simp add: fs_ok_def fs_size_def)
  ultimately have inv: "scan_inv H F [] xs (hd (xs @ [m_tail])) ?l ?c"
    unfolding scan_inv_def using sc kv d rf(1) by simp
  obtain FC DC where sz: "construct_sizes q (m_maxSize c) = (FC, DC)" by fastforce
  have "construct_ratio_loop H F FC DC ?l ?c = Some (Inl (AssertFailed ''next != nullptr''))"
    using lv k0 t n0 n ld sz by (intro scan_exhaust [OF inv]) (auto simp: live_def freeze_count_def)
  with b sz show ?thesis by (simp add: FH_construct_ratio_def)
qed

end

section \<open>construct\_tier on an empty list\<close>

lemma tier_move_empty:
  assumes "h m_head = Some a" "m_next a = At m_tail" "h m_tail = Some b" "m_prev b = At m_head"
    "h m_fast_head = Some f" "h m_fast_tail = Some g"
  shows "\<exists>h'. tier_move h = Inr h' \<and> nxt h' m_fast_head = Some (At m_fast_tail) \<and> prv h' m_fast_tail = Some (At m_fast_head)"
  using assms by (simp add: tier_move_def nxt_def prv_def)

text \<open>
  The flags are set although nothing is frozen; \<open>deconstruct\<close> then returns early and leaves them
  set, and every insertion is rejected.
\<close>

lemma empty_tier:
  assumes i: "fh_indexed (heap c) G [] [] []"
  shows "\<exists>c'. FH_construct_tier H F c = Some (Inr (True, c')) \<and> tier_ready c' \<and> tier_no_insert c' \<and>
    FH_deconstruct F c' = Inr c'"
proof -
  note ic = fh_chains [OF i]
  obtain a where a: "heap c m_head = Some a" "m_next a = At m_tail" using ic(1) by (auto simp: nxt_eq_Some)
  obtain b where b: "heap c m_tail = Some b" "m_prev b = At m_head" using ic(1) by (auto simp: prv_eq_Some)
  obtain f where f: "heap c m_fast_head = Some f" "m_next f = At m_fast_tail" using ic(2) by (auto simp: nxt_eq_Some)
  obtain g where g: "heap c m_fast_tail = Some g" "m_prev g = At m_fast_head" using ic(2) by (auto simp: prv_eq_Some)
  obtain h' where h': "tier_move (heap c) = Inr h'" "nxt h' m_fast_head = Some (At m_fast_tail)"
    "prv h' m_fast_tail = Some (At m_fast_head)" using tier_move_empty [OF a b f(1) g(1)] by blast
  obtain f' g' where f': "h' m_fast_head = Some f'" "m_next f' = At m_fast_tail"
    "h' m_fast_tail = Some g'" "m_prev g' = At m_fast_head" using h'(2,3) by (auto simp: nxt_eq_Some prv_eq_Some)
  let ?c = "c\<lparr>tier_no_insert := True, heap := h', tier_ready := True, fast_hash_construct := False\<rparr>"
  have "FH_construct_tier H F c = Some (Inr (True, ?c))"
    using f g h'(1) f' by (simp add: FH_construct_tier_def construct_tier_loop.simps)
  moreover have "FH_deconstruct F ?c = Inr ?c" using f' by (simp add: FH_deconstruct_def)
  ultimately show ?thesis by (intro exI [of _ ?c]) simp
qed

section \<open>Inserting a key that is present\<close>

text \<open>
  The value is replaced and the entry now points to a new node that is in no list; the node that is
  in the list stays there.
\<close>

context fh_tables
begin

lemma insert_present:
  assumes "\<not> tier_no_insert c" "chm_find H (m_map c) k \<noteq> None"
  shows "\<exists>c'. FH_insert H sample now c k v = Some (Inr (False, c')) \<and>
    heap c' = (heap c)(heap_node (next_addr c) \<mapsto> new_node k now) \<and>
    chm_find H (m_map c') = (chm_find H (m_map c))(k \<mapsto> \<lparr>m_value = v, m_listNode = At (heap_node (next_addr c))\<rparr>) \<and>
    m_fasthash c' = m_fasthash c \<and> flags_of c' = flags_of c"
proof -
  let ?c0 = "if FH_sample_generator c sample then c\<lparr>insert_count := insert_count c + 1\<rparr> else c"
  let ?hv = "\<lparr>m_value = v, m_listNode = At (heap_node (next_addr c))\<rparr>"
  let ?m = "snd (chm_insert H (m_map c) k ?hv)"
  let ?c = "?c0\<lparr>heap := (heap c)(heap_node (next_addr c) \<mapsto> new_node k now), next_addr := next_addr c + 1,
      m_map := chm_assign H ?m k ?hv\<rparr>"
  have f: "chm_find H ?m = chm_find H (m_map c)" "\<not> fst (chm_insert H (m_map c) k ?hv)"
    using assms(2) by (auto simp: find_insert insert_fst)
  then have "FH_insert H sample now c k v = Some (Inr (False, ?c))"
    using assms(1) by (cases "FH_sample_generator c sample") (simp_all add: FH_insert_def case_prod_beta Let_def)
  moreover have "chm_find H (chm_assign H ?m k ?hv) = (chm_find H (m_map c))(k \<mapsto> ?hv)"
    using find_assign [of ?m k ?hv] f(1) assms(2) by simp
  ultimately show ?thesis by (intro exI [of _ ?c]) (simp add: flags_of_def)
qed

text \<open>From then on the key cannot be deleted: \<open>delete_key\<close> finds a node that is in no list.\<close>

lemma delete_orphan:
  assumes "chm_find H (m_map c) k = Some hv" "m_listNode hv = At x" "heap c x = Some n" "\<not> isInList n"
    "\<not> fast_hash_construct c" "FH_find_fast F c k = None"
  shows "FH_delete_key H F c k = Inr c"
  using assms by (simp add: FH_delete_key_def Let_def)

end

end
