(* ===== verification/FH_Properties.thy ===== *)
theory FH_Properties
  imports Freeze_Errors
begin

text \<open>
  What the FrozenHot LRU cache guarantees, over any hash map and any CLHT table that behave as
  documented, and the states in which it does not do what it means to.
\<close>

locale clht_cache = concurrent_hash_map H + clht_table C
  for H :: "'m fh_table" and C :: "'h clht"

sublocale clht_cache \<subseteq> fh_tables H "CLHT_ops C"
  by unfold_locales

interpretation fun_clht_cache: clht_cache fun_chm fun_clht
  by unfold_locales

lemma clht_cacheI: "concurrent_hash_map H \<Longrightarrow> clht_table C \<Longrightarrow> clht_cache H C"
  by (simp add: clht_cache_def)

lemma fh_tablesI: "concurrent_hash_map H \<Longrightarrow> clht_table C \<Longrightarrow> fh_tables H (CLHT_ops C)"
  by (intro fh_tables.intro clht_table.CLHT_provides)

text \<open>The table that the constructor allocates is empty.\<close>

lemma CLHT_new_empty:
  assumes "clht_table C" "CLHT_new C 0 e = Some fast" "valid_key k"
  shows "fh_find (CLHT_ops C) fast (ucast k) = None"
proof -
  obtain n where "fast = clht_create C n" using assms(2) by (auto simp: CLHT_new_def CLHT_buckets_def)
  moreover have "(ucast (ucast k :: uint32) :: 64 word) \<noteq> 0"
    unfolding ucast_eq_0_iff by (rule valid_keyD(4) [OF assms(3)])
  then have "clht_get C (clht_create C n) (ucast (ucast k :: uint32)) = 0" by (rule clht_table.get_create [OF assms(1)])
  ultimately show ?thesis by (simp only: CLHT_ops_def CLHT_find_def Let_def fast_hash.simps simp_thms if_True)
qed

section \<open>The whole life of a cache\<close>

lemma run_new:
  assumes "concurrent_hash_map H" "clht_table C" "CLHT_new C 0 e = Some fast"
    "0 < unat maxSize" "unat maxSize < 2 ^ 63" "fs_run maxSize xs (fs_init, True) = Some (outs, s, b)"
  shows "\<exists>c. FH_run H (CLHT_ops C) xs (LRU_FHCache_new H fast maxSize) = Some (Inr (outs, c)) \<and>
    FH_repr H (CLHT_ops C) c s \<and> m_maxSize c = maxSize \<and> (b \<longrightarrow> no_tombs c)"
proof -
  note t = fh_tablesI [OF assms(1,2)]
  let ?c = "LRU_FHCache_new H fast maxSize"
  have m: "m_maxSize ?c = maxSize" by (simp add: LRU_FHCache_new_def)
  have "FH_sim H (CLHT_ops C) ?c (fs_init, True)"
    by (rule fh_tables.FH_sim_new [OF t CLHT_new_empty [OF assms(2,3)] assms(4,5)])
  from fh_tables.run_sim [OF t this, of xs outs "(s, b)"] assms(6) m show ?thesis by (auto simp: FH_sim_def no_tombs_clean)
qed

text \<open>A concrete cache of capacity 40 with five pairs, over the function tables.\<close>

abbreviation fill :: "fh_op list" where
  "fill \<equiv> [Access True True True 0 (of_nat i) 7. i \<leftarrow> [10..<15]]"

lemma fun_CLHT_new: "CLHT_new fun_clht 0 0 = Some (\<lambda>_. 0)"
  by (simp add: CLHT_new_def CLHT_buckets_def CLHT_ex.simps fun_clht_def)

lemmas fun_tables = fun_table.concurrent_hash_map_axioms fun_clht.clht_table_axioms fun_CLHT_new

lemma filled:
  obtains c s where
    "FH_run fun_chm (CLHT_ops fun_clht) fill (LRU_FHCache_new fun_chm (\<lambda>_. 0) 40) = Some (Inr (replicate 5 (Miss True), c))"
    "FH_repr fun_chm (CLHT_ops fun_clht) c s" "m_maxSize c = 40" "no_tombs c" "mode s = Dynamic"
    "dc s = [(14, 7), (13, 7), (12, 7), (11, 7), (10, 7)]"
proof -
  have e: "map_option (\<lambda>(os, s, b). (os, dc s, mode s, b)) (fs_run 40 fill (fs_init, True)) =
      Some (replicate 5 (Miss True), [(14, 7), (13, 7), (12, 7), (11, 7), (10, 7)], Dynamic, True)" by code_simp
  obtain os s b where r: "fs_run 40 fill (fs_init, True) = Some (os, s, b)"
    using e by (cases "fs_run 40 fill (fs_init, True)") auto
  with e run_new [OF fun_tables _ _ r] that show ?thesis by auto
qed

text \<open>
  C2. A new FrozenHot LRU cache over CLHT: every sequence of client accesses, deletions, freezing
  and thawing that the specification admits runs to its end, without an invalid memory access or a
  failing assertion, returns what the specification returns and leaves a state that represents it.
\<close>

theorem LRU_FHCache_run_correct:
  assumes "concurrent_hash_map H" "clht_table C" "CLHT_new C 0 e = Some fast"
    "0 < unat maxSize" "unat maxSize < 2 ^ 63" "fs_run maxSize xs (fs_init, True) = Some (outs, s, b)"
  shows "\<exists>c. FH_run H (CLHT_ops C) xs (LRU_FHCache_new H fast maxSize) = Some (Inr (outs, c)) \<and>
    FH_repr H (CLHT_ops C) c s"
  using run_new [OF assms] by blast

theorem LRU_FHCache_run_correct_witness:
  "\<exists>c. FH_run fun_chm (CLHT_ops fun_clht)
      (fill @ [Freeze (6/10), Access True True True 0 14 1, Delete 14, Access True True True 0 14 1, Thaw,
        Access True True True 0 14 9])
      (LRU_FHCache_new fun_chm (\<lambda>_. 0) 40) =
    Some (Inr ([Miss True, Miss True, Miss True, Miss True, Miss True, Ok, Hit 7, Ok, Hit 7, Ok, Miss True], c))"
proof -
  let ?xs = "fill @ [Freeze (6/10), Access True True True 0 14 1, Delete 14, Access True True True 0 14 1, Thaw,
        Access True True True 0 14 9]"
  let ?o = "[Miss True, Miss True, Miss True, Miss True, Miss True, Ok, Hit 7, Ok, Hit 7, Ok, Miss True]"
  have "map_option fst (fs_run 40 ?xs (fs_init, True)) = Some ?o" by code_simp
  then obtain s b where r: "fs_run 40 ?xs (fs_init, True) = Some (?o, s, b)" by (auto simp: map_option_case split: option.splits)
  show ?thesis using LRU_FHCache_run_correct [OF fun_tables _ _ r] by auto
qed

text \<open>
  C24. At every moment of such a run the element count is at most one above the capacity and equals
  the number of entries of the hash map.
\<close>

theorem LRU_FHCache_run_bounded:
  assumes "concurrent_hash_map H" "clht_table C" "CLHT_new C 0 e = Some fast"
    "0 < unat maxSize" "unat maxSize < 2 ^ 63" "fs_run maxSize xs (fs_init, True) = Some (outs, s, b)"
    "FH_run H (CLHT_ops C) xs (LRU_FHCache_new H fast maxSize) = Some (Inr (outs', c))"
  shows "unat (m_size c) \<le> Suc (unat maxSize) \<and> card (dom (chm_find H (m_map c))) = unat (m_size c)"
proof -
  have r: "FH_repr H (CLHT_ops C) c s" and m: "m_maxSize c = maxSize" using run_new [OF assms(1-6)] assms(7) by auto
  note rf = FH_repr_facts [OF r]
  have d: "distinct (map fst (dc s @ fc s))" "fs_size s \<le> Suc (unat maxSize)" using rf(3) m by (auto simp: fs_ok_def)
  have "chm_find H (m_map c) k = None \<longleftrightarrow> map_of (dc s @ fc s) k = None" for k
    using fh_tables.repr_lookup [OF fh_tablesI [OF assms(1,2)] r, of k] by (simp add: fs_lookup_def)
  then have "dom (chm_find H (m_map c)) = dom (map_of (dc s @ fc s))" by (auto simp: dom_def simp del: map_of_append)
  also have "\<dots> = set (map fst (dc s @ fc s))" by (simp only: dom_map_of_conv_image_fst set_map)
  finally have "card (dom (chm_find H (m_map c))) = fs_size s"
    using distinct_card [OF d(1)] by (simp add: fs_size_def)
  with rf(4) d(2) show ?thesis by simp
qed

theorem LRU_FHCache_run_bounded_witness:
  "\<exists>c. FH_run fun_chm (CLHT_ops fun_clht) [Access True True True 0 10 7] (LRU_FHCache_new fun_chm (\<lambda>_. 0) 1) =
      Some (Inr ([Miss True], c)) \<and> unat (m_size c) \<le> Suc (unat (1 :: size_t)) \<and>
    card (dom (chm_find fun_chm (m_map c))) = unat (m_size c)"
proof -
  let ?xs = "[Access True True True 0 10 7]"
  have "map_option fst (fs_run 1 ?xs (fs_init, True)) = Some [Miss True]" by code_simp
  then obtain s b where r: "fs_run 1 ?xs (fs_init, True) = Some ([Miss True], s, b)"
    by (auto simp: map_option_case split: option.splits)
  obtain c where c: "FH_run fun_chm (CLHT_ops fun_clht) ?xs (LRU_FHCache_new fun_chm (\<lambda>_. 0) 1) = Some (Inr ([Miss True], c))"
    using run_new [OF fun_tables _ _ r] by auto
  with LRU_FHCache_run_bounded [OF fun_tables _ _ r c] show ?thesis by auto
qed

section \<open>Freezing and thawing\<close>

text \<open>
  C3. Freezing is transparent: a cache without tombstones that holds at least \<open>FC_size - 19\<close> pairs
  freezes that many, and every lookup returns after \<open>construct_ratio\<close> what it returned before.
\<close>

theorem construct_ratio_transparent:
  assumes "fh_tables H F" "FH_repr H F c s" "mode s = Dynamic" "no_tombs c" "0 \<le> q" "q \<le> 1"
    "freeze_count q (m_maxSize c) \<le> length (dc s)" "valid_key k"
  shows "\<exists>c' r c1 c2. FH_construct_ratio H F q c = Some (Inr (True, c')) \<and> fast_hash_ready c' \<and>
    LRU_FHCache_find H F l1 s1 t1 c k = Inr (r, c1) \<and> LRU_FHCache_find H F l2 s2 t2 c' k = Inr (r, c2)"
proof -
  have sz: "construct_sizes q (m_maxSize c) = (fst (construct_sizes q (m_maxSize c)), snd (construct_sizes q (m_maxSize c)))"
    by simp
  let ?s = "fs_freeze (freeze_count q (m_maxSize c)) s"
  obtain c' where c': "FH_construct_ratio H F q c = Some (Inr (True, c'))" "FH_repr H F c' ?s"
    using fh_tables.construct_ratio_refines [OF assms(1-6) sz freeze_count_def assms(7)] by blast
  have o: "fs_ok (unat (m_maxSize c)) s" by (rule FH_repr_facts(3) [OF assms(2)])
  have "fst (fs_find l2 k ?s) = fst (fs_find l1 k s)"
    using o assms(3) fs_find_freeze [of s l2 k] fs_find_dynamic [of s l1 k] by (simp add: fs_ok_def)
  moreover have "fast_hash_ready c'" using FH_repr_facts(2) [OF c'(2)] by (simp add: FH_flags_def fs_freeze_def)
  ultimately show ?thesis
    using c'(1) fh_tables.find_refines [OF assms(1,2,8), of l1 s1 t1] fh_tables.find_refines [OF assms(1) c'(2) assms(8), of l2 s2 t2]
    by auto
qed

lemma count_five: "freeze_count (6/10) 40 = 5"
  by code_simp

lemma fun_fh: "fh_tables fun_chm (CLHT_ops fun_clht)"
  by (rule fh_tablesI [OF fun_tables(1,2)])

theorem construct_ratio_transparent_witness:
  "\<exists>c c' r c1 c2. FH_run fun_chm (CLHT_ops fun_clht) fill (LRU_FHCache_new fun_chm (\<lambda>_. 0) 40) =
      Some (Inr (replicate 5 (Miss True), c)) \<and>
    FH_construct_ratio fun_chm (CLHT_ops fun_clht) (6/10) c = Some (Inr (True, c')) \<and> fast_hash_ready c' \<and>
    LRU_FHCache_find fun_chm (CLHT_ops fun_clht) True True 0 c 12 = Inr (r, c1) \<and>
    LRU_FHCache_find fun_chm (CLHT_ops fun_clht) True True 0 c' 12 = Inr (r, c2)"
proof -
  obtain c s where c: "FH_run fun_chm (CLHT_ops fun_clht) fill (LRU_FHCache_new fun_chm (\<lambda>_. 0) 40) =
      Some (Inr (replicate 5 (Miss True), c))"
    "FH_repr fun_chm (CLHT_ops fun_clht) c s" "m_maxSize c = 40" "no_tombs c" "mode s = Dynamic"
    "dc s = [(14, 7), (13, 7), (12, 7), (11, 7), (10, 7)]" by (rule filled)
  have k: "valid_key 12" by code_simp
  have n: "freeze_count (6/10) (m_maxSize c) \<le> length (dc s)" using c(3,6) count_five by simp
  show ?thesis using construct_ratio_transparent [OF fun_fh c(2,5,4) _ _ n k] c(1) by auto
qed

text \<open>
  C4. Thawing undoes freezing: \<open>deconstruct\<close> after \<open>construct_ratio\<close> leaves a cache that represents
  the same pairs in the same order as before.
\<close>

theorem construct_ratio_deconstruct:
  assumes "fh_tables H F" "FH_repr H F c s" "mode s = Dynamic" "no_tombs c" "0 \<le> q" "q \<le> 1"
    "freeze_count q (m_maxSize c) \<le> length (dc s)"
  shows "\<exists>c1 c2. FH_construct_ratio H F q c = Some (Inr (True, c1)) \<and> FH_deconstruct F c1 = Inr c2 \<and>
    FH_repr H F c2 s \<and> no_tombs c2"
proof -
  have sz: "construct_sizes q (m_maxSize c) = (fst (construct_sizes q (m_maxSize c)), snd (construct_sizes q (m_maxSize c)))"
    by simp
  obtain c1 where c1: "FH_construct_ratio H F q c = Some (Inr (True, c1))"
    "FH_repr H F c1 (fs_freeze (freeze_count q (m_maxSize c)) s)" "no_tombs c1"
    using fh_tables.construct_ratio_refines [OF assms(1-6) sz freeze_count_def assms(7)] by blast
  have "fc s = []" "snap s = Map.empty" using FH_repr_facts(3) [OF assms(2)] assms(3) by (auto simp: fs_ok_def)
  then have "fs_thaw (fs_freeze (freeze_count q (m_maxSize c)) s) = s" using assms(3) by (simp add: fs_thaw_freeze)
  with c1 fh_tables.deconstruct_refines [OF assms(1) c1(2)] show ?thesis by auto
qed

theorem construct_ratio_deconstruct_witness:
  "\<exists>c c1 c2 s. FH_run fun_chm (CLHT_ops fun_clht) fill (LRU_FHCache_new fun_chm (\<lambda>_. 0) 40) =
      Some (Inr (replicate 5 (Miss True), c)) \<and> FH_repr fun_chm (CLHT_ops fun_clht) c s \<and>
    FH_construct_ratio fun_chm (CLHT_ops fun_clht) (6/10) c = Some (Inr (True, c1)) \<and>
    FH_deconstruct (CLHT_ops fun_clht) c1 = Inr c2 \<and> FH_repr fun_chm (CLHT_ops fun_clht) c2 s"
proof -
  obtain c s where c: "FH_run fun_chm (CLHT_ops fun_clht) fill (LRU_FHCache_new fun_chm (\<lambda>_. 0) 40) =
      Some (Inr (replicate 5 (Miss True), c))"
    "FH_repr fun_chm (CLHT_ops fun_clht) c s" "m_maxSize c = 40" "no_tombs c" "mode s = Dynamic"
    "dc s = [(14, 7), (13, 7), (12, 7), (11, 7), (10, 7)]" by (rule filled)
  have n: "freeze_count (6/10) (m_maxSize c) \<le> length (dc s)" using c(3,6) count_five by simp
  show ?thesis using construct_ratio_deconstruct [OF fun_fh c(2,5,4) _ _ n] c(1,2) by auto
qed

text \<open>
  C5. A cache frozen as a whole serves exactly its contents: \<open>construct_tier\<close> of a cache that is not
  empty returns, also in the presence of tombstones, lookups return what they returned before,
  insertions are rejected and change nothing, and \<open>deconstruct\<close> restores pairs and order.
\<close>

theorem construct_tier_frozen:
  assumes "fh_tables H F" "FH_repr H F c s" "mode s = Dynamic" "dc s \<noteq> []"
  shows "\<exists>c1. FH_construct_tier H F c = Some (Inr (True, c1)) \<and>
    (\<forall>k. valid_key k \<longrightarrow> (\<exists>c2. LRU_FHCache_find H F l sm t c1 k = Inr (fs_lookup k s, c2))) \<and>
    (\<exists>c2. FH_insert H sm t c1 k v = Some (Inr (False, c2)) \<and> FH_repr H F c2 (fs_freeze_all s)) \<and>
    (\<exists>c2. FH_deconstruct F c1 = Inr c2 \<and> FH_repr H F c2 s)"
proof -
  obtain c1 where c1: "FH_construct_tier H F c = Some (Inr (True, c1))" "FH_repr H F c1 (fs_freeze_all s)"
    using fh_tables.construct_tier_refines [OF assms] by blast
  have f: "fc s = []" "snap s = Map.empty" using FH_repr_facts(3) [OF assms(2)] assms(3) by (auto simp: fs_ok_def)
  have "\<exists>c2. LRU_FHCache_find H F l sm t c1 k = Inr (fs_lookup k s, c2)" if "valid_key k" for k
    using fh_tables.find_refines [OF assms(1) c1(2) that, of l sm t] f by (auto simp: fs_find_freeze_all fs_lookup_def)
  moreover have "\<exists>c2. FH_insert H sm t c1 k v = Some (Inr (False, c2)) \<and> FH_repr H F c2 (fs_freeze_all s)"
    using fh_tables.insert_tier [OF assms(1) c1(2), of sm t k v] by (auto simp: fs_freeze_all_def)
  moreover have "fs_thaw (fs_freeze_all s) = s" using assms(3) f by (simp add: fs_thaw_freeze)
  then have "\<exists>c2. FH_deconstruct F c1 = Inr c2 \<and> FH_repr H F c2 s"
    using fh_tables.deconstruct_refines [OF assms(1) c1(2)] by auto
  ultimately show ?thesis using c1(1) by blast
qed

theorem construct_tier_frozen_witness:
  "\<exists>c c1 c2. FH_run fun_chm (CLHT_ops fun_clht) fill (LRU_FHCache_new fun_chm (\<lambda>_. 0) 40) =
      Some (Inr (replicate 5 (Miss True), c)) \<and>
    FH_construct_tier fun_chm (CLHT_ops fun_clht) c = Some (Inr (True, c1)) \<and>
    FH_insert fun_chm True 0 c1 20 7 = Some (Inr (False, c2))"
proof -
  obtain c s where c: "FH_run fun_chm (CLHT_ops fun_clht) fill (LRU_FHCache_new fun_chm (\<lambda>_. 0) 40) =
      Some (Inr (replicate 5 (Miss True), c))"
    "FH_repr fun_chm (CLHT_ops fun_clht) c s" "m_maxSize c = 40" "no_tombs c" "mode s = Dynamic"
    "dc s = [(14, 7), (13, 7), (12, 7), (11, 7), (10, 7)]" by (rule filled)
  then have "dc s \<noteq> []" by simp
  from construct_tier_frozen [OF fun_fh c(2,5) this, of True True 0 20 7] c(1) show ?thesis by blast
qed

section \<open>Where the cache goes wrong\<close>

text \<open>
  C25. A deleted key stays visible: in a frozen cache a lookup of a key of the frozen part returns
  its value also after \<open>delete_key\<close>, although the key is gone from the contents. The fast table
  holds the raw pointer of the deleted value.
\<close>

theorem frozen_delete_stale:
  assumes "fh_tables H F" "FH_repr H F c s" "mode s \<noteq> Dynamic" "valid_key k" "map_of (fc s) k = Some v"
  shows "\<exists>c1 c2. FH_delete_key H F c k = Inr c1 \<and> chm_find H (m_map c1) k = None \<and>
    LRU_FHCache_find H F l sm t c1 k = Inr (Some v, c2)"
proof -
  obtain c1 where c1: "FH_delete_key H F c k = Inr c1" "FH_repr H F c1 (fs_delete k s)"
    using fh_tables.delete_refines [OF assms(1,2,4)] by blast
  have "fs_lookup k (fs_delete k s) = None"
    by (simp add: fs_lookup_def fs_delete_def spec_delete_def map_of_filter_key map_add_def)
  then have "chm_find H (m_map c1) k = None" using fh_tables.repr_lookup [OF assms(1) c1(2), of k] by simp
  moreover have "snap s k = Some v"
    using FH_repr_facts(3) [OF assms(2)] assms(5) unfolding fs_ok_def map_le_def by (metis domI)
  then have "fst (fs_find l k (fs_delete k s)) = Some v" using assms(3) by (simp add: fs_find_def fs_delete_def)
  ultimately show ?thesis using c1(1) fh_tables.find_refines [OF assms(1) c1(2) assms(4), of l sm t] by auto
qed

theorem frozen_delete_stale_witness:
  "\<exists>c c0 c1 c2. FH_run fun_chm (CLHT_ops fun_clht) fill (LRU_FHCache_new fun_chm (\<lambda>_. 0) 40) =
      Some (Inr (replicate 5 (Miss True), c)) \<and>
    FH_construct_tier fun_chm (CLHT_ops fun_clht) c = Some (Inr (True, c0)) \<and>
    FH_delete_key fun_chm (CLHT_ops fun_clht) c0 12 = Inr c1 \<and> chm_find fun_chm (m_map c1) 12 = None \<and>
    LRU_FHCache_find fun_chm (CLHT_ops fun_clht) True True 0 c1 12 = Inr (Some 7, c2)"
proof -
  obtain c s where c: "FH_run fun_chm (CLHT_ops fun_clht) fill (LRU_FHCache_new fun_chm (\<lambda>_. 0) 40) =
      Some (Inr (replicate 5 (Miss True), c))"
    "FH_repr fun_chm (CLHT_ops fun_clht) c s" "m_maxSize c = 40" "no_tombs c" "mode s = Dynamic"
    "dc s = [(14, 7), (13, 7), (12, 7), (11, 7), (10, 7)]" by (rule filled)
  then obtain c0 where c0: "FH_construct_tier fun_chm (CLHT_ops fun_clht) c = Some (Inr (True, c0))"
    "FH_repr fun_chm (CLHT_ops fun_clht) c0 (fs_freeze_all s)"
    using fh_tables.construct_tier_refines [OF fun_fh c(2,5)] by auto
  have k: "valid_key 12" by code_simp
  have "mode (fs_freeze_all s) \<noteq> Dynamic" "map_of (fc (fs_freeze_all s)) 12 = Some 7"
    using c(6) by (simp_all add: fs_freeze_all_def)
  from frozen_delete_stale [OF fun_fh c0(2) this(1) k this(2), of True True 0] c(1) c0(1) show ?thesis by blast
qed

text \<open>
  C26. \<open>construct_ratio\<close> of a cache that holds fewer than \<open>FC_size - 19\<close> pairs, or any number of pairs
  when \<open>FC_size\<close> is below 20 and the unsigned subtraction wraps around, runs into the sentinel
  \<open>m_tail\<close> and fails the assertion of \<open>delink\<close>.
\<close>

theorem construct_ratio_asserts:
  assumes "fh_tables H F" "FH_repr H F c s" "mode s = Dynamic" "no_tombs c" "0 \<le> q" "q \<le> 1"
    "nxt (heap c) m_tail = Some nullptr" "length (dc s) < freeze_count q (m_maxSize c)"
  shows "FH_construct_ratio H F q c = Some (Inl (AssertFailed ''next != nullptr''))"
  by (rule fh_tables.construct_ratio_too_short [OF assms])

theorem construct_ratio_asserts_witness:
  "FH_construct_ratio fun_chm (CLHT_ops fun_clht) (1/2) (LRU_FHCache_new fun_chm (\<lambda>_. 0) 30) =
    Some (Inl (AssertFailed ''next != nullptr''))"
proof -
  let ?c = "LRU_FHCache_new fun_chm (\<lambda>_. 0) 30 :: (size_t \<Rightarrow> shared_ptr HashMapValue option, 64 word \<Rightarrow> 64 word) LRU_FHCache"
  have "FH_sim fun_chm (CLHT_ops fun_clht) ?c (fs_init, True)"
    by (rule fh_tables.FH_sim_new [OF fun_fh CLHT_new_empty [OF fun_tables(2,3)]]) simp_all
  then have r: "FH_repr fun_chm (CLHT_ops fun_clht) ?c fs_init" "no_tombs ?c" by (auto simp: FH_sim_def no_tombs_clean)
  have "mode fs_init = Dynamic" "nxt (heap ?c) m_tail = Some nullptr" "length (dc fs_init) < freeze_count (1/2) (m_maxSize ?c)"
    by (simp_all add: fs_init_def nxt_def LRU_FHCache_new_def sentinel_def freeze_count_def)
  from construct_ratio_asserts [OF fun_fh r(1) this(1) r(2) _ _ this(2,3)] show ?thesis by simp
qed

text \<open>
  \<open>construct_tier\<close> of an empty cache blocks it for good: it reports success, \<open>deconstruct\<close> then
  does nothing, and every insertion, before and after \<open>deconstruct\<close>, is rejected.
\<close>

theorem empty_tier_blocks:
  assumes "fh_tables H F" "FH_repr H F c s" "mode s = Dynamic" "no_tombs c" "dc s = []"
  shows "\<exists>c'. FH_construct_tier H F c = Some (Inr (True, c')) \<and> FH_deconstruct F c' = Inr c' \<and>
    (\<exists>c''. FH_insert H sm t c' k v = Some (Inr (False, c'')))"
proof -
  obtain xs fs where i: "fh_indexed (heap c) (chm_find H (m_map c)) [] xs fs"
    and d: "dc s = live_kvs (heap c) (chm_find H (m_map c)) xs" and fs: "fs = []"
    using FH_reprE [OF assms(2)] assms(3) by metis
  have "live (heap c) x" if "x \<in> set xs" for x using that fh_alloc [OF i, of x] by (intro no_tombs_live [OF assms(4)]) simp
  then have "xs = []" using assms(5) d by (simp add: live_kvs_all)
  then obtain c' where "FH_construct_tier H F c = Some (Inr (True, c'))" "tier_no_insert c'" "FH_deconstruct F c' = Inr c'"
    using empty_tier [of c "chm_find H (m_map c)" H F] i fs by auto
  then show ?thesis by (auto simp: FH_insert_def Let_def)
qed

theorem empty_tier_blocks_witness:
  "\<exists>c' c''. FH_construct_tier fun_chm (CLHT_ops fun_clht) (LRU_FHCache_new fun_chm (\<lambda>_. 0) 30) = Some (Inr (True, c')) \<and>
    FH_deconstruct (CLHT_ops fun_clht) c' = Inr c' \<and> FH_insert fun_chm True 0 c' 5 6 = Some (Inr (False, c''))"
proof -
  let ?c = "LRU_FHCache_new fun_chm (\<lambda>_. 0) 30 :: (size_t \<Rightarrow> shared_ptr HashMapValue option, 64 word \<Rightarrow> 64 word) LRU_FHCache"
  have "FH_sim fun_chm (CLHT_ops fun_clht) ?c (fs_init, True)"
    by (rule fh_tables.FH_sim_new [OF fun_fh CLHT_new_empty [OF fun_tables(2,3)]]) simp_all
  then have r: "FH_repr fun_chm (CLHT_ops fun_clht) ?c fs_init" "no_tombs ?c" by (auto simp: FH_sim_def no_tombs_clean)
  have "mode fs_init = Dynamic" "dc fs_init = []" by (simp_all add: fs_init_def)
  from empty_tier_blocks [OF fun_fh r(1) this(1) r(2) this(2), of True 0 5 6] show ?thesis by blast
qed

text \<open>
  An insertion of a key that is present reports failure, but it replaces the value, and the key
  can no longer be deleted: its entry points to a node outside of the lists, and \<open>delete_key\<close>
  returns without removing it.
\<close>

theorem insert_present_undeletable:
  assumes "fh_tables H F" "FH_repr H F c s" "mode s = Dynamic" "valid_key k" "fs_lookup k s \<noteq> None"
  shows "\<exists>c'. FH_insert H sm t c k v = Some (Inr (False, c')) \<and> FH_delete_key H F c' k = Inr c' \<and>
    map_option m_value (chm_find H (m_map c') k) = Some v"
proof -
  note rf = FH_repr_facts [OF assms(2)]
  have p: "chm_find H (m_map c) k \<noteq> None" using fh_tables.repr_lookup [OF assms(1,2), of k] assms(5) by auto
  have fl: "\<not> tier_no_insert c" "\<not> fast_hash_construct c" "\<not> tier_ready c" "\<not> fast_hash_ready c"
    using rf(2) assms(3) by (auto simp: FH_flags_def)
  obtain c' where c': "FH_insert H sm t c k v = Some (Inr (False, c'))"
    "heap c' = (heap c)(heap_node (next_addr c) \<mapsto> new_node k t)"
    "chm_find H (m_map c') = (chm_find H (m_map c))(k \<mapsto> \<lparr>m_value = v, m_listNode = At (heap_node (next_addr c))\<rparr>)"
    "flags_of c' = flags_of c"
    using fh_tables.insert_present [OF assms(1) fl(1) p] by blast
  have "FH_delete_key H F c' k = Inr c'"
    by (rule fh_tables.delete_orphan [OF assms(1)])
      (use c' fl in \<open>auto simp: new_node_def isInList_def flags_of_def FH_find_fast_def\<close>)
  with c' show ?thesis by auto
qed

theorem insert_present_undeletable_witness:
  "\<exists>c c'. FH_run fun_chm (CLHT_ops fun_clht) fill (LRU_FHCache_new fun_chm (\<lambda>_. 0) 40) =
      Some (Inr (replicate 5 (Miss True), c)) \<and>
    FH_insert fun_chm True 0 c 12 9 = Some (Inr (False, c')) \<and> FH_delete_key fun_chm (CLHT_ops fun_clht) c' 12 = Inr c'"
proof -
  obtain c s where c: "FH_run fun_chm (CLHT_ops fun_clht) fill (LRU_FHCache_new fun_chm (\<lambda>_. 0) 40) =
      Some (Inr (replicate 5 (Miss True), c))"
    "FH_repr fun_chm (CLHT_ops fun_clht) c s" "m_maxSize c = 40" "no_tombs c" "mode s = Dynamic"
    "dc s = [(14, 7), (13, 7), (12, 7), (11, 7), (10, 7)]" by (rule filled)
  have "valid_key 12" by code_simp
  moreover have "fc s = []" using FH_repr_facts(3) [OF c(2)] c(5) by (simp add: fs_ok_def)
  then have "fs_lookup 12 s \<noteq> None" using c(6) by (simp add: fs_lookup_def)
  ultimately show ?thesis using insert_present_undeletable [OF fun_fh c(2,5), of 12 True 0 9] c(1) by blast
qed

end
