(* ===== verification/FIFO_FH.thy ===== *)
theory FIFO_FH
  imports FH_Properties
begin

text \<open>
  \<open>Cache::FIFO_FHCache\<close> of \<^verbatim>\<open>src/cache/FIFO_FH.h\<close>, the FrozenHot FIFO cache. Its text is that of
  \<open>LRU_FHCache\<close> with two changes: \<open>find\<close> does not move a node to the front, except while a curve is
  measured, and \<open>get_curve\<close> stops at 0.993 instead of 0.992. \<open>find\<close> is translated on its own; the
  operations whose text is the same are the definitions of \<open>LRU_FH\<close>.
\<close>

definition FIFO_FHCache_new :: "'m fh_table \<Rightarrow> 'f \<Rightarrow> size_t \<Rightarrow> ('m, 'f) LRU_FHCache" where
  "FIFO_FHCache_new = LRU_FHCache_new"

definition FIFO_FHCache_find ::
    "'m fh_table \<Rightarrow> 'f fast_hash \<Rightarrow> bool \<Rightarrow> uint64 \<Rightarrow> ('m, 'f) LRU_FHCache \<Rightarrow> size_t \<Rightarrow>
      (shared_ptr option \<times> ('m, 'f) LRU_FHCache) result" where
  "FIFO_FHCache_find H F sample now c key =
     (let stat_yes = FH_sample_generator c sample in
      r_assert (\<not> (tier_ready c \<or> fast_hash_ready c) \<or> \<not> curve_flag c)
        ''!(tier_ready || fast_hash_ready) || !curve_flag''
      (case FH_find_fast F c key of
         Some ac \<Rightarrow> Inr (Some ac, count_fast_hit stat_yes c)
       | None \<Rightarrow>
           if tier_ready c then Inr (None, count_tbb_miss stat_yes c)
           else
             (case chm_find H (m_map c) key of
                None \<Rightarrow> Inr (None, count_tbb_miss stat_yes c)
              | Some hv \<Rightarrow>
                  let ac = m_value hv; node = m_listNode hv in
                  if \<not> fast_hash_construct c \<and> curve_flag c
                  then r_bind (FH_find_curve stat_yes now c node) (\<lambda>c. Inr (Some ac, c))
                  else Inr (Some ac, count_succ stat_yes c))))"

definition FIFO_FH_is_full :: "('m, 'f) LRU_FHCache \<Rightarrow> bool" where
  "FIFO_FH_is_full = FH_is_full"

definition FIFO_FH_evict ::
    "'m fh_table \<Rightarrow> ('m, 'f) LRU_FHCache \<Rightarrow> (bool \<times> ('m, 'f) LRU_FHCache) result option" where
  "FIFO_FH_evict = FH_evict"

definition FIFO_FH_insert ::
    "'m fh_table \<Rightarrow> bool \<Rightarrow> uint64 \<Rightarrow> ('m, 'f) LRU_FHCache \<Rightarrow> size_t \<Rightarrow> shared_ptr \<Rightarrow>
      (bool \<times> ('m, 'f) LRU_FHCache) result option" where
  "FIFO_FH_insert = FH_insert"

definition FIFO_FH_delete_key ::
    "'m fh_table \<Rightarrow> 'f fast_hash \<Rightarrow> ('m, 'f) LRU_FHCache \<Rightarrow> size_t \<Rightarrow> ('m, 'f) LRU_FHCache result" where
  "FIFO_FH_delete_key = FH_delete_key"

definition FIFO_FH_construct_ratio ::
    "'m fh_table \<Rightarrow> 'f fast_hash \<Rightarrow> real \<Rightarrow> ('m, 'f) LRU_FHCache \<Rightarrow>
      (bool \<times> ('m, 'f) LRU_FHCache) result option" where
  "FIFO_FH_construct_ratio = FH_construct_ratio"

definition FIFO_FH_construct_tier ::
    "'m fh_table \<Rightarrow> 'f fast_hash \<Rightarrow> ('m, 'f) LRU_FHCache \<Rightarrow>
      (bool \<times> ('m, 'f) LRU_FHCache) result option" where
  "FIFO_FH_construct_tier = FH_construct_tier"

definition FIFO_FH_deconstruct ::
    "'f fast_hash \<Rightarrow> ('m, 'f) LRU_FHCache \<Rightarrow> ('m, 'f) LRU_FHCache result" where
  "FIFO_FH_deconstruct = FH_deconstruct"

definition FIFO_FH_get_curve_begin :: "uint64 \<Rightarrow> ('m, 'f) LRU_FHCache \<Rightarrow> ('m, 'f) LRU_FHCache result" where
  "FIFO_FH_get_curve_begin = FH_get_curve_begin"

definition FIFO_FH_curve_wait :: "bool \<Rightarrow> nat \<Rightarrow> ('m, 'f) LRU_FHCache \<Rightarrow> bool" where
  "FIFO_FH_curve_wait = curve_wait (993 / 1000)"

definition FIFO_FH_curve_pass :: "('m, 'f) LRU_FHCache \<Rightarrow> ('m, 'f) LRU_FHCache option" where
  "FIFO_FH_curve_pass = curve_pass (993 / 1000)"

definition FIFO_FH_get_curve_end :: "('m, 'f) LRU_FHCache \<Rightarrow> ('m, 'f) LRU_FHCache result" where
  "FIFO_FH_get_curve_end = FH_get_curve_end"

definition FIFO_FH_clear ::
    "'m fh_table \<Rightarrow> 'f fast_hash \<Rightarrow> ('m, 'f) LRU_FHCache \<Rightarrow> ('m, 'f) LRU_FHCache result option" where
  "FIFO_FH_clear = FH_clear"

definition FIFO_FH_snapshotKeys :: "('m, 'f) LRU_FHCache \<Rightarrow> size_t list \<Rightarrow> size_t list result option" where
  "FIFO_FH_snapshotKeys = FH_snapshotKeys"

definition FIFO_FH_debug :: "int \<Rightarrow> ('m, 'f) LRU_FHCache \<Rightarrow> int option result option" where
  "FIFO_FH_debug = FH_debug"

section \<open>Sequences of calls\<close>

definition FIFO_FH_step ::
    "'m fh_table \<Rightarrow> 'f fast_hash \<Rightarrow> fh_op \<Rightarrow> ('m, 'f) LRU_FHCache \<Rightarrow>
      (fh_out \<times> ('m, 'f) LRU_FHCache) result option" where
  "FIFO_FH_step H F x c = (case x of
     Access _ s1 s2 now k v \<Rightarrow>
       p_bind (returns (FIFO_FHCache_find H F s1 now c k)) (\<lambda>(r, c). case r of
         Some w \<Rightarrow> Some (Inr (Hit w, c))
       | None \<Rightarrow> p_bind (FIFO_FH_insert H s2 now c k v) (\<lambda>(b, c). Some (Inr (Miss b, c))))
   | Delete k \<Rightarrow> p_bind (returns (FIFO_FH_delete_key H F c k)) (\<lambda>c. Some (Inr (Ok, c)))
   | Freeze q \<Rightarrow> p_bind (FIFO_FH_construct_ratio H F q c) (\<lambda>(_, c). Some (Inr (Ok, c)))
   | FreezeAll \<Rightarrow> p_bind (FIFO_FH_construct_tier H F c) (\<lambda>(_, c). Some (Inr (Ok, c)))
   | Thaw \<Rightarrow> p_bind (returns (FIFO_FH_deconstruct F c)) (\<lambda>c. Some (Inr (Ok, c))))"

fun FIFO_FH_run ::
    "'m fh_table \<Rightarrow> 'f fast_hash \<Rightarrow> fh_op list \<Rightarrow> ('m, 'f) LRU_FHCache \<Rightarrow>
      (fh_out list \<times> ('m, 'f) LRU_FHCache) result option" where
  "FIFO_FH_run H F [] c = Some (Inr ([], c))"
| "FIFO_FH_run H F (x # xs) c =
     p_bind (FIFO_FH_step H F x c) (\<lambda>(out, c).
     p_bind (FIFO_FH_run H F xs c) (\<lambda>(outs, c). Some (Inr (out # outs, c))))"

text \<open>Lookups never have the lock, so the specification never promotes.\<close>

fun unlocked :: "fh_op \<Rightarrow> fh_op" where
  "unlocked (Access l s1 s2 now k v) = Access False s1 s2 now k v"
| "unlocked x = x"

section \<open>The cache is the LRU cache without promotion\<close>

lemma FIFO_find_eq: "FIFO_FHCache_find H F sample now c k = LRU_FHCache_find H F False sample now c k"
  by (auto simp: FIFO_FHCache_find_def LRU_FHCache_find_def Let_def split: option.splits)

lemma FIFO_step_eq: "FIFO_FH_step H F x c = FH_step H F (unlocked x) c"
  unfolding FIFO_FH_step_def FH_step_def FIFO_find_eq FIFO_FH_insert_def FIFO_FH_delete_key_def
    FIFO_FH_construct_ratio_def FIFO_FH_construct_tier_def FIFO_FH_deconstruct_def
  by (cases x) simp_all

lemma FIFO_run_eq: "FIFO_FH_run H F xs c = FH_run H F (map unlocked xs) c"
  by (induction xs arbitrary: c) (simp_all add: FIFO_step_eq)

text \<open>Without promotion a lookup leaves the order of the pairs as it is.\<close>

lemma fs_find_unlocked: "snd (fs_find False k s) = s"
  by (auto simp: fs_find_def spec_find_def split: option.splits)

text \<open>
  C8. A new FrozenHot FIFO cache over CLHT: every sequence of client accesses, deletions, freezing
  and thawing that the specification admits runs to its end, without an invalid memory access or a
  failing assertion, and returns what the specification without promotion returns.
\<close>

theorem FIFO_FHCache_run_correct:
  assumes "concurrent_hash_map H" "clht_table C" "CLHT_new C 0 e = Some fast"
    "0 < unat maxSize" "unat maxSize < 2 ^ 63" "fs_run maxSize (map unlocked xs) (fs_init, True) = Some (outs, s, b)"
  shows "\<exists>c. FIFO_FH_run H (CLHT_ops C) xs (FIFO_FHCache_new H fast maxSize) = Some (Inr (outs, c)) \<and>
    FH_repr H (CLHT_ops C) c s"
  using run_new [OF assms] by (auto simp: FIFO_run_eq FIFO_FHCache_new_def)

theorem FIFO_FHCache_run_correct_witness:
  "\<exists>c. FIFO_FH_run fun_chm (CLHT_ops fun_clht)
      [Access True True True 0 10 7, Access True True True 0 11 7, Access True True True 0 10 7,
       Access True True True 0 12 7, Access True True True 0 10 7, FreezeAll, Access True True True 0 11 7, Thaw]
      (FIFO_FHCache_new fun_chm (\<lambda>_. 0) 2) =
    Some (Inr ([Miss True, Miss True, Hit 7, Miss True, Miss True, Ok, Miss False, Ok], c))"
proof -
  let ?xs = "[Access True True True 0 10 7, Access True True True 0 11 7, Access True True True 0 10 7,
       Access True True True 0 12 7, Access True True True 0 10 7, FreezeAll, Access True True True 0 11 7, Thaw]"
  let ?o = "[Miss True, Miss True, Hit 7, Miss True, Miss True, Ok, Miss False, Ok]"
  have "map_option fst (fs_run 2 (map unlocked ?xs) (fs_init, True)) = Some ?o" by code_simp
  then obtain s b where r: "fs_run 2 (map unlocked ?xs) (fs_init, True) = Some (?o, s, b)"
    by (cases "fs_run 2 (map unlocked ?xs) (fs_init, True)") auto
  show ?thesis using FIFO_FHCache_run_correct [OF fun_tables _ _ r] by auto
qed

end
