(* ===== verification/Scalable_Cache.thy ===== *)
theory Scalable_Cache
  imports Cache_API Base_Cache
begin

text \<open>
  \<open>tstarling::ConcurrentScalableCache\<close> of \<^verbatim>\<open>src/cache/hhvm-scalable-cache.h\<close>: a cache made of
  shards. The shards are caches behind the interface of \<open>Cache_API\<close>; a key belongs to the shard
  that the upper 16 bits of its hash select. \<open>hash\<close> is the hash function of the map, \<open>hw\<close> is what
  \<open>std::thread::hardware_concurrency\<close> returns.
\<close>

datatype cache_type = LRU | LFU | LRU_FH | LFU_FH | FIFO_FH | Redis_LRU | FIFO | StrictLRU

record 's ScalableCache =
  sc_maxSize :: size_t
  sc_numShards :: size_t
  sc_shards :: "'s list"
  algType :: cache_type
  FROZEN_THRESHOLD :: int

section \<open>The operations\<close>

definition shard_size :: "size_t \<Rightarrow> size_t \<Rightarrow> size_t \<Rightarrow> size_t" where
  "shard_size maxSize n i = (let s = maxSize div n; t = maxSize mod n in if i < t then s + 1 else s)"

definition needs_rebuild :: "cache_type \<Rightarrow> bool" where
  "needs_rebuild ty \<longleftrightarrow> ty = LRU_FH \<or> ty = LFU_FH \<or> ty = FIFO_FH"

text \<open>\<open>mk\<close> is the constructor of the shard type that \<open>type\<close> selects.\<close>

definition ScalableCache_new ::
    "(size_t \<Rightarrow> 's) \<Rightarrow> size_t \<Rightarrow> size_t \<Rightarrow> size_t \<Rightarrow> cache_type \<Rightarrow> int \<Rightarrow> 's ScalableCache result" where
  "ScalableCache_new mk hw maxSize numShards ty rebuild_freq =
     (let n = (if numShards = 0 then hw else numShards) in
      r_assert (n = 0 \<or> \<not> needs_rebuild ty \<or> rebuild_freq > 0) ''FROZEN_THRESHOLD > 0'' (
      Inr \<lparr>sc_maxSize = maxSize, sc_numShards = n,
           sc_shards = map (\<lambda>i. mk (shard_size maxSize n (of_nat i))) [0..<unat n],
           algType = ty, FROZEN_THRESHOLD = rebuild_freq\<rparr>))"

definition shard_index :: "(size_t \<Rightarrow> size_t) \<Rightarrow> size_t \<Rightarrow> size_t \<Rightarrow> size_t" where
  "shard_index hash n key = drop_bit 48 (hash key) mod n"

definition getShard :: "(size_t \<Rightarrow> size_t) \<Rightarrow> 's ScalableCache \<Rightarrow> size_t \<Rightarrow> (nat \<times> 's) result" where
  "getShard hash c key =
     (if sc_numShards c = 0 then Inl DivByZero
      else let h = unat (shard_index hash (sc_numShards c) key) in
           if h < length (sc_shards c) then Inr (h, sc_shards c ! h) else Inl OutOfRange)"

definition put_shard :: "'s ScalableCache \<Rightarrow> nat \<Rightarrow> 's \<Rightarrow> 's ScalableCache" where
  "put_shard c i s = c\<lparr>sc_shards := (sc_shards c)[i := s]\<rparr>"

definition SC_find ::
    "(size_t \<Rightarrow> size_t) \<Rightarrow> ('e, 's, 'v) CacheAPI \<Rightarrow> 'e \<Rightarrow> 's ScalableCache \<Rightarrow> size_t \<Rightarrow>
      ('v option \<times> 's ScalableCache) result" where
  "SC_find hash A e c key =
     r_bind (getShard hash c key) (\<lambda>(i, s).
     r_bind (api_find A e s key) (\<lambda>(r, s). Inr (r, put_shard c i s)))"

definition SC_insert ::
    "(size_t \<Rightarrow> size_t) \<Rightarrow> ('e, 's, 'v) CacheAPI \<Rightarrow> 'e \<Rightarrow> 's ScalableCache \<Rightarrow> size_t \<Rightarrow> 'v \<Rightarrow>
      (bool \<times> 's ScalableCache) result" where
  "SC_insert hash A e c key value =
     r_bind (getShard hash c key) (\<lambda>(i, s).
     r_bind (api_insert A e s key value) (\<lambda>(r, s). Inr (r, put_shard c i s)))"

definition SC_delete_key ::
    "(size_t \<Rightarrow> size_t) \<Rightarrow> ('e, 's, 'v) CacheAPI \<Rightarrow> 's ScalableCache \<Rightarrow> size_t \<Rightarrow> 's ScalableCache result" where
  "SC_delete_key hash A c key =
     r_bind (getShard hash c key) (\<lambda>(i, s).
     r_bind (api_delete_key A s key) (\<lambda>s. Inr (put_shard c i s)))"

text \<open>The body of \<open>clear\<close> is commented out.\<close>

definition SC_clear :: "'s ScalableCache \<Rightarrow> 's ScalableCache result option" where
  "SC_clear c = Some (Inr c)"

fun snapshot_shards ::
    "('e, 's, 'v) CacheAPI \<Rightarrow> 's list \<Rightarrow> size_t list \<Rightarrow> size_t list result option" where
  "snapshot_shards A [] keys = Some (Inr keys)"
| "snapshot_shards A (s # ss) keys = p_bind (api_snapshotKeys A s keys) (snapshot_shards A ss)"

definition SC_snapshotKeys ::
    "('e, 's, 'v) CacheAPI \<Rightarrow> 's ScalableCache \<Rightarrow> size_t list \<Rightarrow> size_t list result option" where
  "SC_snapshotKeys A c keys = snapshot_shards A (sc_shards c) keys"

definition SC_Size :: "('e, 's, 'v) CacheAPI \<Rightarrow> 's ScalableCache \<Rightarrow> size_t" where
  "SC_Size A c = fold (\<lambda>s size. size + api_size A s) (sc_shards c) 0"

definition SC_ops ::
    "(size_t \<Rightarrow> size_t) \<Rightarrow> ('e, 's, 'v) CacheAPI \<Rightarrow> ('e, 's ScalableCache, 'v) CacheAPI" where
  "SC_ops hash A = \<lparr>
     api_find = SC_find hash A, api_insert = SC_insert hash A, api_delete_key = SC_delete_key hash A,
     api_clear = SC_clear, api_snapshotKeys = SC_snapshotKeys A, api_size = SC_Size A\<rparr>"

section \<open>Statistics\<close>

text \<open>
  The shards report and reset their counters through \<open>get\<close>; the ratio of the sums is printed when
  something was counted.
\<close>

fun sum_stats :: "('s \<Rightarrow> (size_t \<times> size_t) \<times> 's) \<Rightarrow> 's list \<Rightarrow> size_t \<Rightarrow> size_t \<Rightarrow> (size_t \<times> size_t) \<times> 's list" where
  "sum_stats get [] hit miss = ((hit, miss), [])"
| "sum_stats get (s # ss) hit miss =
     (let ((h, m), s) = get s; (r, ss) = sum_stats get ss (hit + h) (miss + m) in (r, s # ss))"

definition SC_PrintStat ::
    "('s \<Rightarrow> (size_t \<times> size_t) \<times> 's) \<Rightarrow> 's ScalableCache \<Rightarrow> real option \<times> 's ScalableCache" where
  "SC_PrintStat get c =
     (let ((hit, miss), ss) = sum_stats get (sc_shards c) 0 0
      in (if hit + miss \<noteq> 0 then Some (to_double hit / to_double (hit + miss)) else None, c\<lparr>sc_shards := ss\<rparr>))"

definition SC_PrintMissRatio ::
    "('s \<Rightarrow> (size_t \<times> size_t) \<times> 's) \<Rightarrow> 's ScalableCache \<Rightarrow> real \<times> 's ScalableCache" where
  "SC_PrintMissRatio get c =
     (let ((hit, miss), ss) = sum_stats get (sc_shards c) 0 0
      in (if hit + miss \<noteq> 0 then to_double miss / to_double (hit + miss) else 1, c\<lparr>sc_shards := ss\<rparr>))"

fun sum_frozen ::
    "('s \<Rightarrow> (size_t \<times> size_t \<times> size_t) \<times> 's) \<Rightarrow> 's list \<Rightarrow> size_t \<Rightarrow> size_t \<Rightarrow> size_t \<Rightarrow>
      (size_t \<times> size_t \<times> size_t) \<times> 's list" where
  "sum_frozen get [] fh oh miss = ((fh, oh, miss), [])"
| "sum_frozen get (s # ss) fh oh miss =
     (let ((f, p, m), s) = get s; (r, ss) = sum_frozen get ss (fh + f) (oh + p) (miss + m) in (r, s # ss))"

definition SC_PrintFrozenStat ::
    "('s \<Rightarrow> (size_t \<times> size_t \<times> size_t) \<times> 's) \<Rightarrow> 's ScalableCache \<Rightarrow> (real \<times> real) \<times> 's ScalableCache" where
  "SC_PrintFrozenStat get c =
     (let ((fh, oh, miss), ss) = sum_frozen get (sc_shards c) 0 0 0; tot = to_double (fh + oh + miss)
      in (if tot = 0 then (1, 1) else (1 - to_double fh / tot, to_double miss / tot), c\<lparr>sc_shards := ss\<rparr>))"

section \<open>The shard sizes\<close>

lemma unat_shard_size:
  assumes "n \<noteq> 0"
  shows "unat (shard_size maxSize n i) = unat maxSize div unat n + (if unat i < unat maxSize mod unat n then 1 else 0)"
proof -
  have "unat maxSize div unat n + 1 < 2 ^ 64" if "0 < unat maxSize mod unat n"
  proof -
    have "unat n \<noteq> 0" "unat n \<noteq> 1" using assms that by (auto simp: unat_eq_zero)
    then have "2 \<le> unat n" by linarith
    then have "unat maxSize div unat n \<le> unat maxSize div 2" by (rule div_le_mono2 [rotated]) simp
    also have "\<dots> < 2 ^ 63" using unsigned_less [of maxSize, where ?'a = nat] by simp
    finally show ?thesis by simp
  qed
  then show ?thesis
    by (auto simp: shard_size_def Let_def word_less_nat_alt unat_div unat_mod unat_word_ariths)
qed

text \<open>Handing out a quotient and one more to the first \<open>m mod n\<close> shards distributes everything.\<close>

lemma distribute:
  fixes m n :: nat
  assumes "0 < n"
  shows "(\<Sum>i \<leftarrow> [0..<n]. m div n + (if i < m mod n then 1 else 0)) = m"
proof -
  have "(\<Sum>i \<leftarrow> [0..<n]. m div n + (if i < m mod n then 1 else 0)) = n * (m div n) + (\<Sum>i = 0..<n. if i < m mod n then 1 else 0)"
    by (simp only: sum_list_addf) (simp add: sum_list_triv interv_sum_list_conv_sum_set_nat)
  also have "(\<Sum>i = 0..<n. if i < m mod n then 1 else 0) = card {i \<in> {0..<n}. i < m mod n}"
    by (simp add: sum.If_cases Int_def)
  also have "{i \<in> {0..<n}. i < m mod n} = {0..<m mod n}"
    using mod_less_divisor [OF assms, of m] by auto
  finally show ?thesis by simp
qed

section \<open>A sharded cache is a cache\<close>

text \<open>
  The contents of a sharded cache: every shard holds a map of its own, whose keys are those that
  select the shard; a key is looked up in the map of its shard.
\<close>

definition shard_of :: "(size_t \<Rightarrow> size_t) \<Rightarrow> 's ScalableCache \<Rightarrow> size_t \<Rightarrow> nat" where
  "shard_of hash c k = unat (shard_index hash (sc_numShards c) k)"

definition SC_holds ::
    "(size_t \<Rightarrow> size_t) \<Rightarrow> ('s \<Rightarrow> (size_t \<rightharpoonup> 'v) \<Rightarrow> bool) \<Rightarrow> ('s \<Rightarrow> nat) \<Rightarrow> 's ScalableCache \<Rightarrow> (size_t \<rightharpoonup> 'v) \<Rightarrow> bool" where
  "SC_holds hash holds cap c m \<longleftrightarrow>
     length (sc_shards c) = unat (sc_numShards c) \<and> sc_numShards c \<noteq> 0 \<and> sum_list (map cap (sc_shards c)) < 2 ^ 64 \<and>
     (\<exists>ms. length ms = length (sc_shards c) \<and>
       (\<forall>i < length ms. holds (sc_shards c ! i) (ms ! i) \<and> (\<forall>k \<in> dom (ms ! i). shard_of hash c k = i)) \<and>
       m = (\<lambda>k. (ms ! shard_of hash c k) k))"

definition SC_cap :: "('s \<Rightarrow> nat) \<Rightarrow> 's ScalableCache \<Rightarrow> nat" where
  "SC_cap cap c = sum_list (map cap (sc_shards c))"

lemma shard_of_less: "sc_numShards c \<noteq> 0 \<Longrightarrow> shard_of hash c k < unat (sc_numShards c)"
  by (simp add: shard_of_def shard_index_def unat_mod word_neq_0_conv [symmetric] unat_gt_0)

lemma SC_holdsE:
  assumes "SC_holds hash holds cap c m"
  obtains ms where "length (sc_shards c) = unat (sc_numShards c)" "sc_numShards c \<noteq> 0" "sum_list (map cap (sc_shards c)) < 2 ^ 64"
    "length ms = length (sc_shards c)" "\<And>i. i < length ms \<Longrightarrow> holds (sc_shards c ! i) (ms ! i)"
    "\<And>i k. i < length ms \<Longrightarrow> k \<in> dom (ms ! i) \<Longrightarrow> shard_of hash c k = i" "m = (\<lambda>k. (ms ! shard_of hash c k) k)"
    "\<And>k. shard_of hash c k < length ms" "\<And>k. getShard hash c k = Inr (shard_of hash c k, sc_shards c ! shard_of hash c k)"
proof -
  from assms obtain ms where ms: "length (sc_shards c) = unat (sc_numShards c)" "sc_numShards c \<noteq> 0"
    "sum_list (map cap (sc_shards c)) < 2 ^ 64" "length ms = length (sc_shards c)"
    "\<forall>i < length ms. holds (sc_shards c ! i) (ms ! i) \<and> (\<forall>k \<in> dom (ms ! i). shard_of hash c k = i)"
    "m = (\<lambda>k. (ms ! shard_of hash c k) k)" by (auto simp: SC_holds_def)
  have l: "shard_of hash c k < length ms" for k using shard_of_less [OF ms(2)] ms(1,4) by simp
  then have "getShard hash c k = Inr (shard_of hash c k, sc_shards c ! shard_of hash c k)" for k
    using ms(2,4) by (simp add: getShard_def Let_def shard_of_def)
  with ms l show ?thesis by (intro that [of ms]) blast+
qed

lemma shard_of_put [simp]: "shard_of hash (put_shard c i s) k = shard_of hash c k"
  by (simp add: shard_of_def put_shard_def)

text \<open>Replacing one shard and its map.\<close>

lemma SC_holds_put:
  assumes h: "SC_holds hash holds cap c (\<lambda>k. (ms ! shard_of hash c k) k)"
    and ms: "length ms = length (sc_shards c)" "\<And>i. i < length ms \<Longrightarrow> holds (sc_shards c ! i) (ms ! i)"
      "\<And>i k. i < length ms \<Longrightarrow> k \<in> dom (ms ! i) \<Longrightarrow> shard_of hash c k = i"
    and i: "i < length ms" "holds s mi" "\<And>k. k \<in> dom mi \<Longrightarrow> shard_of hash c k = i" "cap s = cap (sc_shards c ! i)"
  shows "SC_holds hash holds cap (put_shard c i s) (\<lambda>k. ((ms[i := mi]) ! shard_of hash c k) k)"
    "SC_cap cap (put_shard c i s) = SC_cap cap c"
proof -
  have "map cap ((sc_shards c)[i := s]) = map cap (sc_shards c)"
    using i(1,4) ms(1) by (simp add: map_update list_update_same_conv)
  then have c: "sum_list (map cap (sc_shards (put_shard c i s))) = sum_list (map cap (sc_shards c))"
    by (simp add: put_shard_def)
  then show "SC_cap cap (put_shard c i s) = SC_cap cap c" by (simp add: SC_cap_def)
  have b: "length (sc_shards c) = unat (sc_numShards c)" "sc_numShards c \<noteq> 0" "sum_list (map cap (sc_shards c)) < 2 ^ 64"
    using h by (auto simp: SC_holds_def)
  have j: "holds (sc_shards (put_shard c i s) ! j) (ms[i := mi] ! j) \<and> (\<forall>k \<in> dom (ms[i := mi] ! j). shard_of hash c k = j)"
    if "j < length ms" for j
    using that i ms by (cases "j = i") (auto simp: put_shard_def)
  show "SC_holds hash holds cap (put_shard c i s) (\<lambda>k. ((ms[i := mi]) ! shard_of hash c k) k)"
    unfolding SC_holds_def shard_of_put c using b ms(1) j
    by (intro conjI exI [of _ "ms[i := mi]"]) (simp_all add: put_shard_def)
qed

locale sharded = deletable_cache A holds cap
  for A :: "('e, 's, 'v) CacheAPI" and holds :: "'s \<Rightarrow> (size_t \<rightharpoonup> 'v) \<Rightarrow> bool" and cap :: "'s \<Rightarrow> nat" +
  fixes hash :: "size_t \<Rightarrow> size_t"
begin

text \<open>A call on the shard of \<open>k\<close> that turns its map \<open>mi\<close> into \<open>mi'\<close> changes the whole map only there.\<close>

lemma on_shard:
  assumes h: "SC_holds hash holds cap c m"
  obtains s mi where "getShard hash c k = Inr (shard_of hash c k, s)" "holds s mi"
    "\<And>j. shard_of hash c j = shard_of hash c k \<Longrightarrow> mi j = m j"
    "\<And>s' mi'. holds s' mi' \<Longrightarrow> cap s' = cap s \<Longrightarrow> dom mi' \<subseteq> insert k (dom mi) \<Longrightarrow>
      SC_holds hash holds cap (put_shard c (shard_of hash c k) s')
        (\<lambda>j. if shard_of hash c j = shard_of hash c k then mi' j else m j) \<and>
      SC_cap cap (put_shard c (shard_of hash c k) s') = SC_cap cap c"
proof -
  obtain ms where ms: "length ms = length (sc_shards c)" "\<And>i. i < length ms \<Longrightarrow> holds (sc_shards c ! i) (ms ! i)"
    "\<And>i k. i < length ms \<Longrightarrow> k \<in> dom (ms ! i) \<Longrightarrow> shard_of hash c k = i" "m = (\<lambda>k. (ms ! shard_of hash c k) k)"
    "\<And>k. shard_of hash c k < length ms" "\<And>k. getShard hash c k = Inr (shard_of hash c k, sc_shards c ! shard_of hash c k)"
    by (rule SC_holdsE [OF h]) blast
  let ?i = "shard_of hash c k"
  have put: "SC_holds hash holds cap (put_shard c ?i s') (\<lambda>j. if shard_of hash c j = ?i then mi' j else m j) \<and>
      SC_cap cap (put_shard c ?i s') = SC_cap cap c"
    if s': "holds s' mi'" "cap s' = cap (sc_shards c ! ?i)" "dom mi' \<subseteq> insert k (dom (ms ! ?i))" for s' mi'
  proof -
    have d: "shard_of hash c j = ?i" if "j \<in> dom mi'" for j
    proof (cases "j = k")
      case False
      then have "j \<in> dom (ms ! ?i)" using s'(3) that by auto
      then show ?thesis by (rule ms(3) [OF ms(5)])
    qed simp
    have e: "(\<lambda>j. if shard_of hash c j = ?i then mi' j else m j) = (\<lambda>j. ((ms[?i := mi']) ! shard_of hash c j) j)"
      using ms(4,5) by (auto simp: fun_eq_iff nth_list_update)
    show ?thesis unfolding e
      using SC_holds_put [OF h [unfolded ms(4)] ms(1-3) ms(5) s'(1) d s'(2)] by blast
  qed
  show ?thesis
    by (rule that [OF ms(6) ms(2) [OF ms(5)] _ put]) (simp_all add: ms(4))
qed

lemma SC_find_map:
  assumes h: "SC_holds hash holds cap c m"
  shows "\<exists>c'. SC_find hash A e c k = Inr (m k, c') \<and> SC_holds hash holds cap c' m \<and> SC_cap cap c' = SC_cap cap c"
proof -
  let ?i = "shard_of hash c k"
  obtain s mi where g: "getShard hash c k = Inr (?i, s)" "holds s mi" and mi: "\<And>j. shard_of hash c j = ?i \<Longrightarrow> mi j = m j"
    and put: "\<And>s' mi'. holds s' mi' \<Longrightarrow> cap s' = cap s \<Longrightarrow> dom mi' \<subseteq> insert k (dom mi) \<Longrightarrow>
      SC_holds hash holds cap (put_shard c ?i s') (\<lambda>j. if shard_of hash c j = ?i then mi' j else m j) \<and>
      SC_cap cap (put_shard c ?i s') = SC_cap cap c"
    by (rule on_shard [OF h, of k]) blast
  obtain s' where s': "api_find A e s k = Inr (mi k, s')" "holds s' mi" "cap s' = cap s" using find_map [OF g(2), of e k] by blast
  have "(\<lambda>j. if shard_of hash c j = ?i then mi j else m j) = m" using mi by auto
  with put [OF s'(2,3)] g(1) s'(1) mi show ?thesis by (auto simp: SC_find_def)
qed

lemma SC_delete_map:
  assumes h: "SC_holds hash holds cap c m"
  shows "\<exists>c'. SC_delete_key hash A c k = Inr c' \<and> SC_holds hash holds cap c' (m(k := None)) \<and> SC_cap cap c' = SC_cap cap c"
proof -
  let ?i = "shard_of hash c k"
  obtain s mi where g: "getShard hash c k = Inr (?i, s)" "holds s mi" and mi: "\<And>j. shard_of hash c j = ?i \<Longrightarrow> mi j = m j"
    and put: "\<And>s' mi'. holds s' mi' \<Longrightarrow> cap s' = cap s \<Longrightarrow> dom mi' \<subseteq> insert k (dom mi) \<Longrightarrow>
      SC_holds hash holds cap (put_shard c ?i s') (\<lambda>j. if shard_of hash c j = ?i then mi' j else m j) \<and>
      SC_cap cap (put_shard c ?i s') = SC_cap cap c"
    by (rule on_shard [OF h, of k]) blast
  obtain s' where s': "api_delete_key A s k = Inr s'" "holds s' (mi(k := None))" "cap s' = cap s"
    using delete_map [OF g(2), of k] by blast
  have "(\<lambda>j. if shard_of hash c j = ?i then (mi(k := None)) j else m j) = m(k := None)" using mi by auto
  with put [OF s'(2,3)] g(1) s'(1) show ?thesis by (auto simp: SC_delete_key_def)
qed

lemma SC_insert_map:
  assumes h: "SC_holds hash holds cap c m"
  shows "\<exists>c' m'. SC_insert hash A e c k v = Inr (m k = None, c') \<and> SC_holds hash holds cap c' m' \<and>
    SC_cap cap c' = SC_cap cap c \<and> (if m k = None then m' \<subseteq>\<^sub>m m(k \<mapsto> v) else m' = m)"
proof -
  let ?i = "shard_of hash c k"
  obtain s mi where g: "getShard hash c k = Inr (?i, s)" "holds s mi" and mi: "\<And>j. shard_of hash c j = ?i \<Longrightarrow> mi j = m j"
    and put: "\<And>s' mi'. holds s' mi' \<Longrightarrow> cap s' = cap s \<Longrightarrow> dom mi' \<subseteq> insert k (dom mi) \<Longrightarrow>
      SC_holds hash holds cap (put_shard c ?i s') (\<lambda>j. if shard_of hash c j = ?i then mi' j else m j) \<and>
      SC_cap cap (put_shard c ?i s') = SC_cap cap c"
    by (rule on_shard [OF h, of k]) blast
  show ?thesis
  proof (cases "m k = None")
    case True
    then obtain s' mi' where s': "api_insert A e s k v = Inr (True, s')" "holds s' mi'" "mi' \<subseteq>\<^sub>m mi(k \<mapsto> v)" "cap s' = cap s"
      using insert_absent [OF g(2), of k e v] mi by auto
    have "dom mi' \<subseteq> insert k (dom mi)" using map_le_implies_dom_le [OF s'(3)] by auto
    note p = put [OF s'(2,4) this]
    have "(\<lambda>j. if shard_of hash c j = ?i then mi' j else m j) \<subseteq>\<^sub>m m(k \<mapsto> v)"
      using s'(3) mi unfolding map_le_def by (auto simp: dom_def split: if_splits)
    with p g(1) s'(1) True show ?thesis by (auto simp: SC_insert_def)
  next
    case False
    then obtain s' where s': "api_insert A e s k v = Inr (False, s')" "holds s' mi" "cap s' = cap s"
      using insert_present [OF g(2), of k e v] mi by auto
    have "(\<lambda>j. if shard_of hash c j = ?i then mi j else m j) = m" using mi by auto
    with put [OF s'(2,3)] g(1) s'(1) False show ?thesis by (auto simp: SC_insert_def)
  qed
qed

text \<open>The shards' keys one after the other; \<open>f\<close> is the shard of a key.\<close>

lemma snapshot_shards:
  assumes "list_all2 holds ss ms" "\<And>i k. i < length ms \<Longrightarrow> k \<in> dom (ms ! i) \<Longrightarrow> f k = n + i"
  shows "\<exists>ks'. snapshot_shards A ss ks = Some (Inr (ks @ ks')) \<and> distinct ks' \<and>
    set ks' = (\<Union>m \<in> set ms. dom m) \<and> length ks' = (\<Sum>m \<leftarrow> ms. card (dom m)) \<and> (\<forall>k \<in> set ks'. n \<le> f k)"
  using assms
proof (induction ss ms arbitrary: ks n rule: list_all2_induct)
  case (Cons s ss m ms)
  obtain k1 where k1: "api_snapshotKeys A s ks = Some (Inr (ks @ k1))" "distinct k1" "set k1 = dom m"
    using snapshot_map [OF Cons(1), of ks] by blast
  obtain k2 where k2: "snapshot_shards A ss (ks @ k1) = Some (Inr ((ks @ k1) @ k2))" "distinct k2"
    "set k2 = (\<Union>m \<in> set ms. dom m)" "length k2 = (\<Sum>m \<leftarrow> ms. card (dom m))" "\<forall>k \<in> set k2. Suc n \<le> f k"
    using Cons.IH [of "Suc n" "ks @ k1"] Cons.prems [of "Suc _"] by auto
  have "f k = n" if "k \<in> set k1" for k using Cons.prems [of 0 k] that k1(3) by auto
  then have "set k1 \<inter> set k2 = {}" "\<forall>k \<in> set k1 \<union> set k2. n \<le> f k" using k2(5) by fastforce+
  with k1 k2 show ?case
    by (intro exI [of _ "k1 @ k2"]) (auto simp: distinct_card [symmetric] p_bind_def)
qed simp

lemma size_shards:
  assumes "list_all2 holds ss ms" "unat n + sum_list (map cap ss) < 2 ^ 64"
  shows "unat (fold (\<lambda>s size. size + api_size A s) ss n) = unat n + (\<Sum>m \<leftarrow> ms. card (dom m)) \<and>
    (\<Sum>m \<leftarrow> ms. card (dom m)) \<le> sum_list (map cap ss)"
  using assms
proof (induction ss ms arbitrary: n rule: list_all2_induct)
  case (Cons s ss m ms)
  note l = size_map [OF Cons(1)]
  then have "unat (n + api_size A s) = unat n + card (dom m)" using Cons.prems by (subst unat_add_lem [THEN iffD1]) auto
  with Cons.IH [of "n + api_size A s"] Cons.prems l show ?case by simp
qed simp

lemma SC_contents:
  assumes "SC_holds hash holds cap c m"
  obtains ms where "list_all2 holds (sc_shards c) ms" "\<And>i k. i < length ms \<Longrightarrow> k \<in> dom (ms ! i) \<Longrightarrow> shard_of hash c k = 0 + i"
    "dom m = (\<Union>m \<in> set ms. dom m)" "sum_list (map cap (sc_shards c)) < 2 ^ 64"
proof -
  obtain ms where ms: "sum_list (map cap (sc_shards c)) < 2 ^ 64"
    "length ms = length (sc_shards c)" "\<And>i. i < length ms \<Longrightarrow> holds (sc_shards c ! i) (ms ! i)"
    "\<And>i k. i < length ms \<Longrightarrow> k \<in> dom (ms ! i) \<Longrightarrow> shard_of hash c k = i" "m = (\<lambda>k. (ms ! shard_of hash c k) k)"
    "\<And>k. shard_of hash c k < length ms" by (rule SC_holdsE [OF assms]) blast
  have "dom m = (\<Union>m \<in> set ms. dom m)"
  proof (intro set_eqI iffI)
    fix k assume "k \<in> dom m"
    then have "k \<in> dom (ms ! shard_of hash c k)" by (simp add: ms(5) dom_def)
    then show "k \<in> (\<Union>m \<in> set ms. dom m)" using ms(6) [of k] by (meson UN_iff nth_mem)
  next
    fix k assume "k \<in> (\<Union>m \<in> set ms. dom m)"
    then obtain i where "i < length ms" "k \<in> dom (ms ! i)" by (metis UN_iff in_set_conv_nth)
    with ms(4) [OF this] show "k \<in> dom m" by (simp add: ms(5) dom_def)
  qed
  with ms show ?thesis by (intro that [of ms]) (auto simp: list_all2_conv_all_nth)
qed

lemma SC_snapshot_map:
  assumes "SC_holds hash holds cap c m"
  shows "\<exists>ks'. SC_snapshotKeys A c ks = Some (Inr (ks @ ks')) \<and> distinct ks' \<and> set ks' = dom m"
proof -
  obtain ms where ms: "list_all2 holds (sc_shards c) ms" "\<And>i k. i < length ms \<Longrightarrow> k \<in> dom (ms ! i) \<Longrightarrow> shard_of hash c k = 0 + i"
    "dom m = (\<Union>m \<in> set ms. dom m)" "sum_list (map cap (sc_shards c)) < 2 ^ 64" by (rule SC_contents [OF assms]) blast
  from snapshot_shards [where f = "shard_of hash c" and n = 0, OF ms(1,2), where ks = ks] show ?thesis unfolding SC_snapshotKeys_def ms(3) by blast
qed

lemma SC_size_map:
  assumes "SC_holds hash holds cap c m"
  shows "finite (dom m) \<and> unat (SC_Size A c) = card (dom m) \<and> card (dom m) \<le> SC_cap cap c"
proof -
  obtain ms where ms: "list_all2 holds (sc_shards c) ms" "\<And>i k. i < length ms \<Longrightarrow> k \<in> dom (ms ! i) \<Longrightarrow> shard_of hash c k = 0 + i"
    "dom m = (\<Union>m \<in> set ms. dom m)" "sum_list (map cap (sc_shards c)) < 2 ^ 64" by (rule SC_contents [OF assms]) blast
  obtain ks' where "distinct ks'" "set ks' = dom m" "length ks' = (\<Sum>m \<leftarrow> ms. card (dom m))"
    using snapshot_shards [where f = "shard_of hash c" and n = 0, OF ms(1,2), where ks = "[]"] unfolding ms(3) by blast
  then have "card (dom m) = (\<Sum>m \<leftarrow> ms. card (dom m))" "finite (dom m)" by (metis distinct_card, metis List.finite_set)
  with size_shards [OF ms(1), of 0] ms(4) show ?thesis by (simp add: SC_Size_def SC_cap_def)
qed

end

sublocale sharded \<subseteq> sc: deletable_cache "SC_ops hash A" "SC_holds hash holds cap" "SC_cap cap"
proof
  fix c m e k v ks
  assume h: "SC_holds hash holds cap c m"
  show "\<exists>c'. api_find (SC_ops hash A) e c k = Inr (m k, c') \<and> SC_holds hash holds cap c' m \<and> SC_cap cap c' = SC_cap cap c"
    using SC_find_map [OF h] by (simp add: SC_ops_def)
  show "\<exists>c'. api_delete_key (SC_ops hash A) c k = Inr c' \<and> SC_holds hash holds cap c' (m(k := None)) \<and> SC_cap cap c' = SC_cap cap c"
    using SC_delete_map [OF h] by (simp add: SC_ops_def)
  show "\<exists>c' m'. api_clear (SC_ops hash A) c = Some (Inr c') \<and> SC_holds hash holds cap c' m' \<and> m' \<subseteq>\<^sub>m m \<and> SC_cap cap c' = SC_cap cap c"
    using h by (auto simp: SC_ops_def SC_clear_def)
  show "\<exists>ks'. api_snapshotKeys (SC_ops hash A) c ks = Some (Inr (ks @ ks')) \<and> distinct ks' \<and> set ks' = dom m"
    using SC_snapshot_map [OF h] by (simp add: SC_ops_def)
  show "finite (dom m) \<and> unat (api_size (SC_ops hash A) c) = card (dom m) \<and> card (dom m) \<le> SC_cap cap c"
    using SC_size_map [OF h] by (simp add: SC_ops_def)
  show "\<exists>c'. api_insert (SC_ops hash A) e c k v = Inr (False, c') \<and> SC_holds hash holds cap c' m \<and> SC_cap cap c' = SC_cap cap c"
    if "m k \<noteq> None" using SC_insert_map [OF h, of e k v] that by (auto simp: SC_ops_def)
  show "\<exists>c' m'. api_insert (SC_ops hash A) e c k v = Inr (True, c') \<and> SC_holds hash holds cap c' m' \<and> m' \<subseteq>\<^sub>m m(k \<mapsto> v) \<and>
      SC_cap cap c' = SC_cap cap c"
    if "m k = None" using SC_insert_map [OF h, of e k v] that by (auto simp: SC_ops_def)
qed

end
