(* ===== verification/Scalable_LRU.thy ===== *)
theory Scalable_LRU
  imports Scalable_Cache LRU_Cache
begin

text \<open>
  A sharded cache whose shards are the LRU caches of \<open>LRU_Cache\<close>, as the drivers build it: the
  constructor yields a cache that satisfies the contract of \<open>Cache_API\<close>, with the shards' capacities
  adding up to the requested one.
\<close>

lemma unat_shard_size_pos:
  assumes "n \<noteq> 0" "n \<le> maxSize"
  shows "0 < unat (shard_size maxSize n i)"
  using assms unat_shard_size [OF assms(1), of maxSize i] by (simp add: word_le_nat_alt div_greater_zero_iff unat_gt_0)

context sharded
begin

lemma SC_holds_new:
  assumes n: "n = (if numShards = 0 then hw else numShards)" "n \<noteq> 0"
    and f: "\<not> needs_rebuild ty \<or> freq > 0"
    and mk: "\<And>i. i < unat n \<Longrightarrow>
      holds (mk (shard_size maxSize n (of_nat i))) Map.empty \<and> cap (mk (shard_size maxSize n (of_nat i))) = unat (shard_size maxSize n (of_nat i))"
  shows "\<exists>c. ScalableCache_new mk hw maxSize numShards ty freq = Inr c \<and> SC_holds hash holds cap c Map.empty \<and> SC_cap cap c = unat maxSize"
proof -
  let ?ss = "map (\<lambda>i. mk (shard_size maxSize n (of_nat i))) [0..<unat n]"
  let ?c = "\<lparr>sc_maxSize = maxSize, sc_numShards = n, sc_shards = ?ss, algType = ty, FROZEN_THRESHOLD = freq\<rparr>"
  have "unat (of_nat i :: size_t) = i" if "i < unat n" for i
    using that unsigned_less [of n, where ?'a = nat] by (simp add: unsigned_of_nat take_bit_nat_eq_self)
  then have "map cap ?ss = map (\<lambda>i. unat maxSize div unat n + (if i < unat maxSize mod unat n then 1 else 0)) [0..<unat n]"
    using mk unat_shard_size [OF n(2)] by simp
  then have s: "sum_list (map cap ?ss) = unat maxSize"
    using distribute [of "unat n" "unat maxSize"] n(2) by (simp only: unat_gt_0 simp_thms)
  have "SC_holds hash holds cap ?c Map.empty" unfolding SC_holds_def
    using mk n(2) unsigned_less [of maxSize, where ?'a = nat] s
      shard_of_less [of ?c]
    by (auto intro!: exI [of _ "replicate (unat n) Map.empty"])
  with n f s show ?thesis by (auto simp: ScalableCache_new_def Let_def SC_cap_def)
qed

end

locale sharded_table = cache_table H for H :: "('v, 'm) table" +
  fixes hash :: "size_t \<Rightarrow> size_t"

sublocale sharded_table \<subseteq> shards: sharded "LRUCache_ops H" "as_map (LRU_repr H)" "\<lambda>c. unat (m_maxSize c)" hash
  by unfold_locales

interpretation fun_sharded: sharded_table fun_chm "\<lambda>k. k"
  by unfold_locales

context sharded_table
begin

lemma SC_run_new:
  assumes "n = (if numShards = 0 then hw else numShards)" "n \<noteq> 0" "n \<le> maxSize"
  shows "\<exists>c outs c'. ScalableCache_new (LRUCache_new H junk) hw maxSize numShards LRU freq = Inr c \<and>
    api_run (SC_ops hash (LRUCache_ops H)) cs c = Some (Inr (outs, c')) \<and> coherent (unat maxSize) Map.empty cs outs"
proof -
  have e: "as_map (LRU_repr H) (LRUCache_new H junk s) Map.empty" if "0 < unat s" for s
    unfolding as_map_def by (rule exI [of _ "[]"]) (simp add: LRU_repr_new [OF that])
  obtain c where c: "ScalableCache_new (LRUCache_new H junk) hw maxSize numShards LRU freq = Inr c"
    "SC_holds hash (as_map (LRU_repr H)) (\<lambda>c. unat (m_maxSize c)) c Map.empty"
    "SC_cap (\<lambda>c. unat (m_maxSize c)) c = unat maxSize"
    using shards.SC_holds_new [OF assms(1,2), of LRU freq "LRUCache_new H junk" maxSize] e
      unat_shard_size_pos [OF assms(2,3)] by (auto simp: needs_rebuild_def)
  from shards.sc.run_coherent [OF c(2) map_le_refl, of cs] c show ?thesis by auto
qed

end

text \<open>
  C7. The sharded LRU cache, with at least one shard and no more shards than its capacity: every
  sequence of calls returns without an error; a lookup returns only the value stored last and not
  deleted since, an insertion is refused only for a key that was stored, the key snapshot lists
  distinct stored keys, and the size never exceeds the capacity asked for, whatever the hash function.
\<close>

theorem ScalableCache_coherent:
  assumes "concurrent_hash_map H" "n = (if numShards = 0 then hw else numShards)" "n \<noteq> 0" "n \<le> maxSize"
  shows "\<exists>c outs c'. ScalableCache_new (LRUCache_new H junk) hw maxSize numShards LRU freq = Inr c \<and>
    api_run (SC_ops hash (LRUCache_ops H)) cs c = Some (Inr (outs, c')) \<and> coherent (unat maxSize) Map.empty cs outs"
proof -
  have "sharded_table H" using cache_tableI [OF assms(1)] by (simp add: sharded_table_def)
  from sharded_table.SC_run_new [OF this assms(2-)] show ?thesis .
qed

theorem ScalableCache_coherent_witness:
  "\<exists>c outs c'. ScalableCache_new (LRUCache_new fun_chm 0) 8 5 2 LRU 0 = Inr c \<and>
    api_run (SC_ops (\<lambda>k. push_bit 48 k) (LRUCache_ops fun_chm))
      [Insert (True, False) 1 ''a'', Insert (True, False) 2 ''b'', Find (True, True) 2, Delete 2, Find (True, True) 2] c =
      Some (Inr (outs, c')) \<and>
    coherent 5 Map.empty
      [Insert (True, False) 1 ''a'', Insert (True, False) 2 ''b'', Find (True, True) 2, Delete 2, Find (True, True) 2] outs"
proof -
  have p: "(2 :: size_t) = (if 2 = (0 :: size_t) then 8 else 2)" "(2 :: size_t) \<noteq> 0" "(2 :: size_t) \<le> 5" by simp_all
  have u: "unat (5 :: size_t) = 5" by simp
  show ?thesis by (rule ScalableCache_coherent [OF fun_table.concurrent_hash_map_axioms p, unfolded u])
qed

text \<open>
  The shard sizes the constructor hands out add up to the requested capacity, without a wrap,
  and any two of them differ by at most one.
\<close>

theorem shard_sizes_sum:
  assumes "n \<noteq> 0"
  shows "(\<Sum>i \<leftarrow> [0..<unat n]. unat (shard_size maxSize n (of_nat i))) = unat maxSize \<and>
    unat (shard_size maxSize n i) \<le> unat (shard_size maxSize n j) + 1"
proof -
  have "unat (of_nat i :: size_t) = i" if "i < unat n" for i
    using that unsigned_less [of n, where ?'a = nat] by (simp add: unsigned_of_nat take_bit_nat_eq_self)
  then have "map (\<lambda>i. unat (shard_size maxSize n (of_nat i))) [0..<unat n] =
      map (\<lambda>i. unat maxSize div unat n + (if i < unat maxSize mod unat n then 1 else 0)) [0..<unat n]"
    using unat_shard_size [OF assms] by simp
  then have "(\<Sum>i \<leftarrow> [0..<unat n]. unat (shard_size maxSize n (of_nat i))) = unat maxSize"
    using distribute [of "unat n" "unat maxSize"] assms by (simp only: unat_gt_0 simp_thms)
  with unat_shard_size [OF assms, of maxSize] show ?thesis by simp
qed

theorem shard_sizes_sum_witness:
  "(\<Sum>i \<leftarrow> [0..<unat (3 :: size_t)]. unat (shard_size 11 3 (of_nat i))) = unat (11 :: size_t) \<and>
    unat (shard_size 11 3 0) \<le> unat (shard_size 11 3 2) + 1"
  by (rule shard_sizes_sum) simp

end
