(* ===== verification/Codec.thy ===== *)
theory Codec
  imports Prelude
begin

text \<open>
  The fixed-width encoding of \<^verbatim>\<open>src/ssdlogging/util.h\<close>: \<open>EncodeFixed32\<close>, \<open>DecodeFixed32\<close>,
  \<open>EncodeFixed64\<close> and \<open>DecodeFixed64\<close>. A buffer is the list of the bytes from the pointer on; an
  access behind its end is an error. \<open>memcpy\<close> from and to an integer moves its bytes in the order of
  the little-endian machine the code is compiled for; the branch for \<open>kLittleEndian = false\<close> spells
  that order out. The constant \<open>kLittleEndian\<close> is the argument \<open>little\<close>. The lemmas show that both branches agree and that decoding inverts encoding.
\<close>

unbundle bit_operations_syntax

text \<open>The bytes of an integer in memory, least significant first, and the integer they make up.\<close>

definition word_bytes :: "nat \<Rightarrow> 'a::len word \<Rightarrow> byte list" where
  "word_bytes n v = map (\<lambda>i. ucast (drop_bit (8 * i) v)) [0..<n]"

fun bytes_word :: "byte list \<Rightarrow> 'a::len word" where
  "bytes_word [] = 0"
| "bytes_word (b # bs) = ucast b OR push_bit 8 (bytes_word bs)"

text \<open>Writing bytes to the front of a buffer.\<close>

definition put_bytes :: "byte list \<Rightarrow> byte list \<Rightarrow> byte list result" where
  "put_bytes buf bs = (if length bs \<le> length buf then Inr (bs @ drop (length bs) buf) else Inl OutOfRange)"

definition get_bytes :: "byte list \<Rightarrow> nat \<Rightarrow> byte list result" where
  "get_bytes buf n = (if n \<le> length buf then Inr (take n buf) else Inl OutOfRange)"

section \<open>The routines\<close>

definition EncodeFixed32 :: "bool \<Rightarrow> byte list \<Rightarrow> uint32 \<Rightarrow> byte list result" where
  "EncodeFixed32 little buf value =
     (if little then put_bytes buf (word_bytes 4 value)
      else put_bytes buf [ucast (value AND 0xff), ucast (drop_bit 8 value AND 0xff),
        ucast (drop_bit 16 value AND 0xff), ucast (drop_bit 24 value AND 0xff)])"

definition DecodeFixed32 :: "bool \<Rightarrow> byte list \<Rightarrow> uint32 result" where
  "DecodeFixed32 little ptr =
     r_bind (get_bytes ptr 4) (\<lambda>b.
     if little then Inr (bytes_word b)
     else Inr (ucast (b ! 0) OR push_bit 8 (ucast (b ! 1)) OR push_bit 16 (ucast (b ! 2)) OR push_bit 24 (ucast (b ! 3))))"

definition EncodeFixed64 :: "bool \<Rightarrow> byte list \<Rightarrow> uint64 \<Rightarrow> byte list result" where
  "EncodeFixed64 little buf value =
     (if little then put_bytes buf (word_bytes 8 value)
      else put_bytes buf [ucast (value AND 0xff), ucast (drop_bit 8 value AND 0xff),
        ucast (drop_bit 16 value AND 0xff), ucast (drop_bit 24 value AND 0xff),
        ucast (drop_bit 32 value AND 0xff), ucast (drop_bit 40 value AND 0xff),
        ucast (drop_bit 48 value AND 0xff), ucast (drop_bit 56 value AND 0xff)])"

definition DecodeFixed64 :: "bool \<Rightarrow> byte list \<Rightarrow> uint64 result" where
  "DecodeFixed64 little ptr =
     (if little then r_bind (get_bytes ptr 8) (\<lambda>b. Inr (bytes_word b))
      else
        r_bind (DecodeFixed32 little ptr) (\<lambda>lo.
        r_bind (DecodeFixed32 little (drop 4 ptr)) (\<lambda>hi.
        Inr (push_bit 32 (ucast hi) OR ucast lo))))"

section \<open>Both branches\<close>

lemma word_bytes_length [simp]: "length (word_bytes n v) = n"
  by (simp add: word_bytes_def)

lemma bit_bytes_word:
  "bit (bytes_word bs :: 'a::len word) i \<longleftrightarrow> i < LENGTH('a) \<and> i < 8 * length bs \<and> bit (bs ! (i div 8)) (i mod 8)"
proof (induction bs arbitrary: i)
  case (Cons b bs)
  show ?case
  proof (cases "i < 8")
    case True
    then show ?thesis by (auto simp: bit_or_iff bit_push_bit_iff bit_ucast_iff)
  next
    case False
    then have "i div 8 = Suc ((i - 8) div 8)" "i mod 8 = (i - 8) mod 8" by presburger+
    moreover have "\<not> bit b i" using False by (auto dest: bit_imp_le_length)
    ultimately show ?thesis using Cons [of "i - 8"] False
      by (auto simp: bit_or_iff bit_push_bit_iff bit_ucast_iff)
  qed
qed simp

lemma bit_word_bytes:
  assumes "j < n" "i < 8"
  shows "bit (word_bytes n v ! j) i \<longleftrightarrow> bit v (8 * j + i)"
  using assms by (simp add: word_bytes_def bit_ucast_iff bit_drop_bit_eq)

lemma bytes_word_word_bytes:
  assumes "8 * n = LENGTH('a)"
  shows "bytes_word (word_bytes n v) = (v :: 'a::len word)"
proof (rule bit_word_eqI)
  fix i assume i: "i < LENGTH('a)"
  then have "i div 8 < n" using assms by linarith
  then show "bit (bytes_word (word_bytes n v) :: 'a word) i = bit v i"
    using i assms by (simp add: bit_bytes_word bit_word_bytes)
qed

lemma upt_4: "[0..<4] = [0, 1, 2, 3 :: nat]" and upt_8: "[0..<8] = [0, 1, 2, 3, 4, 5, 6, 7 :: nat]"
  by (simp_all add: upt_rec)

lemma ucast_mask_byte: "(ucast (v AND 0xff) :: byte) = ucast v"
proof (rule bit_word_eqI)
  fix i assume "i < LENGTH(8)"
  moreover have "bit (0xff :: 'a word) i \<longleftrightarrow> i < 8 \<and> i < LENGTH('a)"
  proof -
    have "(0xff :: 'a word) = mask 8" by (simp add: mask_eq_decr_exp)
    then show ?thesis by (simp only: bit_mask_iff possible_bit_word conj_commute)
  qed
  ultimately show "bit (ucast (v AND 0xff) :: byte) i = bit (ucast v :: byte) i"
    by (auto simp: bit_ucast_iff bit_and_iff dest: bit_imp_le_length)
qed

lemma Encode_branches:
  "EncodeFixed32 little buf v32 = put_bytes buf (word_bytes 4 v32)"
  "EncodeFixed64 little buf v64 = put_bytes buf (word_bytes 8 v64)"
  by (simp_all add: EncodeFixed32_def EncodeFixed64_def word_bytes_def upt_4 upt_8 ucast_mask_byte)

lemma take_4: "4 \<le> length b \<Longrightarrow> take 4 b = [b ! 0, b ! 1, b ! 2, b ! 3]"
  by (intro nth_equalityI) (auto simp: less_Suc_eq numeral_eq_Suc)

lemma bytes_word_append:
  "length as = n \<Longrightarrow> bytes_word (as @ bs) = (bytes_word as OR push_bit (8 * n) (bytes_word bs) :: 'a::len word)"
  by (induction as arbitrary: n) (auto simp: push_bit_push_bit or.assoc push_bit_or add.commute)

lemma Decode32_branches:
  "DecodeFixed32 little ptr = r_bind (get_bytes ptr 4) (\<lambda>b. Inr (bytes_word b))"
  by (auto simp: DecodeFixed32_def get_bytes_def take_4 push_bit_or push_bit_push_bit or.assoc)

lemma ucast_bytes_word:
  assumes "length bs = 4"
  shows "(ucast (bytes_word bs :: uint32) :: uint64) = bytes_word bs"
  by (rule bit_word_eqI) (use assms in \<open>auto simp: bit_ucast_iff bit_bytes_word\<close>)

lemma Decode64_branches:
  "DecodeFixed64 little ptr = r_bind (get_bytes ptr 8) (\<lambda>b. Inr (bytes_word b))"
proof (cases little)
  case False
  have "take 8 ptr = take 4 ptr @ take 4 (drop 4 ptr)" by (simp add: take_add [symmetric])
  with False show ?thesis
    by (auto simp: DecodeFixed64_def Decode32_branches get_bytes_def ucast_bytes_word bytes_word_append or.commute)
qed (simp add: DecodeFixed64_def)

text \<open>
  C31. Encoding a 64-bit or 32-bit value into a buffer that has room for it and decoding the buffer
  yields the value, in either branch of either routine; the rest of the buffer is unchanged.
\<close>

theorem Fixed_round_trip:
  assumes "8 \<le> length buf"
  shows "(\<exists>buf'. EncodeFixed64 little buf v = Inr buf' \<and> DecodeFixed64 little' buf' = Inr v \<and>
      length buf' = length buf \<and> drop 8 buf' = drop 8 buf) \<and>
    (\<exists>buf'. EncodeFixed32 little buf w = Inr buf' \<and> DecodeFixed32 little' buf' = Inr w \<and>
      length buf' = length buf \<and> drop 4 buf' = drop 4 buf)"
  using assms by (simp add: Encode_branches Decode64_branches Decode32_branches put_bytes_def get_bytes_def bytes_word_word_bytes)

theorem Fixed_round_trip_witness:
  "(\<exists>buf'. EncodeFixed64 True [0, 0, 0, 0, 0, 0, 0, 0, 7] 258 = Inr buf' \<and> DecodeFixed64 False buf' = Inr 258 \<and>
      length buf' = length [0, 0, 0, 0, 0, 0, 0, 0, 7 :: byte] \<and> drop 8 buf' = drop 8 [0, 0, 0, 0, 0, 0, 0, 0, 7]) \<and>
    (\<exists>buf'. EncodeFixed32 True [0, 0, 0, 0, 0, 0, 0, 0, 7] 513 = Inr buf' \<and> DecodeFixed32 False buf' = Inr 513 \<and>
      length buf' = length [0, 0, 0, 0, 0, 0, 0, 0, 7 :: byte] \<and> drop 4 buf' = drop 4 [0, 0, 0, 0, 0, 0, 0, 0, 7])"
  by (rule Fixed_round_trip) simp

end
