(* ===== verification/Latency_Stats.thy ===== *)
theory Latency_Stats
  imports Base_Cache "HOL-Library.More_List"
begin

text \<open>
  The statistics of \<^verbatim>\<open>src/ssdlogging/util.h\<close>: \<open>MyStat\<close> and \<open>AvgStat\<close> (running averages in fixed
  point), \<open>MySet\<close> (all samples, with averages, quantiles and a cursor for the samples since the last
  look) and \<open>MyMap\<close> (pairs); and the functions of \<^verbatim>\<open>src/cache/hhvm-scalable-cache.h\<close> that read the
  latencies. A \<open>double\<close> is a real number; \<open>None\<close> is the not-a-number of a division of zero by zero.
  The samples stored so far are a list; the storage behind them is zero. What a function prints is
  part of its value.
\<close>

text \<open>The conversion of a \<open>double\<close> to \<open>uint64_t\<close> truncates and is undefined outside of the range.\<close>

definition uint64_of_double :: "real \<Rightarrow> uint64 result" where
  "uint64_of_double x = (if - 1 < x \<and> x < 2 ^ 64 then Inr (of_nat (nat \<lfloor>x\<rfloor>)) else Inl OutOfRange)"

section \<open>MyStat\<close>

record MyStat =
  st_sum :: uint64
  st_size :: uint64

definition MyStat_SCALE :: real where "MyStat_SCALE = 1000000"

definition MyStat_new :: MyStat where "MyStat_new = \<lparr>st_sum = 0, st_size = 0\<rparr>"

definition MyStat_add :: "real \<Rightarrow> MyStat \<Rightarrow> MyStat result" where
  "MyStat_add value s =
     r_bind (uint64_of_double (value * MyStat_SCALE)) (\<lambda>tmp.
     Inr (s\<lparr>st_sum := st_sum s + tmp, st_size := st_size s + 1\<rparr>))"

definition MyStat_sum :: "MyStat \<Rightarrow> real" where
  "MyStat_sum s = to_double (st_sum s) / MyStat_SCALE"

definition MyStat_avg :: "MyStat \<Rightarrow> real option" where
  "MyStat_avg s =
     (if st_size s = 0 then None else Some (to_double (st_sum s) / to_double (st_size s) / MyStat_SCALE))"

definition MyStat_reset :: "MyStat \<Rightarrow> MyStat" where
  "MyStat_reset s = s\<lparr>st_size := 0, st_sum := 0\<rparr>"

definition MyStat_print_data :: "MyStat \<Rightarrow> (uint64 \<times> real) option" where
  "MyStat_print_data s =
     (if st_size s = 0 then None
      else Some (st_size s, to_double (st_sum s) / to_double (st_size s) / MyStat_SCALE))"

section \<open>AvgStat\<close>

text \<open>A hundred pairs of counters; an addition goes to the one the thread's generator picks.\<close>

record AvgStat =
  av_sum :: "uint64 list"
  av_size :: "uint64 list"

definition AvgStat_NUM :: nat where "AvgStat_NUM = 100"

definition AvgStat_scale :: real where "AvgStat_scale = 10000"

definition AvgStat_new :: AvgStat where
  "AvgStat_new = \<lparr>av_sum = replicate AvgStat_NUM 0, av_size = replicate AvgStat_NUM 0\<rparr>"

definition AvgStat_add :: "real \<Rightarrow> uint32 \<Rightarrow> AvgStat \<Rightarrow> (uint32 \<times> AvgStat) result" where
  "AvgStat_add value seed s =
     (let seed = Random_Next seed; i = unat seed mod AvgStat_NUM in
      r_bind (uint64_of_double (value * AvgStat_scale)) (\<lambda>tmp.
      Inr (seed, s\<lparr>av_sum := (av_sum s)[i := av_sum s ! i + tmp], av_size := (av_size s)[i := av_size s ! i + 1]\<rparr>)))"

definition AvgStat_sum :: "AvgStat \<Rightarrow> real" where
  "AvgStat_sum s = fold (\<lambda>i t. t + to_double (av_sum s ! i) / AvgStat_scale) [0..<AvgStat_NUM] 0"

definition AvgStat_size :: "AvgStat \<Rightarrow> uint64" where
  "AvgStat_size s = fold (\<lambda>i t. t + av_size s ! i) [0..<AvgStat_NUM] 0"

definition AvgStat_avg :: "AvgStat \<Rightarrow> real option" where
  "AvgStat_avg s = (if AvgStat_size s = 0 then None else Some (AvgStat_sum s / to_double (AvgStat_size s)))"

definition AvgStat_reset :: "AvgStat \<Rightarrow> AvgStat" where
  "AvgStat_reset s = s\<lparr>av_sum := replicate AvgStat_NUM 0, av_size := replicate AvgStat_NUM 0\<rparr>"

section \<open>MySet\<close>

record MySet =
  ms_data :: "real list"
  ms_cursor :: nat
  ms_sorted :: bool

definition MySet_max_size :: nat where "MySet_max_size = 2 ^ 30"

definition MySet_new :: MySet where "MySet_new = \<lparr>ms_data = [], ms_cursor = 0, ms_sorted = False\<rparr>"

definition MySet_insert :: "real \<Rightarrow> MySet \<Rightarrow> MySet result" where
  "MySet_insert value s =
     r_assert (length (ms_data s) < MySet_max_size) ''index < max_size'' (
     Inr (s\<lparr>ms_data := ms_data s @ [value], ms_sorted := False\<rparr>))"

definition MySet_size :: "MySet \<Rightarrow> nat" where "MySet_size s = length (ms_data s)"

definition MySet_sum :: "MySet \<Rightarrow> real" where "MySet_sum s = sum_list (ms_data s)"

definition MySet_get :: "MySet \<Rightarrow> nat \<Rightarrow> real result" where
  "MySet_get s index = r_assert (index < length (ms_data s)) ''index < size_'' (Inr (ms_data s ! index))"

definition MySet_reset :: "MySet \<Rightarrow> MySet" where
  "MySet_reset s = \<lparr>ms_data = [], ms_cursor = 0, ms_sorted = False\<rparr>"

text \<open>The element at the fraction \<open>f\<close> of the samples.\<close>

definition tail_at :: "real list \<Rightarrow> real \<Rightarrow> real" where
  "tail_at xs f = nth_default 0 xs (nat \<lfloor>real (length xs) * f\<rfloor>)"

definition MySet_get_tail :: "real \<Rightarrow> MySet \<Rightarrow> real \<times> MySet" where
  "MySet_get_tail f s =
     (let s = (if \<not> ms_sorted s then s\<lparr>ms_data := sort (ms_data s), ms_sorted := True\<rparr> else s)
      in (tail_at (ms_data s) f, s))"

text \<open>\<open>print_tail\<close> returns 100 when there is nothing; the line holds the average and five quantiles.\<close>

definition MySet_print_tail :: "MySet \<Rightarrow> real \<times> (nat \<times> real list) option \<times> MySet" where
  "MySet_print_tail s =
     (if ms_data s = [] then (100, None, s)
      else
        let size = length (ms_data s); xs = sort (ms_data s); avg = sum_list xs / real size
        in (avg, Some (size, avg # map (tail_at xs) [0.50, 0.9999, 0.999, 0.99, 0.90]), s\<lparr>ms_data := xs, ms_sorted := True\<rparr>))"

text \<open>
  The average over the samples since the last call; \<open>step\<close>, an output argument, is their number and
  stays as it is when there are none.
\<close>

definition MySet_print_from_last_end :: "nat \<Rightarrow> MySet \<Rightarrow> real \<times> nat \<times> MySet" where
  "MySet_print_from_last_end step s =
     (let size = length (ms_data s) in
      if size = 0 \<or> ms_cursor s \<ge> size then (100, step, s)
      else
        let sum = sum_list (drop (ms_cursor s) (ms_data s)); step = size - ms_cursor s
        in (sum / real step, step, s\<lparr>ms_cursor := size + 1\<rparr>))"

definition MySet_size_from_last_end :: "MySet \<Rightarrow> nat" where
  "MySet_size_from_last_end s =
     (let size = length (ms_data s) in if size = 0 \<or> ms_cursor s \<ge> size then 0 else size - ms_cursor s)"

text \<open>\<open>print_data\<close> writes the samples to a file, then sorts them and prints sum, size and quantiles.\<close>

definition MySet_print_data :: "MySet \<Rightarrow> (real list \<times> real \<times> nat \<times> real list) option \<times> MySet" where
  "MySet_print_data s =
     (if ms_data s = [] then (None, s)
      else
        let xs = sort (ms_data s); s' = s\<lparr>ms_data := xs, ms_sorted := True\<rparr>
        in (Some (ms_data s, MySet_sum s', length xs, (MySet_sum s' / real (length xs)) # map (tail_at xs) [0.9999, 0.999, 0.99, 0.90]), s'))"

section \<open>MyMap\<close>

record MyMap =
  mm_key :: "real list"
  mm_value :: "real list"

text \<open>The capacity, \<open>2^33\<close> bytes for each array, is not checked: an index behind it is outside of the mapping.\<close>

definition MyMap_insert :: "real \<Rightarrow> real \<Rightarrow> MyMap \<Rightarrow> MyMap result" where
  "MyMap_insert key value m =
     (if length (mm_key m) < 2 ^ 30 then Inr (m\<lparr>mm_key := mm_key m @ [key], mm_value := mm_value m @ [value]\<rparr>)
      else Inl InvalidAccess)"

definition MyMap_reset :: "MyMap \<Rightarrow> MyMap" where
  "MyMap_reset m = m\<lparr>mm_key := [], mm_value := []\<rparr>"

definition MyMap_print_data :: "MyMap \<Rightarrow> (real \<times> real) list option" where
  "MyMap_print_data m = (if mm_key m = [] then None else Some (zip (mm_key m) (mm_value m)))"

section \<open>The latencies of the sharded cache\<close>

text \<open>The global sets \<open>total_hit_latency_\<close> and \<open>total_other_latency_\<close>.\<close>

record latencies =
  total_hit_latency :: MySet
  total_other_latency :: MySet

definition weighted_avg :: "real \<Rightarrow> nat \<Rightarrow> real \<Rightarrow> nat \<Rightarrow> real option" where
  "weighted_avg avg_hit hit_n avg_other other_n =
     (if hit_n + other_n = 0 then None
      else Some ((avg_hit * real hit_n + avg_other * real other_n) / real (hit_n + other_n)))"

definition PrintGlobalLat :: "latencies \<Rightarrow> (real option \<times> nat) \<times> latencies" where
  "PrintGlobalLat l =
     (let (avg_hit, hit_line, h) = MySet_print_tail (total_hit_latency l);
          (avg_other, other_line, p) = MySet_print_tail (total_other_latency l);
          hit_n = (case hit_line of None \<Rightarrow> 0 | Some (n, _) \<Rightarrow> n);
          other_n = (case other_line of None \<Rightarrow> 0 | Some (n, _) \<Rightarrow> n)
      in ((weighted_avg avg_hit hit_n avg_other other_n, hit_n + other_n),
          \<lparr>total_hit_latency = MySet_reset h, total_other_latency = MySet_reset p\<rparr>))"

definition step_lat :: "latencies \<Rightarrow> (real \<times> nat) \<times> (real \<times> nat) \<times> latencies" where
  "step_lat l =
     (let (avg_hit, hit_n, h) = MySet_print_from_last_end 0 (total_hit_latency l);
          (avg_other, other_n, p) = MySet_print_from_last_end 0 (total_other_latency l)
      in ((avg_hit, hit_n), (avg_other, other_n), \<lparr>total_hit_latency = h, total_other_latency = p\<rparr>))"

definition PrintStepLat :: "latencies \<Rightarrow> real option \<times> latencies" where
  "PrintStepLat l =
     (let ((avg_hit, hit_n), (avg_other, other_n), l) = step_lat l
      in (weighted_avg avg_hit hit_n avg_other other_n, l))"

definition PrintStepLat_num :: "latencies \<Rightarrow> real option \<times> nat \<times> latencies" where
  "PrintStepLat_num l =
     (let ((avg_hit, hit_n), (avg_other, other_n), l) = step_lat l
      in (weighted_avg avg_hit hit_n avg_other other_n, hit_n + other_n, l))"

definition PrintStepLat_avg :: "latencies \<Rightarrow> real option \<times> (real \<times> real) \<times> latencies" where
  "PrintStepLat_avg l =
     (let ((avg_hit, hit_n), (avg_other, other_n), l) = step_lat l
      in (weighted_avg avg_hit hit_n avg_other other_n, (avg_hit, avg_other), l))"

definition GetStepSize :: "latencies \<Rightarrow> nat" where
  "GetStepSize l = MySet_size_from_last_end (total_hit_latency l) + MySet_size_from_last_end (total_other_latency l)"

section \<open>Runs\<close>

fun MySet_inserts :: "real list \<Rightarrow> MySet \<Rightarrow> MySet result" where
  "MySet_inserts [] s = Inr s"
| "MySet_inserts (v # vs) s = r_bind (MySet_insert v s) (MySet_inserts vs)"

fun AvgStat_adds :: "real list \<Rightarrow> uint32 \<Rightarrow> AvgStat \<Rightarrow> AvgStat result" where
  "AvgStat_adds [] seed s = Inr s"
| "AvgStat_adds (v # vs) seed s = r_bind (AvgStat_add v seed s) (\<lambda>(seed, s). AvgStat_adds vs seed s)"

lemma inserts_data:
  assumes "length (ms_data s) + length vs \<le> MySet_max_size"
  shows "MySet_inserts vs s = Inr (s\<lparr>ms_data := ms_data s @ vs, ms_sorted := ms_sorted s \<and> vs = []\<rparr>)"
  using assms by (induction vs arbitrary: s) (auto simp: MySet_insert_def)

text \<open>The length of the part of a sorted list below and up to an element.\<close>

lemma sorted_count:
  assumes "sorted xs" "i < length xs"
  shows "length (filter (\<lambda>x. x < xs ! i) xs) \<le> i \<and> i < length (filter (\<lambda>x. x \<le> xs ! i) xs)"
proof -
  let ?q = "xs ! i"
  have x: "xs = take i xs @ drop i xs" by simp
  have "\<not> x < ?q" if "x \<in> set (drop i xs)" for x
    using that assms by (auto simp: in_set_conv_nth sorted_iff_nth_mono not_less)
  then have "filter (\<lambda>x. x < ?q) (drop i xs) = []" by (simp add: filter_empty_conv)
  then have "length (filter (\<lambda>x. x < ?q) xs) = length (filter (\<lambda>x. x < ?q) (take i xs))"
    by (metis x filter_append append_Nil2)
  also have "\<dots> \<le> i" by (metis length_filter_le length_take min.cobounded2 le_trans)
  finally have l: "length (filter (\<lambda>x. x < ?q) xs) \<le> i" .
  have "x \<le> ?q" if "x \<in> set (take (Suc i) xs)" for x
    using that assms by (auto simp: in_set_conv_nth sorted_iff_nth_mono)
  then have "filter (\<lambda>x. x \<le> ?q) (take (Suc i) xs) = take (Suc i) xs" by (simp add: filter_id_conv)
  then have "length (take (Suc i) xs) \<le> length (filter (\<lambda>x. x \<le> ?q) xs)"
    by (metis append_take_drop_id filter_append length_append le_add1)
  with l assms(2) show ?thesis by simp
qed

lemma sort_count: "length (filter P (sort xs)) = length (filter P xs)" for xs :: "real list"
  by (metis filter_sort length_sort)

lemma tail_index:
  assumes "0 \<le> f" "f < 1" "xs \<noteq> []"
  shows "nat \<lfloor>real (length xs) * f\<rfloor> < length xs"
proof -
  have "real (length xs) * f < real (length xs)" using assms by simp
  then have "\<lfloor>real (length xs) * f\<rfloor> < int (length xs)" by (simp add: floor_less_iff)
  moreover have "0 \<le> \<lfloor>real (length xs) * f\<rfloor>" using assms(1) by simp
  ultimately show ?thesis by (simp only: nat_less_iff)
qed

text \<open>
  C32. \<open>get_tail f\<close> of a set that was filled by insertions is the \<open>f\<close>-quantile of the inserted values: at
  most a fraction \<open>f\<close> of them is smaller, and more than that fraction is not greater. A second call with
  another fraction, on the sorted set, is right as well.
\<close>

theorem MySet_quantile:
  assumes "vs \<noteq> []" "length vs \<le> MySet_max_size" "0 \<le> f" "f < 1" "0 \<le> g" "g < 1"
  shows "\<exists>s. MySet_inserts vs MySet_new = Inr s \<and>
    (let (q, s1) = MySet_get_tail f s; (r, s2) = MySet_get_tail g s1; n = real (length vs) in
      length (filter (\<lambda>x. x < q) vs) \<le> nat \<lfloor>n * f\<rfloor> \<and> nat \<lfloor>n * f\<rfloor> < length (filter (\<lambda>x. x \<le> q) vs) \<and>
      length (filter (\<lambda>x. x < r) vs) \<le> nat \<lfloor>n * g\<rfloor> \<and> nat \<lfloor>n * g\<rfloor> < length (filter (\<lambda>x. x \<le> r) vs))"
proof -
  have t: "tail_at (sort vs) h = sort vs ! nat \<lfloor>real (length vs) * h\<rfloor>" if "0 \<le> h" "h < 1" for h
    using tail_index [OF that assms(1)] by (simp add: tail_at_def nth_default_def)
  have c: "length (filter (\<lambda>x. x < tail_at (sort vs) h) vs) \<le> nat \<lfloor>real (length vs) * h\<rfloor> \<and>
      nat \<lfloor>real (length vs) * h\<rfloor> < length (filter (\<lambda>x. x \<le> tail_at (sort vs) h) vs)" if "0 \<le> h" "h < 1" for h
    using sorted_count [of "sort vs" "nat \<lfloor>real (length vs) * h\<rfloor>"] tail_index [OF that assms(1)] t [OF that]
    by (simp add: sort_count)
  show ?thesis using assms c [of f] c [of g] inserts_data [of MySet_new vs]
    by (simp add: MySet_new_def MySet_get_tail_def Let_def)
qed

theorem MySet_quantile_witness:
  "\<exists>s. MySet_inserts [5, 1, 3, 2] MySet_new = Inr s \<and>
    (let (q, s1) = MySet_get_tail (1 / 2) s; (r, s2) = MySet_get_tail (9 / 10) s1; n = real (length [5, 1, 3, 2 :: real]) in
      length (filter (\<lambda>x. x < q) [5, 1, 3, 2]) \<le> nat \<lfloor>n * (1 / 2)\<rfloor> \<and> nat \<lfloor>n * (1 / 2)\<rfloor> < length (filter (\<lambda>x. x \<le> q) [5, 1, 3, 2]) \<and>
      length (filter (\<lambda>x. x < r) [5, 1, 3, 2]) \<le> nat \<lfloor>n * (9 / 10)\<rfloor> \<and> nat \<lfloor>n * (9 / 10)\<rfloor> < length (filter (\<lambda>x. x \<le> r) [5, 1, 3, 2]))"
  by (rule MySet_quantile) (simp_all add: MySet_max_size_def)

text \<open>
  After a call of \<open>print_from_last_end\<close> that counted something, the next call leaves out the first
  sample stored in between: the cursor was set one behind the end.
\<close>

theorem print_from_last_end_drops:
  assumes "MySet_print_from_last_end step s = (avg, n, s1)" "ms_cursor s < length (ms_data s)"
    "MySet_inserts vs s1 = Inr s2" "length (ms_data s) + length vs \<le> MySet_max_size" "2 \<le> length vs"
  shows "n = length (ms_data s) - ms_cursor s \<and> MySet_size_from_last_end s2 = length vs - 1 \<and>
    fst (MySet_print_from_last_end 0 s2) = sum_list (tl vs) / real (length vs - 1)"
proof -
  have s1: "n = length (ms_data s) - ms_cursor s" "s1 = s\<lparr>ms_cursor := length (ms_data s) + 1\<rparr>"
    using assms(1,2) by (auto simp: MySet_print_from_last_end_def Let_def split: if_splits)
  have s2: "ms_data s2 = ms_data s @ vs" "ms_cursor s2 = length (ms_data s) + 1"
    using inserts_data [of s1 vs] assms(3,4) s1(2) by auto
  have "drop (length (ms_data s) + 1) (ms_data s @ vs) = tl vs" by (simp add: drop_Suc)
  with s1 s2 assms(5) show ?thesis
    by (auto simp: MySet_print_from_last_end_def MySet_size_from_last_end_def Let_def)
qed

theorem print_from_last_end_drops_witness:
  "\<exists>s1 s2. MySet_print_from_last_end 0 \<lparr>ms_data = [1], ms_cursor = 0, ms_sorted = False\<rparr> = (1, 1, s1) \<and>
    MySet_inserts [100, 2, 4] s1 = Inr s2 \<and> MySet_size_from_last_end s2 = 2 \<and> fst (MySet_print_from_last_end 0 s2) = 3"
proof -
  let ?s = "\<lparr>ms_data = [1], ms_cursor = 0, ms_sorted = False\<rparr>"
  let ?s1 = "\<lparr>ms_data = [1], ms_cursor = 2, ms_sorted = False\<rparr>"
  let ?s2 = "\<lparr>ms_data = [1, 100, 2, 4], ms_cursor = 2, ms_sorted = False\<rparr>"
  have "MySet_print_from_last_end 0 ?s = (1, 1, ?s1)" by (simp add: MySet_print_from_last_end_def)
  moreover have "MySet_inserts [100, 2, 4] ?s1 = Inr ?s2" by (simp add: MySet_insert_def MySet_max_size_def)
  ultimately show ?thesis
    using print_from_last_end_drops [of 0 ?s 1 1 ?s1 "[100, 2, 4]" ?s2] by (auto simp: MySet_max_size_def)
qed

section \<open>The accuracy of the averages\<close>

lemma uint64_of_double_unat:
  assumes "0 \<le> x" "x < 2 ^ 64"
  shows "\<exists>w. uint64_of_double x = Inr w \<and> unat w = nat \<lfloor>x\<rfloor>"
proof -
  have "\<lfloor>x\<rfloor> < 2 ^ 64" using assms(2) by (simp add: floor_less_iff)
  then have "nat \<lfloor>x\<rfloor> < 2 ^ 64" using assms(1) by (simp add: nat_less_iff)
  then have "unat (of_nat (nat \<lfloor>x\<rfloor>) :: uint64) = nat \<lfloor>x\<rfloor>" by (simp add: unsigned_of_nat take_bit_nat_eq_self)
  with assms show ?thesis by (auto simp: uint64_of_double_def)
qed

text \<open>The sum_of of a list of counters, and that it grows by what is added to one of them.\<close>

definition sum_of :: "uint64 list \<Rightarrow> nat" where
  "sum_of ws = sum_list (map unat ws)"

lemma total_add:
  assumes "i < length ws" "sum_of ws + unat x < 2 ^ 64"
  shows "sum_of (ws[i := ws ! i + x]) = sum_of ws + unat x"
proof -
  have le: "unat (ws ! i) \<le> sum_of ws" unfolding sum_of_def using assms(1) by (intro member_le_sum_list) auto
  then have "unat (ws ! i + x) = unat (ws ! i) + unat x" using assms(2) by (subst unat_add_lem [THEN iffD1]) auto
  then show ?thesis using assms(1) le by (simp add: sum_of_def map_update sum_list_update)
qed

lemma fold_sum: "fold (\<lambda>i t. t + g i) is a = a + (\<Sum>i \<leftarrow> is. g i)" for a :: "'a::comm_monoid_add"
  by (induction "is" arbitrary: a) (simp_all add: add.assoc)

lemma sum_nth: "length ws = n \<Longrightarrow> (\<Sum>i \<leftarrow> [0..<n]. g (ws ! i)) = sum_list (map g ws)"
  by (metis (no_types, lifting) map_map comp_def map_nth map_eq_conv)

lemma sum_to_double: "(\<Sum>w \<leftarrow> ws. to_double w / c) = real (sum_of ws) / c"
  by (induction ws) (simp_all add: sum_of_def to_double_def add_divide_distrib del: of_nat_unat)

lemma sum_words: "sum_list ws = of_nat (sum_of ws)"
  by (induction ws) (simp_all add: sum_of_def)

lemma AvgStat_totals:
  assumes "length (av_sum s) = AvgStat_NUM" "length (av_size s) = AvgStat_NUM"
  shows "AvgStat_sum s = real (sum_of (av_sum s)) / AvgStat_scale"
    and "sum_of (av_size s) < 2 ^ 64 \<Longrightarrow> unat (AvgStat_size s) = sum_of (av_size s)"
proof -
  have "AvgStat_sum s = (\<Sum>w \<leftarrow> av_sum s. to_double w / AvgStat_scale)"
    by (simp add: AvgStat_sum_def fold_sum sum_nth [OF assms(1), of "\<lambda>w. to_double w / AvgStat_scale"])
  then show "AvgStat_sum s = real (sum_of (av_sum s)) / AvgStat_scale" by (simp add: sum_to_double)
  have "AvgStat_size s = sum_list (av_size s)"
    by (simp add: AvgStat_size_def fold_sum sum_nth [OF assms(2), of "\<lambda>w. w"])
  also have "\<dots> = of_nat (sum_of (av_size s))" by (simp add: sum_words)
  finally show "sum_of (av_size s) < 2 ^ 64 \<Longrightarrow> unat (AvgStat_size s) = sum_of (av_size s)"
    by (simp add: unsigned_of_nat take_bit_nat_eq_self)
qed

text \<open>What the counters hold after the additions: the truncated values.\<close>

definition truncated :: "real list \<Rightarrow> nat" where
  "truncated vs = (\<Sum>v \<leftarrow> vs. nat \<lfloor>v * AvgStat_scale\<rfloor>)"

lemma truncated_bounds:
  assumes "\<forall>v \<in> set vs. 0 \<le> v"
  shows "real (truncated vs) \<le> sum_list vs * AvgStat_scale"
    and "vs \<noteq> [] \<Longrightarrow> sum_list vs * AvgStat_scale < real (truncated vs) + real (length vs)"
proof -
  have t: "real (nat \<lfloor>v * AvgStat_scale\<rfloor>) \<le> v * AvgStat_scale \<and> v * AvgStat_scale < real (nat \<lfloor>v * AvgStat_scale\<rfloor>) + 1" if "0 \<le> v" for v
  proof -
    have "0 \<le> \<lfloor>v * AvgStat_scale\<rfloor>" using that by (simp add: AvgStat_scale_def)
    then show ?thesis by (simp add: floor_less_iff)
  qed
  show "real (truncated vs) \<le> sum_list vs * AvgStat_scale"
    using assms t by (induction vs) (fastforce simp: truncated_def distrib_right)+
  show "sum_list vs * AvgStat_scale < real (truncated vs) + real (length vs)" if "vs \<noteq> []"
    using that assms
  proof (induction vs rule: list_nonempty_induct)
    case (single v)
    then show ?case using t [of v] by (simp add: truncated_def)
  next
    case (cons v vs)
    have e: "truncated (v # vs) = nat \<lfloor>v * AvgStat_scale\<rfloor> + truncated vs" by (simp add: truncated_def)
    have "v * AvgStat_scale < real (nat \<lfloor>v * AvgStat_scale\<rfloor>) + 1" "sum_list vs * AvgStat_scale < real (truncated vs) + real (length vs)"
      using t [of v] cons by auto
    then show ?case unfolding e sum_list.Cons distrib_right length_Cons of_nat_add of_nat_Suc by linarith
  qed
qed

lemma AvgStat_adds_totals:
  assumes "length (av_sum s) = AvgStat_NUM" "length (av_size s) = AvgStat_NUM" "\<forall>v \<in> set vs. 0 \<le> v"
    "sum_of (av_sum s) + truncated vs < 2 ^ 64" "sum_of (av_size s) + length vs < 2 ^ 64"
  shows "\<exists>s'. AvgStat_adds vs seed s = Inr s' \<and> length (av_sum s') = AvgStat_NUM \<and> length (av_size s') = AvgStat_NUM \<and>
    sum_of (av_sum s') = sum_of (av_sum s) + truncated vs \<and> sum_of (av_size s') = sum_of (av_size s) + length vs"
  using assms
proof (induction vs arbitrary: seed s)
  case (Cons v vs)
  let ?i = "unat (Random_Next seed) mod AvgStat_NUM"
  have i: "?i < AvgStat_NUM" by (simp add: AvgStat_NUM_def)
  have tr: "truncated (v # vs) = nat \<lfloor>v * AvgStat_scale\<rfloor> + truncated vs" by (simp add: truncated_def)
  have v: "0 \<le> v * AvgStat_scale" using Cons.prems(3) by (simp add: AvgStat_scale_def)
  have "nat \<lfloor>v * AvgStat_scale\<rfloor> < 2 ^ 64" using Cons.prems(4) tr by linarith
  then have "v * AvgStat_scale < 2 ^ 64" using v by (simp add: nat_less_iff floor_less_iff)
  then obtain w where w: "uint64_of_double (v * AvgStat_scale) = Inr w" "unat w = nat \<lfloor>v * AvgStat_scale\<rfloor>"
    using uint64_of_double_unat v by blast
  define s1 where "s1 = s\<lparr>av_sum := (av_sum s)[?i := av_sum s ! ?i + w], av_size := (av_size s)[?i := av_size s ! ?i + 1]\<rparr>"
  have "sum_of (av_sum s1) = sum_of (av_sum s) + nat \<lfloor>v * AvgStat_scale\<rfloor>" "sum_of (av_size s1) = sum_of (av_size s) + 1"
    using total_add [of ?i "av_sum s" w] total_add [of ?i "av_size s" 1] i w(2) Cons.prems tr by (simp_all add: s1_def)
  note t1 = this
  have "\<exists>s'. AvgStat_adds vs (Random_Next seed) s1 = Inr s' \<and> length (av_sum s') = AvgStat_NUM \<and> length (av_size s') = AvgStat_NUM \<and>
      sum_of (av_sum s') = sum_of (av_sum s1) + truncated vs \<and> sum_of (av_size s') = sum_of (av_size s1) + length vs"
    by (rule Cons.IH) (use Cons.prems tr t1 in \<open>simp_all add: s1_def\<close>)
  then show ?case using w(1) t1 tr by (simp add: AvgStat_add_def Let_def s1_def add.assoc)
qed (simp add: truncated_def)

text \<open>
  The average \<open>AvgStat\<close> reports for non-negative values whose scaled sum fits into 64 bits is below the
  exact mean by less than a ten-thousandth and never above it, whichever counters the generator picks.
\<close>

theorem AvgStat_accurate:
  assumes "vs \<noteq> []" "\<forall>v \<in> set vs. 0 \<le> v" "sum_list vs * AvgStat_scale < 2 ^ 64" "length vs < 2 ^ 64"
  shows "\<exists>s a. AvgStat_adds vs seed AvgStat_new = Inr s \<and> unat (AvgStat_size s) = length vs \<and> AvgStat_avg s = Some a \<and>
    sum_list vs / real (length vs) - 1 / 10000 < a \<and> a \<le> sum_list vs / real (length vs)"
proof -
  note b = truncated_bounds [OF assms(2)]
  have "real (truncated vs) < 2 ^ 64" using b(1) assms(3) by linarith
  then have t: "truncated vs < 2 ^ 64" using of_nat_less_iff [of "truncated vs" "2 ^ 64", where ?'a = real] by simp
  have z: "sum_of (replicate n 0) = 0" for n by (induction n) (simp_all add: sum_of_def)
  obtain s where s: "AvgStat_adds vs seed AvgStat_new = Inr s" "length (av_sum s) = AvgStat_NUM" "length (av_size s) = AvgStat_NUM"
    "sum_of (av_sum s) = truncated vs" "sum_of (av_size s) = length vs"
    using AvgStat_adds_totals [of AvgStat_new vs seed] assms t z by (auto simp: AvgStat_new_def)
  have n: "unat (AvgStat_size s) = length vs" using AvgStat_totals(2) [OF s(2,3)] s(5) assms(4) by simp
  have "AvgStat_avg s = Some (real (truncated vs) / AvgStat_scale / real (length vs))"
    using n assms(1) AvgStat_totals(1) [OF s(2,3)] s(4) by (auto simp: AvgStat_avg_def to_double_def simp del: of_nat_unat)
  moreover have "sum_list vs / real (length vs) - 1 / 10000 < real (truncated vs) / AvgStat_scale / real (length vs)"
  proof -
    have "sum_list vs < real (truncated vs) / AvgStat_scale + real (length vs) / 10000"
      using b(2) [OF assms(1)] by (simp add: AvgStat_scale_def)
    from divide_strict_right_mono [OF this, of "real (length vs)"] assms(1) show ?thesis
      by (simp add: add_divide_distrib)
  qed
  moreover have "real (truncated vs) / AvgStat_scale / real (length vs) \<le> sum_list vs / real (length vs)"
    using b(1) by (intro divide_right_mono) (simp_all add: AvgStat_scale_def)
  ultimately show ?thesis using s(1) n by blast
qed

theorem AvgStat_accurate_witness:
  "\<exists>s a. AvgStat_adds [1 / 3, 2, 5] 17 AvgStat_new = Inr s \<and> unat (AvgStat_size s) = length [1 / 3, 2, 5 :: real] \<and>
    AvgStat_avg s = Some a \<and> sum_list [1 / 3, 2, 5] / real (length [1 / 3, 2, 5 :: real]) - 1 / 10000 < a \<and>
    a \<le> sum_list [1 / 3, 2, 5] / real (length [1 / 3, 2, 5 :: real])"
  by (rule AvgStat_accurate) (simp_all add: AvgStat_scale_def)

end
