(* ===== verification/Monitor.thy ===== *)
theory Monitor
  imports Latency_Stats Frozen_Run
begin

text \<open>
  The monitors of \<^verbatim>\<open>src/cache/hhvm-scalable-cache.h\<close>: \<open>FastHashMonitor\<close>, which decides when the
  shards are frozen and thawed, and \<open>BaseMonitor\<close>, which only observes. The control flow with its
  labels \<open>WAIT_STABLE\<close>, \<open>CONSTRUCT\<close> and \<open>DECONSTRUCT\<close> is a state machine: a state is the program
  point with the variables, a step is one iteration of the loop at that point (or the straight code
  between two loops) and yields the calls it makes on the shards, in their order. What a step reads
  from outside, the flag \<open>should_stop\<close>, the miss ratio, the measured latencies and the curve of shard
  0, is its input; sleeping and printing have no counterpart. Measured latencies are reals, or \<open>None\<close> when
  nothing was measured, which is not-a-number; the depletion is a real, an infinity or not-a-number. Rounding and the sign of a zero are not modelled. Step counts are \<open>size_t\<close>.

  The lemmas show that a shard is constructed only when it has been deconstructed, that \<open>deconstruct\<close> has been called on all of them when the
  monitor goes back to a label or ends, that a construction ends after three passes, and that the ratio
  chosen minimises the estimated latency.
\<close>

type_synonym double = "real option"

datatype ieee = NaN | PInf | MInf | Fin real

fun ieee_less :: "ieee \<Rightarrow> ieee \<Rightarrow> bool" where
  "ieee_less (Fin x) (Fin y) \<longleftrightarrow> x < y"
| "ieee_less MInf b \<longleftrightarrow> b \<noteq> NaN \<and> b \<noteq> MInf"
| "ieee_less a PInf \<longleftrightarrow> a \<noteq> NaN \<and> a \<noteq> PInf"
| "ieee_less _ _ \<longleftrightarrow> False"

definition ieee_le :: "ieee \<Rightarrow> ieee \<Rightarrow> bool" where
  "ieee_le a b \<longleftrightarrow> ieee_less a b \<or> a = b \<and> a \<noteq> NaN"

fun ieee_plus :: "ieee \<Rightarrow> ieee \<Rightarrow> ieee" where
  "ieee_plus (Fin x) (Fin y) = Fin (x + y)"
| "ieee_plus NaN b = NaN"
| "ieee_plus a NaN = NaN"
| "ieee_plus PInf MInf = NaN"
| "ieee_plus MInf PInf = NaN"
| "ieee_plus PInf b = PInf"
| "ieee_plus MInf b = MInf"
| "ieee_plus a b = b"

text \<open>The product with and the quotient by a number that is not negative.\<close>

fun ieee_times :: "ieee \<Rightarrow> real \<Rightarrow> ieee" where
  "ieee_times (Fin x) y = Fin (x * y)"
| "ieee_times a y = (if y = 0 then NaN else a)"

fun ieee_div :: "ieee \<Rightarrow> real \<Rightarrow> ieee" where
  "ieee_div (Fin x) y = (if y = 0 then if x > 0 then PInf else if x < 0 then MInf else NaN else Fin (x / y))"
| "ieee_div a y = a"

definition double_is_equal :: "real \<Rightarrow> real \<Rightarrow> bool" where
  "double_is_equal left right \<longleftrightarrow> \<bar>left - right\<bar> < 0.0001"

definition FH_PERFORMANCE_THRESHOLD :: real where "FH_PERFORMANCE_THRESHOLD = 0.2"
definition WAIT_STABLE_THRESHOLD :: nat where "WAIT_STABLE_THRESHOLD = 2"
definition PASS_THRESHOLD :: nat where "PASS_THRESHOLD = 3"
definition COUNT_THRESHOLD :: real where "COUNT_THRESHOLD = 2"

text \<open>The lengths of the arrays \<open>req_latency_\<close> and \<open>baseline_metrics\<close>.\<close>

definition req_latency_length :: nat where "req_latency_length = 16"
definition baseline_metrics_length :: nat where "baseline_metrics_length = 80"

datatype mon_pc =
    WAIT_STABLE | Observing | Searching | Search_sleep nat | CONSTRUCT | Constructing
  | Construct_end | Frozen_loop | DECONSTRUCT | Thaw_sleep nat | Base_run | Ended

datatype shard_call =
    GetCurve nat | ConstructTier nat | ConstructRatio nat real | Deconstruct nat
  | ResetCursor nat | PrintStep nat | ClearCurve nat

record monitor =
  mon_numShards :: nat
  mon_FROZEN_THRESHOLD :: int
  mon_at :: mon_pc
  should_stop :: bool
  beginning_flag :: bool
  stop_sample_stat :: bool
  SLEEP_THRESHOLD :: size_t
  print_step_counter :: size_t
  last_miss_ratio :: real
  last_size :: size_t
  this_size :: size_t
  wait_count :: nat
  best_size :: real
  construct_container :: "nat list"
  fail_list :: "nat list"
  baseline_metrics :: "nat \<Rightarrow> real"
  pass_count :: nat
  construct_step :: size_t
  baseline_step :: size_t
  total_step :: size_t
  current_step :: size_t
  baseline_performance_with_threshold :: double
  performance_depletion :: ieee
  first_flag :: bool

text \<open>
  The input of a step: \<open>in_stop\<close> and \<open>in_stop_again\<close> are the values read from \<open>should_stop\<close>, which is never reset;
  \<open>in_tail\<close> and \<open>in_tail_thawed\<close> are the averages \<open>req_latency_[i].print_tail()\<close> of a shard before and
  after it was thawed; the others are the results of \<open>PrintMissRatio\<close>, \<open>Size\<close>, \<open>PrintStepLat\<close> and the
  container that \<open>get_curve\<close> fills.
\<close>

record mon_input =
  in_stop :: bool
  in_stop_again :: bool
  in_miss_ratio :: real
  in_Size :: size_t
  in_curve :: "curve_data_node list"
  in_DC_hit_lat :: real
  in_miss_lat :: real
  in_FC_lat :: real
  in_Frozen_Avg :: double
  in_performance :: double
  in_step :: size_t
  in_tail :: "nat \<Rightarrow> real"
  in_tail_thawed :: "nat \<Rightarrow> real"

definition poll :: "mon_input \<Rightarrow> monitor \<Rightarrow> monitor" where
  "poll x m = m\<lparr>should_stop := should_stop m \<or> in_stop x\<rparr>"

definition data_pass :: "monitor \<Rightarrow> monitor" where
  "data_pass m = m\<lparr>print_step_counter := print_step_counter m + 1\<rparr>"

section \<open>Observation\<close>

definition wait_stable_begin :: "monitor \<Rightarrow> monitor" where
  "wait_stable_begin m = m\<lparr>last_miss_ratio := 1.5, last_size := 0, this_size := 0,
     stop_sample_stat := True, wait_count := 0, mon_at := Observing\<rparr>"

text \<open>One iteration of the loop that waits until the cache is full and the miss ratio does not fall; the flag says that the loop ends.\<close>

definition observe :: "mon_input \<Rightarrow> monitor \<Rightarrow> bool \<times> monitor" where
  "observe x m =
     (let m = poll x m in
      if should_stop m then (True, m)
      else
        let m = data_pass m; full = last_size m \<ge> this_size m;
            m = (if full \<and> last_miss_ratio m \<le> in_miss_ratio x then m\<lparr>wait_count := wait_count m + 1\<rparr> else m)
        in if full \<and> wait_count m \<ge> WAIT_STABLE_THRESHOLD then (True, m)
           else (False, m\<lparr>last_size := this_size m, this_size := in_Size x, last_miss_ratio := in_miss_ratio x\<rparr>))"

definition observe_step :: "mon_input \<Rightarrow> monitor \<Rightarrow> monitor" where
  "observe_step x m =
     (case observe x m of
        (True, m) \<Rightarrow> m\<lparr>beginning_flag := False, mon_at := Searching\<rparr>
      | (False, m) \<Rightarrow> m)"

section \<open>Search\<close>

text \<open>The estimated average latency of a point of the curve, and the ratio it stands for.\<close>

definition curve_point :: "real \<Rightarrow> real \<Rightarrow> real \<Rightarrow> bool \<Rightarrow> curve_data_node \<Rightarrow> real \<times> real" where
  "curve_point DC_hit_lat miss_lat FC_lat is_last p =
     (let tSize = curve_size p; tFC_hit = curve_FC_hit p; tMiss = curve_miss p;
          frozen_avg = tFC_hit * FC_lat + tMiss * (miss_lat + FC_lat) + (1 - tFC_hit - tMiss) * (FC_lat + DC_hit_lat)
      in if tSize < 0.01 then ((tMiss * miss_lat + (1 - tMiss) * DC_hit_lat) / (1 + FH_PERFORMANCE_THRESHOLD), 0)
         else if is_last \<and> tSize > 0.65 then (frozen_avg, 1)
         else (frozen_avg, tSize))"

fun best_point :: "(bool \<Rightarrow> curve_data_node \<Rightarrow> real \<times> real) \<Rightarrow> curve_data_node list \<Rightarrow> real \<times> real \<Rightarrow> real \<times> real" where
  "best_point point [] best = best"
| "best_point point (p # ps) best =
     (let (avg, tSize) = point (ps = []) p
      in best_point point ps (if avg < fst best then (avg, tSize) else best))"

definition best_ratio :: "mon_input \<Rightarrow> curve_data_node list \<Rightarrow> real \<times> real" where
  "best_ratio x container =
     (let best = best_point (curve_point (in_DC_hit_lat x) (in_miss_lat x) (in_FC_lat x)) container (1000, 0)
      in case in_Frozen_Avg x of
           None \<Rightarrow> best
         | Some Frozen_Avg \<Rightarrow> if fst best > Frozen_Avg then (Frozen_Avg, 1) else best)"

text \<open>The search reads and clears the curve of \<open>m_shards[0]\<close>.\<close>

definition search_step :: "mon_input \<Rightarrow> monitor \<Rightarrow> (shard_call list \<times> monitor) result" where
  "search_step x m =
     (if mon_numShards m = 0 then Inl OutOfRange else
      let m = poll x m; shards = [0..<mon_numShards m];
          curve = (if should_stop m then [] else [GetCurve 0]);
          container = (if should_stop m then [] else in_curve x);
          m = data_pass (data_pass (data_pass m));
          m = m\<lparr>best_size := snd (best_ratio x container), should_stop := should_stop m \<or> in_stop_again x\<rparr>;
          calls = curve @ map ConstructTier shards @ map Deconstruct shards @ [ClearCurve 0]
      in if \<not> should_stop m \<and> best_size m < 0.05
         then let m = m\<lparr>SLEEP_THRESHOLD := SLEEP_THRESHOLD m * 8\<rparr>
              in Inr (calls, m\<lparr>mon_at := Search_sleep (unat (SLEEP_THRESHOLD m))\<rparr>)
         else Inr (calls, m\<lparr>mon_at := CONSTRUCT\<rparr>))"

definition search_sleep_step :: "nat \<Rightarrow> mon_input \<Rightarrow> monitor \<Rightarrow> monitor" where
  "search_sleep_step n x m =
     (let m = poll x m in
      if should_stop m then m\<lparr>mon_at := CONSTRUCT\<rparr>
      else case n of 0 \<Rightarrow> m\<lparr>mon_at := WAIT_STABLE\<rparr> | Suc n \<Rightarrow> (data_pass m)\<lparr>mon_at := Search_sleep n\<rparr>)"

section \<open>Construction\<close>

text \<open>
  The baseline is measured for the whole cache and, in the arrays, for every shard; all shards are
  queued.
\<close>

fun reset_latencies :: "nat list \<Rightarrow> monitor \<Rightarrow> monitor result" where
  "reset_latencies [] m = Inr m"
| "reset_latencies (i # is) m = (if i < req_latency_length then reset_latencies is m else Inl OutOfRange)"

fun baseline_tails :: "mon_input \<Rightarrow> nat list \<Rightarrow> monitor \<Rightarrow> monitor result" where
  "baseline_tails x [] m = Inr m"
| "baseline_tails x (i # is) m =
     (let m = m\<lparr>construct_container := construct_container m @ [i]\<rparr>
      in if i < req_latency_length \<and> i < baseline_metrics_length
         then baseline_tails x is (m\<lparr>baseline_metrics := (baseline_metrics m)(i := in_tail x i)\<rparr>)
         else Inl OutOfRange)"

definition construct_begin :: "mon_input \<Rightarrow> monitor \<Rightarrow> monitor result" where
  "construct_begin x m =
     (let m = m\<lparr>fail_list := []\<rparr>
      in r_assert (construct_container m = []) ''construct_container.empty()'' (
         let m = (data_pass m)\<lparr>baseline_step := 0, construct_step := in_step x,
               baseline_performance_with_threshold := map_option (\<lambda>b. b / (1 + FH_PERFORMANCE_THRESHOLD)) (in_performance x),
               stop_sample_stat := False\<rparr>
         in r_bind (reset_latencies [0..<mon_numShards m] m) (\<lambda>m.
            r_bind (baseline_tails x [0..<mon_numShards m] m) (\<lambda>m.
            Inr (m\<lparr>pass_count := 0, mon_at := Constructing\<rparr>)))))"

definition construct_calls :: "real \<Rightarrow> nat list \<Rightarrow> shard_call list" where
  "construct_calls r is =
     concat (map (\<lambda>i. [if double_is_equal r 1 then ConstructTier i else ConstructRatio i r, ResetCursor i]) is)"

text \<open>The shards that are not fast enough are thawed, measured again and queued for the next pass.\<close>

fun check_calls ::
    "mon_input \<Rightarrow> nat list \<Rightarrow> (nat \<Rightarrow> real) \<Rightarrow> shard_call list \<times> nat list \<times> (nat \<Rightarrow> real)" where
  "check_calls x [] base = ([], [], base)"
| "check_calls x (i # is) base =
     (if in_tail x i > base i / (1 + FH_PERFORMANCE_THRESHOLD)
      then let (calls, left, base) = check_calls x is (base(i := in_tail_thawed x i))
           in (PrintStep i # Deconstruct i # calls, i # left, base)
      else let (calls, left, base) = check_calls x is base in (PrintStep i # calls, left, base))"

definition construct_pass :: "mon_input \<Rightarrow> monitor \<Rightarrow> shard_call list \<times> monitor" where
  "construct_pass x m =
     (let m = poll x m in
      if should_stop m \<or> construct_container m = [] then ([], m\<lparr>mon_at := Construct_end\<rparr>)
      else if pass_count m \<ge> PASS_THRESHOLD
      then ([], m\<lparr>fail_list := construct_container m, construct_container := [], mon_at := Construct_end\<rparr>)
      else
        let is = construct_container m; (calls, left, base) = check_calls x is (baseline_metrics m)
        in (construct_calls (best_size m) is @ calls,
            (data_pass m)\<lparr>construct_container := left, baseline_metrics := base, pass_count := pass_count m + 1,
              construct_step := construct_step m + in_step x\<rparr>))"

definition construct_end_step :: "mon_input \<Rightarrow> monitor \<Rightarrow> monitor" where
  "construct_end_step x m =
     (let m = poll x m in
      if \<not> should_stop m \<and> length (fail_list m) = mon_numShards m then m\<lparr>mon_at := WAIT_STABLE\<rparr>
      else m\<lparr>stop_sample_stat := True, performance_depletion := Fin COUNT_THRESHOLD, first_flag := True,
        total_step := 0, current_step := 0, mon_at := Frozen_loop\<rparr>)"

section \<open>Frozen run and thawing\<close>

text \<open>The depletion integrates the relative gain over the baseline; a baseline of 0 and a first iteration without requests divide by 0.\<close>

definition depletion_delta :: "double \<Rightarrow> double \<Rightarrow> size_t \<Rightarrow> size_t \<Rightarrow> ieee" where
  "depletion_delta base perf thput base_step =
     (case (base, perf) of
        (Some b, Some p) \<Rightarrow> ieee_div (ieee_times (ieee_div (Fin (b - p)) b) (real (unat thput))) (real (unat base_step))
      | _ \<Rightarrow> NaN)"

definition thaw_all :: "monitor \<Rightarrow> shard_call list" where
  "thaw_all m = map Deconstruct [0..<mon_numShards m]"

definition frozen_step :: "mon_input \<Rightarrow> monitor \<Rightarrow> (shard_call list \<times> monitor) result" where
  "frozen_step x m =
     (let m = poll x m in
      if should_stop m then Inr ([], m\<lparr>mon_at := DECONSTRUCT\<rparr>)
      else
        let m = data_pass m;
            m = (if first_flag m then m\<lparr>baseline_step := in_step x, first_flag := False\<rparr> else m);
            delta = depletion_delta (baseline_performance_with_threshold m) (in_performance x) (in_step x) (baseline_step m);
            m = m\<lparr>performance_depletion := ieee_plus (performance_depletion m) delta\<rparr>
        in if ieee_le (performance_depletion m) (Fin 0)
           then Inr ([], m\<lparr>SLEEP_THRESHOLD := SLEEP_THRESHOLD m * 8, mon_at := DECONSTRUCT\<rparr>)
           else
             let m = m\<lparr>total_step := total_step m + in_step x, current_step := current_step m + in_step x\<rparr>
             in if total_step m > construct_step m * of_int (mon_FROZEN_THRESHOLD m)
                then Inr (thaw_all m,
                  m\<lparr>SLEEP_THRESHOLD := (if SLEEP_THRESHOLD m \<ge> 2 then SLEEP_THRESHOLD m div 2 else SLEEP_THRESHOLD m),
                    mon_at := CONSTRUCT\<rparr>)
                else if current_step m > construct_step m
                then if ieee_less (Fin COUNT_THRESHOLD) (performance_depletion m)
                     then Inr ([], m\<lparr>performance_depletion := Fin COUNT_THRESHOLD, current_step := 0\<rparr>)
                     else if construct_step m = 0 then Inl DivByZero
                     else Inr (thaw_all m, m\<lparr>mon_at := CONSTRUCT\<rparr>)
                else Inr ([], m))"

definition deconstruct_step :: "mon_input \<Rightarrow> monitor \<Rightarrow> shard_call list \<times> monitor" where
  "deconstruct_step x m =
     (let m = poll x m in
      (thaw_all m, m\<lparr>mon_at := (if should_stop m then Ended else Thaw_sleep (unat (SLEEP_THRESHOLD m)))\<rparr>))"

definition thaw_sleep_step :: "nat \<Rightarrow> mon_input \<Rightarrow> monitor \<Rightarrow> monitor" where
  "thaw_sleep_step n x m =
     (let m = poll x m in
      case n of
        0 \<Rightarrow> m\<lparr>mon_at := (if should_stop m then Ended else WAIT_STABLE)\<rparr>
      | Suc n \<Rightarrow> (data_pass m)\<lparr>mon_at := (if should_stop m then Ended else Thaw_sleep n)\<rparr>)"

section \<open>The monitors\<close>

definition FastHashMonitor_step :: "mon_input \<Rightarrow> monitor \<Rightarrow> (shard_call list \<times> monitor) result" where
  "FastHashMonitor_step x m = (case mon_at m of
     WAIT_STABLE \<Rightarrow> Inr ([], wait_stable_begin m)
   | Observing \<Rightarrow> Inr ([], observe_step x m)
   | Searching \<Rightarrow> search_step x m
   | Search_sleep n \<Rightarrow> Inr ([], search_sleep_step n x m)
   | CONSTRUCT \<Rightarrow> r_bind (construct_begin x m) (\<lambda>m. Inr ([], m))
   | Constructing \<Rightarrow> Inr (construct_pass x m)
   | Construct_end \<Rightarrow> Inr ([], construct_end_step x m)
   | Frozen_loop \<Rightarrow> frozen_step x m
   | DECONSTRUCT \<Rightarrow> Inr (deconstruct_step x m)
   | Thaw_sleep n \<Rightarrow> Inr ([], thaw_sleep_step n x m)
   | Base_run \<Rightarrow> Inr ([], m)
   | Ended \<Rightarrow> Inr ([], m))"

fun FastHashMonitor :: "mon_input list \<Rightarrow> monitor \<Rightarrow> (shard_call list \<times> monitor) result" where
  "FastHashMonitor [] m = Inr ([], m)"
| "FastHashMonitor (x # xs) m =
     r_bind (FastHashMonitor_step x m) (\<lambda>(calls, m).
     r_bind (FastHashMonitor xs m) (\<lambda>(calls', m). Inr (calls @ calls', m)))"

text \<open>\<open>BaseMonitor\<close>: the same observation, then a loop that prints until it is stopped.\<close>

definition BaseMonitor_step :: "mon_input \<Rightarrow> monitor \<Rightarrow> monitor" where
  "BaseMonitor_step x m = (case mon_at m of
     WAIT_STABLE \<Rightarrow> (wait_stable_begin m)\<lparr>stop_sample_stat := stop_sample_stat m\<rparr>
   | Observing \<Rightarrow> (case observe x m of (True, m) \<Rightarrow> m\<lparr>mon_at := Base_run\<rparr> | (False, m) \<Rightarrow> m)
   | Base_run \<Rightarrow> (let m = poll x m in if should_stop m then m\<lparr>mon_at := Ended\<rparr> else data_pass m)
   | _ \<Rightarrow> m)"

definition monitor_stop :: "monitor \<Rightarrow> monitor" where
  "monitor_stop m = m\<lparr>should_stop := True\<rparr>"

definition monitor_new :: "nat \<Rightarrow> int \<Rightarrow> monitor" where
  "monitor_new n ft = \<lparr>mon_numShards = n, mon_FROZEN_THRESHOLD = ft, mon_at = WAIT_STABLE, should_stop = False,
     beginning_flag = True, stop_sample_stat = True, SLEEP_THRESHOLD = 2, print_step_counter = 0, last_miss_ratio = 0,
     last_size = 0, this_size = 0, wait_count = 0, best_size = 0, construct_container = [], fail_list = [],
     baseline_metrics = (\<lambda>_. 0), pass_count = 0, construct_step = 0, baseline_step = 0, total_step = 0, current_step = 0,
     baseline_performance_with_threshold = None, performance_depletion = Fin COUNT_THRESHOLD, first_flag = True\<rparr>"

section \<open>Which shards are frozen\<close>

text \<open>
  The effect of the calls on the set of the shards that were constructed and not deconstructed since, and that only other shards are constructed or
  profiled.
\<close>

fun call_effect :: "shard_call \<Rightarrow> nat set \<Rightarrow> nat set" where
  "call_effect (ConstructTier i) F = insert i F"
| "call_effect (ConstructRatio i r) F = insert i F"
| "call_effect (Deconstruct i) F = F - {i}"
| "call_effect _ F = F"

fun call_ok :: "shard_call \<Rightarrow> nat set \<Rightarrow> bool" where
  "call_ok (ConstructTier i) F \<longleftrightarrow> i \<notin> F"
| "call_ok (ConstructRatio i r) F \<longleftrightarrow> i \<notin> F"
| "call_ok (GetCurve i) F \<longleftrightarrow> i \<notin> F"
| "call_ok _ F \<longleftrightarrow> True"

definition frozen_after :: "shard_call list \<Rightarrow> nat set \<Rightarrow> nat set" where
  "frozen_after calls F = fold call_effect calls F"

fun calls_ok :: "shard_call list \<Rightarrow> nat set \<Rightarrow> bool" where
  "calls_ok [] F \<longleftrightarrow> True"
| "calls_ok (c # cs) F \<longleftrightarrow> call_ok c F \<and> calls_ok cs (call_effect c F)"

lemma frozen_after_simps [simp]:
  "frozen_after [] F = F" "frozen_after (c # cs) F = frozen_after cs (call_effect c F)"
  "frozen_after (cs @ ds) F = frozen_after ds (frozen_after cs F)"
  by (simp_all add: frozen_after_def)

lemma calls_ok_append [simp]: "calls_ok (cs @ ds) F \<longleftrightarrow> calls_ok cs F \<and> calls_ok ds (frozen_after cs F)"
  by (induction cs arbitrary: F) auto

lemma thaw_calls [simp]: "calls_ok (map Deconstruct is) F" "frozen_after (map Deconstruct is) F = F - set is"
  by (induction "is" arbitrary: F) auto

lemma tier_calls:
  assumes "distinct is" "F \<inter> set is = {}"
  shows "calls_ok (map ConstructTier is) F" "frozen_after (map ConstructTier is) F = F \<union> set is"
  using assms by (induction "is" arbitrary: F) auto

lemma construct_calls_frozen:
  assumes "distinct is" "F \<inter> set is = {}"
  shows "calls_ok (construct_calls r is) F" "frozen_after (construct_calls r is) F = F \<union> set is"
  using assms by (induction "is" arbitrary: F) (auto simp: construct_calls_def)

lemma check_calls_frozen:
  assumes "check_calls x is base = (calls, left, base')" "distinct is"
  shows "calls_ok calls F \<and> frozen_after calls F = F - set left \<and> set left \<subseteq> set is \<and> distinct left"
  using assms
proof (induction "is" arbitrary: base calls left base' F)
  case (Cons i "is")
  obtain calls1 left1 base1 where c: "check_calls x is (if in_tail x i > base i / (1 + FH_PERFORMANCE_THRESHOLD) then base(i := in_tail_thawed x i) else base) = (calls1, left1, base1)"
    by (metis prod_cases3)
  from Cons.IH [OF c] Cons.prems c show ?case
    by (fastforce split: if_splits prod.splits)
qed auto

text \<open>The invariant of the monitor, with the set of frozen shards.\<close>

definition all_thawed :: "monitor \<Rightarrow> nat set \<Rightarrow> bool" where
  "all_thawed m F \<longleftrightarrow> F = {} \<and> construct_container m = []"

definition mon_inv :: "monitor \<Rightarrow> nat set \<Rightarrow> bool" where
  "mon_inv m F \<longleftrightarrow> F \<subseteq> {..<mon_numShards m} \<and> mon_numShards m \<le> 16 \<and> (case mon_at m of
     Constructing \<Rightarrow> F = {..<mon_numShards m} - set (construct_container m) \<and> distinct (construct_container m) \<and>
       set (construct_container m) \<subseteq> {..<mon_numShards m} \<and> fail_list m = []
   | Construct_end \<Rightarrow> F = {..<mon_numShards m} - set (construct_container m) - set (fail_list m) \<and> distinct (fail_list m) \<and>
       set (fail_list m) \<subseteq> {..<mon_numShards m} \<and> (construct_container m = [] \<or> should_stop m)
   | Frozen_loop \<Rightarrow> (construct_container m = [] \<or> should_stop m) \<and> (construct_step m = 0 \<longrightarrow> total_step m = 0 \<and> current_step m = 0)
   | DECONSTRUCT \<Rightarrow> construct_container m = [] \<or> should_stop m
   | Ended \<Rightarrow> F = {}
   | _ \<Rightarrow> all_thawed m F)"

lemma poll_simps [simp]:
  "mon_numShards (poll x m) = mon_numShards m" "construct_container (poll x m) = construct_container m"
  "fail_list (poll x m) = fail_list m" "mon_at (poll x m) = mon_at m" "total_step (poll x m) = total_step m"
  "current_step (poll x m) = current_step m" "should_stop (poll x m) = (should_stop m \<or> in_stop x)"
  "pass_count (poll x m) = pass_count m" "construct_step (poll x m) = construct_step m"
  by (simp_all add: poll_def)

lemma data_pass_simps [simp]:
  "mon_numShards (data_pass m) = mon_numShards m" "construct_container (data_pass m) = construct_container m"
  "fail_list (data_pass m) = fail_list m" "mon_at (data_pass m) = mon_at m" "total_step (data_pass m) = total_step m"
  "current_step (data_pass m) = current_step m" "should_stop (data_pass m) = should_stop m"
  "pass_count (data_pass m) = pass_count m" "construct_step (data_pass m) = construct_step m"
  by (simp_all add: data_pass_def)

lemma set_shards: "set [0..<n] = {..<n}"
  by auto

lemma observe_inv:
  assumes "mon_inv m F" "mon_at m = Observing" shows "mon_inv (observe_step x m) F"
  using assms by (auto simp: mon_inv_def observe_step_def observe_def all_thawed_def Let_def split: if_splits)

lemma search_inv:
  assumes "mon_inv m F" "mon_at m = Searching" "0 < mon_numShards m"
  shows "\<exists>calls m'. search_step x m = Inr (calls, m') \<and> calls_ok calls F \<and> mon_inv m' (frozen_after calls F)"
proof -
  have F: "F = {}" "construct_container m = []" "mon_numShards m \<le> 16" using assms by (auto simp: mon_inv_def all_thawed_def)
  show ?thesis
    using F assms(3) tier_calls [of "[0..<mon_numShards m]" "{}"]
    by (auto simp: search_step_def Let_def mon_inv_def all_thawed_def)
qed

lemma construct_pass_inv:
  assumes "mon_inv m F" "mon_at m = Constructing"
  shows "calls_ok (fst (construct_pass x m)) F \<and> mon_inv (snd (construct_pass x m)) (frozen_after (fst (construct_pass x m)) F)"
proof -
  let ?is = "construct_container m"
  obtain calls left base where c: "check_calls x ?is (baseline_metrics (poll x m)) = (calls, left, base)" by (metis prod_cases3)
  have i: "F = {..<mon_numShards m} - set ?is" "distinct ?is" "set ?is \<subseteq> {..<mon_numShards m}" "mon_numShards m \<le> 16" "fail_list m = []"
    using assms by (auto simp: mon_inv_def)
  note f = construct_calls_frozen [OF i(2), of F "best_size (poll x m)"]
  have "F \<union> set ?is = {..<mon_numShards m}" "F \<inter> set ?is = {}" using i by auto
  with f check_calls_frozen [OF c i(2), of "{..<mon_numShards m}"] i c assms(2) show ?thesis
    by (auto simp: construct_pass_def Let_def mon_inv_def)
qed

lemma reset_latencies_ok: "list_all (\<lambda>i. i < 16) is \<Longrightarrow> reset_latencies is m = Inr m"
  by (induction "is") (simp_all add: req_latency_length_def)

lemma baseline_tails_ok:
  "list_all (\<lambda>i. i < 16) is \<Longrightarrow> \<exists>b. baseline_tails x is m = Inr (m\<lparr>construct_container := construct_container m @ is, baseline_metrics := b\<rparr>)"
proof (induction "is" arbitrary: m)
  case Nil
  have "m = m\<lparr>construct_container := construct_container m @ [], baseline_metrics := baseline_metrics m\<rparr>" by simp
  then show ?case by (metis baseline_tails.simps(1))
next
  case (Cons i "is")
  then show ?case
    using Cons.IH [of "m\<lparr>construct_container := construct_container m @ [i], baseline_metrics := (baseline_metrics m)(i := in_tail x i)\<rparr>"]
    by (auto simp: req_latency_length_def baseline_metrics_length_def)
qed

lemma construct_begin_inv:
  assumes "mon_inv m F" "mon_at m = CONSTRUCT"
  shows "\<exists>m'. construct_begin x m = Inr m' \<and> mon_inv m' F"
proof -
  have i: "F = {}" "construct_container m = []" "mon_numShards m \<le> 16" using assms by (auto simp: mon_inv_def all_thawed_def)
  then have l: "list_all (\<lambda>i. i < 16) [0..<mon_numShards m]" by (simp add: list_all_iff)
  define m1 where "m1 = (data_pass (m\<lparr>fail_list := []\<rparr>))\<lparr>baseline_step := 0, construct_step := in_step x,
    baseline_performance_with_threshold := map_option (\<lambda>b. b / (1 + FH_PERFORMANCE_THRESHOLD)) (in_performance x), stop_sample_stat := False\<rparr>"
  have m1: "construct_container m1 = []" "mon_numShards m1 = mon_numShards m" "fail_list m1 = []" using i by (simp_all add: m1_def data_pass_def)
  obtain b where "baseline_tails x [0..<mon_numShards m] m1 = Inr (m1\<lparr>construct_container := [0..<mon_numShards m], baseline_metrics := b\<rparr>)"
    using baseline_tails_ok [OF l, of x m1] m1(1) by auto
  then have "construct_begin x m = Inr (m1\<lparr>construct_container := [0..<mon_numShards m], baseline_metrics := b, pass_count := 0, mon_at := Constructing\<rparr>)"
    using i m1(2) reset_latencies_ok [OF l] by (simp add: construct_begin_def Let_def flip: m1_def)
  then show ?thesis using i m1 by (simp add: mon_inv_def lessThan_atLeast0)
qed

lemma construct_end_inv:
  assumes "mon_inv m F" "mon_at m = Construct_end"
  shows "mon_inv (construct_end_step x m) F"
proof -
  have "set (fail_list m) = {..<mon_numShards m}" if "length (fail_list m) = mon_numShards m"
    using assms that by (intro card_subset_eq) (auto simp: mon_inv_def distinct_card)
  with assms show ?thesis by (auto simp: mon_inv_def all_thawed_def construct_end_step_def Let_def)
qed

lemma frozen_inv:
  assumes "mon_inv m F" "mon_at m = Frozen_loop"
  shows "\<exists>calls m'. frozen_step x m = Inr (calls, m') \<and> calls_ok calls F \<and> mon_inv m' (frozen_after calls F)"
proof -
  have "F - {..<mon_numShards m} = {}" using assms by (auto simp: mon_inv_def)
  with assms show ?thesis
    by (auto simp: mon_inv_def all_thawed_def frozen_step_def thaw_all_def Let_def lessThan_atLeast0 word_gt_0)
qed

lemma deconstruct_inv:
  assumes "mon_inv m F" "mon_at m = DECONSTRUCT"
  shows "calls_ok (fst (deconstruct_step x m)) F \<and> mon_inv (snd (deconstruct_step x m)) (frozen_after (fst (deconstruct_step x m)) F)"
  using assms by (auto simp: mon_inv_def all_thawed_def deconstruct_step_def thaw_all_def Let_def)

lemma sleep_inv:
  assumes "mon_inv m F"
  shows "mon_at m = Search_sleep n \<Longrightarrow> mon_inv (search_sleep_step n x m) F"
    and "mon_at m = Thaw_sleep n \<Longrightarrow> mon_inv (thaw_sleep_step n x m) F"
  using assms by (auto simp: mon_inv_def all_thawed_def search_sleep_step_def thaw_sleep_step_def Let_def split: nat.splits)

lemma loops_keep:
  "reset_latencies is m = Inr m' \<Longrightarrow> m' = m"
  "baseline_tails x is m = Inr m' \<Longrightarrow> mon_numShards m' = mon_numShards m"
proof -
  show "reset_latencies is m = Inr m' \<Longrightarrow> m' = m" by (induction "is") (auto split: if_splits)
  show "baseline_tails x is m = Inr m' \<Longrightarrow> mon_numShards m' = mon_numShards m"
    by (induction "is" arbitrary: m) (fastforce simp: Let_def split: if_splits)+
qed

lemma step_inv:
  assumes i: "mon_inv m F" and b: "mon_at m \<noteq> Base_run" and n: "mon_at m = Searching \<Longrightarrow> 0 < mon_numShards m"
  shows "\<exists>calls m'. FastHashMonitor_step x m = Inr (calls, m') \<and> calls_ok calls F \<and> mon_inv m' (frozen_after calls F) \<and>
    mon_at m' \<noteq> Base_run \<and> mon_numShards m' = mon_numShards m"
proof -
  have nb: "mon_at m' \<noteq> Base_run \<and> mon_numShards m' = mon_numShards m" if "FastHashMonitor_step x m = Inr (calls, m')" for calls m'
    using that b
    by (auto simp: FastHashMonitor_step_def wait_stable_begin_def observe_step_def observe_def search_step_def search_sleep_step_def
        construct_begin_def construct_pass_def construct_end_step_def frozen_step_def deconstruct_step_def thaw_sleep_step_def
        Let_def r_bind_eq_Inr r_assert_eq_Inr case_prod_beta split: mon_pc.splits if_splits nat.splits bool.splits dest!: loops_keep)
  have "\<exists>calls m'. FastHashMonitor_step x m = Inr (calls, m') \<and> calls_ok calls F \<and> mon_inv m' (frozen_after calls F)"
  proof (cases "mon_at m")
    case WAIT_STABLE
    with i show ?thesis by (auto simp: FastHashMonitor_step_def wait_stable_begin_def mon_inv_def all_thawed_def)
  next
    case Searching
    with search_inv [OF i Searching n, of x] show ?thesis by (simp add: FastHashMonitor_step_def)
  next
    case CONSTRUCT
    with construct_begin_inv [OF i, of x] show ?thesis by (auto simp: FastHashMonitor_step_def)
  next
    case Constructing
    with construct_pass_inv [OF i, of x] show ?thesis by (simp add: FastHashMonitor_step_def) (metis prod.collapse)
  next
    case DECONSTRUCT
    with deconstruct_inv [OF i, of x] show ?thesis by (simp add: FastHashMonitor_step_def) (metis prod.collapse)
  next
    case Frozen_loop
    with frozen_inv [OF i, of x] show ?thesis by (simp add: FastHashMonitor_step_def)
  qed (use i b observe_inv sleep_inv construct_end_inv in \<open>auto simp: FastHashMonitor_step_def\<close>)
  with nb show ?thesis by blast
qed

lemma run_inv:
  assumes "mon_inv m F" "mon_at m \<noteq> Base_run" "0 < mon_numShards m"
  shows "\<exists>calls m'. FastHashMonitor xs m = Inr (calls, m') \<and> calls_ok calls F \<and> mon_inv m' (frozen_after calls F)"
  using assms
proof (induction xs arbitrary: m F)
  case (Cons x xs)
  obtain calls m1 where m1: "FastHashMonitor_step x m = Inr (calls, m1)" "calls_ok calls F" "mon_inv m1 (frozen_after calls F)" "mon_at m1 \<noteq> Base_run"
      "mon_numShards m1 = mon_numShards m"
    using step_inv [OF Cons.prems(1,2)] Cons.prems(3) by blast
  from Cons.IH [OF m1(3,4)] m1 Cons.prems(3) show ?case by auto
qed simp

text \<open>The calls of a run that has not failed, also without shards.\<close>

lemma run_calls_ok:
  assumes "mon_inv m F" "mon_at m \<noteq> Base_run" "FastHashMonitor xs m = Inr (calls, m')"
  shows "calls_ok calls F"
  using assms
proof (induction xs arbitrary: m F calls)
  case (Cons x xs)
  obtain c1 m1 c2 where r: "FastHashMonitor_step x m = Inr (c1, m1)" "FastHashMonitor xs m1 = Inr (c2, m')" "calls = c1 @ c2"
    using Cons.prems(3) by (auto simp: r_bind_eq_Inr)
  have "mon_at m = Searching \<Longrightarrow> 0 < mon_numShards m" using r(1) by (auto simp: FastHashMonitor_step_def search_step_def split: if_splits)
  from step_inv [OF Cons.prems(1,2) this, of x] r(1) have "calls_ok c1 F" "mon_inv m1 (frozen_after c1 F)" "mon_at m1 \<noteq> Base_run" by auto
  with Cons.IH [OF this(2,3) r(2)] r(3) show ?case by simp
qed simp

lemma inv_new: "n \<le> 16 \<Longrightarrow> mon_inv (monitor_new n ft) {}"
  by (simp add: mon_inv_def monitor_new_def all_thawed_def)

text \<open>An input that stops nothing and finds the frozen cache to be the best, and one that asks to stop.\<close>

definition calm :: mon_input where
  "calm = \<lparr>in_stop = False, in_stop_again = False, in_miss_ratio = 2, in_Size = 0, in_curve = [], in_DC_hit_lat = 4, in_miss_lat = 100,
     in_FC_lat = 1, in_Frozen_Avg = Some 1, in_performance = Some 1, in_step = 100, in_tail = (\<lambda>_. 1), in_tail_thawed = (\<lambda>_. 4)\<rparr>"

lemma calm_run: "0 < n \<Longrightarrow> FastHashMonitor [calm, calm, calm, calm] (monitor_new n ft) =
  Inr (GetCurve 0 # map ConstructTier [0..<n] @ map Deconstruct [0..<n] @ [ClearCurve 0],
    (monitor_new n ft)\<lparr>mon_at := CONSTRUCT, beginning_flag := False, print_step_counter := 5, last_miss_ratio := 2,
      wait_count := 2, best_size := 1\<rparr>)"
  by (simp add: FastHashMonitor_step_def monitor_new_def wait_stable_begin_def observe_step_def observe_def poll_def data_pass_def
      calm_def WAIT_STABLE_THRESHOLD_def search_step_def best_ratio_def Let_def)

text \<open>
  C6. The monitor of a cache with 1 to 16 shards, on every sequence of measurements: no assertion
  fails and no array is accessed outside of its bounds; \<open>construct_ratio\<close>, \<open>construct_tier\<close> and \<open>get_curve\<close> are called on a shard only when
  \<open>deconstruct\<close> has been called on it since it was constructed last; and whenever the monitor is back at one of the labels \<open>WAIT_STABLE\<close> and \<open>CONSTRUCT\<close> or has ended,
  \<open>deconstruct\<close> has been called on every shard that was constructed.
\<close>

theorem FastHashMonitor_safe:
  assumes "0 < n" "n \<le> 16"
  shows "\<exists>calls m. FastHashMonitor xs (monitor_new n ft) = Inr (calls, m) \<and> calls_ok calls {} \<and>
    (mon_at m = WAIT_STABLE \<or> mon_at m = CONSTRUCT \<or> mon_at m = Ended \<longrightarrow> frozen_after calls {} = {})"
proof -
  obtain calls m where "FastHashMonitor xs (monitor_new n ft) = Inr (calls, m)" "calls_ok calls {}" "mon_inv m (frozen_after calls {})"
    using run_inv [OF inv_new [OF assms(2)], of ft xs] assms(1) by (auto simp: monitor_new_def)
  then show ?thesis by (auto simp: mon_inv_def all_thawed_def)
qed

theorem FastHashMonitor_safe_witness:
  "\<exists>calls m. FastHashMonitor [calm, calm, calm, calm] (monitor_new 2 5) = Inr (calls, m) \<and> calls_ok calls {} \<and>
    mon_at m = CONSTRUCT \<and> frozen_after calls {} = {}"
  using FastHashMonitor_safe [of 2 "[calm, calm, calm, calm]" 5] by (simp add: calm_run del: FastHashMonitor.simps)

text \<open>
  C28. With more than 16 shards the monitor can reach the construction, where it accesses
  \<open>req_latency_\<close>, an array of 16 elements, outside of its bounds.
\<close>

theorem FastHashMonitor_too_many_shards:
  assumes "16 < n"
  shows "\<exists>xs. FastHashMonitor xs (monitor_new n ft) = Inl OutOfRange"
proof -
  have append: "FastHashMonitor (xs @ ys) m = r_bind (FastHashMonitor xs m) (\<lambda>(calls, m).
      r_bind (FastHashMonitor ys m) (\<lambda>(calls', m). Inr (calls @ calls', m)))" for xs ys m
    by (induction xs arbitrary: m) (auto simp: r_bind_def split: sum.splits)
  have "reset_latencies [0..<n] m = Inl OutOfRange" for m
  proof -
    have "16 \<in> set is \<Longrightarrow> reset_latencies is m = Inl OutOfRange" for "is" m by (induction "is") (auto simp: req_latency_length_def)
    then show ?thesis using assms by simp
  qed
  then have "FastHashMonitor ([calm, calm, calm, calm] @ [calm]) (monitor_new n ft) = Inl OutOfRange"
    unfolding append using assms
    by (simp add: calm_run del: FastHashMonitor.simps)
      (simp add: FastHashMonitor_step_def construct_begin_def monitor_new_def data_pass_def Let_def)
  then show ?thesis ..
qed

theorem FastHashMonitor_too_many_shards_witness:
  "\<exists>xs. FastHashMonitor xs (monitor_new 17 5) = Inl OutOfRange"
  by (rule FastHashMonitor_too_many_shards) simp

section \<open>The construction ends\<close>

lemma pass_progress:
  assumes "mon_at m = Constructing"
  shows "mon_at (snd (construct_pass x m)) = Construct_end \<or>
    mon_at (snd (construct_pass x m)) = Constructing \<and> pass_count m < PASS_THRESHOLD \<and> pass_count (snd (construct_pass x m)) = pass_count m + 1"
  using assms by (auto simp: construct_pass_def Let_def case_prod_beta)

text \<open>
  C27. From the start of the construction loop, whatever is measured, at most four iterations lead to
  its end: three passes over the shards that are left, and one that gives up on them.
\<close>

theorem construct_terminates:
  assumes "mon_at m = Constructing" "pass_count m = 0" "length xs = 4"
  shows "\<exists>j \<le> 4. \<exists>calls m'. FastHashMonitor (take j xs) m = Inr (calls, m') \<and> mon_at m' = Construct_end"
proof -
  have "\<exists>j \<le> length xs. \<exists>calls m'. FastHashMonitor (take j xs) m = Inr (calls, m') \<and> mon_at m' = Construct_end"
    if "mon_at m = Constructing" "length xs = 4 - pass_count m" "pass_count m \<le> 3" for m and xs :: "mon_input list"
    using that
  proof (induction xs arbitrary: m)
    case (Cons x xs)
    obtain cs m1 where c: "construct_pass x m = (cs, m1)" by fastforce
    then have s: "FastHashMonitor_step x m = Inr (cs, m1)" using Cons.prems by (simp add: FastHashMonitor_step_def)
    consider "mon_at m1 = Construct_end" | "mon_at m1 = Constructing" "pass_count m < 3" "pass_count m1 = pass_count m + 1"
      using pass_progress [OF Cons.prems(1), of x] c by (auto simp: PASS_THRESHOLD_def)
    then show ?case
    proof cases
      case 1
      with s show ?thesis by (intro exI [of _ 1]) auto
    next
      case 2
      have l: "length xs = 4 - pass_count m1" "pass_count m1 \<le> 3" using 2 Cons.prems by auto
      obtain j calls m' where "j \<le> length xs" "FastHashMonitor (take j xs) m1 = Inr (calls, m')" "mon_at m' = Construct_end"
        using Cons.IH [OF 2(1) l] by blast
      with s show ?thesis by (intro exI [of _ "Suc j"]) auto
    qed
  qed simp
  with assms show ?thesis by fastforce
qed

theorem construct_terminates_witness:
  "\<exists>j \<le> 4. \<exists>calls m'. FastHashMonitor (take j [calm, calm, calm, calm]) ((monitor_new 2 5)\<lparr>mon_at := Constructing\<rparr>) =
    Inr (calls, m') \<and> mon_at m' = Construct_end"
  by (rule construct_terminates) (simp_all add: monitor_new_def)

section \<open>The ratio chosen\<close>

definition curve_points :: "mon_input \<Rightarrow> curve_data_node list \<Rightarrow> (real \<times> real) list" where
  "curve_points x c = map (\<lambda>i. curve_point (in_DC_hit_lat x) (in_miss_lat x) (in_FC_lat x) (i = length c - 1) (c ! i)) [0..<length c]"

lemma best_point_min:
  assumes "ps = map (\<lambda>i. f (i = length c - 1) (c ! i)) [0..<length c]"
  shows "best_point f c best \<in> set (best # ps) \<and> (\<forall>p \<in> set (best # ps). fst (best_point f c best) \<le> fst p)"
  using assms
proof (induction c arbitrary: ps best)
  case (Cons p c)
  let ?q = "f (c = []) p" and ?qs = "map (\<lambda>i. f (i = length c - 1) (c ! i)) [0..<length c]"
  have "map (\<lambda>i. f (i = length (p # c) - 1) ((p # c) ! i)) [0..<length (p # c)] = ?q # ?qs"
    by (auto simp: map_upt_Suc simp del: upt_Suc intro!: arg_cong [of _ _ "\<lambda>b. f b _"])
  then have ps: "set ps = insert ?q (set ?qs)" using Cons.prems by simp
  define b where "b = (if fst ?q < fst best then ?q else best)"
  have r: "best_point f (p # c) best = best_point f c b" by (simp add: b_def case_prod_beta Let_def)
  have "b \<in> {?q, best}" "fst b \<le> fst ?q" "fst b \<le> fst best" by (auto simp: b_def)
  moreover have "best_point f c b \<in> insert b (set ?qs)" "\<forall>p \<in> insert b (set ?qs). fst (best_point f c b) \<le> fst p"
    using Cons.IH [OF refl, of b, unfolded list.set(2)] by blast+
  ultimately show ?case unfolding r list.set(2) ps by (auto intro: order_trans)
qed simp

text \<open>
  C10. The search chooses one of the points of the curve, the point \<open>(1000, 0)\<close> it starts from, or the
  completely frozen cache, and no alternative has a smaller estimated latency.
\<close>

theorem best_ratio_minimal:
  "(best_ratio x c \<in> insert (1000, 0) (set (curve_points x c)) \<or> (\<exists>a. in_Frozen_Avg x = Some a \<and> best_ratio x c = (a, 1))) \<and>
   fst (best_ratio x c) \<le> 1000 \<and> list_all (\<lambda>p. fst (best_ratio x c) \<le> fst p) (curve_points x c) \<and>
   (case in_Frozen_Avg x of None \<Rightarrow> True | Some a \<Rightarrow> fst (best_ratio x c) \<le> a)"
  using best_point_min [OF curve_points_def, of x c "(1000, 0)"]
  by (cases "in_Frozen_Avg x") (fastforce simp: best_ratio_def Let_def list_all_iff)+

section \<open>The monitor and the clients on one shard\<close>

text \<open>
  The calls of the monitor interleave with those of the clients; \<open>shard_ops i\<close> is what reaches shard \<open>i\<close>,
  as operations of \<open>Frozen_Run\<close>.
\<close>

datatype event = Client nat fh_op | Call shard_call

fun call_ops :: "nat \<Rightarrow> shard_call \<Rightarrow> fh_op list" where
  "call_ops i (ConstructTier j) = (if i = j then [FreezeAll] else [])"
| "call_ops i (ConstructRatio j r) = (if i = j then [Freeze r] else [])"
| "call_ops i (Deconstruct j) = (if i = j then [Thaw] else [])"
| "call_ops i _ = []"

fun event_ops :: "nat \<Rightarrow> event \<Rightarrow> fh_op list" where
  "event_ops i (Client j x) = (if i = j then [x] else [])"
| "event_ops i (Call c) = call_ops i c"

definition shard_ops :: "nat \<Rightarrow> event list \<Rightarrow> fh_op list" where
  "shard_ops i evs = concat (map (event_ops i) evs)"

fun monitor_calls :: "event list \<Rightarrow> shard_call list" where
  "monitor_calls [] = []"
| "monitor_calls (Client j x # evs) = monitor_calls evs"
| "monitor_calls (Call c # evs) = c # monitor_calls evs"

fun client_op :: "fh_op \<Rightarrow> bool" where
  "client_op (Access _ _ _ _ _ _) \<longleftrightarrow> True"
| "client_op (Delete _) \<longleftrightarrow> True"
| "client_op _ \<longleftrightarrow> False"

fun client_event :: "event \<Rightarrow> bool" where
  "client_event (Client j x) = client_op x"
| "client_event (Call c) = True"

lemma monitor_calls_append [simp]: "monitor_calls (as @ bs) = monitor_calls as @ monitor_calls bs"
  by (induction as rule: monitor_calls.induct) auto

lemma fs_find_mode: "fs_find p k s = (r, s') \<Longrightarrow> mode s' = mode s"
  by (auto simp: fs_find_def split: option.splits if_splits)

lemma fs_insert_mode: "fs_insert n k v s = (r, s') \<Longrightarrow> mode s' = mode s"
  by (auto simp: fs_insert_def Let_def split: if_splits)

lemma client_mode:
  assumes "fs_step maxSize x (s, b) = Some (out, s', b')" "client_op x"
  shows "mode s' = mode s"
  using assms
  by (cases x) (auto simp: fs_step_def fs_delete_def split: if_splits prod.splits option.splits dest!: fs_find_mode fs_insert_mode)

lemma call_mode:
  assumes "fs_run maxSize (call_ops i c) (s, b) = Some (outs, s', b')" "mode s \<noteq> Dynamic \<longrightarrow> i \<in> F"
  shows "mode s' \<noteq> Dynamic \<longrightarrow> i \<in> call_effect c F"
  using assms by (cases c) (auto simp: fs_step_def fs_thaw_def split: if_splits)

lemma fs_run_append:
  "fs_run maxSize (xs @ ys) st = (case fs_run maxSize xs st of None \<Rightarrow> None | Some (outs, st) \<Rightarrow>
     (case fs_run maxSize ys st of None \<Rightarrow> None | Some (outs', st) \<Rightarrow> Some (outs @ outs', st)))"
  by (induction xs arbitrary: st) (auto split: option.splits prod.splits)

lemma events_mode:
  assumes "fs_run maxSize (shard_ops i evs) (s, b) = Some (outs, s', b')" "list_all client_event evs" "mode s \<noteq> Dynamic \<longrightarrow> i \<in> F"
  shows "mode s' \<noteq> Dynamic \<longrightarrow> i \<in> frozen_after (monitor_calls evs) F"
  using assms
proof (induction evs arbitrary: s b outs F)
  case (Cons ev evs)
  obtain o1 s1 b1 o2 where r: "fs_run maxSize (event_ops i ev) (s, b) = Some (o1, s1, b1)"
    "fs_run maxSize (shard_ops i evs) (s1, b1) = Some (o2, s', b')"
    using Cons.prems(1) by (auto simp: shard_ops_def fs_run_append split: option.splits)
  show ?case
  proof (cases ev)
    case (Client j x)
    then have "mode s1 = mode s" using r(1) Cons.prems(2) client_mode [of maxSize x s b _ s1 b1]
      by (auto split: if_splits option.splits)
    with Cons.IH [OF r(2)] Cons.prems(2,3) Client show ?thesis by simp
  next
    case (Call c)
    with r(1) call_mode [of maxSize i c s b o1 s1 b1 F] Cons.prems(3)
    have "mode s1 \<noteq> Dynamic \<longrightarrow> i \<in> call_effect c F" by simp
    with Cons.IH [OF r(2)] Cons.prems(2) Call show ?thesis by simp
  qed
qed (simp add: shard_ops_def)

text \<open>
  C9. The monitor and the clients together: when the monitor freezes a shard, completely or in part, the
  specification of that shard, run on everything that reached it before, is in its dynamic mode. The
  precondition of \<open>construct_ratio\<close> and \<open>construct_tier\<close> that nothing is frozen thus always holds.
\<close>

theorem monitor_freezes_dynamic:
  assumes "n \<le> 16" "FastHashMonitor xs (monitor_new n ft) = Inr (monitor_calls (pre @ Call c # post), m)"
    "c = ConstructTier i \<or> c = ConstructRatio i r" "list_all client_event pre"
    "fs_run maxSize (shard_ops i pre) (fs_init, True) = Some (outs, s, b)"
  shows "mode s = Dynamic"
proof -
  have "calls_ok (monitor_calls (pre @ Call c # post)) {}"
    using run_calls_ok [OF inv_new [OF assms(1)] _ assms(2)] by (simp add: monitor_new_def)
  then have "i \<notin> frozen_after (monitor_calls pre) {}" using assms(3) by auto
  with events_mode [OF assms(5,4)] show ?thesis by (auto simp: fs_init_def)
qed

theorem monitor_freezes_dynamic_witness:
  "\<exists>outs s b. fs_run 4 (shard_ops 0 [Call (GetCurve 0), Client 0 (Access True True True 0 10 7)]) (fs_init, True) = Some (outs, s, b) \<and>
    mode s = Dynamic"
proof -
  let ?pre = "[Call (GetCurve 0), Client 0 (Access True True True 0 10 7)]"
  have r: "FastHashMonitor [calm, calm, calm, calm] (monitor_new 1 5) =
      Inr (monitor_calls (?pre @ Call (ConstructTier 0) # [Call (Deconstruct 0), Call (ClearCurve 0)]),
        (monitor_new 1 5)\<lparr>mon_at := CONSTRUCT, beginning_flag := False, print_step_counter := 5, last_miss_ratio := 2,
          wait_count := 2, best_size := 1\<rparr>)"
    by (simp add: calm_run del: FastHashMonitor.simps)
  have "fs_run 4 (shard_ops 0 ?pre) (fs_init, True) \<noteq> None" by code_simp
  then obtain outs s b where f: "fs_run 4 (shard_ops 0 ?pre) (fs_init, True) = Some (outs, s, b)"
    by (cases "fs_run 4 (shard_ops 0 ?pre) (fs_init, True)") auto
  have "mode s = Dynamic" by (rule monitor_freezes_dynamic [OF _ r _ _ f]) simp_all
  with f show ?thesis by blast
qed

end
