(* ===== verification/Group_Commit.thy ===== *)
theory Group_Commit
  imports Prelude "HOL-Library.Sublist"
begin

text \<open>
  The group commit of \<^verbatim>\<open>src/ssdlogging/ssdlogging_server.h\<close> and \<^verbatim>\<open>ssdlogging_server.cc\<close>, with the log writer of
  \<^verbatim>\<open>fs_log_writer.cc\<close>. A client thread that calls \<open>AddLog\<close> pushes a \<open>Writer\<close>, which lives on its stack, onto
  the list \<open>newest_writer_\<close> and waits. The server thread reserves a log, takes the whole list and makes its newest
  writer the leader; the leader writes the data of the list to the log and then tells the other writers that they are
  done. The threads interleave at their accesses to the shared variables (\<open>newest_writer_\<close>,
  \<open>log_free_\<close>, \<open>state\<close>) and at the operations on the mutex and the condition variable of a writer: a step of the model is one such
  access with the local work up to the next one. The accesses are sequentially consistent.
  \<open>MakeGroup\<close> and \<open>WriteToLog\<close> are single steps: the links and the data of the group and the reserved log are
  not accessed by other threads while they run.

  A writer is identified by its thread, which reuses the same stack address for its next call; it
  can be accessed while its thread is in \<open>AddLog\<close>, any other access is an \<open>InvalidAccess\<close>. In
  \<open>log_free_\<close>, \<open>true\<close> means that the log is in use.
\<close>

section \<open>The log writer\<close>

text \<open>\<open>buffer\<close> up to \<open>current_buffer_offset\<close>, what has been written to the file, and the part of it that has been synced.\<close>

record FSLogWriter =
  lw_buffer :: "byte list"
  lw_file :: "byte list"
  lw_synced :: "byte list"
  total_written_size :: uint64

definition MAX_BUFFER_SIZE :: nat where "MAX_BUFFER_SIZE = 1024 * 1024"

definition FSLogWriter_new :: FSLogWriter where
  "FSLogWriter_new = \<lparr>lw_buffer = [], lw_file = [], lw_synced = [], total_written_size = 0\<rparr>"

definition AppendData :: "byte list \<Rightarrow> FSLogWriter \<Rightarrow> FSLogWriter result" where
  "AppendData data l =
     r_assert (length (lw_buffer l) + length data < MAX_BUFFER_SIZE) ''current_buffer_offset + size < MAX_BUFFER_SIZE''
       (Inr (l\<lparr>lw_buffer := lw_buffer l @ data\<rparr>))"

text \<open>
  \<open>sz\<close> is what \<open>write\<close> returns, as a \<open>size_t\<close>: the number of bytes it has written, or \<open>-1\<close>; \<open>rc\<close> is what \<open>fdatasync\<close> returns.
\<close>

definition Sync :: "uint64 \<Rightarrow> int \<Rightarrow> FSLogWriter \<Rightarrow> FSLogWriter result" where
  "Sync sz rc l =
     (let l = l\<lparr>lw_file := lw_file l @ take (nat (sint sz)) (lw_buffer l)\<rparr>
      in r_assert (of_nat (length (lw_buffer l)) = sz) ''current_buffer_offset == sz'' (
         let l = (if rc = 0 then l\<lparr>lw_synced := lw_file l\<rparr> else l)
         in r_assert (rc = 0) ''rc == 0''
              (Inr (l\<lparr>total_written_size := total_written_size l + of_nat (length (lw_buffer l)), lw_buffer := []\<rparr>))))"

section \<open>The state\<close>

datatype State = STATE_INIT | STATE_GROUP_LEADER | STATE_COMPLETED | STATE_LOCKED_WAITING | STATE_START_WRITE

text \<open>\<open>state & (STATE_GROUP_LEADER | STATE_COMPLETED)\<close> is not 0.\<close>

definition goal :: "State \<Rightarrow> bool" where
  "goal s \<longleftrightarrow> s = STATE_GROUP_LEADER \<or> s = STATE_COMPLETED"

text \<open>Who holds the mutex of a writer.\<close>

datatype owner = By_client nat | By_server

text \<open>\<open>cv_waiting\<close> says that the thread of the writer waits on its condition variable and has not been notified.\<close>

record Writer =
  w_data :: "byte list"
  w_log_num :: int
  link_older :: "nat option"
  link_newer :: "nat option"
  w_group :: "nat option"
  w_state :: State
  made_waitable :: bool
  state_mutex :: "owner option"
  cv_waiting :: bool

definition Writer_new :: "byte list \<Rightarrow> Writer" where
  "Writer_new data = \<lparr>w_data = data, w_log_num = -1, link_older = None, link_newer = None, w_group = None,
     w_state = STATE_INIT, made_waitable = False, state_mutex = None, cv_waiting = False\<rparr>"

record WriteGroup =
  g_leader :: nat
  last_writer :: nat
  g_size :: nat

text \<open>
  Where a thread is in \<open>SetState\<close>: before the exchange, with the state it read; before it takes the mutex of the writer; before it
  notifies the thread of the writer, with the mutex held.
\<close>

datatype setter = To_exchange State | To_lock | To_notify

text \<open>
  Where a client is: outside \<open>AddLog\<close>; in the loop of \<open>AddToLink\<close>, with the value it expects; polling its state;
  after \<open>CreateMutex\<close>; before the exchange that announces a long wait; before it takes its mutex; before it checks the state, with the
  mutex held; waiting on its condition variable; before \<open>MakeGroup\<close>, \<open>WriteToLog\<close> and \<open>FinishGroup\<close>;
  in the loop of \<open>FinishGroup\<close>; in \<open>SetState\<close> for a writer, with the next one.
\<close>

datatype cpc =
    Outside
  | Linking "nat option"
  | Polling
  | Created
  | LongWait State
  | Locking
  | Checking
  | Blocked
  | Leading
  | Writing
  | Releasing
  | Finishing "nat option"
  | Completing nat "nat option" setter

text \<open>
  Where the server is: at the head of its loop; in \<open>GetLeader\<close> before log \<open>i\<close>; with a log reserved; in \<open>SetState\<close> for the new
  leader; before the check of \<open>stop_\<close>; ended.
\<close>

datatype spc =
    S_loop
  | S_pick nat
  | S_taken nat
  | S_set nat setter
  | S_end
  | S_stopped

record server =
  newest_writer :: "nat option"
  writers :: "nat \<Rightarrow> Writer"
  write_groups :: "nat \<Rightarrow> WriteGroup"
  log_free :: "bool list"
  logs :: "FSLogWriter list"
  cpc :: "nat \<Rightarrow> cpc"
  spc :: spc
  stop :: bool

definition LoggingServer_new :: "nat \<Rightarrow> server" where
  "LoggingServer_new num = \<lparr>newest_writer = None, writers = (\<lambda>_. Writer_new []), write_groups = (\<lambda>t. \<lparr>g_leader = t, last_writer = t, g_size = 0\<rparr>),
     log_free = replicate num False, logs = replicate num FSLogWriter_new, cpc = (\<lambda>_. Outside), spc = S_loop, stop = False\<rparr>"

definition go :: "nat \<Rightarrow> cpc \<Rightarrow> server \<Rightarrow> server" where
  "go t p s = s\<lparr>cpc := (cpc s)(t := p)\<rparr>"

definition upd_writer :: "nat \<Rightarrow> (Writer \<Rightarrow> Writer) \<Rightarrow> server \<Rightarrow> server" where
  "upd_writer t f s = s\<lparr>writers := (writers s)(t := f (writers s t))\<rparr>"

text \<open>An access to the writer of a thread that is not in \<open>AddLog\<close> is an access to a dead stack frame.\<close>

definition valid :: "nat \<Rightarrow> server \<Rightarrow> bool" where
  "valid t s \<longleftrightarrow> cpc s t \<noteq> Outside"

section \<open>The steps of a client\<close>

text \<open>\<open>AddLog\<close> creates the writer; \<open>AddToLink\<close> reads the list head and tries to exchange it.\<close>

definition AddLog_begin :: "nat \<Rightarrow> byte list \<Rightarrow> server \<Rightarrow> server" where
  "AddLog_begin t data s = go t (Linking (newest_writer s)) (upd_writer t (\<lambda>_. Writer_new data) s)"

definition AddToLink_step :: "nat \<Rightarrow> nat option \<Rightarrow> bool \<Rightarrow> server \<Rightarrow> server" where
  "AddToLink_step t expected spurious s =
     (let s = upd_writer t (\<lambda>w. w\<lparr>link_older := expected\<rparr>) s
      in if \<not> spurious \<and> newest_writer s = expected then go t Polling (s\<lparr>newest_writer := Some t\<rparr>)
         else go t (Linking (newest_writer s)) s)"

text \<open>What \<open>AddLog\<close> does with the state that \<open>AwaitState\<close> returned.\<close>

definition AddLog_awaited :: "nat \<Rightarrow> State \<Rightarrow> server \<Rightarrow> server result" where
  "AddLog_awaited t st s =
     r_assert (goal st) ''(state & goal_mask) != 0'' (
     if w_state (writers s t) = STATE_COMPLETED then Inr (go t Outside s)
     else r_assert (w_state (writers s t) = STATE_GROUP_LEADER) ''w.state == LoggingServer::STATE_GROUP_LEADER''
       (Inr (go t Leading s)))"

text \<open>
  \<open>AwaitState\<close>: a poll, or the decision to wait long (\<open>give_up\<close>), which depends on the number of polls and the clock.
\<close>

definition AwaitState_poll :: "nat \<Rightarrow> bool \<Rightarrow> server \<Rightarrow> server result" where
  "AwaitState_poll t give_up s =
     (if goal (w_state (writers s t)) then AddLog_awaited t (w_state (writers s t)) s
      else if give_up then Inr (go t Created (upd_writer t (\<lambda>w. w\<lparr>made_waitable := True\<rparr>) s))
      else Inr s)"

definition AwaitState_load :: "nat \<Rightarrow> server \<Rightarrow> server result" where
  "AwaitState_load t s =
     (let st = w_state (writers s t)
      in r_assert (st \<noteq> STATE_LOCKED_WAITING) ''state != STATE_LOCKED_WAITING'' (
         if goal st then AddLog_awaited t st s else Inr (go t (LongWait st) s)))"

definition AwaitState_exchange :: "nat \<Rightarrow> State \<Rightarrow> server \<Rightarrow> server result" where
  "AwaitState_exchange t st s =
     (if w_state (writers s t) = st then Inr (go t Locking (upd_writer t (\<lambda>w. w\<lparr>w_state := STATE_LOCKED_WAITING\<rparr>) s))
      else AddLog_awaited t (w_state (writers s t)) s)"

text \<open>
  The long wait: the thread takes the mutex and checks the state; \<open>wait\<close> gives the mutex back and blocks in one step, until the
  thread is notified or woken spuriously; then it takes the mutex again. \<open>None\<close>: the mutex is held, or nobody has notified the thread.
\<close>

definition AwaitState_lock :: "nat \<Rightarrow> server \<Rightarrow> server result option" where
  "AwaitState_lock t s =
     (if \<not> made_waitable (writers s t) then Some (Inl (AssertFailed ''made_waitable''))
      else if state_mutex (writers s t) \<noteq> None then None
      else Some (Inr (go t Checking (upd_writer t (\<lambda>w. w\<lparr>state_mutex := Some (By_client t)\<rparr>) s))))"

definition AwaitState_check :: "nat \<Rightarrow> server \<Rightarrow> server result" where
  "AwaitState_check t s =
     (if w_state (writers s t) = STATE_LOCKED_WAITING
      then Inr (go t Blocked (upd_writer t (\<lambda>w. w\<lparr>state_mutex := None, cv_waiting := True\<rparr>) s))
      else AddLog_awaited t (w_state (writers s t)) (upd_writer t (\<lambda>w. w\<lparr>state_mutex := None\<rparr>) s))"

definition AwaitState_wake :: "nat \<Rightarrow> bool \<Rightarrow> server \<Rightarrow> server result option" where
  "AwaitState_wake t spurious s =
     (if cv_waiting (writers s t) \<and> \<not> spurious then None
      else Some (Inr (go t Locking (upd_writer t (\<lambda>w. w\<lparr>cv_waiting := False\<rparr>) s))))"

text \<open>\<open>MakeGroup\<close> walks from the leader along \<open>link_older\<close>.\<close>

partial_function (option) MakeGroup_loop :: "nat \<Rightarrow> nat option \<Rightarrow> server \<Rightarrow> server result option" where
  "MakeGroup_loop leader p s =
     (case p of
        None \<Rightarrow> Some (Inr s)
      | Some w \<Rightarrow>
          if w = leader then Some (Inr s)
          else if \<not> valid w s then Some (Inl InvalidAccess)
          else
            let s = upd_writer w (\<lambda>x. x\<lparr>w_group := Some leader\<rparr>) s;
                g = write_groups s leader;
                s = s\<lparr>write_groups := (write_groups s)(leader := g\<lparr>last_writer := w, g_size := g_size g + 1\<rparr>)\<rparr>
            in MakeGroup_loop leader (link_older (writers s w)) s)"

definition MakeGroup :: "nat \<Rightarrow> server \<Rightarrow> server result option" where
  "MakeGroup leader s =
     (let w = writers s leader; num = nat (w_log_num w)
      in if link_newer w \<noteq> None then Some (Inl (AssertFailed ''leader->link_newer == nullptr''))
         else if \<not> (0 \<le> w_log_num w \<and> num < length (log_free s)) then Some (Inl (AssertFailed ''leader->log_num >= 0 && leader->log_num < logs_num_''))
         else if \<not> log_free s ! num then Some (Inl (AssertFailed ''log_free_[leader->log_num].load()''))
         else
           let s = upd_writer leader (\<lambda>w. w\<lparr>w_group := Some leader\<rparr>) s;
               s = s\<lparr>write_groups := (write_groups s)(leader := \<lparr>g_leader = leader, last_writer = leader, g_size = 1\<rparr>)\<rparr>
           in p_bind (MakeGroup_loop leader (link_older w) s) (\<lambda>s. Some (Inr (go leader Writing s))))"

text \<open>\<open>WriteToLog\<close> appends the data of the leader and of the older writers and syncs the log.\<close>

partial_function (option) WriteToLog_loop :: "nat option \<Rightarrow> server \<Rightarrow> FSLogWriter \<Rightarrow> FSLogWriter result option" where
  "WriteToLog_loop p s l =
     (case p of
        None \<Rightarrow> Some (Inr l)
      | Some w \<Rightarrow>
          if \<not> valid w s then Some (Inl InvalidAccess)
          else p_bind (Some (AppendData (w_data (writers s w)) l)) (WriteToLog_loop (link_older (writers s w)) s))"

definition WriteToLog :: "nat \<Rightarrow> (nat \<Rightarrow> uint64) \<Rightarrow> int \<Rightarrow> server \<Rightarrow> server result option" where
  "WriteToLog leader sz rc s =
     (if g_leader (write_groups s leader) \<noteq> leader then Some (Inl (AssertFailed ''leader == write_group->leader''))
      else
        let num = nat (w_log_num (writers s leader))
        in p_bind (WriteToLog_loop (Some leader) s (logs s ! num)) (\<lambda>l.
           p_bind (Some (Sync (sz (length (lw_buffer l))) rc l)) (\<lambda>l.
           Some (Inr (go leader Releasing (s\<lparr>logs := (logs s)[num := l]\<rparr>))))))"

text \<open>\<open>FinishGroup\<close> gives the log back and completes the older writers one by one.\<close>

definition FinishGroup_release :: "nat \<Rightarrow> server \<Rightarrow> server result" where
  "FinishGroup_release leader s =
     (let num = nat (w_log_num (writers s leader))
      in r_assert (g_leader (write_groups s leader) = leader) ''leader == write_group->leader'' (
         r_assert (log_free s ! num) ''log_free_[leader->log_num].load()''
           (Inr (go leader (Finishing (link_older (writers s leader))) (s\<lparr>log_free := (log_free s)[num := False]\<rparr>)))))"

text \<open>
  \<open>SetState\<close> of thread \<open>me\<close> for the writer \<open>w\<close>: it reads the state and exchanges it. When the thread of the writer waits long, it takes the
  mutex of the writer, sets the state, notifies the thread and gives the mutex back. A step returns where the thread is next,
  \<open>None\<close> when \<open>SetState\<close> returns. A notification that finds nobody waiting has no effect.
\<close>

definition SetState_load :: "nat \<Rightarrow> server \<Rightarrow> setter result" where
  "SetState_load w s =
     (if \<not> valid w s then Inl InvalidAccess
      else r_assert (w_state (writers s w) \<noteq> STATE_COMPLETED) ''state != STATE_COMPLETED'' (Inr (To_exchange (w_state (writers s w)))))"

definition SetState_exchange :: "nat \<Rightarrow> State \<Rightarrow> State \<Rightarrow> server \<Rightarrow> (setter option \<times> server) result" where
  "SetState_exchange w new st s =
     (if \<not> valid w s then Inl InvalidAccess
      else if st \<noteq> STATE_LOCKED_WAITING \<and> w_state (writers s w) = st then Inr (None, upd_writer w (\<lambda>x. x\<lparr>w_state := new\<rparr>) s)
      else r_assert (st = STATE_LOCKED_WAITING \<or> w_state (writers s w) = STATE_LOCKED_WAITING) ''state == STATE_LOCKED_WAITING''
             (Inr (Some To_lock, s)))"

definition SetState_store :: "owner \<Rightarrow> nat \<Rightarrow> State \<Rightarrow> server \<Rightarrow> (setter option \<times> server) result option" where
  "SetState_store me w new s =
     (if \<not> valid w s then Some (Inl InvalidAccess)
      else if \<not> made_waitable (writers s w) then Some (Inl (AssertFailed ''made_waitable''))
      else if state_mutex (writers s w) \<noteq> None then None
      else Some (r_assert (w_state (writers s w) \<noteq> new) ''w->state != new_state''
             (Inr (Some To_notify, upd_writer w (\<lambda>x. x\<lparr>state_mutex := Some me, w_state := new\<rparr>) s))))"

definition SetState_notify :: "nat \<Rightarrow> server \<Rightarrow> (setter option \<times> server) result" where
  "SetState_notify w s =
     (if \<not> valid w s then Inl InvalidAccess
      else r_assert (made_waitable (writers s w)) ''made_waitable''
             (Inr (None, upd_writer w (\<lambda>x. x\<lparr>cv_waiting := False, state_mutex := None\<rparr>) s)))"

definition SetState_step :: "owner \<Rightarrow> nat \<Rightarrow> State \<Rightarrow> setter \<Rightarrow> server \<Rightarrow> (setter option \<times> server) result option" where
  "SetState_step me w new p s =
     (case p of
        To_exchange st \<Rightarrow> Some (SetState_exchange w new st s)
      | To_lock \<Rightarrow> SetState_store me w new s
      | To_notify \<Rightarrow> Some (SetState_notify w s))"

definition FinishGroup_next :: "nat \<Rightarrow> nat option \<Rightarrow> server \<Rightarrow> server result" where
  "FinishGroup_next t head s =
     (case head of
        None \<Rightarrow> Inr (go t Outside s)
      | Some h \<Rightarrow> r_bind (SetState_load h s) (\<lambda>p. Inr (go t (Completing h (link_older (writers s h)) p) s)))"

definition FinishGroup_set :: "nat \<Rightarrow> nat \<Rightarrow> nat option \<Rightarrow> setter \<Rightarrow> server \<Rightarrow> server result option" where
  "FinishGroup_set t h tmp p s =
     p_bind (SetState_step (By_client t) h STATE_COMPLETED p s) (\<lambda>(q, s).
     Some (Inr (go t (case q of Some q \<Rightarrow> Completing h tmp q | None \<Rightarrow> Finishing tmp) s)))"

text \<open>
  What the environment decides in a step: nothing; that the exchange fails spuriously, that the polling ends or that a waiting thread is
  woken spuriously; what \<open>write\<close> and \<open>fdatasync\<close> return. The usual results of these calls are the number of bytes and 0.
\<close>

datatype choice = Usual | Other | Device uint64 int

definition write_result :: "choice \<Rightarrow> nat \<Rightarrow> uint64" where
  "write_result c n = (case c of Device sz rc \<Rightarrow> sz | _ \<Rightarrow> of_nat n)"

definition fdatasync_result :: "choice \<Rightarrow> int" where
  "fdatasync_result c = (case c of Device sz rc \<Rightarrow> rc | _ \<Rightarrow> 0)"

text \<open>One step of client \<open>t\<close>. \<open>None\<close>: the client cannot run.\<close>

definition client_step :: "nat \<Rightarrow> choice \<Rightarrow> server \<Rightarrow> server result option" where
  "client_step t alt s =
     (case cpc s t of
        Outside \<Rightarrow> None
      | Linking expected \<Rightarrow> Some (Inr (AddToLink_step t expected (alt = Other) s))
      | Polling \<Rightarrow> Some (AwaitState_poll t (alt = Other) s)
      | Created \<Rightarrow> Some (AwaitState_load t s)
      | LongWait st \<Rightarrow> Some (AwaitState_exchange t st s)
      | Locking \<Rightarrow> AwaitState_lock t s
      | Checking \<Rightarrow> Some (AwaitState_check t s)
      | Blocked \<Rightarrow> AwaitState_wake t (alt = Other) s
      | Leading \<Rightarrow> MakeGroup t s
      | Writing \<Rightarrow> WriteToLog t (write_result alt) (fdatasync_result alt) s
      | Releasing \<Rightarrow> Some (FinishGroup_release t s)
      | Finishing head \<Rightarrow> Some (FinishGroup_next t head s)
      | Completing h tmp p \<Rightarrow> FinishGroup_set t h tmp p s)"

section \<open>The server thread\<close>

definition GetLeader_step :: "nat \<Rightarrow> bool \<Rightarrow> server \<Rightarrow> server" where
  "GetLeader_step i spurious s =
     (if i < length (log_free s)
      then if \<not> spurious \<and> \<not> log_free s ! i then s\<lparr>log_free := (log_free s)[i := True], spc := S_taken i\<rparr>
           else s\<lparr>spc := S_pick (i + 1)\<rparr>
      else s\<lparr>spc := S_end\<rparr>)"

definition Server_exchange :: "nat \<Rightarrow> server \<Rightarrow> server result" where
  "Server_exchange log_num s =
     (let head = newest_writer s; s = s\<lparr>newest_writer := None\<rparr>
      in case head of
           None \<Rightarrow> Inr (s\<lparr>log_free := (log_free s)[log_num := False], spc := S_end\<rparr>)
         | Some leader \<Rightarrow>
             r_bind (SetState_load leader s) (\<lambda>p.
             Inr ((upd_writer leader (\<lambda>w. w\<lparr>w_log_num := int log_num\<rparr>) s)\<lparr>spc := S_set leader p\<rparr>)))"

definition Server_set :: "nat \<Rightarrow> setter \<Rightarrow> server \<Rightarrow> server result option" where
  "Server_set leader p s =
     p_bind (SetState_step By_server leader STATE_GROUP_LEADER p s) (\<lambda>(q, s).
     Some (Inr (s\<lparr>spc := (case q of Some q \<Rightarrow> S_set leader q | None \<Rightarrow> S_end)\<rparr>)))"

definition server_step :: "bool \<Rightarrow> server \<Rightarrow> server result option" where
  "server_step alt s =
     (case spc s of
        S_loop \<Rightarrow> Some (Inr (s\<lparr>spc := (if newest_writer s \<noteq> None then S_pick 0 else S_end)\<rparr>))
      | S_pick i \<Rightarrow> Some (Inr (GetLeader_step i alt s))
      | S_taken log_num \<Rightarrow> Some (Server_exchange log_num s)
      | S_set leader p \<Rightarrow> Server_set leader p s
      | S_end \<Rightarrow> Some (Inr (s\<lparr>spc := (if stop s then S_stopped else S_loop)\<rparr>))
      | S_stopped \<Rightarrow> None)"

section \<open>Interleavings\<close>

datatype action = Call nat "byte list" | Client nat choice | Serve bool | StopServer

definition lstep :: "action \<Rightarrow> server \<Rightarrow> server result option" where
  "lstep a s =
     (case a of
        Call t data \<Rightarrow> if cpc s t = Outside then Some (Inr (AddLog_begin t data s)) else None
      | Client t alt \<Rightarrow> client_step t alt s
      | Serve alt \<Rightarrow> server_step alt s
      | StopServer \<Rightarrow> Some (Inr (s\<lparr>stop := True\<rparr>)))"

end
