(* ===== verification/Group_Commit_Proofs.thy ===== *)
theory Group_Commit_Proofs
  imports Group_Commit
begin

text \<open>
  Correctness of the group commit, for every interleaving. The invariant \<open>gc_inv\<close> says that the writers
  that wait are exactly those on the list of the server and on the lists of the leaders, which are disjoint, that a log
  in use has exactly one user, that the mutex of a writer is held by a thread that is in its critical section, that a thread
  that waits although its state is final is about to be notified, and that the data of a writer that is completed are in the synced part of a log. It
  gives: no assertion fails
  and no dead writer is accessed (safety), \<open>AddLog\<close> returns only when its data are durable, and under a fair scheduler
  all calls of \<open>AddLog\<close> return (no deadlock, no lost wake-up).
\<close>

section \<open>Linked lists of writers\<close>

fun chain :: "(nat \<Rightarrow> Writer) \<Rightarrow> nat option \<Rightarrow> nat list \<Rightarrow> bool" where
  "chain W p [] \<longleftrightarrow> p = None"
| "chain W p (x # xs) \<longleftrightarrow> p = Some x \<and> chain W (link_older (W x)) xs"

lemma prev_chain_cong:
  "(\<And>x. x \<in> set xs \<Longrightarrow> link_older (W' x) = link_older (W x)) \<Longrightarrow> chain W' p xs = chain W p xs"
  by (induction xs arbitrary: p) auto

lemma chain_None [simp]: "chain W None xs \<longleftrightarrow> xs = []"
  by (cases xs) auto

lemma chain_SomeD: "chain W (Some x) xs \<Longrightarrow> \<exists>ys. xs = x # ys \<and> chain W (link_older (W x)) ys"
  by (cases xs) auto

section \<open>The invariant\<close>

datatype thread_class = Out | Lnk | Wait | Appointed | Lead | Fin | Done

definition waiting_pc :: "cpc \<Rightarrow> bool" where
  "waiting_pc p = (case p of Polling \<Rightarrow> True | Created \<Rightarrow> True | LongWait _ \<Rightarrow> True | Locking \<Rightarrow> True | Checking \<Rightarrow> True | Blocked \<Rightarrow> True | _ \<Rightarrow> False)"

definition finishing_pc :: "cpc \<Rightarrow> bool" where
  "finishing_pc p = (case p of Finishing _ \<Rightarrow> True | Completing _ _ _ \<Rightarrow> True | _ \<Rightarrow> False)"

definition appointed :: "server \<Rightarrow> nat option" where
  "appointed s = (case spc s of S_set l p \<Rightarrow> if p = To_notify then None else Some l | _ \<Rightarrow> None)"

definition cls :: "server \<Rightarrow> nat \<Rightarrow> thread_class" where
  "cls s i =
     (if appointed s = Some i then Appointed
      else case cpc s i of
        Outside \<Rightarrow> Out
      | Linking _ \<Rightarrow> Lnk
      | Leading \<Rightarrow> Lead
      | Writing \<Rightarrow> Lead
      | Releasing \<Rightarrow> Lead
      | Finishing _ \<Rightarrow> Fin
      | Completing _ _ _ \<Rightarrow> Fin
      | _ \<Rightarrow> (case w_state (writers s i) of STATE_GROUP_LEADER \<Rightarrow> Lead | STATE_COMPLETED \<Rightarrow> Done | _ \<Rightarrow> Wait))"

definition rest :: "server \<Rightarrow> nat \<Rightarrow> nat option" where
  "rest s i =
     (case cpc s i of
        Finishing h \<Rightarrow> h
      | Completing h tmp p \<Rightarrow> if p = To_notify then tmp else Some h
      | _ \<Rightarrow> if cls s i = Appointed \<or> cls s i = Lead then link_older (writers s i) else None)"

text \<open>The lists: \<open>P\<close> is the list of the server, \<open>G i\<close> what is left of the group of \<open>i\<close>.\<close>

definition lists_ok :: "server \<Rightarrow> nat list \<Rightarrow> (nat \<Rightarrow> nat list) \<Rightarrow> bool" where
  "lists_ok s P G \<longleftrightarrow>
     chain (writers s) (newest_writer s) P \<and> (\<forall>i. chain (writers s) (rest s i) (G i)) \<and>
     distinct P \<and> (\<forall>i. distinct (G i)) \<and> (\<forall>i. set P \<inter> set (G i) = {}) \<and> (\<forall>i j. i \<noteq> j \<longrightarrow> set (G i) \<inter> set (G j) = {}) \<and>
     (\<forall>x. x \<in> set P \<or> (\<exists>i. x \<in> set (G i)) \<longleftrightarrow> cls s x = Wait)"

text \<open>A state that \<open>SetState\<close> has read can only have changed to \<open>STATE_LOCKED_WAITING\<close>.\<close>

definition seen :: "server \<Rightarrow> nat \<Rightarrow> setter \<Rightarrow> bool" where
  "seen s h p \<longleftrightarrow>
     (case p of
        To_exchange st \<Rightarrow> st = STATE_INIT \<or> st = STATE_LOCKED_WAITING \<and> w_state (writers s h) = STATE_LOCKED_WAITING
      | To_lock \<Rightarrow> w_state (writers s h) = STATE_LOCKED_WAITING
      | To_notify \<Rightarrow> True)"

definition local_ok :: "nat \<Rightarrow> nat \<Rightarrow> server \<Rightarrow> nat \<Rightarrow> bool" where
  "local_ok N D s i \<longleftrightarrow> cpc s i \<noteq> Outside \<longrightarrow> i < N \<and> length (w_data (writers s i)) \<le> D \<and> link_newer (writers s i) = None \<and>
     (case cpc s i of
        Linking _ \<Rightarrow> w_state (writers s i) = STATE_INIT
      | Polling \<Rightarrow> w_state (writers s i) \<in> {STATE_INIT, STATE_GROUP_LEADER, STATE_COMPLETED}
      | Created \<Rightarrow> made_waitable (writers s i) \<and> w_state (writers s i) \<in> {STATE_INIT, STATE_GROUP_LEADER, STATE_COMPLETED}
      | LongWait st \<Rightarrow> st = STATE_INIT \<and> made_waitable (writers s i) \<and> w_state (writers s i) \<in> {STATE_INIT, STATE_GROUP_LEADER, STATE_COMPLETED}
      | Locking \<Rightarrow> made_waitable (writers s i) \<and> w_state (writers s i) \<in> {STATE_LOCKED_WAITING, STATE_GROUP_LEADER, STATE_COMPLETED}
      | Checking \<Rightarrow> made_waitable (writers s i) \<and> w_state (writers s i) \<in> {STATE_LOCKED_WAITING, STATE_GROUP_LEADER, STATE_COMPLETED}
      | Blocked \<Rightarrow> made_waitable (writers s i) \<and> w_state (writers s i) \<in> {STATE_LOCKED_WAITING, STATE_GROUP_LEADER, STATE_COMPLETED}
      | Writing \<Rightarrow> g_leader (write_groups s i) = i
      | Releasing \<Rightarrow> g_leader (write_groups s i) = i
      | Completing h tmp p \<Rightarrow> p \<noteq> To_notify \<longrightarrow> link_older (writers s h) = tmp \<and> seen s h p
      | _ \<Rightarrow> True)"

definition appointed_ok :: "server \<Rightarrow> bool" where
  "appointed_ok s \<longleftrightarrow>
     (case spc s of
        S_set l p \<Rightarrow> p \<noteq> To_notify \<longrightarrow> seen s l p \<and> waiting_pc (cpc s l) \<and> w_state (writers s l) \<in> {STATE_INIT, STATE_LOCKED_WAITING}
      | S_stopped \<Rightarrow> stop s
      | _ \<Rightarrow> True)"

text \<open>
  The mutex of \<open>h\<close> is held by a thread that notifies \<open>h\<close> or by \<open>h\<close> itself while it checks its state. A thread that has been notified is not
  blocked, and as long as its state is final and it has not been notified, somebody holds the mutex to do so.
\<close>

definition notifier :: "server \<Rightarrow> owner \<Rightarrow> nat \<Rightarrow> bool" where
  "notifier s me h \<longleftrightarrow> (case me of By_client t \<Rightarrow> \<exists>tmp. cpc s t = Completing h tmp To_notify | By_server \<Rightarrow> spc s = S_set h To_notify)"

definition mutex_at :: "server \<Rightarrow> nat \<Rightarrow> bool" where
  "mutex_at s h \<longleftrightarrow>
     (\<forall>me. notifier s me h \<longrightarrow> state_mutex (writers s h) = Some me \<and> made_waitable (writers s h) \<and> cpc s h \<in> {Locking, Blocked} \<and> goal (w_state (writers s h))) \<and>
     (\<forall>me. state_mutex (writers s h) = Some me \<longrightarrow> notifier s me h \<or> me = By_client h \<and> cpc s h = Checking) \<and>
     (cpc s h = Checking \<longrightarrow> state_mutex (writers s h) = Some (By_client h)) \<and>
     (cpc s h = Blocked \<longrightarrow>
       (if cv_waiting (writers s h) then goal (w_state (writers s h)) \<longrightarrow> state_mutex (writers s h) \<noteq> None else goal (w_state (writers s h))))"

definition holder :: "server \<Rightarrow> nat \<Rightarrow> bool" where
  "holder s i \<longleftrightarrow> cls s i = Appointed \<or> cls s i = Lead"

definition logs_ok :: "server \<Rightarrow> bool" where
  "logs_ok s \<longleftrightarrow>
     length (logs s) = length (log_free s) \<and> (\<forall>l \<in> set (logs s). lw_buffer l = [] \<and> lw_synced l = lw_file l) \<and>
     (\<forall>i. holder s i \<longrightarrow> (\<exists>k < length (log_free s). w_log_num (writers s i) = int k \<and> log_free s ! k)) \<and>
     (\<forall>i j. holder s i \<longrightarrow> holder s j \<longrightarrow> w_log_num (writers s i) = w_log_num (writers s j) \<longrightarrow> i = j) \<and>
     (\<forall>k. spc s = S_taken k \<longrightarrow> k < length (log_free s) \<and> log_free s ! k \<and> (\<forall>i. holder s i \<longrightarrow> w_log_num (writers s i) \<noteq> int k)) \<and>
     (\<forall>k < length (log_free s). log_free s ! k \<longrightarrow> spc s = S_taken k \<or> (\<exists>i. holder s i \<and> w_log_num (writers s i) = int k))"

definition durable :: "server \<Rightarrow> byte list \<Rightarrow> bool" where
  "durable s data \<longleftrightarrow> (\<exists>l \<in> set (logs s). sublist data (lw_synced l))"

definition synced :: "server \<Rightarrow> nat \<Rightarrow> bool" where
  "synced s i \<longleftrightarrow> cpc s i = Releasing \<or> cls s i = Fin"

definition durable_ok :: "server \<Rightarrow> (nat \<Rightarrow> nat list) \<Rightarrow> bool" where
  "durable_ok s G \<longleftrightarrow>
     (\<forall>x. cls s x = Done \<or> synced s x \<longrightarrow> durable s (w_data (writers s x))) \<and>
     (\<forall>i x. synced s i \<longrightarrow> x \<in> set (G i) \<longrightarrow> durable s (w_data (writers s x)))"

definition gc_inv :: "nat \<Rightarrow> nat \<Rightarrow> server \<Rightarrow> nat list \<Rightarrow> (nat \<Rightarrow> nat list) \<Rightarrow> bool" where
  "gc_inv N D s P G \<longleftrightarrow> lists_ok s P G \<and> (\<forall>i. local_ok N D s i) \<and> appointed_ok s \<and> logs_ok s \<and> durable_ok s G \<and> (\<forall>i. mutex_at s i)"

lemma inv_init: "gc_inv N D (LoggingServer_new num) [] (\<lambda>_. [])"
  by (auto simp: gc_inv_def lists_ok_def local_ok_def appointed_ok_def logs_ok_def durable_ok_def holder_def synced_def cls_def rest_def
      appointed_def LoggingServer_new_def FSLogWriter_new_def mutex_at_def notifier_def Writer_new_def split: owner.splits)

lemma invD:
  assumes "gc_inv N D s P G"
  shows "lists_ok s P G" "local_ok N D s i" "appointed_ok s" "logs_ok s" "durable_ok s G" "mutex_at s i"
  using assms by (auto simp: gc_inv_def)

section \<open>Steps that keep the class of a thread\<close>

text \<open>The fields of a writer but its \<open>write_group\<close>, which nothing reads.\<close>

definition same_writer :: "Writer \<Rightarrow> Writer \<Rightarrow> bool" where
  "same_writer w w' \<longleftrightarrow> w_data w' = w_data w \<and> w_log_num w' = w_log_num w \<and> link_older w' = link_older w \<and> link_newer w' = link_newer w \<and>
     w_state w' = w_state w \<and> made_waitable w' = made_waitable w \<and> state_mutex w' = state_mutex w \<and> cv_waiting w' = cv_waiting w"

definition only_thread :: "nat \<Rightarrow> server \<Rightarrow> server \<Rightarrow> bool" where
  "only_thread t s s' \<longleftrightarrow> (\<forall>x. x \<noteq> t \<longrightarrow> same_writer (writers s x) (writers s' x) \<and> cpc s' x = cpc s x \<and> write_groups s' x = write_groups s x) \<and>
     log_free s' = log_free s \<and> logs s' = logs s \<and> spc s' = spc s \<and> stop s' = stop s"

lemma only_thread_other:
  assumes "only_thread t s s'" "x \<noteq> t"
  shows "cls s' x = cls s x" "rest s' x = rest s x" "synced s' x = synced s x" "holder s' x = holder s x"
proof -
  have e: "spc s' = spc s" "cpc s' x = cpc s x" "w_state (writers s' x) = w_state (writers s x)" "link_older (writers s' x) = link_older (writers s x)"
    using assms by (auto simp: only_thread_def same_writer_def)
  show c: "cls s' x = cls s x" by (simp only: cls_def appointed_def e)
  show "rest s' x = rest s x" "synced s' x = synced s x" "holder s' x = holder s x" by (simp_all only: rest_def synced_def holder_def c e)
qed

lemma lists_frame:
  assumes "lists_ok s P G" "newest_writer s' = newest_writer s" "\<And>x. cls s x = Wait \<Longrightarrow> link_older (writers s' x) = link_older (writers s x)"
    "\<And>x. cls s' x = Wait \<longleftrightarrow> cls s x = Wait" "\<And>i. rest s' i = rest s i"
  shows "lists_ok s' P G"
proof -
  have w: "\<forall>x. x \<in> set P \<or> (\<exists>i. x \<in> set (G i)) \<longleftrightarrow> cls s x = Wait" using assms(1) by (simp add: lists_ok_def)
  have "chain (writers s') p P = chain (writers s) p P" "chain (writers s') p (G i) = chain (writers s) p (G i)" for p i
    by (rule prev_chain_cong, use w assms(3) in blast)+
  then show ?thesis using assms(1,2,4,5) by (simp add: lists_ok_def)
qed

lemma logs_frame:
  assumes "logs_ok s" "log_free s' = log_free s" "length (logs s') = length (logs s)" "\<forall>l \<in> set (logs s'). lw_buffer l = [] \<and> lw_synced l = lw_file l" "spc s' = spc s"
    "\<And>i. holder s' i = holder s i" "\<And>i. holder s i \<Longrightarrow> w_log_num (writers s' i) = w_log_num (writers s i)"
  shows "logs_ok s'"
proof -
  have n: "holder s' i \<Longrightarrow> w_log_num (writers s' i) = w_log_num (writers s i)" for i using assms(6,7) by simp
  have ex: "(\<exists>i. holder s' i \<and> w_log_num (writers s' i) = m) \<longleftrightarrow> (\<exists>i. holder s i \<and> w_log_num (writers s i) = m)" for m using assms(6,7) by auto
  show ?thesis using assms(1) unfolding logs_ok_def assms(2,3,5) ex
    by (intro conjI allI impI) (use assms(4) in \<open>simp_all add: assms(6,7)\<close>)
qed

lemma lists_memberD:
  assumes "lists_ok s P G" "x \<in> set P \<or> x \<in> set (G i)"
  shows "cls s x = Wait"
  using assms unfolding lists_ok_def by blast

lemma completing_member:
  assumes "lists_ok s P G" "cpc s x = Completing h tmp q" "q \<noteq> To_notify"
  shows "h \<in> set (G x)" "cls s h = Wait"
proof -
  have "chain (writers s) (Some h) (G x)" using assms by (auto simp: lists_ok_def rest_def dest!: spec [of _ x])
  then show "h \<in> set (G x)" by (auto dest: chain_SomeD)
  then show "cls s h = Wait" using lists_memberD [OF assms(1)] by blast
qed

definition notifies :: "cpc \<Rightarrow> nat option" where
  "notifies p = (case p of Completing h _ q \<Rightarrow> if q = To_notify then Some h else None | _ \<Rightarrow> None)"

lemma notifier_alt: "notifier s me h \<longleftrightarrow> (case me of By_client t \<Rightarrow> notifies (cpc s t) = Some h | By_server \<Rightarrow> spc s = S_set h To_notify)"
  by (auto simp: notifier_def notifies_def split: owner.splits cpc.splits)

lemma mutexD:
  assumes "mutex_at s h"
  shows "notifier s me h \<Longrightarrow> state_mutex (writers s h) = Some me \<and> made_waitable (writers s h) \<and> cpc s h \<in> {Locking, Blocked} \<and> goal (w_state (writers s h))"
    "state_mutex (writers s h) = Some me \<Longrightarrow> notifier s me h \<or> me = By_client h \<and> cpc s h = Checking"
    "cpc s h = Checking \<Longrightarrow> state_mutex (writers s h) = Some (By_client h)"
    "cpc s h = Blocked \<Longrightarrow> cv_waiting (writers s h) \<Longrightarrow> goal (w_state (writers s h)) \<Longrightarrow> state_mutex (writers s h) \<noteq> None"
    "cpc s h = Blocked \<Longrightarrow> \<not> cv_waiting (writers s h) \<Longrightarrow> goal (w_state (writers s h))"
  using assms unfolding mutex_at_def by (blast, blast, blast, presburger, presburger)

lemma mutexI:
  assumes "\<And>me. notifier s me h \<Longrightarrow> state_mutex (writers s h) = Some me \<and> made_waitable (writers s h) \<and> cpc s h \<in> {Locking, Blocked} \<and> goal (w_state (writers s h))"
    "\<And>me. state_mutex (writers s h) = Some me \<Longrightarrow> notifier s me h \<or> me = By_client h \<and> cpc s h = Checking"
    "cpc s h = Checking \<Longrightarrow> state_mutex (writers s h) = Some (By_client h)"
    "cpc s h = Blocked \<Longrightarrow> cv_waiting (writers s h) \<Longrightarrow> goal (w_state (writers s h)) \<Longrightarrow> state_mutex (writers s h) \<noteq> None"
    "cpc s h = Blocked \<Longrightarrow> \<not> cv_waiting (writers s h) \<Longrightarrow> goal (w_state (writers s h))"
  shows "mutex_at s h"
  unfolding mutex_at_def using assms by presburger

lemma mutex_cong:
  assumes "\<And>me. notifier s' me h = notifier s me h" "cpc s' h = cpc s h" "state_mutex (writers s' h) = state_mutex (writers s h)"
    "cv_waiting (writers s' h) = cv_waiting (writers s h)" "made_waitable (writers s' h) = made_waitable (writers s h)"
    "w_state (writers s' h) = w_state (writers s h)"
  shows "mutex_at s' h = mutex_at s h"
  by (simp only: mutex_at_def assms)

lemma mutex_unblock:
  assumes m: "mutex_at s h" and n: "\<And>me. notifier s' me h = notifier s me h" and p: "cpc s h = Blocked" "cpc s' h = Locking"
    and e: "state_mutex (writers s' h) = state_mutex (writers s h)" "made_waitable (writers s' h) = made_waitable (writers s h)"
      "w_state (writers s' h) = w_state (writers s h)"
  shows "mutex_at s' h"
proof (rule mutexI, unfold n e)
  fix me assume "notifier s me h"
  from mutexD(1) [OF m this]
  show "state_mutex (writers s h) = Some me \<and> made_waitable (writers s h) \<and> cpc s' h \<in> {Locking, Blocked} \<and> goal (w_state (writers s h))"
    by (simp add: p)
next
  fix me assume "state_mutex (writers s h) = Some me"
  from mutexD(2) [OF m this] show "notifier s me h \<or> me = By_client h \<and> cpc s' h = Checking" by (simp add: p)
qed (simp_all add: p)

lemma mutex_free:
  assumes "mutex_at s t" "cpc s t \<notin> {Locking, Checking, Blocked}"
  shows "state_mutex (writers s t) = None" "\<not> notifier s me t"
  using assms by (auto simp: mutex_at_def)

lemma mutex_plain:
  assumes "mutex_at s t" "cpc s t \<notin> {Locking, Checking, Blocked}" "\<And>me. notifier s' me t = notifier s me t"
    "cpc s' t \<notin> {Checking, Blocked}" "state_mutex (writers s' t) = None \<or> state_mutex (writers s' t) = state_mutex (writers s t)"
  shows "mutex_at s' t"
proof -
  note f = mutex_free [OF assms(1,2)]
  have "state_mutex (writers s' t) = None" using f(1) assms(5) by auto
  then show ?thesis using f(2) assms(3,4) by (simp add: mutex_at_def)
qed

lemma only_thread_notifier:
  assumes "only_thread t s s'" "notifies (cpc s' t) = notifies (cpc s t)"
  shows "notifier s' me h = notifier s me h"
proof -
  have "notifies (cpc s' x) = notifies (cpc s x)" for x using assms by (cases "x = t") (auto simp: only_thread_def)
  then show ?thesis using assms(1) by (simp add: notifier_alt only_thread_def split: owner.split)
qed

lemma only_thread_mutex:
  assumes "only_thread t s s'" "notifies (cpc s' t) = notifies (cpc s t)" "mutex_at s h" "h = t \<Longrightarrow> mutex_at s' t"
  shows "mutex_at s' h"
proof (cases "h = t")
  case False
  then have "mutex_at s' h = mutex_at s h"
    using assms(1) by (intro mutex_cong only_thread_notifier [OF assms(1,2)]) (auto simp: only_thread_def same_writer_def)
  then show ?thesis using assms(3) by simp
qed (use assms(4) in simp)

text \<open>
  A step of a thread that changes only its own writer and its place in the program, and that neither starts nor ends to
  wait, to lead or to hold a log, keeps the invariant.
\<close>

lemma inv_thread_step:
  assumes i: "gc_inv N D s P G" and o: "only_thread t s s'"
    and lists': "lists_ok s' P' G" and c: "holder s' t = holder s t" and l: "local_ok N D s' t"
    and w: "cls s t = Wait \<Longrightarrow> w_data (writers s' t) = w_data (writers s t) \<and> link_older (writers s' t) = link_older (writers s t)"
      "holder s t \<Longrightarrow> w_log_num (writers s' t) = w_log_num (writers s t)"
    and d: "cls s' t = Done \<or> synced s' t \<Longrightarrow> durable s (w_data (writers s' t))" "synced s' t \<Longrightarrow> synced s t"
    and st: "cls s t = Wait \<or> cls s t = Appointed \<Longrightarrow>
      w_state (writers s' t) = w_state (writers s t) \<or> w_state (writers s' t) = STATE_LOCKED_WAITING"
    and p: "cls s t = Appointed \<Longrightarrow> waiting_pc (cpc s' t) \<and> w_state (writers s' t) \<in> {STATE_INIT, STATE_LOCKED_WAITING}"
    and mx: "notifies (cpc s' t) = notifies (cpc s t)" "mutex_at s' t"
  shows "gc_inv N D s' P' G"
proof -
  have e: "log_free s' = log_free s" "logs s' = logs s" "spc s' = spc s" "stop s' = stop s"
    using o by (auto simp: only_thread_def)
  have cl: "holder s' x = holder s x" for x using only_thread_other [OF o, of x] c by (cases "x = t") auto
  have ow: "same_writer (writers s x) (writers s' x) \<and> cpc s' x = cpc s x \<and> write_groups s' x = write_groups s x" if "x \<noteq> t" for x
    using o that by (simp add: only_thread_def)
  have m: "cls s x = Wait \<Longrightarrow> w_data (writers s' x) = w_data (writers s x) \<and> link_older (writers s' x) = link_older (writers s x)"
    "holder s x \<Longrightarrow> w_log_num (writers s' x) = w_log_num (writers s x)" for x
    using ow [of x] w by (cases "x = t"; auto simp: same_writer_def)+
  have seen: "seen s h q \<Longrightarrow> seen s' h q" if "cls s h = Wait \<or> cls s h = Appointed" for h q
    using ow [of h] st that by (cases "h = t") (auto simp: seen_def same_writer_def split: setter.splits)
  note lists = invD(1) [OF i]
  have "local_ok N D s' x" for x
  proof (cases "x = t")
    case False
    show ?thesis using invD(2) [OF i, of x] ow [OF False] seen completing_member(2) [OF lists, of x] m(1)
      by (cases "cpc s x") (auto simp: local_ok_def same_writer_def)
  qed (use l in simp)
  moreover have "appointed_ok s'"
  proof (cases "spc s")
    case (S_set h q)
    show ?thesis
    proof (cases "q = To_notify")
      case False
      then have a: "cls s h = Appointed" using S_set by (simp add: cls_def appointed_def)
      have "seen s h q" "waiting_pc (cpc s h)" "w_state (writers s h) \<in> {STATE_INIT, STATE_LOCKED_WAITING}"
        using invD(3) [OF i] S_set False by (auto simp: appointed_ok_def)
      then show ?thesis using seen [of h q] p ow [of h] S_set a
        by (cases "h = t") (auto simp: appointed_ok_def e same_writer_def)
    qed (use S_set in \<open>simp add: appointed_ok_def e\<close>)
  qed (use invD(3) [OF i] in \<open>auto simp: appointed_ok_def e\<close>)
  moreover have "logs_ok s'"
    using invD(4) [OF i] by (rule logs_frame) (use invD(4) [OF i] in \<open>auto simp: e cl m logs_ok_def\<close>)
  moreover have "durable_ok s' G"
  proof -
    have dur: "durable s' dt = durable s dt" for dt by (simp add: durable_def e)
    have "durable s (w_data (writers s' x))" if "cls s' x = Done \<or> synced s' x" for x
      using that d(1) only_thread_other [OF o, of x] invD(5) [OF i] ow [of x] by (cases "x = t") (auto simp: durable_ok_def same_writer_def)
    moreover have "durable s (w_data (writers s' x))" if "synced s' j" "x \<in> set (G j)" for j x
    proof -
      have "synced s j" using that(1) d(2) only_thread_other [OF o, of j] by (cases "j = t") auto
      moreover have "cls s x = Wait" using lists_memberD [OF lists] that(2) by blast
      ultimately show ?thesis using invD(5) [OF i] that(2) m(1) [of x] by (simp add: durable_ok_def)
    qed
    ultimately show ?thesis by (simp add: durable_ok_def dur)
  qed
  moreover have "mutex_at s' x" for x using only_thread_mutex [OF o mx(1) invD(6) [OF i] mx(2)] .
  ultimately show ?thesis using lists' by (simp add: gc_inv_def)
qed

lemma inv_local_step:
  assumes i: "gc_inv N D s P G" and o: "only_thread t s s'" and n: "newest_writer s' = newest_writer s"
    and c: "cls s' t = Wait \<longleftrightarrow> cls s t = Wait" "rest s' t = rest s t" "holder s' t = holder s t" and l: "local_ok N D s' t"
    and w: "cls s t = Wait \<Longrightarrow> w_data (writers s' t) = w_data (writers s t) \<and> link_older (writers s' t) = link_older (writers s t)"
      "holder s t \<Longrightarrow> w_log_num (writers s' t) = w_log_num (writers s t)"
    and d: "cls s' t = Done \<or> synced s' t \<Longrightarrow> durable s (w_data (writers s' t))" "synced s' t \<Longrightarrow> synced s t"
    and st: "cls s t = Wait \<or> cls s t = Appointed \<Longrightarrow>
      w_state (writers s' t) = w_state (writers s t) \<or> w_state (writers s' t) = STATE_LOCKED_WAITING"
    and p: "cls s t = Appointed \<Longrightarrow> waiting_pc (cpc s' t) \<and> w_state (writers s' t) \<in> {STATE_INIT, STATE_LOCKED_WAITING}"
    and mx: "notifies (cpc s' t) = notifies (cpc s t)" "mutex_at s' t"
  shows "gc_inv N D s' P G"
proof -
  have cl: "cls s' x = Wait \<longleftrightarrow> cls s x = Wait" "rest s' x = rest s x" for x
    using only_thread_other [OF o, of x] c by (cases "x = t"; auto)+
  have m: "link_older (writers s' x) = link_older (writers s x)" if "cls s x = Wait" for x
    using o that w by (cases "x = t") (auto simp: only_thread_def same_writer_def)
  have "lists_ok s' P G" by (rule lists_frame [OF invD(1) [OF i] n m cl])
  from inv_thread_step [OF i o this c(3) l w d st p mx] show ?thesis .
qed

lemma cls_pc:
  assumes "gc_inv N D s P G"
  shows "cls s t = Wait \<or> cls s t = Appointed \<Longrightarrow> waiting_pc (cpc s t) \<and> w_state (writers s t) \<in> {STATE_INIT, STATE_LOCKED_WAITING}"
    "\<not> waiting_pc (cpc s t) \<Longrightarrow> appointed s \<noteq> Some t"
    "goal (w_state (writers s t)) \<Longrightarrow> appointed s \<noteq> Some t"
proof -
  have a: "appointed s = Some t \<Longrightarrow> waiting_pc (cpc s t) \<and> w_state (writers s t) \<in> {STATE_INIT, STATE_LOCKED_WAITING}"
    using invD(3) [OF assms] by (auto simp: appointed_def appointed_ok_def split: spc.splits if_splits)
  show "\<not> waiting_pc (cpc s t) \<Longrightarrow> appointed s \<noteq> Some t" "goal (w_state (writers s t)) \<Longrightarrow> appointed s \<noteq> Some t"
    using a by (auto simp: goal_def)
  assume c: "cls s t = Wait \<or> cls s t = Appointed"
  show "waiting_pc (cpc s t) \<and> w_state (writers s t) \<in> {STATE_INIT, STATE_LOCKED_WAITING}"
  proof (cases "appointed s = Some t")
    case False
    then show ?thesis using c invD(2) [OF assms, of t]
      by (auto simp: cls_def waiting_pc_def local_ok_def split: cpc.splits State.splits)
  qed (rule a)
qed

lemma only_thread_go: "only_thread t s (go t p (upd_writer t f s))" "only_thread t s (go t p s)" "only_thread t s s"
  by (simp_all add: only_thread_def go_def upd_writer_def same_writer_def)

lemma go_upd [simp]:
  "cpc (go t p s) = (cpc s)(t := p)" "writers (go t p s) = writers s" "spc (go t p s) = spc s" "newest_writer (go t p s) = newest_writer s"
  "log_free (go t p s) = log_free s" "logs (go t p s) = logs s" "stop (go t p s) = stop s" "write_groups (go t p s) = write_groups s"
  "cpc (upd_writer t f s) = cpc s" "writers (upd_writer t f s) = (writers s)(t := f (writers s t))" "spc (upd_writer t f s) = spc s"
  "newest_writer (upd_writer t f s) = newest_writer s" "log_free (upd_writer t f s) = log_free s" "logs (upd_writer t f s) = logs s"
  "stop (upd_writer t f s) = stop s" "write_groups (upd_writer t f s) = write_groups s"
  by (simp_all add: go_def upd_writer_def)

lemma cls_simps:
  assumes "appointed s \<noteq> Some t"
  shows "cpc s t = Outside \<Longrightarrow> cls s t = Out" "cpc s t = Linking e \<Longrightarrow> cls s t = Lnk"
    "cpc s t = Leading \<or> cpc s t = Writing \<or> cpc s t = Releasing \<Longrightarrow> cls s t = Lead"
    "cpc s t = Finishing p \<Longrightarrow> cls s t = Fin" "cpc s t = Completing h tmp q \<Longrightarrow> cls s t = Fin"
    "waiting_pc (cpc s t) \<Longrightarrow> cls s t = (case w_state (writers s t) of STATE_GROUP_LEADER \<Rightarrow> Lead | STATE_COMPLETED \<Rightarrow> Done | _ \<Rightarrow> Wait)"
  using assms by (auto simp: cls_def waiting_pc_def split: cpc.splits)

lemma appointed_upd [simp]:
  "appointed (go t p s) = appointed s" "appointed (upd_writer t f s) = appointed s" "appointed (s\<lparr>logs := ls\<rparr>) = appointed s"
  "appointed (s\<lparr>log_free := lf\<rparr>) = appointed s" "appointed (s\<lparr>newest_writer := nw\<rparr>) = appointed s" "appointed (s\<lparr>stop := b\<rparr>) = appointed s"
  by (simp_all add: appointed_def)

lemma cls_cong:
  "appointed s' = Some x \<longleftrightarrow> appointed s = Some x \<Longrightarrow> cpc s' x = cpc s x \<Longrightarrow> w_state (writers s' x) = w_state (writers s x) \<Longrightarrow> cls s' x = cls s x"
  by (simp only: cls_def)

lemma rest_cong:
  "cls s' x = cls s x \<Longrightarrow> cpc s' x = cpc s x \<Longrightarrow> link_older (writers s' x) = link_older (writers s x) \<Longrightarrow> rest s' x = rest s x"
  by (simp only: rest_def)

lemma mutex_plain_step:
  assumes "gc_inv N D s P G" "only_thread t s s'" "cpc s t \<notin> {Locking, Checking, Blocked}" "cpc s' t \<notin> {Checking, Blocked}"
    "notifies (cpc s' t) = notifies (cpc s t)" "state_mutex (writers s' t) = None \<or> state_mutex (writers s' t) = state_mutex (writers s t)"
  shows "mutex_at s' t"
  by (rule mutex_plain [OF invD(6) [OF assms(1)] assms(3) only_thread_notifier [OF assms(2,5)] assms(4,6)])

lemma inv_call:
  assumes "gc_inv N D s P G" "cpc s t = Outside" "t < N" "length data \<le> D"
  shows "gc_inv N D (AddLog_begin t data s) P G"
proof -
  have a: "appointed s \<noteq> Some t" using cls_pc(2) [OF assms(1)] assms(2) by (simp add: waiting_pc_def)
  let ?s = "AddLog_begin t data s"
  have c: "cls s t = Out" "cls ?s t = Lnk" using assms(2) a by (simp_all add: AddLog_begin_def cls_simps)
  have "mutex_at ?s t"
    by (rule mutex_plain_step [OF assms(1)]) (use assms(2) in \<open>simp_all add: AddLog_begin_def only_thread_go notifies_def Writer_new_def\<close>)
  moreover have "rest s t = None" "rest ?s t = None" using c assms(2) by (simp_all add: rest_def AddLog_begin_def)
  ultimately show ?thesis
    by (intro inv_local_step [OF assms(1)])
      (use c assms(2-4) in \<open>auto simp: AddLog_begin_def only_thread_go holder_def synced_def local_ok_def Writer_new_def notifies_def\<close>)
qed

lemma inv_link_retry:
  assumes "gc_inv N D s P G" "cpc s t = Linking e"
  shows "gc_inv N D (go t (Linking e') (upd_writer t (\<lambda>w. w\<lparr>link_older := e\<rparr>) s)) P G" (is "gc_inv N D ?s P G")
proof -
  have a: "appointed s \<noteq> Some t" using cls_pc(2) [OF assms(1)] assms(2) by (simp add: waiting_pc_def)
  have c: "cls s t = Lnk" "cls ?s t = Lnk" using assms(2) a by (simp_all add: cls_simps)
  have "mutex_at ?s t"
    by (rule mutex_plain_step [OF assms(1)]) (use assms(2) in \<open>simp_all add: only_thread_go notifies_def\<close>)
  moreover have "rest s t = None" "rest ?s t = None" using c assms(2) by (simp_all add: rest_def)
  ultimately show ?thesis
    by (intro inv_local_step [OF assms(1)])
      (use c assms(2) invD(2) [OF assms(1), of t] in \<open>auto simp: only_thread_go holder_def synced_def local_ok_def notifies_def\<close>)
qed

text \<open>The end of the waiting, where the thread gives its mutex back if it holds it.\<close>

definition give_back :: "nat \<Rightarrow> server \<Rightarrow> server" where
  "give_back t s = upd_writer t (\<lambda>w. w\<lparr>state_mutex := None\<rparr>) s"

lemma give_back_id: "state_mutex (writers s t) = None \<Longrightarrow> give_back t s = s"
proof -
  assume "state_mutex (writers s t) = None"
  then have "(writers s t)\<lparr>state_mutex := None\<rparr> = writers s t" by (cases "writers s t") simp
  then show ?thesis by (simp add: give_back_def upd_writer_def)
qed

lemma mutex_leave:
  assumes i: "gc_inv N D s P G" and w: "cpc s t \<notin> {Locking, Blocked}" "notifies (cpc s t) = None" "cpc s' t \<notin> {Checking, Blocked}" "notifies (cpc s' t) = None"
    and o: "only_thread t s s'" "state_mutex (writers s' t) = None"
  shows "mutex_at s' t"
proof -
  have n: "notifier s' me t = notifier s me t" for me by (rule only_thread_notifier [OF o(1)]) (use w in simp)
  have "\<not> notifier s me t" for me using invD(6) [OF i, of t] w(1) by (auto simp: mutex_at_def)
  then show ?thesis using w(3) o(2) by (simp add: mutex_at_def n)
qed

lemma inv_awaited:
  assumes i: "gc_inv N D s P G" and w: "waiting_pc (cpc s t)" "cpc s t \<notin> {Locking, Blocked}" "goal (w_state (writers s t))"
  shows "\<exists>s'. AddLog_awaited t (w_state (writers s t)) (give_back t s) = Inr s' \<and> gc_inv N D s' P G \<and>
    (cpc s' t = Outside \<longrightarrow> durable s (w_data (writers s t))) \<and> only_thread t s s'"
proof -
  have a: "appointed s \<noteq> Some t" using cls_pc(3) [OF i] w(3) by blast
  have nt: "notifies (cpc s t) = None" using w(1) by (auto simp: notifies_def waiting_pc_def split: cpc.splits)
  have o: "only_thread t s (go t p (give_back t s))" for p by (simp add: give_back_def only_thread_go)
  have mx: "mutex_at (go t p (give_back t s)) t" if "p = Outside \<or> p = Leading" for p
    by (rule mutex_leave [OF i w(2) nt _ _ o]) (use that in \<open>auto simp: notifies_def give_back_def\<close>)
  show ?thesis
  proof (cases "w_state (writers s t) = STATE_COMPLETED")
    case True
    let ?s = "go t Outside (give_back t s)"
    have c: "cls s t = Done" "cls ?s t = Out" using w(1) True a by (simp_all add: cls_simps give_back_def)
    have "rest s t = None" "rest ?s t = None" using c w(1) by (auto simp: rest_def waiting_pc_def split: cpc.splits)
    then have "gc_inv N D ?s P G"
      by (intro inv_local_step [OF i o]) (use c nt mx in \<open>auto simp: give_back_def holder_def synced_def local_ok_def notifies_def\<close>)
    then show ?thesis using True c(1) invD(5) [OF i] w(3) o [of Outside]
      by (auto simp: AddLog_awaited_def durable_ok_def give_back_def)
  next
    case False
    then have l: "w_state (writers s t) = STATE_GROUP_LEADER" using w(3) by (simp add: goal_def)
    let ?s = "go t Leading (give_back t s)"
    have c: "cls s t = Lead" "cls ?s t = Lead" using w(1) l a by (simp_all add: cls_simps give_back_def)
    have "rest s t = rest ?s t" using c w(1) by (auto simp: rest_def waiting_pc_def give_back_def split: cpc.splits)
    moreover have "\<not> synced ?s t" using c by (simp add: synced_def)
    moreover have "cpc s t \<noteq> Outside" using w(1) by (auto simp: waiting_pc_def)
    ultimately have "gc_inv N D ?s P G"
      by (intro inv_local_step [OF i o]) (use c invD(2) [OF i, of t] nt mx in \<open>auto simp: give_back_def holder_def local_ok_def notifies_def\<close>)
    then show ?thesis using l w(3) o [of Leading] by (simp add: AddLog_awaited_def give_back_def)
  qed
qed

lemma inv_awaited_free:
  assumes i: "gc_inv N D s P G" and w: "cpc s t \<in> {Polling, Created} \<or> (\<exists>st. cpc s t = LongWait st)" "goal (w_state (writers s t))"
  shows "\<exists>s'. AddLog_awaited t (w_state (writers s t)) s = Inr s' \<and> gc_inv N D s' P G \<and>
    (cpc s' t = Outside \<longrightarrow> durable s (w_data (writers s t))) \<and> only_thread t s s'"
proof -
  have "give_back t s = s" by (rule give_back_id, rule mutex_free [OF invD(6) [OF i]]) (use w(1) in auto)
  moreover have "waiting_pc (cpc s t)" "cpc s t \<notin> {Locking, Blocked}" using w(1) by (auto simp: waiting_pc_def)
  ultimately show ?thesis using inv_awaited [OF i _ _ w(2)] by simp
qed

text \<open>A thread that goes on waiting.\<close>

lemma waiting_facts:
  assumes "waiting_pc (cpc s t)"
  shows "rest s t = (if cls s t = Appointed \<or> cls s t = Lead then link_older (writers s t) else None)" "notifies (cpc s t) = None"
    "synced s t \<longleftrightarrow> cls s t = Fin" "cpc s t \<noteq> Outside"
  using assms by (auto simp: rest_def notifies_def synced_def waiting_pc_def split: cpc.splits)

lemma inv_wait_step:
  assumes i: "gc_inv N D s P G" and w: "waiting_pc (cpc s t)" "waiting_pc p" and f: "\<And>w. w_data (f w) = w_data w \<and> link_older (f w) = link_older w \<and> w_log_num (f w) = w_log_num w"
    and st: "goal (w_state (f (writers s t))) \<longleftrightarrow> goal (w_state (writers s t))" "goal (w_state (writers s t)) \<Longrightarrow> w_state (f (writers s t)) = w_state (writers s t)"
      "w_state (f (writers s t)) = w_state (writers s t) \<or> w_state (f (writers s t)) = STATE_LOCKED_WAITING"
    and s': "s' = go t p (upd_writer t f s)" and l: "local_ok N D s' t" and mx: "mutex_at s' t"
  shows "gc_inv N D s' P G"
proof -
  have w': "waiting_pc (cpc s' t)" using w(2) by (simp add: s')
  have c: "cls s' t = cls s t"
  proof (cases "appointed s = Some t")
    case True
    then show ?thesis by (simp add: cls_def s')
  next
    case False
    then have "appointed s' \<noteq> Some t" by (simp add: s')
    then show ?thesis unfolding cls_simps(6) [OF False w(1)] cls_simps(6) [OF \<open>appointed s' \<noteq> Some t\<close> w']
      using st by (auto simp: s' goal_def split: State.splits)
  qed
  have k: "link_older (writers s' t) = link_older (writers s t)" using f by (simp add: s')
  note F = waiting_facts [OF w(1)] waiting_facts [OF w']
  have r: "rest s' t = rest s t" and nt: "notifies (cpc s' t) = notifies (cpc s t)" and sy: "synced s' t = synced s t"
    unfolding F c k by (rule refl)+
  have p: "cls s t = Appointed \<Longrightarrow> w_state (writers s t) \<in> {STATE_INIT, STATE_LOCKED_WAITING}" using cls_pc(1) [OF i] by blast
  show ?thesis
    by (rule inv_local_step [OF i, of t])
      (use c r sy nt l mx st f w' p invD(5) [OF i] in \<open>auto simp: s' only_thread_go holder_def durable_ok_def\<close>)
qed

lemma inv_poll:
  assumes i: "gc_inv N D s P G" and t: "cpc s t = Polling"
  shows "\<exists>s'. AwaitState_poll t give_up s = Inr s' \<and> gc_inv N D s' P G \<and> (cpc s' t = Outside \<longrightarrow> durable s (w_data (writers s t))) \<and> only_thread t s s'"
proof (cases "goal (w_state (writers s t))")
  case True
  then show ?thesis using inv_awaited_free [OF i _ True] t by (simp add: AwaitState_poll_def)
next
  case False
  show ?thesis
  proof (cases give_up)
    case True
    let ?s = "go t Created (upd_writer t (\<lambda>w. w\<lparr>made_waitable := True\<rparr>) s)"
    have mx: "mutex_at ?s t" by (rule mutex_plain_step [OF i]) (use t in \<open>simp_all add: only_thread_go notifies_def\<close>)
    have "gc_inv N D ?s P G"
      by (rule inv_wait_step [OF i _ _ _ _ _ _ refl _ mx]) (use t invD(2) [OF i, of t] in \<open>auto simp: waiting_pc_def local_ok_def\<close>)
    then show ?thesis using False True by (simp add: AwaitState_poll_def only_thread_go)
  next
    case give: False
    then show ?thesis using False i t by (simp add: AwaitState_poll_def only_thread_go)
  qed
qed

lemma inv_load:
  assumes i: "gc_inv N D s P G" and t: "cpc s t = Created"
  shows "\<exists>s'. AwaitState_load t s = Inr s' \<and> gc_inv N D s' P G \<and> (cpc s' t = Outside \<longrightarrow> durable s (w_data (writers s t))) \<and> only_thread t s s'"
proof -
  have st: "w_state (writers s t) \<in> {STATE_INIT, STATE_GROUP_LEADER, STATE_COMPLETED}" using invD(2) [OF i, of t] t by (simp add: local_ok_def)
  show ?thesis
  proof (cases "goal (w_state (writers s t))")
    case True
    then show ?thesis using inv_awaited_free [OF i _ True] t st by (auto simp: AwaitState_load_def Let_def)
  next
    case False
    let ?s = "go t (LongWait (w_state (writers s t))) (upd_writer t (\<lambda>w. w) s)"
    have e: "?s = go t (LongWait (w_state (writers s t))) s" by (simp add: upd_writer_def)
    have mx: "mutex_at ?s t" by (rule mutex_plain_step [OF i]) (use t in \<open>simp_all add: only_thread_go notifies_def\<close>)
    have "gc_inv N D ?s P G"
      by (rule inv_wait_step [OF i _ _ _ _ _ _ refl _ mx]) (use t st False invD(2) [OF i, of t] in \<open>auto simp: waiting_pc_def local_ok_def goal_def\<close>)
    then show ?thesis using False st unfolding e by (auto simp: AwaitState_load_def Let_def goal_def only_thread_go)
  qed
qed

lemma inv_await_exchange:
  assumes i: "gc_inv N D s P G" and t: "cpc s t = LongWait st"
  shows "\<exists>s'. AwaitState_exchange t st s = Inr s' \<and> gc_inv N D s' P G \<and> (cpc s' t = Outside \<longrightarrow> durable s (w_data (writers s t))) \<and> only_thread t s s'"
proof (cases "w_state (writers s t) = st")
  case True
  have l: "st = STATE_INIT" using invD(2) [OF i, of t] t by (auto simp: local_ok_def)
  let ?s = "go t Locking (upd_writer t (\<lambda>w. w\<lparr>w_state := STATE_LOCKED_WAITING\<rparr>) s)"
  have mx: "mutex_at ?s t" by (rule mutex_plain_step [OF i]) (use t in \<open>simp_all add: only_thread_go notifies_def\<close>)
  have "gc_inv N D ?s P G"
    by (rule inv_wait_step [OF i _ _ _ _ _ _ refl _ mx]) (use t l True invD(2) [OF i, of t] in \<open>auto simp: waiting_pc_def local_ok_def goal_def\<close>)
  then show ?thesis using True by (simp add: AwaitState_exchange_def only_thread_go)
next
  case False
  then have "goal (w_state (writers s t))" using invD(2) [OF i, of t] t by (auto simp: local_ok_def goal_def)
  from inv_awaited_free [OF i _ this] False t show ?thesis by (simp add: AwaitState_exchange_def)
qed

lemma inv_lock:
  assumes i: "gc_inv N D s P G" and t: "cpc s t = Locking" and r: "AwaitState_lock t s = Some r"
  shows "\<exists>s'. r = Inr s' \<and> gc_inv N D s' P G \<and> cpc s' t = Checking \<and> only_thread t s s'"
proof -
  let ?s = "go t Checking (upd_writer t (\<lambda>w. w\<lparr>state_mutex := Some (By_client t)\<rparr>) s)"
  have l: "made_waitable (writers s t)" using invD(2) [OF i, of t] t by (simp add: local_ok_def)
  then have f: "state_mutex (writers s t) = None" and e: "r = Inr ?s" using r by (auto simp: AwaitState_lock_def split: if_splits)
  have n: "notifier ?s me t = notifier s me t" for me by (rule only_thread_notifier [OF only_thread_go(1)]) (simp add: t notifies_def)
  have mx: "mutex_at ?s t" using invD(6) [OF i, of t] f by (simp add: mutex_at_def n)
  have "gc_inv N D ?s P G"
    by (rule inv_wait_step [OF i _ _ _ _ _ _ refl _ mx]) (use t invD(2) [OF i, of t] in \<open>auto simp: waiting_pc_def local_ok_def\<close>)
  then show ?thesis using e by (simp add: only_thread_go)
qed

lemma inv_check:
  assumes i: "gc_inv N D s P G" and t: "cpc s t = Checking"
  shows "\<exists>s'. AwaitState_check t s = Inr s' \<and> gc_inv N D s' P G \<and> (cpc s' t = Outside \<longrightarrow> durable s (w_data (writers s t))) \<and> only_thread t s s'"
proof (cases "w_state (writers s t) = STATE_LOCKED_WAITING")
  case True
  let ?s = "go t Blocked (upd_writer t (\<lambda>w. w\<lparr>state_mutex := None, cv_waiting := True\<rparr>) s)"
  have n: "notifier ?s me t = notifier s me t" for me by (rule only_thread_notifier [OF only_thread_go(1)]) (simp add: t notifies_def)
  have mx: "mutex_at ?s t" using invD(6) [OF i, of t] t True by (auto simp: mutex_at_def n goal_def)
  have "gc_inv N D ?s P G"
    by (rule inv_wait_step [OF i _ _ _ _ _ _ refl _ mx]) (use t invD(2) [OF i, of t] in \<open>auto simp: waiting_pc_def local_ok_def\<close>)
  then show ?thesis using True by (simp add: AwaitState_check_def only_thread_go)
next
  case False
  then have "goal (w_state (writers s t))" using invD(2) [OF i, of t] t by (auto simp: local_ok_def goal_def)
  from inv_awaited [OF i _ _ this] False t show ?thesis by (simp add: AwaitState_check_def waiting_pc_def give_back_def)
qed

lemma inv_wake:
  assumes i: "gc_inv N D s P G" and t: "cpc s t = Blocked" and r: "AwaitState_wake t alt s = Some r"
  shows "\<exists>s'. r = Inr s' \<and> gc_inv N D s' P G \<and> cpc s' t = Locking \<and> only_thread t s s'"
proof -
  let ?s = "go t Locking (upd_writer t (\<lambda>w. w\<lparr>cv_waiting := False\<rparr>) s)"
  have e: "r = Inr ?s" using r by (auto simp: AwaitState_wake_def split: if_splits)
  have n: "notifier ?s me t = notifier s me t" for me by (rule only_thread_notifier [OF only_thread_go(1)]) (simp add: t notifies_def)
  have mx: "mutex_at ?s t" by (rule mutex_unblock [OF invD(6) [OF i] n]) (simp_all add: t)
  have "gc_inv N D ?s P G"
    by (rule inv_wait_step [OF i _ _ _ _ _ _ refl _ mx]) (use t invD(2) [OF i, of t] in \<open>auto simp: waiting_pc_def local_ok_def\<close>)
  then show ?thesis using e by (simp add: only_thread_go)
qed

lemma inv_link:
  assumes i: "gc_inv N D s P G" and t: "cpc s t = Linking (newest_writer s)"
  shows "gc_inv N D (go t Polling ((upd_writer t (\<lambda>w. w\<lparr>link_older := newest_writer s\<rparr>) s)\<lparr>newest_writer := Some t\<rparr>)) (t # P) G" (is "gc_inv N D ?s _ _")
proof -
  have a: "appointed s \<noteq> Some t" using cls_pc(2) [OF i] t by (simp add: waiting_pc_def)
  have l: "w_state (writers s t) = STATE_INIT" using invD(2) [OF i, of t] t by (simp add: local_ok_def)
  have o: "only_thread t s ?s" by (simp add: only_thread_def same_writer_def)
  have mx: "mutex_at ?s t" by (rule mutex_plain_step [OF i o]) (use t in \<open>simp_all add: notifies_def\<close>)
  have "appointed ?s = appointed s" by (simp add: appointed_def)
  then have c: "cls s t = Lnk" "cls ?s t = Wait" using t a l by (simp_all add: cls_simps waiting_pc_def)
  have r: "rest ?s x = rest s x" for x
    using only_thread_other(2) [OF o, of x] t c by (cases "x = t") (simp_all add: rest_def)
  have nt: "t \<notin> set P" "t \<notin> set (G j)" for j using lists_memberD [OF invD(1) [OF i], of t] c(1) by auto
  have ch: "chain (writers ?s) p xs = chain (writers s) p xs" if "t \<notin> set xs" for p xs
    by (rule prev_chain_cong) (use that in auto)
  have w: "cls ?s x = Wait \<longleftrightarrow> x = t \<or> cls s x = Wait" for x using only_thread_other(1) [OF o, of x] c by (cases "x = t") auto
  have L: "chain (writers s) (newest_writer s) P" "\<forall>j. chain (writers s) (rest s j) (G j)" "distinct P" "\<forall>j. distinct (G j)"
    "\<forall>j. set P \<inter> set (G j) = {}" "\<forall>j k. j \<noteq> k \<longrightarrow> set (G j) \<inter> set (G k) = {}"
    "\<forall>x. x \<in> set P \<or> (\<exists>j. x \<in> set (G j)) \<longleftrightarrow> cls s x = Wait"
    using invD(1) [OF i] by (simp_all add: lists_ok_def)
  have "chain (writers ?s) (newest_writer ?s) (t # P)" using L(1) ch [OF nt(1)] by simp
  moreover have "\<forall>j. chain (writers ?s) (rest ?s j) (G j)" using L(2) ch [OF nt(2)] r by simp
  moreover have "\<forall>j. set (t # P) \<inter> set (G j) = {}" using L(5) nt(2) by simp
  moreover have "\<forall>x. x \<in> set (t # P) \<or> (\<exists>j. x \<in> set (G j)) \<longleftrightarrow> cls ?s x = Wait"
    unfolding w using L(7) by (metis set_ConsD list.set_intros)
  ultimately have "lists_ok ?s (t # P) G" unfolding lists_ok_def using L(3,4,6) nt(1) by (simp only: distinct.simps simp_thms)
  then show ?thesis
    by (rule inv_thread_step [OF i o])
      (use c t l mx invD(2) [OF i, of t] in \<open>auto simp: holder_def synced_def local_ok_def notifies_def\<close>)
qed

text \<open>How the lists change when a leader completes the next writer of its group, and when the server takes the list.\<close>

lemma lists_pop:
  assumes L: "lists_ok s P G" and g: "G t = h # ys" "chain (writers s) tmp ys"
    and c: "\<And>p xs. chain (writers s') p xs = chain (writers s) p xs" and n: "newest_writer s' = newest_writer s"
    and r: "\<And>x. rest s' x = (if x = t then tmp else rest s x)" and w: "\<And>x. cls s' x = Wait \<longleftrightarrow> cls s x = Wait \<and> x \<noteq> h"
  shows "lists_ok s' P (G(t := ys))" "set ((G(t := ys)) j) = set (G j) - {h}"
proof -
  note L' = L [unfolded lists_ok_def]
  have d: "distinct (G x)" for x using L' by blast
  have sub: "set ((G(t := ys)) j) = set (G j) - {h}" for j
  proof (cases "j = t")
    case True
    then show ?thesis using d [of t] g(1) by simp
  next
    case False
    then have "set (G j) \<inter> set (G t) = {}" using L' by blast
    then show ?thesis using False g(1) by auto
  qed
  then show "set ((G(t := ys)) j) = set (G j) - {h}" .
  have hP: "h \<notin> set P" using L' g(1) by (metis disjoint_iff list.set_intros(1))
  have "chain (writers s) (rest s' x) ((G(t := ys)) x)" for x using L' g(2) r by simp
  moreover have "distinct ((G(t := ys)) x)" for x using d [of x] d [of t] g(1) by simp
  moreover have "set ((G(t := ys)) i) \<inter> set ((G(t := ys)) j) = {}" if "i \<noteq> j" for i j
  proof -
    have "set (G i) \<inter> set (G j) = {}" using L' that by blast
    then show ?thesis unfolding sub by blast
  qed
  moreover have "set P \<inter> set ((G(t := ys)) i) = {}" for i
  proof -
    have "set P \<inter> set (G i) = {}" using L' by blast
    then show ?thesis unfolding sub by blast
  qed
  moreover have "x \<in> set P \<or> (\<exists>i. x \<in> set ((G(t := ys)) i)) \<longleftrightarrow> cls s x = Wait \<and> x \<noteq> h" for x
    using L' hP unfolding sub by (metis Diff_iff singleton_iff)
  ultimately show "lists_ok s' P (G(t := ys))" using L' unfolding lists_ok_def c w n by blast
qed

lemma lists_take:
  assumes L: "lists_ok s (l # ys) G" and g: "G l = []" and y: "chain (writers s) (link_older (writers s l)) ys"
    and c: "\<And>p xs. chain (writers s') p xs = chain (writers s) p xs" and n: "newest_writer s' = None"
    and r: "\<And>x. rest s' x = (if x = l then link_older (writers s l) else rest s x)" and w: "\<And>x. cls s' x = Wait \<longleftrightarrow> cls s x = Wait \<and> x \<noteq> l"
  shows "lists_ok s' [] (G(l := ys))"
proof -
  note L' = L [unfolded lists_ok_def]
  have dj: "set (l # ys) \<inter> set (G i) = {}" for i using L' by blast
  have "chain (writers s) (rest s' x) ((G(l := ys)) x)" for x using L' y r by simp
  moreover have "distinct ((G(l := ys)) x)" for x using L' by simp
  moreover have "set ((G(l := ys)) i) \<inter> set ((G(l := ys)) j) = {}" if "i \<noteq> j" for i j
  proof -
    have "set (G i) \<inter> set (G j) = {}" using L' that by blast
    then show ?thesis using dj [of i] dj [of j] that by auto
  qed
  moreover have "(\<exists>i. x \<in> set ((G(l := ys)) i)) \<longleftrightarrow> cls s x = Wait \<and> x \<noteq> l" for x
  proof -
    have "(\<exists>i. x \<in> set ((G(l := ys)) i)) \<longleftrightarrow> x \<in> set ys \<or> (\<exists>i. x \<in> set (G i))"
      using g by (auto, metis empty_iff list.set(1))
    moreover have "l \<notin> set ys" "l \<notin> set (G i)" for i using L' dj [of i] by auto
    moreover have "x \<in> set (l # ys) \<or> (\<exists>i. x \<in> set (G i)) \<longleftrightarrow> cls s x = Wait" using L' by blast
    ultimately show ?thesis by auto
  qed
  ultimately show ?thesis unfolding lists_ok_def c w n by simp
qed

text \<open>How the reservations change: a leader gives its log back, and the new leader gets the log of the server.\<close>

lemma logs_release:
  assumes L: "logs_ok s" and t: "holder s t" "w_log_num (writers s t) = int k" "k < length (log_free s)"
    and s': "log_free s' = (log_free s)[k := False]" "logs s' = logs s" "spc s' = spc s" "writers s' = writers s"
    and h: "\<And>x. holder s' x \<longleftrightarrow> x \<noteq> t \<and> holder s x"
  shows "logs_ok s'"
proof -
  note O = L [unfolded logs_ok_def]
  have u: "w_log_num (writers s x) \<noteq> int k" if "holder s x" "x \<noteq> t" for x using that O t(1,2) by metis
  have tk: "spc s \<noteq> S_taken k" using O t(1,2) by metis
  have "\<exists>j < length (log_free s'). w_log_num (writers s x) = int j \<and> log_free s' ! j" if x: "holder s x" "x \<noteq> t" for x
  proof -
    obtain j where j: "j < length (log_free s)" "w_log_num (writers s x) = int j" "log_free s ! j" using O x(1) by blast
    then have "j \<noteq> k" using u [OF x] by auto
    then show ?thesis using j by (auto simp: s')
  qed
  moreover have "j < length (log_free s') \<and> log_free s' ! j \<and> (\<forall>x. holder s x \<longrightarrow> w_log_num (writers s x) \<noteq> int j)" if "spc s = S_taken j" for j
    using O that tk by (cases "j = k") (auto simp: s')
  moreover have "spc s = S_taken j \<or> (\<exists>x. (x \<noteq> t \<and> holder s x) \<and> w_log_num (writers s x) = int j)"
    if j: "j < length (log_free s')" "log_free s' ! j" for j
  proof -
    have jk: "j \<noteq> k" "j < length (log_free s)" "log_free s ! j" using j t(3) by (auto simp: s' nth_list_update split: if_splits)
    then consider "spc s = S_taken j" | x where "holder s x" "w_log_num (writers s x) = int j" using O by blast
    then show ?thesis
    proof cases
      case (2 x)
      then have "x \<noteq> t" using jk(1) t(2) by auto
      then show ?thesis using 2 by blast
    qed blast
  qed
  ultimately show ?thesis using O unfolding logs_ok_def h s'(2-4) by (simp add: s'(1))
qed

lemma logs_appoint:
  assumes L: "logs_ok s" and p: "spc s = S_taken k" "\<And>j. spc s' \<noteq> S_taken j" and s': "log_free s' = log_free s" "logs s' = logs s"
    and h: "\<And>x. holder s' x \<longleftrightarrow> x = l \<or> holder s x" "\<not> holder s l"
    and u: "\<And>x. w_log_num (writers s' x) = (if x = l then int k else w_log_num (writers s x))"
  shows "logs_ok s'"
proof -
  note O = L [unfolded logs_ok_def]
  have k: "k < length (log_free s)" "log_free s ! k" "\<And>x. holder s x \<Longrightarrow> w_log_num (writers s x) \<noteq> int k" using O p(1) by auto
  have "\<exists>j < length (log_free s). w_log_num (writers s' x) = int j \<and> log_free s ! j" if "holder s' x" for x
    using that k O unfolding h(1) u by (cases "x = l") auto
  moreover have "x = y" if "holder s' x" "holder s' y" "w_log_num (writers s' x) = w_log_num (writers s' y)" for x y
    using that k(3) [of x] k(3) [of y] O unfolding h(1) u by (cases "x = l"; cases "y = l") auto
  moreover have "\<exists>x. holder s' x \<and> w_log_num (writers s' x) = int j" if j: "j < length (log_free s)" "log_free s ! j" for j
  proof (cases "j = k")
    case True
    then show ?thesis unfolding h(1) u by auto
  next
    case False
    then obtain x where "holder s x" "w_log_num (writers s x) = int j" using O j p(1) by auto
    moreover from this have "x \<noteq> l" using h(2) by auto
    ultimately show ?thesis unfolding h(1) u by auto
  qed
  ultimately show ?thesis using O p(2) unfolding logs_ok_def s' by simp
qed

section \<open>The leader\<close>

lemma waiting_valid: "gc_inv N D s P G \<Longrightarrow> cls s x = Wait \<Longrightarrow> valid x s"
  using cls_pc(1) [of N D s P G x] by (auto simp: valid_def waiting_pc_def)

lemma MakeGroup_loop_ok:
  assumes "chain (writers s) p xs" "leader \<notin> set xs" "\<forall>x \<in> set xs. valid x s"
  shows "\<exists>s'. MakeGroup_loop leader p s = Some (Inr s') \<and> only_thread leader s s' \<and> same_writer (writers s leader) (writers s' leader) \<and>
    cpc s' = cpc s \<and> newest_writer s' = newest_writer s \<and> g_leader (write_groups s' leader) = g_leader (write_groups s leader)"
  using assms
proof (induction xs arbitrary: p s)
  case Nil
  then show ?case by (subst MakeGroup_loop.simps) (simp add: only_thread_go same_writer_def)
next
  case (Cons x xs)
  define s1 where "s1 = (let s = upd_writer x (\<lambda>x. x\<lparr>w_group := Some leader\<rparr>) s; g = write_groups s leader
    in s\<lparr>write_groups := (write_groups s)(leader := g\<lparr>last_writer := x, g_size := g_size g + 1\<rparr>)\<rparr>)"
  have x: "x \<noteq> leader" "p = Some x" using Cons.prems by auto
  have f: "link_older (writers s1 y) = link_older (writers s y)" "cpc s1 = cpc s" for y by (simp_all add: s1_def Let_def)
  have e: "MakeGroup_loop leader p s = MakeGroup_loop leader (link_older (writers s1 x)) s1"
    using x Cons.prems(3) by (subst MakeGroup_loop.simps) (simp add: s1_def Let_def)
  have o: "only_thread leader s s1" "same_writer (writers s leader) (writers s1 leader)" "newest_writer s1 = newest_writer s"
    "g_leader (write_groups s1 leader) = g_leader (write_groups s leader)"
    using x(1) by (auto simp: s1_def Let_def only_thread_def same_writer_def)
  have "chain (writers s1) (link_older (writers s1 x)) xs" using Cons.prems(1) by (simp add: f(1) prev_chain_cong [of xs "writers s1" "writers s"])
  then obtain s' where s': "MakeGroup_loop leader (link_older (writers s1 x)) s1 = Some (Inr s')" "only_thread leader s1 s'"
      "same_writer (writers s1 leader) (writers s' leader)" "cpc s' = cpc s1" "newest_writer s' = newest_writer s1"
      "g_leader (write_groups s' leader) = g_leader (write_groups s1 leader)"
    using Cons.IH [of s1] Cons.prems(2,3) by (auto simp: valid_def f(2))
  have "only_thread leader s s'" using o(1) s'(2) by (simp add: only_thread_def same_writer_def)
  moreover have "same_writer (writers s leader) (writers s' leader)" using o(2) s'(3) by (simp add: same_writer_def)
  ultimately show ?case using e s' o f(2) by auto
qed

lemma lead_facts:
  assumes i: "gc_inv N D s P G" and t: "cpc s t = Leading \<or> cpc s t = Writing \<or> cpc s t = Releasing"
  shows "cls s t = Lead" "holder s t" "chain (writers s) (link_older (writers s t)) (G t)" "t \<notin> set (G t)" "\<forall>x \<in> set (G t). valid x s"
    "\<exists>k < length (log_free s). w_log_num (writers s t) = int k \<and> log_free s ! k"
proof -
  have "\<not> waiting_pc (cpc s t)" using t by (auto simp: waiting_pc_def)
  then show c: "cls s t = Lead" using cls_pc(2) [OF i] t by (intro cls_simps(3))
  then show h: "holder s t" by (simp add: holder_def)
  have "rest s t = link_older (writers s t)" using t c by (auto simp: rest_def)
  then show "chain (writers s) (link_older (writers s t)) (G t)" using invD(1) [OF i] unfolding lists_ok_def by metis
  show "t \<notin> set (G t)" using lists_memberD [OF invD(1) [OF i], of t t] c by auto
  show "\<forall>x \<in> set (G t). valid x s" using lists_memberD [OF invD(1) [OF i]] waiting_valid [OF i] by blast
  show "\<exists>k < length (log_free s). w_log_num (writers s t) = int k \<and> log_free s ! k" using invD(4) [OF i] h unfolding logs_ok_def by blast
qed

lemma inv_MakeGroup:
  assumes i: "gc_inv N D s P G" and t: "cpc s t = Leading"
  shows "\<exists>s'. MakeGroup t s = Some (Inr s') \<and> gc_inv N D s' P G \<and> cpc s' = (cpc s)(t := Writing) \<and> only_thread t s s' \<and> newest_writer s' = newest_writer s"
proof -
  note L = lead_facts [OF i disjI1 [OF t]]
  obtain k where k: "k < length (log_free s)" "w_log_num (writers s t) = int k" "log_free s ! k" using L(6) by blast
  have loc: "link_newer (writers s t) = None" "t < N" "length (w_data (writers s t)) \<le> D" using invD(2) [OF i, of t] t by (auto simp: local_ok_def)
  define s1 where "s1 = (let s = upd_writer t (\<lambda>w. w\<lparr>w_group := Some t\<rparr>) s
    in s\<lparr>write_groups := (write_groups s)(t := \<lparr>g_leader = t, last_writer = t, g_size = 1\<rparr>)\<rparr>)"
  have f: "link_older (writers s1 y) = link_older (writers s y)" "cpc s1 = cpc s" "newest_writer s1 = newest_writer s" for y by (simp_all add: s1_def Let_def)
  have o1: "only_thread t s s1" "same_writer (writers s t) (writers s1 t)" "g_leader (write_groups s1 t) = t"
    by (simp_all add: s1_def Let_def only_thread_def same_writer_def)
  have "chain (writers s1) (link_older (writers s t)) (G t)" using L(3) by (simp add: f(1) prev_chain_cong [of _ "writers s1" "writers s"])
  then obtain s2 where s2: "MakeGroup_loop t (link_older (writers s t)) s1 = Some (Inr s2)" "only_thread t s1 s2"
      "same_writer (writers s1 t) (writers s2 t)" "cpc s2 = cpc s1" "newest_writer s2 = newest_writer s1" "g_leader (write_groups s2 t) = t"
    using MakeGroup_loop_ok [of s1 _ "G t" t] L(4,5) o1(3) by (auto simp: valid_def f(2))
  let ?s = "go t Writing s2"
  have r: "MakeGroup t s = Some (Inr ?s)" using k loc(1) s2(1) by (simp add: MakeGroup_def s1_def Let_def)
  have o: "only_thread t s ?s" using o1(1) s2(2) by (simp add: only_thread_def same_writer_def)
  have w: "same_writer (writers s t) (writers ?s t)" using o1(2) s2(3) by (simp add: same_writer_def)
  have "appointed ?s = appointed s" using o by (simp add: only_thread_def appointed_def)
  then have c: "cls ?s t = Lead" using L(1) by (auto simp: cls_def split: if_splits)
  have rest: "rest ?s t = rest s t" using w t by (simp add: rest_def c L(1) same_writer_def)
  have mx: "mutex_at ?s t" by (rule mutex_plain_step [OF i o]) (use w t in \<open>simp_all add: notifies_def same_writer_def\<close>)
  have "gc_inv N D ?s P G"
    by (rule inv_local_step [OF i o]) (use w c L(1) loc s2(5,6) t f mx in \<open>auto simp: rest holder_def synced_def local_ok_def same_writer_def notifies_def\<close>)
  then show ?thesis using r o s2(4,5) f by simp
qed

lemma WriteToLog_loop_ok:
  assumes "chain (writers s) p xs" "\<forall>x \<in> set xs. valid x s \<and> length (w_data (writers s x)) \<le> D"
    "length (lw_buffer l) + length xs * D < MAX_BUFFER_SIZE"
  shows "WriteToLog_loop p s l = Some (Inr (l\<lparr>lw_buffer := lw_buffer l @ concat (map (\<lambda>x. w_data (writers s x)) xs)\<rparr>))"
  using assms
proof (induction xs arbitrary: p l)
  case Nil
  then show ?case by (subst WriteToLog_loop.simps) simp
next
  case (Cons x xs)
  let ?l = "l\<lparr>lw_buffer := lw_buffer l @ w_data (writers s x)\<rparr>"
  have d: "length (w_data (writers s x)) \<le> D" "valid x s" using Cons.prems(2) by auto
  then have "length (lw_buffer l) + length (w_data (writers s x)) < MAX_BUFFER_SIZE" using Cons.prems(3) by simp
  then have a: "AppendData (w_data (writers s x)) l = Inr ?l" by (simp add: AppendData_def)
  have "WriteToLog_loop (link_older (writers s x)) s ?l =
      Some (Inr (?l\<lparr>lw_buffer := lw_buffer ?l @ concat (map (\<lambda>x. w_data (writers s x)) xs)\<rparr>))"
    using Cons.prems d(1) by (intro Cons.IH) auto
  then show ?case using Cons.prems(1) d(2) by (subst WriteToLog_loop.simps) (simp add: a)
qed

lemma sublist_extend: "sublist d xs \<Longrightarrow> sublist d (xs @ ys)" "sublist d ys \<Longrightarrow> sublist d (xs @ ys)"
proof -
  assume "sublist d xs"
  then obtain a b where "xs = a @ d @ b" by (auto simp: sublist_def)
  then show "sublist d (xs @ ys)" by (simp add: sublist_appendI)
next
  assume "sublist d ys"
  then obtain a b where "ys = a @ d @ b" by (auto simp: sublist_def)
  then have "xs @ ys = (xs @ a) @ d @ b" by simp
  then show "sublist d (xs @ ys)" by (simp only: sublist_appendI)
qed

lemma sublist_concat: "x \<in> set xs \<Longrightarrow> sublist (f x) (concat (map f xs))"
proof -
  assume "x \<in> set xs"
  then obtain ys zs where "xs = ys @ x # zs" by (meson split_list)
  then show ?thesis by (simp add: sublist_appendI)
qed

lemma durable_mono:
  assumes "durable s d" "k < length (logs s)" "logs s' = (logs s)[k := l]" "\<And>xs. sublist xs (lw_synced (logs s ! k)) \<Longrightarrow> sublist xs (lw_synced l)"
  shows "durable s' d"
proof -
  obtain j where j: "j < length (logs s)" "sublist d (lw_synced (logs s ! j))" using assms(1) by (auto simp: durable_def in_set_conv_nth)
  have "sublist d (lw_synced (logs s' ! j))"
    using j assms(2,4) by (cases "j = k") (auto simp: assms(3))
  then show ?thesis using j(1) by (auto simp: durable_def assms(3) intro!: bexI [of _ "logs s' ! j"])
qed

lemma mutex_same:
  assumes m: "\<And>x. mutex_at s x" and e: "writers s' = writers s" "spc s' = spc s" "cpc s' = (cpc s)(t := p)"
    and p: "cpc s t \<notin> {Locking, Checking, Blocked}" "p \<notin> {Checking, Blocked}" "notifies p = notifies (cpc s t)"
  shows "mutex_at s' x"
proof -
  have n: "notifier s' me h = notifier s me h" for me h using p(3) by (auto simp: notifier_alt e split: owner.split)
  show ?thesis
  proof (cases "x = t")
    case True
    then show ?thesis using mutex_plain [OF m [of t] p(1) n] p(2) by (simp add: e)
  next
    case False
    then have "mutex_at s' x = mutex_at s x" by (intro mutex_cong n) (simp_all add: e)
    then show ?thesis using m by simp
  qed
qed

lemma group_size:
  assumes i: "gc_inv N D s P G" and t: "cpc s t = Writing"
  shows "length (t # G t) \<le> N"
proof -
  note L = lead_facts [OF i disjI2 [OF disjI1 [OF t]]]
  have "x < N" if "x \<in> set (t # G t)" for x
    using invD(2) [OF i, of x] L(5) t that by (auto simp: local_ok_def valid_def)
  then have "set (t # G t) \<subseteq> {..<N}" by blast
  moreover have "distinct (t # G t)" using L(4) invD(1) [OF i] by (simp add: lists_ok_def)
  ultimately show ?thesis using card_mono [of "{..<N}" "set (t # G t)"] distinct_card by fastforce
qed

lemma length_concat_le: "(\<And>x. x \<in> set xs \<Longrightarrow> length (f x) \<le> D) \<Longrightarrow> length (concat (map f xs)) \<le> length xs * D"
  by (induction xs) (simp_all add: add_mono)

lemma sint_small: "n < MAX_BUFFER_SIZE \<Longrightarrow> sint (of_nat n :: uint64) = int n"
  by (simp add: MAX_BUFFER_SIZE_def signed_of_nat signed_take_bit_int_eq_self)

lemma Sync_eq:
  assumes "length (lw_buffer l) < MAX_BUFFER_SIZE"
  shows "Sync sz rc l =
    (if of_nat (length (lw_buffer l)) \<noteq> sz then Inl (AssertFailed ''current_buffer_offset == sz'')
     else if rc \<noteq> 0 then Inl (AssertFailed ''rc == 0'')
     else Inr (l\<lparr>lw_file := lw_file l @ lw_buffer l, lw_synced := lw_file l @ lw_buffer l,
       total_written_size := total_written_size l + of_nat (length (lw_buffer l)), lw_buffer := []\<rparr>))"
  using sint_small [OF assms] by (auto simp: Sync_def Let_def)

lemma p_bind_if: "p_bind (Some (if b then x else y)) f = (if b then p_bind (Some x) f else p_bind (Some y) f)"
  by simp

lemma inv_WriteToLog:
  assumes i: "gc_inv N D s P G" and t: "cpc s t = Writing" and b: "N * D < MAX_BUFFER_SIZE"
  shows "\<exists>l s'. WriteToLog_loop (Some t) s (logs s ! nat (w_log_num (writers s t))) = Some (Inr l) \<and>
      WriteToLog t sz rc s = Some (if of_nat (length (lw_buffer l)) \<noteq> sz (length (lw_buffer l)) then Inl (AssertFailed ''current_buffer_offset == sz'')
        else if rc \<noteq> 0 then Inl (AssertFailed ''rc == 0'') else Inr s') \<and>
      gc_inv N D s' P G \<and> cpc s' = (cpc s)(t := Releasing) \<and>
      writers s' = writers s \<and> newest_writer s' = newest_writer s \<and> log_free s' = log_free s \<and> spc s' = spc s \<and> stop s' = stop s"
proof -
  note L = lead_facts [OF i disjI2 [OF disjI1 [OF t]]]
  obtain k where k: "k < length (log_free s)" "w_log_num (writers s t) = int k" "log_free s ! k" using L(6) by blast
  have lk: "k < length (logs s)" "lw_buffer (logs s ! k) = []" "lw_synced (logs s ! k) = lw_file (logs s ! k)"
    using k(1) invD(4) [OF i] by (auto simp: logs_ok_def)
  have g: "g_leader (write_groups s t) = t" using invD(2) [OF i, of t] t by (simp add: local_ok_def)
  let ?bytes = "concat (map (\<lambda>x. w_data (writers s x)) (t # G t))"
  have len: "\<forall>x \<in> set (t # G t). valid x s \<and> length (w_data (writers s x)) \<le> D"
    using L(5) t invD(2) [OF i] by (auto simp: valid_def local_ok_def)
  have "length (t # G t) * D \<le> N * D" using group_size [OF i t] by (intro mult_right_mono) simp_all
  then have bytes: "length (lw_buffer (logs s ! k)) + length (t # G t) * D < MAX_BUFFER_SIZE" using b lk(2) by simp
  have ch: "chain (writers s) (Some t) (t # G t)" using L(3) by simp
  have loop: "WriteToLog_loop (Some t) s (logs s ! k) = Some (Inr ((logs s ! k)\<lparr>lw_buffer := ?bytes\<rparr>))"
    using WriteToLog_loop_ok [OF ch len bytes] lk(2) by simp
  have "length ?bytes \<le> length (t # G t) * D" by (rule length_concat_le) (use len in blast)
  then have small: "length ?bytes < MAX_BUFFER_SIZE" using bytes by simp
  define l where "l = (logs s ! k)\<lparr>lw_file := lw_file (logs s ! k) @ ?bytes, lw_synced := lw_file (logs s ! k) @ ?bytes,
      total_written_size := total_written_size (logs s ! k) + of_nat (length ?bytes), lw_buffer := []\<rparr>"
  let ?s = "go t Releasing (s\<lparr>logs := (logs s)[k := l]\<rparr>)"
  have w: "WriteToLog t sz rc s = Some (if of_nat (length ?bytes) \<noteq> sz (length ?bytes) then Inl (AssertFailed ''current_buffer_offset == sz'')
        else if rc \<noteq> 0 then Inl (AssertFailed ''rc == 0'') else Inr ?s)"
    unfolding WriteToLog_def g k(2) nat_int Let_def loop using small by (simp add: Sync_eq l_def p_bind_if del: concat.simps list.map)
  have at: "appointed s \<noteq> Some t" using L(1) by (auto simp: cls_def)
  have c: "cls ?s x = cls s x" for x
  proof (cases "x = t")
    case True
    then show ?thesis using at L(1) by (simp add: cls_simps(3))
  qed (rule cls_cong; simp)
  have rest: "rest ?s x = rest s x" for x using t by (cases "x = t") (simp add: rest_def c L(1), rule rest_cong, simp_all add: c)
  have dm: "durable s d \<Longrightarrow> durable ?s d" for d
    using durable_mono [OF _ lk(1), of d ?s l] lk(3) by (simp add: l_def sublist_extend)
  have dn: "durable ?s (w_data (writers s x))" if x: "x \<in> set (t # G t)" for x
  proof -
    have "sublist (w_data (writers s x)) ?bytes" by (rule sublist_concat [OF x])
    then have "sublist (w_data (writers s x)) (lw_synced l)" by (simp add: l_def sublist_extend)
    then show ?thesis using lk(1) by (auto simp: durable_def set_update_memI)
  qed
  have sy: "synced ?s x \<longleftrightarrow> x = t \<or> synced s x" for x by (auto simp: synced_def c)
  have "lists_ok ?s P G" by (rule lists_frame [OF invD(1) [OF i]]) (simp_all add: c rest)
  moreover have "local_ok N D ?s x" for x
    using invD(2) [OF i, of x] t by (cases "x = t"; cases "cpc s x") (auto simp: local_ok_def seen_def split: setter.splits)
  moreover have "appointed_ok ?s"
    using invD(3) [OF i] t by (auto simp: appointed_ok_def seen_def waiting_pc_def split: spc.splits setter.splits)
  moreover have "logs_ok ?s"
  proof (rule logs_frame [OF invD(4) [OF i]])
    have "set (logs ?s) \<subseteq> insert l (set (logs s))" by (simp add: set_update_subset_insert)
    then show "\<forall>l \<in> set (logs ?s). lw_buffer l = [] \<and> lw_synced l = lw_file l" using invD(4) [OF i] by (auto simp: logs_ok_def l_def)
  qed (simp_all add: holder_def c)
  moreover have "durable_ok ?s G"
    using invD(5) [OF i] dm dn unfolding durable_ok_def sy c by auto
  moreover have "mutex_at ?s x" for x by (rule mutex_same [OF invD(6) [OF i], where t = t and p = Releasing]) (use t in \<open>simp_all add: notifies_def\<close>)
  ultimately have "gc_inv N D ?s P G" by (simp add: gc_inv_def)
  then show ?thesis using w loop k(2) by (intro exI [of _ "(logs s ! k)\<lparr>lw_buffer := ?bytes\<rparr>"] exI [of _ ?s]) simp
qed

lemma inv_release:
  assumes i: "gc_inv N D s P G" and t: "cpc s t = Releasing"
  shows "\<exists>s'. FinishGroup_release t s = Inr s' \<and> gc_inv N D s' P G \<and> cpc s' = (cpc s)(t := Finishing (link_older (writers s t))) \<and>
      writers s' = writers s \<and> newest_writer s' = newest_writer s \<and> spc s' = spc s \<and> stop s' = stop s \<and> logs s' = logs s"
proof -
  note L = lead_facts [OF i disjI2 [OF disjI2 [OF t]]]
  obtain k where k: "k < length (log_free s)" "w_log_num (writers s t) = int k" "log_free s ! k" using L(6) by blast
  have g: "g_leader (write_groups s t) = t" using invD(2) [OF i, of t] t by (simp add: local_ok_def)
  let ?s = "go t (Finishing (link_older (writers s t))) (s\<lparr>log_free := (log_free s)[k := False]\<rparr>)"
  have w: "FinishGroup_release t s = Inr ?s" by (simp add: FinishGroup_release_def g k Let_def)
  have at: "appointed s \<noteq> Some t" using L(1) by (auto simp: cls_def)
  have ct: "cls ?s t = Fin" using at by (simp add: cls_simps(4))
  have co: "cls ?s x = cls s x" if "x \<noteq> t" for x by (rule cls_cong) (use that in simp_all)
  have c: "cls ?s x = Wait \<longleftrightarrow> cls s x = Wait" "cls ?s x = Done \<longleftrightarrow> cls s x = Done" for x
    using ct L(1) co by (cases "x = t"; simp)+
  have h: "holder ?s x \<longleftrightarrow> x \<noteq> t \<and> holder s x" for x using ct L(1) co by (cases "x = t") (simp_all add: holder_def)
  have sy: "synced ?s x \<longleftrightarrow> synced s x" for x using ct t co by (cases "x = t") (simp_all add: synced_def)
  have rest: "rest ?s x = rest s x" for x using t by (cases "x = t") (simp add: rest_def L(1), rule rest_cong, simp_all add: co)
  have "lists_ok ?s P G" by (rule lists_frame [OF invD(1) [OF i]]) (simp_all add: c rest)
  moreover have "local_ok N D ?s x" for x
    using invD(2) [OF i, of x] t by (cases "x = t"; cases "cpc s x") (auto simp: local_ok_def seen_def split: setter.splits)
  moreover have "appointed_ok ?s"
    using invD(3) [OF i] t by (auto simp: appointed_ok_def seen_def waiting_pc_def split: spc.splits setter.splits)
  moreover have "logs_ok ?s" by (rule logs_release [OF invD(4) [OF i] L(2) k(2,1)]) (simp_all add: h)
  moreover have "durable_ok ?s G" using invD(5) [OF i] unfolding durable_ok_def sy c durable_def by simp
  moreover have "mutex_at ?s x" for x
    by (rule mutex_same [OF invD(6) [OF i], where t = t and p = "Finishing (link_older (writers s t))"]) (use t in \<open>simp_all add: notifies_def\<close>)
  ultimately have "gc_inv N D ?s P G" by (simp add: gc_inv_def)
  then show ?thesis using w by simp
qed

lemma fin_facts:
  assumes i: "gc_inv N D s P G" and t: "cpc s t = Finishing h \<or> cpc s t = Completing h' tmp q"
  shows "cls s t = Fin" "appointed s \<noteq> Some t" "synced s t"
proof -
  have "\<not> waiting_pc (cpc s t)" using t by (auto simp: waiting_pc_def)
  then show a: "appointed s \<noteq> Some t" using cls_pc(2) [OF i] by blast
  show "cls s t = Fin" using t cls_simps(4,5) [OF a] by blast
  then show "synced s t" by (simp add: synced_def)
qed

lemma inv_finish_next:
  assumes i: "gc_inv N D s P G" and t: "cpc s t = Finishing p"
  shows "\<exists>s'. FinishGroup_next t p s = Inr s' \<and> gc_inv N D s' P G \<and> only_thread t s s' \<and> newest_writer s' = newest_writer s \<and> writers s' = writers s \<and>
    (case p of None \<Rightarrow> cpc s' t = Outside \<and> durable s (w_data (writers s t)) | Some h \<Rightarrow> \<exists>tmp st. cpc s' t = Completing h tmp (To_exchange st))"
proof -
  note F = fin_facts [OF i disjI1 [OF t]]
  have r: "rest s t = p" using t by (simp add: rest_def)
  have D: "durable s (w_data (writers s t))" using invD(5) [OF i] F(3) by (simp add: durable_ok_def)
  have mx: "mutex_at (go t q s) t" if "q \<notin> {Checking, Blocked}" "notifies q = None" for q
    by (rule mutex_plain_step [OF i only_thread_go(2)]) (use t that in \<open>simp_all add: notifies_def\<close>)
  show ?thesis
  proof (cases p)
    case None
    let ?s = "go t Outside s"
    have c: "cls ?s t = Out" using F(2) by (simp add: cls_simps)
    then have "rest ?s t = None" by (simp add: rest_def)
    then have "gc_inv N D ?s P G"
      by (intro inv_local_step [OF i]) (use c F r None t mx [of Outside] in \<open>auto simp: only_thread_go holder_def synced_def local_ok_def notifies_def\<close>)
    then show ?thesis using None D by (simp add: FinishGroup_next_def only_thread_go)
  next
    case (Some h)
    have "chain (writers s) (Some h) (G t)" using invD(1) [OF i] r Some unfolding lists_ok_def by metis
    then have "h \<in> set (G t)" by (auto dest: chain_SomeD)
    then have w: "cls s h = Wait" using lists_memberD [OF invD(1) [OF i]] by blast
    then have st: "w_state (writers s h) = STATE_INIT \<or> w_state (writers s h) = STATE_LOCKED_WAITING" using cls_pc(1) [OF i, of h] by auto
    let ?s = "go t (Completing h (link_older (writers s h)) (To_exchange (w_state (writers s h)))) s"
    have e: "FinishGroup_next t p s = Inr ?s" using waiting_valid [OF i w] st Some by (auto simp: FinishGroup_next_def SetState_load_def)
    have c: "cls ?s t = Fin" using F(2) by (simp add: cls_simps(5))
    have "rest ?s t = Some h" by (simp add: rest_def)
    then have "gc_inv N D ?s P G"
      by (intro inv_local_step [OF i])
        (use c F r Some D st t mx invD(2) [OF i, of t] in \<open>auto simp: only_thread_go holder_def synced_def local_ok_def seen_def notifies_def\<close>)
    then show ?thesis using Some e by (simp add: only_thread_go)
  qed
qed

section \<open>The steps of SetState\<close>

lemma SetState_exchange_ok:
  assumes i: "gc_inv N D s P G" and h: "cls s h = Wait \<or> cls s h = Appointed" and q: "seen s h (To_exchange st)"
  shows "SetState_exchange h new st s =
    (if w_state (writers s h) = STATE_INIT then Inr (None, upd_writer h (\<lambda>x. x\<lparr>w_state := new\<rparr>) s) else Inr (Some To_lock, s))"
    "w_state (writers s h) \<noteq> STATE_INIT \<Longrightarrow> seen s h To_lock"
proof -
  have pc: "waiting_pc (cpc s h)" "w_state (writers s h) \<in> {STATE_INIT, STATE_LOCKED_WAITING}" using cls_pc(1) [OF i h] by auto
  have "valid h s" using pc(1) by (auto simp: valid_def waiting_pc_def)
  then show "SetState_exchange h new st s =
    (if w_state (writers s h) = STATE_INIT then Inr (None, upd_writer h (\<lambda>x. x\<lparr>w_state := new\<rparr>) s) else Inr (Some To_lock, s))"
    using pc(2) q by (auto simp: SetState_exchange_def seen_def)
  show "w_state (writers s h) \<noteq> STATE_INIT \<Longrightarrow> seen s h To_lock" using pc(2) by (auto simp: seen_def)
qed

lemma locked_pc:
  assumes i: "gc_inv N D s P G" and h: "cls s h = Wait \<or> cls s h = Appointed" and q: "seen s h To_lock"
  shows "cpc s h \<in> {Locking, Checking, Blocked}" "made_waitable (writers s h)" "valid h s"
proof -
  have "waiting_pc (cpc s h)" using cls_pc(1) [OF i h] by auto
  then show "cpc s h \<in> {Locking, Checking, Blocked}" "made_waitable (writers s h)" "valid h s"
    using invD(2) [OF i, of h] q by (auto simp: local_ok_def waiting_pc_def seen_def valid_def split: cpc.splits)
qed

lemma SetState_store_ok:
  assumes i: "gc_inv N D s P G" and h: "cls s h = Wait \<or> cls s h = Appointed" and q: "seen s h To_lock" and g: "goal new"
  shows "SetState_store me h new s =
    (if state_mutex (writers s h) \<noteq> None then None
     else Some (Inr (Some To_notify, upd_writer h (\<lambda>x. x\<lparr>state_mutex := Some me, w_state := new\<rparr>) s)))"
  using locked_pc [OF i h q] q g by (auto simp: SetState_store_def seen_def goal_def)

lemma SetState_notify_ok:
  assumes i: "gc_inv N D s P G" and n: "notifier s me h"
  shows "SetState_notify h s = Inr (None, upd_writer h (\<lambda>x. x\<lparr>cv_waiting := False, state_mutex := None\<rparr>) s)"
  using mutexD(1) [OF invD(6) [OF i] n] by (auto simp: SetState_notify_def valid_def)

lemma notifier_unique: "gc_inv N D s P G \<Longrightarrow> notifier s me h \<Longrightarrow> notifier s me' h \<Longrightarrow> me = me'"
  using mutexD(1) [OF invD(6), of N D s P G me h] mutexD(1) [OF invD(6), of N D s P G me' h] by simp

text \<open>The mutexes after a step of \<open>SetState\<close> for \<open>h\<close>.\<close>

lemma mutex_others:
  assumes m: "\<And>x. mutex_at s x" and w: "\<And>x. x \<noteq> h \<Longrightarrow> writers s' x = writers s x" and n: "\<And>x me. x \<noteq> h \<Longrightarrow> notifier s' me x = notifier s me x"
    and p: "\<And>x. cpc s' x = cpc s x \<or> cpc s x \<notin> {Locking, Checking, Blocked} \<and> cpc s' x \<notin> {Checking, Blocked}" and h: "mutex_at s' h"
  shows "mutex_at s' x"
proof (cases "x = h")
  case False
  note e = w [OF False] n [OF False]
  show ?thesis
  proof (cases "cpc s' x = cpc s x")
    case True
    then have "mutex_at s' x = mutex_at s x" by (intro mutex_cong e) (simp_all add: e)
    then show ?thesis using m by simp
  next
    case False
    then have "cpc s x \<notin> {Locking, Checking, Blocked}" "cpc s' x \<notin> {Checking, Blocked}" using p [of x] by auto
    from mutex_plain [OF m this(1) e(2) this(2)] show ?thesis by (simp add: e)
  qed
qed (use h in simp)

lemma mutex_exchanged:
  assumes i: "gc_inv N D s P G" and h: "cls s h = Wait \<or> cls s h = Appointed" "w_state (writers s h) = STATE_INIT"
    and s': "\<And>me. notifier s' me h = notifier s me h" "cpc s' h = cpc s h" "state_mutex (writers s' h) = state_mutex (writers s h)"
  shows "mutex_at s' h"
proof -
  have "waiting_pc (cpc s h)" using cls_pc(1) [OF i h(1)] by auto
  then have "cpc s h \<notin> {Locking, Checking, Blocked}" using invD(2) [OF i, of h] h(2) by (auto simp: local_ok_def)
  from mutex_plain [OF invD(6) [OF i] this s'(1)] this show ?thesis using s'(2,3) by simp
qed

lemma mutex_stored:
  assumes i: "gc_inv N D s P G" and h: "cls s h = Wait \<or> cls s h = Appointed" "seen s h To_lock" "state_mutex (writers s h) = None"
    and s': "\<And>me'. notifier s' me' h \<longleftrightarrow> me' = me" "cpc s' h = cpc s h" "state_mutex (writers s' h) = Some me"
      "made_waitable (writers s' h) = made_waitable (writers s h)" "goal (w_state (writers s' h))"
  shows "mutex_at s' h"
proof -
  note l = locked_pc [OF i h(1,2)]
  have "cpc s h \<noteq> Checking" using mutexD(3) [OF invD(6) [OF i], of h] h(3) by auto
  then show ?thesis by (intro mutexI) (use l s' in simp_all)
qed

lemma mutex_notified:
  assumes i: "gc_inv N D s P G" and h: "notifier s me h"
    and s': "\<And>me'. \<not> notifier s' me' h" "cpc s' h = cpc s h" "state_mutex (writers s' h) = None" "w_state (writers s' h) = w_state (writers s h)"
      "\<not> cv_waiting (writers s' h)"
  shows "mutex_at s' h"
  using mutexD(1) [OF invD(6) [OF i] h] s' by (intro mutexI) auto

text \<open>A step that changes no state keeps the invariant when it keeps the mutexes in order.\<close>

definition same_state :: "Writer \<Rightarrow> Writer \<Rightarrow> bool" where
  "same_state w w' \<longleftrightarrow> w_data w' = w_data w \<and> w_log_num w' = w_log_num w \<and> link_older w' = link_older w \<and> link_newer w' = link_newer w \<and>
     w_state w' = w_state w \<and> made_waitable w' = made_waitable w"

lemma inv_sync_step:
  assumes i: "gc_inv N D s P G" and w: "\<And>x. same_state (writers s x) (writers s' x)"
    and e: "newest_writer s' = newest_writer s" "log_free s' = log_free s" "logs s' = logs s" "stop s' = stop s" "write_groups s' = write_groups s"
    and a: "appointed s' = appointed s" "appointed_ok s'" "\<And>k. spc s' = S_taken k \<longleftrightarrow> spc s = S_taken k"
    and p: "\<And>x. cpc s' x = cpc s x \<or> cls s' x = cls s x \<and> rest s' x = rest s x \<and> synced s' x = synced s x \<and> local_ok N D s' x"
    and m: "\<And>x. mutex_at s' x"
  shows "gc_inv N D s' P G"
proof -
  have c: "cls s' x = cls s x" for x using p [of x] w [of x] by (auto simp: same_state_def a intro: cls_cong)
  have r: "rest s' x = rest s x" for x using p [of x] w [of x] c [of x] by (auto simp: same_state_def intro: rest_cong)
  have y: "synced s' x = synced s x" for x using p [of x] by (auto simp: synced_def c)
  have "lists_ok s' P G" by (rule lists_frame [OF invD(1) [OF i] e(1) _ _ r]) (use w c in \<open>auto simp: same_state_def\<close>)
  moreover have "local_ok N D s' x" for x
  proof (cases "cpc s' x = cpc s x")
    case True
    have sn: "seen s' h q = seen s h q" for h q using w [of h] by (simp add: seen_def same_state_def split: setter.split)
    show ?thesis using invD(2) [OF i, of x] w [of x] w unfolding local_ok_def True e(5) sn by (auto simp: same_state_def split: cpc.splits)
  qed (use p [of x] in blast)
  moreover have "logs_ok s'"
  proof -
    have h: "holder s' x = holder s x" for x by (simp add: holder_def c)
    have n: "w_log_num (writers s' x) = w_log_num (writers s x)" for x using w [of x] by (simp add: same_state_def)
    show ?thesis using invD(4) [OF i] unfolding logs_ok_def h n e a(3) .
  qed
  moreover have "durable_ok s' G"
  proof -
    have d: "w_data (writers s' x) = w_data (writers s x)" "durable s' = durable s" for x using w [of x] by (auto simp: same_state_def durable_def e fun_eq_iff)
    show ?thesis using invD(5) [OF i] unfolding durable_ok_def d c y .
  qed
  ultimately show ?thesis using a(2) m by (simp add: gc_inv_def)
qed

lemma inv_complete:
  assumes i: "gc_inv N D s P G" and t: "cpc s t = Completing h tmp q" "q \<noteq> To_notify"
    and f: "\<And>w. same_state (w\<lparr>w_state := STATE_COMPLETED\<rparr>) (f w)" and p: "p = Finishing tmp \<or> p = Completing h tmp To_notify"
    and s': "s' = go t p (upd_writer h f s)" and m: "\<And>x. mutex_at s' x"
  shows "\<exists>G'. gc_inv N D s' P G'" "h \<noteq> t" "cls s h = Wait" "cls s' h = Done" "\<And>x. x \<noteq> t \<Longrightarrow> x \<noteq> h \<Longrightarrow> cls s' x = cls s x"
proof -
  note F = fin_facts [OF i disjI2 [OF t(1)]]
  note lists = invD(1) [OF i]
  note cm = completing_member [OF lists t]
  have fw: "w_state (f w) = STATE_COMPLETED" "link_older (f w) = link_older w" "w_data (f w) = w_data w" "w_log_num (f w) = w_log_num w"
    "link_newer (f w) = link_newer w" "made_waitable (f w) = made_waitable w" for w using f [of w] by (simp_all add: same_state_def)
  have l: "link_older (writers s h) = tmp" using invD(2) [OF i, of t] t by (auto simp: local_ok_def)
  let ?s = "go t p (upd_writer h f s)"
  show ht: "h \<noteq> t" and hw: "cls s h = Wait" using cm(2) F(1) by auto
  have ah: "appointed s \<noteq> Some h" using hw by (auto simp: cls_def)
  have pc: "waiting_pc (cpc s h)" using cls_pc(1) [OF i disjI1 [OF hw]] by simp
  have ct: "cls ?s t = Fin" using F(2) p by (auto simp: cls_simps)
  have ch: "cls ?s h = Done" using ah ht pc by (simp add: cls_simps fw)
  then show "cls s' h = Done" by (simp add: s')
  have co: "cls ?s x = cls s x" if "x \<noteq> t" "x \<noteq> h" for x by (rule cls_cong) (use that in simp_all)
  then show "cls s' x = cls s x" if "x \<noteq> t" "x \<noteq> h" for x using that by (simp add: s')
  have cw: "cls ?s x = Wait \<longleftrightarrow> cls s x = Wait \<and> x \<noteq> h" for x using ct ch co F(1) by (cases "x = t"; cases "x = h") auto
  have hold: "holder ?s x = holder s x" for x using ct ch co F(1) hw by (cases "x = t"; cases "x = h") (auto simp: holder_def)
  have sy: "synced ?s x = synced s x" for x using ct ch co F(1) hw ht pc p
    by (cases "x = t"; cases "x = h") (auto simp: synced_def t waiting_pc_def)
  have "chain (writers s) (Some h) (G t)" using lists t by (auto simp: lists_ok_def rest_def dest!: spec [of _ t])
  then obtain ys where ys: "G t = h # ys" "chain (writers s) tmp ys" using chain_SomeD l by blast
  have rh: "rest s h = None" "rest ?s h = None" using hw ch pc ht by (auto simp: rest_def waiting_pc_def split: cpc.splits)
  have ro: "rest ?s x = (if x = t then tmp else rest s x)" for x
  proof (cases "x = t \<or> x = h")
    case True
    moreover have "rest ?s t = tmp" using p by (auto simp: rest_def)
    ultimately show ?thesis using rh ht by metis
  next
    case False
    then show ?thesis by (simp, intro rest_cong) (simp_all add: co)
  qed
  have cc: "chain (writers ?s) p xs = chain (writers s) p xs" for p xs by (rule prev_chain_cong) (simp add: fw)
  define G' where "G' = G(t := ys)"
  have sub: "set (G' j) = set (G j) - {h}" for j unfolding G'_def by (rule lists_pop(2) [OF lists ys cc _ ro cw]) simp
  have "lists_ok ?s P G'" unfolding G'_def by (rule lists_pop(1) [OF lists ys cc _ ro cw]) simp
  moreover have "local_ok N D ?s x" for x
  proof -
    have "h' \<noteq> h" if "cpc s x = Completing h' tmp' q'" "q' \<noteq> To_notify" "x \<noteq> t" for h' tmp' q'
      using completing_member(1) [OF lists that(1,2)] cm(1) lists that(3) unfolding lists_ok_def by blast
    then show ?thesis using invD(2) [OF i, of x] t pc ht p
      by (cases "x = t"; cases "x = h"; cases "cpc s x") (auto simp: local_ok_def seen_def waiting_pc_def fw split: setter.splits)
  qed
  moreover have "appointed_ok ?s"
    using invD(3) [OF i] t ah p by (auto simp: appointed_ok_def seen_def waiting_pc_def appointed_def split: spc.splits setter.splits)
  moreover have "logs_ok ?s"
    using invD(4) [OF i] by (rule logs_frame) (use invD(4) [OF i] in \<open>auto simp: hold logs_ok_def fw\<close>)
  moreover have "durable_ok ?s G'"
  proof -
    have d: "w_data (writers ?s x) = w_data (writers s x)" "durable ?s = durable s" for x by (auto simp: durable_def fun_eq_iff fw)
    have "durable s (w_data (writers s h))" using invD(5) [OF i] F(3) cm(1) unfolding durable_ok_def by blast
    then have "durable s (w_data (writers s x))" if "cls ?s x = Done \<or> synced ?s x" for x
      using that co [of x] invD(5) [OF i] F(3) unfolding durable_ok_def sy by (cases "x = h"; cases "x = t") auto
    moreover have "durable s (w_data (writers s x))" if "synced s j" "x \<in> set (G' j)" for j x
      using that invD(5) [OF i] unfolding durable_ok_def sub by blast
    ultimately show ?thesis unfolding durable_ok_def d sy by blast
  qed
  ultimately have "gc_inv N D ?s P G'" using m by (simp add: gc_inv_def s')
  then show "\<exists>G'. gc_inv N D s' P G'" unfolding s' by blast
qed

text \<open>The steps of \<open>FinishGroup\<close> in \<open>SetState\<close>: the state is waiting, the state is set, or the thread of the writer is notified.\<close>

lemma notifier_client:
  "notifier (go t p s) me x \<longleftrightarrow> (if me = By_client t then notifies p = Some x else notifier s me x)"
  "notifier (upd_writer h f s) me x = notifier s me x"
  by (auto simp: notifier_alt split: owner.splits)

lemma notifier_go: "notifies (cpc s t) \<noteq> Some x \<Longrightarrow> notifies p \<noteq> Some x \<Longrightarrow> notifier (go t p (upd_writer h f s)) me x = notifier s me x"
  unfolding notifier_client by (auto simp: notifier_alt)

lemma inv_finish_locked:
  assumes i: "gc_inv N D s P G" and t: "cpc s t = Completing h tmp (To_exchange st)" and l: "w_state (writers s h) \<noteq> STATE_INIT"
  shows "gc_inv N D (go t (Completing h tmp To_lock) s) P G" "\<And>x. cls (go t (Completing h tmp To_lock) s) x = cls s x"
proof -
  let ?s = "go t (Completing h tmp To_lock) s"
  note F = fin_facts [OF i disjI2 [OF t]]
  have w: "cls s h = Wait" using completing_member(2) [OF invD(1) [OF i] t] by simp
  have q: "link_older (writers s h) = tmp" "seen s h (To_exchange st)" using invD(2) [OF i, of t] t by (auto simp: local_ok_def)
  have sl: "seen s h To_lock" by (rule SetState_exchange_ok(2) [OF i disjI1 [OF w] q(2) l])
  have ct: "cls ?s t = Fin" using F(2) by (simp add: cls_simps)
  show c: "cls ?s x = cls s x" for x using ct F(1) by (cases "x = t") (simp, intro cls_cong, simp_all)
  have lo: "local_ok N D ?s t" using invD(2) [OF i, of t] t q(1) sl by (simp add: local_ok_def seen_def)
  have mx: "mutex_at ?s t" by (rule mutex_plain_step [OF i only_thread_go(2)]) (simp_all add: t notifies_def)
  have D: "durable s (w_data (writers s t))" using invD(5) [OF i] F(3) by (simp add: durable_ok_def)
  show "gc_inv N D ?s P G"
    by (rule inv_local_step [OF i only_thread_go(2)])
      (use t F lo mx c D in \<open>auto simp: rest_def holder_def synced_def notifies_def\<close>)
qed

lemma inv_finish_state:
  assumes i: "gc_inv N D s P G" and t: "cpc s t = Completing h tmp q" "q \<noteq> To_notify"
    and u: "p = Finishing tmp \<and> w_state (writers s h) = STATE_INIT \<and> f = (\<lambda>x. x\<lparr>w_state := STATE_COMPLETED\<rparr>) \<or>
      p = Completing h tmp To_notify \<and> seen s h To_lock \<and> state_mutex (writers s h) = None \<and> f = (\<lambda>x. x\<lparr>state_mutex := Some (By_client t), w_state := STATE_COMPLETED\<rparr>)"
    and s': "s' = go t p (upd_writer h f s)"
  shows "\<exists>G'. gc_inv N D s' P G'" "h \<noteq> t" "cls s h = Wait" "cls s' h = Done" "\<And>x. x \<noteq> t \<Longrightarrow> x \<noteq> h \<Longrightarrow> cls s' x = cls s x"
proof -
  have w: "cls s h = Wait" by (rule completing_member(2) [OF invD(1) [OF i] t])
  have ht: "h \<noteq> t" using w fin_facts(1) [OF i disjI2 [OF t(1)]] by auto
  have np: "notifies (cpc s t) = None" using t by (simp add: notifies_def)
  have at: "mutex_at s' h"
  proof (cases "p = Finishing tmp")
    case True
    have n: "notifier s' me h = notifier s me h" for me unfolding s' by (rule notifier_go) (use np True in \<open>simp_all add: notifies_def\<close>)
    show ?thesis by (rule mutex_exchanged [OF i disjI1 [OF w]]) (use u True ht n in \<open>simp_all add: s'\<close>)
  next
    case False
    then have v: "p = Completing h tmp To_notify" "seen s h To_lock" "state_mutex (writers s h) = None"
      "f = (\<lambda>x. x\<lparr>state_mutex := Some (By_client t), w_state := STATE_COMPLETED\<rparr>)" using u by blast+
    have "\<not> notifier s me h" for me using mutexD(1) [OF invD(6) [OF i], of me h] v(3) by auto
    then have "notifier s' me h \<longleftrightarrow> me = By_client t" for me by (simp add: s' v(1) notifier_client notifies_def)
    then show ?thesis by (rule mutex_stored [OF i disjI1 [OF w] v(2,3)]) (use ht in \<open>simp_all add: s' v(4) goal_def\<close>)
  qed
  have m: "mutex_at s' x" for x
  proof (rule mutex_others [OF invD(6) [OF i] _ _ _ at])
    show "notifier s' me x = notifier s me x" if "x \<noteq> h" for x me
      unfolding s' by (rule notifier_go) (use np u that in \<open>auto simp: notifies_def [of p]\<close>)
    show "cpc s' x = cpc s x \<or> cpc s x \<notin> {Locking, Checking, Blocked} \<and> cpc s' x \<notin> {Checking, Blocked}" for x
      using u t(1) by (cases "x = t") (auto simp: s')
  qed (simp add: s')
  have f: "same_state (w\<lparr>w_state := STATE_COMPLETED\<rparr>) (f w)" for w using u by (auto simp: same_state_def)
  have p: "p = Finishing tmp \<or> p = Completing h tmp To_notify" using u by blast
  show "\<exists>G'. gc_inv N D s' P G'" "h \<noteq> t" "cls s h = Wait" "cls s' h = Done" "\<And>x. x \<noteq> t \<Longrightarrow> x \<noteq> h \<Longrightarrow> cls s' x = cls s x"
    by (rule inv_complete [OF i t f p s' m]; assumption)+
qed

lemma inv_finish_notify:
  assumes i: "gc_inv N D s P G" and t: "cpc s t = Completing h tmp To_notify"
    and s': "s' = go t (Finishing tmp) (upd_writer h (\<lambda>x. x\<lparr>cv_waiting := False, state_mutex := None\<rparr>) s)"
  shows "gc_inv N D s' P G" "\<And>x. cls s' x = cls s x"
proof -
  note F = fin_facts [OF i disjI2 [OF t]]
  have n: "notifier s (By_client t) h" using t by (simp add: notifier_def)
  have ht: "h \<noteq> t" using mutexD(1) [OF invD(6) [OF i] n] t by auto
  have ct: "cls s' t = Fin" using F(2) by (simp add: cls_simps s')
  show c: "cls s' x = cls s x" for x using ct F(1) by (cases "x = t") (simp, intro cls_cong, simp_all add: s')
  have un: "\<not> notifier s' me h" for me
  proof
    assume "notifier s' me h"
    then have "me \<noteq> By_client t" "notifier s me h" by (auto simp: s' notifier_client notifies_def split: if_splits)
    then show False using notifier_unique [OF i] n by blast
  qed
  have at: "mutex_at s' h" by (rule mutex_notified [OF i n un]) (simp_all add: s' ht)
  have m: "mutex_at s' x" for x
  proof (rule mutex_others [OF invD(6) [OF i] _ _ _ at])
    show "notifier s' me x = notifier s me x" if "x \<noteq> h" for x me
      unfolding s' by (rule notifier_go) (use t that in \<open>simp_all add: notifies_def\<close>)
    show "cpc s' x = cpc s x \<or> cpc s x \<notin> {Locking, Checking, Blocked} \<and> cpc s' x \<notin> {Checking, Blocked}" for x
      using t by (cases "x = t") (simp_all add: s')
  qed (simp add: s')
  have "local_ok N D s' t" using invD(2) [OF i, of t] t ht by (simp add: local_ok_def s')
  moreover have "rest s' t = rest s t" using t by (simp add: rest_def s')
  moreover have "synced s' t = synced s t" using t by (simp add: synced_def c, simp add: s')
  ultimately have p: "cpc s' x = cpc s x \<or> cls s' x = cls s x \<and> rest s' x = rest s x \<and> synced s' x = synced s x \<and> local_ok N D s' x" for x
    using c by (cases "x = t") (auto simp: s')
  show "gc_inv N D s' P G"
    by (rule inv_sync_step [OF i _ _ _ _ _ _ _ _ _ p m])
      (use invD(3) [OF i] t in \<open>auto simp: s' same_state_def appointed_ok_def seen_def waiting_pc_def split: spc.splits setter.splits\<close>)
qed

definition setter_moves :: "server \<Rightarrow> server \<Rightarrow> nat \<Rightarrow> nat \<Rightarrow> nat option \<Rightarrow> setter \<Rightarrow> cpc \<Rightarrow> bool" where
  "setter_moves s s' t h tmp q p \<longleftrightarrow>
     (\<exists>st. q = To_exchange st) \<and> p = Completing h tmp To_lock \<and> (\<forall>x. cls s' x = cls s x) \<or>
     q \<noteq> To_notify \<and> (p = Finishing tmp \<or> p = Completing h tmp To_notify) \<and> h \<noteq> t \<and> cls s h = Wait \<and> cls s' h = Done \<and>
       (\<forall>x. x \<noteq> t \<longrightarrow> x \<noteq> h \<longrightarrow> cls s' x = cls s x) \<or>
     q = To_notify \<and> p = Finishing tmp \<and> (\<forall>x. cls s' x = cls s x)"

lemma inv_finish_set:
  assumes i: "gc_inv N D s P G" and t: "cpc s t = Completing h tmp q" and r: "FinishGroup_set t h tmp q s = Some r"
  shows "\<exists>s' G' p. r = Inr s' \<and> gc_inv N D s' P G' \<and> cpc s' = (cpc s)(t := p) \<and> setter_moves s s' t h tmp q p \<and> newest_writer s' = newest_writer s \<and>
    log_free s' = log_free s \<and> logs s' = logs s \<and> spc s' = spc s \<and> stop s' = stop s"
proof (cases q)
  case (To_exchange st)
  note t' = t [unfolded To_exchange]
  have w: "cls s h = Wait" using completing_member(2) [OF invD(1) [OF i] t'] by simp
  have q: "seen s h (To_exchange st)" using invD(2) [OF i, of t] t' by (auto simp: local_ok_def)
  note e = SetState_exchange_ok(1) [OF i disjI1 [OF w] q, of STATE_COMPLETED]
  show ?thesis
  proof (cases "w_state (writers s h) = STATE_INIT")
    case True
    define s' where "s' = go t (Finishing tmp) (upd_writer h (\<lambda>x. x\<lparr>w_state := STATE_COMPLETED\<rparr>) s)"
    have "r = Inr s'" using r e True by (simp add: FinishGroup_set_def SetState_step_def To_exchange s'_def)
    moreover note inv_finish_state [OF i t' _ _ s'_def]
    ultimately show ?thesis using True
      by (intro exI [of _ s']) (auto simp: setter_moves_def To_exchange, auto simp: s'_def)
  next
    case False
    define s' where "s' = go t (Completing h tmp To_lock) s"
    have "r = Inr s'" using r e False by (simp add: FinishGroup_set_def SetState_step_def To_exchange s'_def)
    moreover note inv_finish_locked [OF i t' False, folded s'_def]
    ultimately show ?thesis by (intro exI [of _ s'] exI [of _ G]) (auto simp: setter_moves_def To_exchange, auto simp: s'_def)
  qed
next
  case To_lock
  note t' = t [unfolded To_lock]
  have w: "cls s h = Wait" using completing_member(2) [OF invD(1) [OF i] t'] by simp
  have q: "seen s h To_lock" using invD(2) [OF i, of t] t' by (auto simp: local_ok_def)
  define s' where "s' = go t (Completing h tmp To_notify) (upd_writer h (\<lambda>x. x\<lparr>state_mutex := Some (By_client t), w_state := STATE_COMPLETED\<rparr>) s)"
  have e: "state_mutex (writers s h) = None" "r = Inr s'"
    using r SetState_store_ok [OF i disjI1 [OF w] q, of STATE_COMPLETED "By_client t"]
    by (auto simp: FinishGroup_set_def SetState_step_def To_lock s'_def goal_def split: if_splits)
  moreover note inv_finish_state [OF i t' _ _ s'_def]
  ultimately show ?thesis using q
    by (intro exI [of _ s']) (auto simp: setter_moves_def To_lock, auto simp: s'_def)
next
  case To_notify
  note t' = t [unfolded To_notify]
  define s' where "s' = go t (Finishing tmp) (upd_writer h (\<lambda>x. x\<lparr>cv_waiting := False, state_mutex := None\<rparr>) s)"
  have "notifier s (By_client t) h" using t' by (simp add: notifier_def)
  then have "r = Inr s'" using r SetState_notify_ok [OF i] by (simp add: FinishGroup_set_def SetState_step_def To_notify s'_def)
  moreover note inv_finish_notify [OF i t' s'_def]
  ultimately show ?thesis by (intro exI [of _ s'] exI [of _ G]) (auto simp: setter_moves_def To_notify, auto simp: s'_def)
qed

section \<open>The server thread\<close>

definition setting :: "server \<Rightarrow> bool" where
  "setting s \<longleftrightarrow> (case spc s of S_set _ _ \<Rightarrow> True | _ \<Rightarrow> False)"

lemma not_setting: "\<not> setting s \<Longrightarrow> appointed s = None \<and> \<not> notifier s By_server h"
  by (auto simp: setting_def appointed_def notifier_def split: spc.splits)

lemma inv_server_move:
  assumes i: "gc_inv N D s P G" and s': "s' = s\<lparr>log_free := lf, spc := p\<rparr>" and st: "\<not> setting s" "\<not> setting s'"
    and p: "p = S_stopped \<Longrightarrow> stop s" and l: "logs_ok s'"
  shows "gc_inv N D s' P G"
proof -
  have a: "appointed s = None" "appointed s' = None" using not_setting st by blast+
  have n: "notifier s' me h = notifier s me h" for me h
    using not_setting [OF st(1), of h] not_setting [OF st(2), of h] by (cases me) (auto simp: notifier_def s')
  have "mutex_at s' x = mutex_at s x" for x by (intro mutex_cong n) (simp_all add: s')
  then have m: "mutex_at s' x" for x using invD(6) [OF i] by simp
  have c: "cls s' x = cls s x" for x by (rule cls_cong) (simp_all add: a, simp_all add: s')
  have r: "rest s' x = rest s x" for x by (rule rest_cong) (simp_all add: c, simp_all add: s')
  have "lists_ok s' P G" by (rule lists_frame [OF invD(1) [OF i]]) (simp_all add: c r, simp_all add: s')
  moreover have "local_ok N D s' x" for x using invD(2) [OF i, of x] by (cases "cpc s x") (simp_all add: local_ok_def s' seen_def split: setter.splits)
  moreover have "appointed_ok s'" using st(2) p by (auto simp: appointed_ok_def setting_def s' split: spc.splits)
  moreover have "durable_ok s' G" using invD(5) [OF i] unfolding durable_ok_def synced_def c durable_def by (simp add: s')
  ultimately show ?thesis using l m by (simp add: gc_inv_def)
qed

lemma holder_move: "appointed s = None \<Longrightarrow> appointed s' = None \<Longrightarrow> cpc s' = cpc s \<Longrightarrow> writers s' = writers s \<Longrightarrow> holder s' x = holder s x"
  unfolding holder_def using cls_cong [of s' x s] by simp

lemma logs_move:
  assumes i: "gc_inv N D s P G" and st: "\<not> setting s" "\<forall>l q. p \<noteq> S_set l q" and p: "\<forall>k. spc s \<noteq> S_taken k" "\<forall>k. p \<noteq> S_taken k"
  shows "logs_ok (s\<lparr>spc := p\<rparr>)" "\<not> setting (s\<lparr>spc := p\<rparr>)"
proof -
  show n': "\<not> setting (s\<lparr>spc := p\<rparr>)" using st(2) by (auto simp: setting_def split: spc.splits)
  have a: "appointed s = None" and n: "appointed (s\<lparr>spc := p\<rparr>) = None" using not_setting st(1) n' by blast+
  have h: "holder (s\<lparr>spc := p\<rparr>) x = holder s x" for x by (rule holder_move [OF _ n]) (simp_all add: a)
  show "logs_ok (s\<lparr>spc := p\<rparr>)" using invD(4) [OF i] p unfolding logs_ok_def h by simp
qed

lemma inv_pick:
  assumes i: "gc_inv N D s P G" and p: "spc s = S_pick k"
  shows "gc_inv N D (GetLeader_step k alt s) P G"
proof -
  have a: "\<not> setting s" "appointed s = None" by (simp_all add: setting_def appointed_def p)
  have u: "s\<lparr>spc := q\<rparr> = s\<lparr>log_free := log_free s, spc := q\<rparr>" for q by simp
  show ?thesis
  proof (cases "k < length (log_free s) \<and> \<not> alt \<and> \<not> log_free s ! k")
    case False
    then have "GetLeader_step k alt s = s\<lparr>spc := S_pick (k + 1)\<rparr> \<or> GetLeader_step k alt s = s\<lparr>spc := S_end\<rparr>" by (auto simp: GetLeader_step_def)
    moreover have "gc_inv N D (s\<lparr>spc := q\<rparr>) P G" if "q = S_pick (k + 1) \<or> q = S_end" for q
      by (rule inv_server_move [OF i u a(1)]) (use logs_move [OF i a(1), of q] that p in auto)
    ultimately show ?thesis by auto
  next
    case True
    let ?s = "s\<lparr>log_free := (log_free s)[k := True], spc := S_taken k\<rparr>"
    have e: "GetLeader_step k alt s = ?s" using True by (simp add: GetLeader_step_def)
    have n: "appointed ?s = None" "\<not> setting ?s" by (simp_all add: appointed_def setting_def)
    have h: "holder ?s x = holder s x" for x by (rule holder_move [OF _ n(1)]) (simp_all add: a)
    note O = invD(4) [OF i, unfolded logs_ok_def]
    have nk: "w_log_num (writers s x) \<noteq> int k" if x: "holder s x" for x
    proof -
      obtain j where "w_log_num (writers s x) = int j" "log_free s ! j" using O x by blast
      then show ?thesis using True by auto
    qed
    have "\<exists>j < length (log_free ?s). w_log_num (writers s x) = int j \<and> log_free ?s ! j" if x: "holder s x" for x
    proof -
      obtain j where "j < length (log_free s)" "w_log_num (writers s x) = int j" "log_free s ! j" using O x by blast
      then show ?thesis by (intro exI [of _ j], cases "j = k") simp_all
    qed
    moreover have "j = k \<or> (\<exists>x. holder s x \<and> w_log_num (writers s x) = int j)" if "j < length (log_free s)" "(log_free s)[k := True] ! j" for j
      using O p that by (cases "j = k") auto
    ultimately have "logs_ok ?s" using O nk True unfolding logs_ok_def h by auto
    then show ?thesis unfolding e using inv_server_move [OF i refl a(1) n(2)] by blast
  qed
qed

lemma inv_exchange_None:
  assumes i: "gc_inv N D s P G" and p: "spc s = S_taken k" and n: "newest_writer s = None"
  shows "\<exists>s'. Server_exchange k s = Inr s' \<and> gc_inv N D s' P G \<and> s' = s\<lparr>log_free := (log_free s)[k := False], spc := S_end\<rparr>"
proof -
  let ?s = "s\<lparr>log_free := (log_free s)[k := False], spc := S_end\<rparr>"
  have a: "appointed s = None" "appointed ?s = None" "\<not> setting s" "\<not> setting ?s" by (simp_all add: appointed_def p setting_def)
  have e: "Server_exchange k s = Inr ?s" using n by (simp add: Server_exchange_def Let_def)
  have h: "holder ?s x = holder s x" for x by (rule holder_move [OF a(1,2)]) simp_all
  note O = invD(4) [OF i, unfolded logs_ok_def]
  have nk: "w_log_num (writers s x) \<noteq> int k" if "holder s x" for x using O that p by blast
  have "\<exists>j < length (log_free ?s). w_log_num (writers s x) = int j \<and> log_free ?s ! j" if x: "holder s x" for x
  proof -
    obtain j where j: "j < length (log_free s)" "w_log_num (writers s x) = int j" "log_free s ! j" using O x by blast
    then have "j \<noteq> k" using nk [OF x] by auto
    then show ?thesis using j by (intro exI [of _ j]) simp
  qed
  moreover have "\<exists>x. holder s x \<and> w_log_num (writers s x) = int j" if "j < length (log_free s)" "(log_free s)[k := False] ! j" for j
    using O p that by (cases "j = k") auto
  ultimately have "logs_ok ?s" using O unfolding logs_ok_def h by auto
  then have "gc_inv N D ?s P G" using inv_server_move [OF i refl a(3,4)] by blast
  then show ?thesis using e by blast
qed

lemma inv_exchange_Some:
  assumes i: "gc_inv N D s P G" and p: "spc s = S_taken k" and n: "newest_writer s = Some l"
  shows "\<exists>s' P' G'. Server_exchange k s = Inr s' \<and> gc_inv N D s' P' G' \<and> newest_writer s' = None \<and> cpc s' = cpc s \<and>
    spc s' = S_set l (To_exchange (w_state (writers s l))) \<and> writers s' = (writers s)(l := (writers s l)\<lparr>w_log_num := int k\<rparr>) \<and>
    log_free s' = log_free s \<and> logs s' = logs s \<and> stop s' = stop s \<and> cls s l = Wait"
proof -
  note lists = invD(1) [OF i]
  have a: "appointed s = None" by (simp add: appointed_def p)
  have "chain (writers s) (Some l) P" using lists n by (simp add: lists_ok_def)
  then obtain ys where ys: "P = l # ys" "chain (writers s) (link_older (writers s l)) ys" using chain_SomeD by blast
  have w: "cls s l = Wait" using lists_memberD [OF lists, of l] ys(1) by auto
  have pc: "waiting_pc (cpc s l)" and st: "w_state (writers s l) = STATE_INIT \<or> w_state (writers s l) = STATE_LOCKED_WAITING"
    using cls_pc(1) [OF i disjI1 [OF w]] by auto
  let ?s = "(upd_writer l (\<lambda>w. w\<lparr>w_log_num := int k\<rparr>) (s\<lparr>newest_writer := None\<rparr>))\<lparr>spc := S_set l (To_exchange (w_state (writers s l)))\<rparr>"
  have "valid l s" using waiting_valid [OF i w] .
  then have "valid l (s\<lparr>newest_writer := None\<rparr>)" by (simp add: valid_def)
  then have e: "Server_exchange k s = Inr ?s" using n st by (auto simp: Server_exchange_def SetState_load_def Let_def)
  have al: "appointed ?s = Some l" by (simp add: appointed_def)
  have cl: "cls ?s l = Appointed" by (simp add: cls_def al)
  have co: "cls ?s x = cls s x" if "x \<noteq> l" for x by (rule cls_cong) (use that in \<open>simp_all add: a al\<close>)
  have cw: "cls ?s x = Wait \<longleftrightarrow> cls s x = Wait \<and> x \<noteq> l" "cls ?s x = Done \<longleftrightarrow> cls s x = Done" for x
    using cl co w by (cases "x = l"; auto)+
  have h: "holder ?s x \<longleftrightarrow> x = l \<or> holder s x" for x using cl co by (cases "x = l") (simp_all add: holder_def)
  have hl: "\<not> holder s l" using w by (simp add: holder_def)
  have sy: "synced ?s x = synced s x" for x using cl co [of x] w pc by (cases "x = l") (auto simp: synced_def waiting_pc_def)
  have ro: "rest ?s x = rest s x" if "x \<noteq> l" for x by (rule rest_cong) (use that co in simp_all)
  have rl: "rest ?s l = link_older (writers s l)" using pc by (auto simp: rest_def cl waiting_pc_def split: cpc.splits)
  define G' where "G' = G(l := ys)"
  have "rest s l = None" using pc w by (auto simp: rest_def waiting_pc_def split: cpc.splits)
  then have Gl: "G l = []" using lists unfolding lists_ok_def by (metis chain_None)
  have cc: "chain (writers ?s) q xs = chain (writers s) q xs" for q xs by (rule prev_chain_cong) simp
  have "lists_ok ?s [] G'" unfolding G'_def
    by (rule lists_take [OF lists [unfolded ys(1)] Gl ys(2) cc]) (use ro rl cw in simp_all)
  moreover have "local_ok N D ?s x" for x
    using invD(2) [OF i, of x] by (cases "cpc s x") (auto simp: local_ok_def seen_def split: setter.splits)
  moreover have "appointed_ok ?s" using st pc by (auto simp: appointed_ok_def seen_def)
  moreover have "mutex_at ?s x" for x
  proof -
    have n: "notifier ?s me h = notifier s me h" for me h by (auto simp: notifier_def p split: owner.split)
    have "mutex_at ?s x = mutex_at s x" by (intro mutex_cong n) simp_all
    then show ?thesis using invD(6) [OF i] by simp
  qed
  moreover have "logs_ok ?s" by (rule logs_appoint [OF invD(4) [OF i] p, where l = l]) (use hl in \<open>simp_all add: h\<close>)
  moreover have "durable_ok ?s G'"
  proof -
    have d: "w_data (writers ?s x) = w_data (writers s x)" "durable ?s = durable s" for x by (auto simp: durable_def fun_eq_iff)
    have "\<not> synced s l" using w pc by (auto simp: synced_def waiting_pc_def)
    then show ?thesis using invD(5) [OF i] unfolding durable_ok_def d sy cw by (auto simp: G'_def)
  qed
  ultimately have "gc_inv N D ?s [] G'" by (simp add: gc_inv_def)
  then show ?thesis using e w by (intro exI [of _ ?s] exI [of _ "[]"] exI [of _ G']) simp
qed

text \<open>The steps of the server in \<open>SetState\<close>.\<close>

lemma notifier_server:
  "notifier ((upd_writer h f s)\<lparr>spc := p\<rparr>) me x \<longleftrightarrow> (if me = By_server then p = S_set x To_notify else notifier s me x)"
  by (auto simp: notifier_def split: owner.split)

lemma inv_set_state:
  assumes i: "gc_inv N D s P G" and p: "spc s = S_set l q" "q \<noteq> To_notify"
    and u: "p = S_end \<and> w_state (writers s l) = STATE_INIT \<and> f = (\<lambda>x. x\<lparr>w_state := STATE_GROUP_LEADER\<rparr>) \<or>
      p = S_set l To_notify \<and> seen s l To_lock \<and> state_mutex (writers s l) = None \<and> f = (\<lambda>x. x\<lparr>state_mutex := Some By_server, w_state := STATE_GROUP_LEADER\<rparr>)"
    and s': "s' = (upd_writer l f s)\<lparr>spc := p\<rparr>"
  shows "gc_inv N D s' P G" "cls s l = Appointed" "cls s' l = Lead" "\<And>x. x \<noteq> l \<Longrightarrow> cls s' x = cls s x"
proof -
  have fw: "w_state (f w) = STATE_GROUP_LEADER" "link_older (f w) = link_older w" "w_data (f w) = w_data w" "w_log_num (f w) = w_log_num w"
    "link_newer (f w) = link_newer w" "made_waitable (f w) = made_waitable w" for w using u by auto
  have a: "appointed s = Some l" using p by (simp add: appointed_def)
  show w: "cls s l = Appointed" by (simp add: cls_def a)
  have pc: "waiting_pc (cpc s l)" using invD(3) [OF i] p by (auto simp: appointed_ok_def)
  let ?s = "(upd_writer l f s)\<lparr>spc := p\<rparr>"
  have al: "appointed ?s = None" using u by (auto simp: appointed_def)
  have cl: "cls ?s l = Lead" using pc al by (simp add: cls_simps(6) fw)
  then show "cls s' l = Lead" by (simp add: s')
  have co: "cls ?s x = cls s x" if "x \<noteq> l" for x by (rule cls_cong) (use that in \<open>simp_all add: a al\<close>)
  then show "cls s' x = cls s x" if "x \<noteq> l" for x using that by (simp add: s')
  have cw: "cls ?s x = Wait \<longleftrightarrow> cls s x = Wait" "cls ?s x = Done \<longleftrightarrow> cls s x = Done" for x using cl co w by (cases "x = l"; auto)+
  have h: "holder ?s x = holder s x" for x using cl co w by (cases "x = l") (simp_all add: holder_def)
  have sy: "synced ?s x = synced s x" for x using cl co [of x] w by (cases "x = l") (auto simp: synced_def)
  have "rest ?s l = rest s l" using pc by (auto simp: rest_def cl w waiting_pc_def fw split: cpc.splits)
  then have r: "rest ?s x = rest s x" for x using co [of x] by (cases "x = l") (simp, intro rest_cong, simp_all)
  have ls: "lists_ok ?s P G" by (rule lists_frame [OF invD(1) [OF i]]) (simp_all add: cw r fw)
  have "local_ok N D ?s x" for x
  proof -
    have "h \<noteq> l" if "cpc s x = Completing h tmp q" "q \<noteq> To_notify" for h tmp q using completing_member(2) [OF invD(1) [OF i] that] w by auto
    then show ?thesis using invD(2) [OF i, of x] pc
      by (cases "x = l"; cases "cpc s x") (auto simp: local_ok_def seen_def waiting_pc_def fw split: setter.splits)
  qed
  moreover have "appointed_ok ?s" using u by (auto simp: appointed_ok_def)
  moreover have "logs_ok ?s"
  proof -
    have n: "w_log_num (writers ?s x) = w_log_num (writers s x)" "log_free ?s = log_free s" "logs ?s = logs s" "spc ?s \<noteq> S_taken k" "spc s \<noteq> S_taken k" for x k
      using u by (auto simp: p fw)
    show ?thesis using invD(4) [OF i] unfolding logs_ok_def h n(1-3) using n(4,5) by blast
  qed
  moreover have "durable_ok ?s G"
  proof -
    have d: "w_data (writers ?s x) = w_data (writers s x)" "durable ?s = durable s" for x by (auto simp: durable_def fun_eq_iff fw)
    show ?thesis using invD(5) [OF i] unfolding durable_ok_def d sy cw .
  qed
  moreover have "mutex_at ?s x" for x
  proof (rule mutex_others [OF invD(6) [OF i]])
    show "notifier ?s me x = notifier s me x" if "x \<noteq> l" for x me
      using that p u unfolding notifier_server by (auto simp: notifier_def split: owner.split)
    have o: "cls s l = Wait \<or> cls s l = Appointed" using w ..
    show "mutex_at ?s l"
    proof (cases "p = S_end")
      case True
      show ?thesis
        by (rule mutex_exchanged [OF i o]) (use p u True in \<open>auto simp: notifier_def split: owner.splits\<close>)
    next
      case False
      then have v: "p = S_set l To_notify" "seen s l To_lock" "state_mutex (writers s l) = None"
        "f = (\<lambda>x. x\<lparr>state_mutex := Some By_server, w_state := STATE_GROUP_LEADER\<rparr>)" using u by blast+
      have "\<not> notifier s me l" for me using mutexD(1) [OF invD(6) [OF i], of me l] v(3) by auto
      then have "notifier ?s me l \<longleftrightarrow> me = By_server" for me unfolding notifier_server by (simp add: v(1))
      then show ?thesis by (rule mutex_stored [OF i o v(2,3)]) (simp_all add: v(4) goal_def)
    qed
  qed simp_all
  ultimately show "gc_inv N D s' P G" using ls by (simp add: gc_inv_def s')
qed

lemma inv_set_notify:
  assumes i: "gc_inv N D s P G" and p: "spc s = S_set l To_notify"
    and s': "s' = (upd_writer l (\<lambda>x. x\<lparr>cv_waiting := False, state_mutex := None\<rparr>) s)\<lparr>spc := S_end\<rparr>"
  shows "gc_inv N D s' P G" "\<And>x. cls s' x = cls s x"
proof -
  have n: "notifier s By_server l" using p by (simp add: notifier_def)
  have ap: "appointed s' = appointed s" by (simp add: appointed_def p s')
  show "cls s' x = cls s x" for x by (rule cls_cong) (simp add: ap, simp_all add: s')
  have un: "\<not> notifier s' me l" for me using notifier_unique [OF i n, of me] unfolding s' notifier_server by auto
  have at: "mutex_at s' l" by (rule mutex_notified [OF i n un]) (simp_all add: s')
  have m: "mutex_at s' x" for x
  proof (rule mutex_others [OF invD(6) [OF i] _ _ _ at])
    show "notifier s' me x = notifier s me x" if "x \<noteq> l" for x me using that p unfolding s' notifier_server by (auto simp: notifier_def)
  qed (simp_all add: s')
  show "gc_inv N D s' P G"
    by (rule inv_sync_step [OF i _ _ _ _ _ _ ap _ _ _ m]) (simp_all add: s' same_state_def appointed_ok_def p)
qed

lemma inv_set_locked:
  assumes i: "gc_inv N D s P G" and p: "spc s = S_set l (To_exchange st)" "w_state (writers s l) \<noteq> STATE_INIT" and s': "s' = s\<lparr>spc := S_set l To_lock\<rparr>"
  shows "gc_inv N D s' P G" "\<And>x. cls s' x = cls s x"
proof -
  have ap: "appointed s' = appointed s" by (simp add: appointed_def p s')
  show "cls s' x = cls s x" for x by (rule cls_cong) (simp add: ap, simp_all add: s')
  have n: "notifier s' me h = notifier s me h" for me h by (auto simp: notifier_def p s' split: owner.split)
  have "mutex_at s' x = mutex_at s x" for x by (intro mutex_cong n) (simp_all add: s')
  then have m: "mutex_at s' x" for x using invD(6) [OF i] by simp
  have "appointed_ok s'" using invD(3) [OF i] p by (auto simp: appointed_ok_def s' seen_def)
  then show "gc_inv N D s' P G"
    by (intro inv_sync_step [OF i _ _ _ _ _ _ ap _ _ _ m]) (simp_all add: s' same_state_def p)
qed

definition server_sets :: "server \<Rightarrow> server \<Rightarrow> nat \<Rightarrow> setter \<Rightarrow> bool" where
  "server_sets s s' l q \<longleftrightarrow>
     (\<exists>st. q = To_exchange st) \<and> spc s' = S_set l To_lock \<and> (\<forall>x. cls s' x = cls s x) \<or>
     q \<noteq> To_notify \<and> (spc s' = S_end \<or> spc s' = S_set l To_notify) \<and> cls s l = Appointed \<and> cls s' l = Lead \<and> (\<forall>x. x \<noteq> l \<longrightarrow> cls s' x = cls s x) \<or>
     q = To_notify \<and> spc s' = S_end \<and> (\<forall>x. cls s' x = cls s x)"

lemma inv_set:
  assumes i: "gc_inv N D s P G" and p: "spc s = S_set l q" and r: "server_step alt s = Some r"
  shows "\<exists>s'. r = Inr s' \<and> gc_inv N D s' P G \<and> server_sets s s' l q \<and> newest_writer s' = newest_writer s \<and> cpc s' = cpc s \<and>
    log_free s' = log_free s \<and> logs s' = logs s \<and> stop s' = stop s"
proof (cases q)
  case (To_exchange st)
  note p' = p [unfolded To_exchange]
  have w: "cls s l = Wait \<or> cls s l = Appointed" using p' by (simp add: cls_def appointed_def)
  have q: "seen s l (To_exchange st)" using invD(3) [OF i] p' by (simp add: appointed_ok_def)
  note e = SetState_exchange_ok(1) [OF i w q, of STATE_GROUP_LEADER]
  show ?thesis
  proof (cases "w_state (writers s l) = STATE_INIT")
    case True
    define s' where "s' = (upd_writer l (\<lambda>x. x\<lparr>w_state := STATE_GROUP_LEADER\<rparr>) s)\<lparr>spc := S_end\<rparr>"
    have "r = Inr s'" using r e True by (simp add: server_step_def p' Server_set_def SetState_step_def s'_def)
    moreover note inv_set_state [OF i p' _ _ s'_def]
    ultimately show ?thesis using True by (intro exI [of _ s']) (auto simp: server_sets_def To_exchange, auto simp: s'_def)
  next
    case False
    define s' where "s' = s\<lparr>spc := S_set l To_lock\<rparr>"
    have "r = Inr s'" using r e False by (simp add: server_step_def p' Server_set_def SetState_step_def s'_def)
    moreover note inv_set_locked [OF i p' False s'_def]
    ultimately show ?thesis by (intro exI [of _ s']) (auto simp: server_sets_def To_exchange, auto simp: s'_def)
  qed
next
  case To_lock
  note p' = p [unfolded To_lock]
  have w: "cls s l = Wait \<or> cls s l = Appointed" using p' by (simp add: cls_def appointed_def)
  have q: "seen s l To_lock" using invD(3) [OF i] p' by (simp add: appointed_ok_def)
  define s' where "s' = (upd_writer l (\<lambda>x. x\<lparr>state_mutex := Some By_server, w_state := STATE_GROUP_LEADER\<rparr>) s)\<lparr>spc := S_set l To_notify\<rparr>"
  have e: "state_mutex (writers s l) = None" "r = Inr s'"
    using r SetState_store_ok [OF i w q, of STATE_GROUP_LEADER By_server]
    by (auto simp: server_step_def p' Server_set_def SetState_step_def s'_def goal_def split: if_splits)
  moreover note inv_set_state [OF i p' _ _ s'_def]
  ultimately show ?thesis using q by (intro exI [of _ s']) (auto simp: server_sets_def To_lock, auto simp: s'_def)
next
  case To_notify
  note p' = p [unfolded To_notify]
  define s' where "s' = (upd_writer l (\<lambda>x. x\<lparr>cv_waiting := False, state_mutex := None\<rparr>) s)\<lparr>spc := S_end\<rparr>"
  have "notifier s By_server l" using p' by (simp add: notifier_def)
  then have "r = Inr s'" using r SetState_notify_ok [OF i] by (simp add: server_step_def p' Server_set_def SetState_step_def s'_def)
  moreover note inv_set_notify [OF i p' s'_def]
  ultimately show ?thesis by (intro exI [of _ s']) (auto simp: server_sets_def To_notify, auto simp: s'_def)
qed


end
