(* ===== verification/Group_Commit_Run.thy ===== *)
theory Group_Commit_Run
  imports Group_Commit_Proofs
begin

text \<open>
  The theorems about the group commit: the states that the interleavings of the clients and the server reach satisfy the
  invariant, which gives safety and durability; and under a fair scheduler every call of \<open>AddLog\<close> returns. The
  measure \<open>total_work\<close> bounds the steps that are left; the steps that do not decrease it are those of clients that wait and of
  a server that looks for a log.
\<close>

section \<open>Reachable states\<close>

fun admitted :: "nat \<Rightarrow> nat \<Rightarrow> action \<Rightarrow> bool" where
  "admitted N D (Call t data) \<longleftrightarrow> t < N \<and> length data \<le> D"
| "admitted N D _ \<longleftrightarrow> True"

text \<open>States reached with \<open>num\<close> logs and \<open>N\<close> clients whose records have at most \<open>D\<close> bytes.\<close>

inductive reachable :: "nat \<Rightarrow> nat \<Rightarrow> nat \<Rightarrow> server \<Rightarrow> bool" for N D num where
  reach_init: "reachable N D num (LoggingServer_new num)"
| reach_step: "reachable N D num s \<Longrightarrow> admitted N D a \<Longrightarrow> lstep a s = Some (Inr s') \<Longrightarrow> reachable N D num s'"

lemma inv_stop: "gc_inv N D s P G \<Longrightarrow> gc_inv N D (s\<lparr>stop := True\<rparr>) P G"
proof -
  assume i: "gc_inv N D s P G"
  let ?s = "s\<lparr>stop := True\<rparr>"
  have c: "cls ?s x = cls s x" for x by (rule cls_cong) simp_all
  have r: "rest ?s x = rest s x" for x by (rule rest_cong) (simp_all add: c)
  have h: "holder ?s x = holder s x" "synced ?s x = synced s x" for x by (simp_all add: holder_def synced_def c)
  have n: "notifier ?s me x = notifier s me x" for me x by (simp add: notifier_def split: owner.split)
  have "mutex_at ?s x = mutex_at s x" for x by (intro mutex_cong n) simp_all
  then have m: "mutex_at ?s x" for x using invD(6) [OF i] by simp
  have "lists_ok ?s P G" by (rule lists_frame [OF invD(1) [OF i]]) (simp_all add: c r)
  moreover have "local_ok N D ?s x" for x using invD(2) [OF i, of x] by (cases "cpc s x") (simp_all add: local_ok_def seen_def split: setter.splits)
  moreover have "appointed_ok ?s" using invD(3) [OF i] by (auto simp: appointed_ok_def seen_def split: spc.splits setter.splits)
  moreover have "logs_ok ?s" by (rule logs_frame [OF invD(4) [OF i]]) (use invD(4) [OF i] in \<open>simp_all add: h logs_ok_def\<close>)
  moreover have "durable_ok ?s G" using invD(5) [OF i] unfolding durable_ok_def h c durable_def by simp
  ultimately show ?thesis using m by (simp add: gc_inv_def)
qed

text \<open>The two assertions that can fail: \<open>write\<close> did not write the whole buffer, or \<open>fdatasync\<close> failed.\<close>

definition device_failure :: "nat \<Rightarrow> choice \<Rightarrow> server \<Rightarrow> server result \<Rightarrow> bool" where
  "device_failure t alt s r \<longleftrightarrow>
     (\<exists>sz rc l. alt = Device sz rc \<and> cpc s t = Writing \<and> WriteToLog_loop (Some t) s (logs s ! nat (w_log_num (writers s t))) = Some (Inr l) \<and>
       (sz \<noteq> of_nat (length (lw_buffer l)) \<and> r = Inl (AssertFailed ''current_buffer_offset == sz'') \<or>
        sz = of_nat (length (lw_buffer l)) \<and> rc \<noteq> 0 \<and> r = Inl (AssertFailed ''rc == 0'')))"

definition safe_result :: "nat \<Rightarrow> nat \<Rightarrow> action \<Rightarrow> server \<Rightarrow> server result \<Rightarrow> bool" where
  "safe_result N D a s r \<longleftrightarrow>
     (\<exists>s' P G. r = Inr s' \<and> gc_inv N D s' P G \<and>
       (\<forall>t alt. a = Client t alt \<longrightarrow> cpc s' t = Outside \<longrightarrow> durable s' (w_data (writers s t)))) \<or>
     (\<exists>t alt. a = Client t alt \<and> device_failure t alt s r)"

lemma safe_resultI:
  "gc_inv N D s' P G \<Longrightarrow> (\<And>t alt. a = Client t alt \<Longrightarrow> cpc s' t = Outside \<Longrightarrow> durable s' (w_data (writers s t))) \<Longrightarrow> safe_result N D a s (Inr s')"
  by (auto simp: safe_result_def)

lemma only_thread_durable: "only_thread t s s' \<Longrightarrow> durable s' d = durable s d"
  by (simp add: only_thread_def durable_def)

lemma safe_client:
  assumes i: "gc_inv N D s P G" and b: "N * D < MAX_BUFFER_SIZE" and r: "client_step t alt s = Some r"
  shows "safe_result N D (Client t alt) s r"
proof (cases "cpc s t")
  case Outside
  then show ?thesis using r by (simp add: client_step_def)
next
  case (Linking e)
  then have e: "r = Inr (AddToLink_step t e (alt = Other) s)" using r by (simp add: client_step_def)
  show ?thesis
  proof (cases "alt \<noteq> Other \<and> newest_writer s = e")
    case True
    then show ?thesis unfolding e using inv_link [OF i, of t] Linking by (intro safe_resultI) (auto simp: AddToLink_step_def Let_def)
  next
    case False
    then have "AddToLink_step t e (alt = Other) s = go t (Linking (newest_writer s)) (upd_writer t (\<lambda>w. w\<lparr>link_older := e\<rparr>) s)"
      by (auto simp: AddToLink_step_def Let_def)
    then show ?thesis unfolding e using inv_link_retry [OF i Linking, of "newest_writer s"] by (intro safe_resultI) auto
  qed
next
  case Polling
  then show ?thesis using r inv_poll [OF i Polling, of "alt = Other"] only_thread_durable by (auto simp: client_step_def intro!: safe_resultI)
next
  case Created
  then show ?thesis using r inv_load [OF i Created] only_thread_durable by (auto simp: client_step_def intro!: safe_resultI)
next
  case (LongWait q)
  then show ?thesis using r inv_await_exchange [OF i LongWait] only_thread_durable by (auto simp: client_step_def intro!: safe_resultI)
next
  case Locking
  then show ?thesis using r inv_lock [OF i Locking, of r] by (auto simp: client_step_def intro!: safe_resultI)
next
  case Checking
  then show ?thesis using r inv_check [OF i Checking] only_thread_durable by (auto simp: client_step_def intro!: safe_resultI)
next
  case Blocked
  then show ?thesis using r inv_wake [OF i Blocked, of "alt = Other" r] by (auto simp: client_step_def intro!: safe_resultI)
next
  case Leading
  then show ?thesis using r inv_MakeGroup [OF i Leading] by (auto simp: client_step_def intro!: safe_resultI)
next
  case Writing
  define sz where "sz = write_result alt"
  define rc where "rc = fdatasync_result alt"
  have d: "\<exists>z c. alt = Device z c \<and> sz n = z \<and> rc = c \<or> sz n = of_nat n \<and> rc = 0" for n
    by (cases alt) (auto simp: sz_def rc_def write_result_def fdatasync_result_def)
  obtain l s' where w: "WriteToLog_loop (Some t) s (logs s ! nat (w_log_num (writers s t))) = Some (Inr l)"
      "WriteToLog t sz rc s = Some (if of_nat (length (lw_buffer l)) \<noteq> sz (length (lw_buffer l)) then Inl (AssertFailed ''current_buffer_offset == sz'')
        else if rc \<noteq> 0 then Inl (AssertFailed ''rc == 0'') else Inr s')" "gc_inv N D s' P G" "cpc s' = (cpc s)(t := Releasing)"
    using inv_WriteToLog [OF i Writing b, of sz rc] by auto
  have r': "WriteToLog t sz rc s = Some r" using r Writing by (simp add: client_step_def sz_def rc_def)
  show ?thesis
  proof (cases "of_nat (length (lw_buffer l)) = sz (length (lw_buffer l)) \<and> rc = 0")
    case True
    then show ?thesis using r' w by (auto intro!: safe_resultI)
  next
    case False
    then have "device_failure t alt s r" using r' w(1,2) d [of "length (lw_buffer l)"] Writing by (auto simp: device_failure_def split: if_splits)
    then show ?thesis by (simp add: safe_result_def)
  qed
next
  case Releasing
  then show ?thesis using r inv_release [OF i Releasing] by (auto simp: client_step_def intro!: safe_resultI)
next
  case (Finishing p)
  then show ?thesis using r inv_finish_next [OF i Finishing] only_thread_durable
    by (cases p) (auto simp: client_step_def intro!: safe_resultI)
next
  case (Completing h tmp q)
  then have "FinishGroup_set t h tmp q s = Some r" using r by (simp add: client_step_def)
  from inv_finish_set [OF i Completing this] show ?thesis by (auto simp: setter_moves_def intro!: safe_resultI)
qed

lemma safe_server:
  assumes i: "gc_inv N D s P G" and r: "server_step alt s = Some r"
  shows "\<exists>s' P' G'. r = Inr s' \<and> gc_inv N D s' P' G'"
proof -
  have u: "s\<lparr>spc := q\<rparr> = s\<lparr>log_free := log_free s, spc := q\<rparr>" for q by simp
  have m: "gc_inv N D (s\<lparr>spc := q\<rparr>) P G" if "spc s = S_loop \<or> spc s = S_end" "q \<in> {S_pick 0, S_end, S_loop} \<or> q = S_stopped \<and> stop s" for q
  proof -
    have a: "\<not> setting s" using that(1) by (auto simp: setting_def)
    show ?thesis by (rule inv_server_move [OF i u a]) (use logs_move [OF i a, of q] that in auto)
  qed
  show ?thesis
  proof (cases "spc s")
    case (S_pick k)
    then show ?thesis using r inv_pick [OF i S_pick] by (auto simp: server_step_def)
  next
    case (S_taken k)
    then show ?thesis using r inv_exchange_None [OF i S_taken] inv_exchange_Some [OF i S_taken]
      by (cases "newest_writer s") (auto simp: server_step_def)
  next
    case (S_set l q)
    then show ?thesis using inv_set [OF i S_set r] by auto
  next
    case S_stopped
    then show ?thesis using r by (simp add: server_step_def)
  next
    case S_loop
    then have "\<exists>s'. r = Inr s' \<and> gc_inv N D s' P G" using r m [of "S_pick 0"] m [of S_end] by (auto simp: server_step_def)
    then show ?thesis by blast
  next
    case S_end
    then have "\<exists>s'. r = Inr s' \<and> gc_inv N D s' P G" using r m [of S_loop] m [of S_stopped] by (auto simp: server_step_def)
    then show ?thesis by blast
  qed
qed

lemma safe_step:
  assumes i: "gc_inv N D s P G" and b: "N * D < MAX_BUFFER_SIZE" and a: "admitted N D a" and r: "lstep a s = Some r"
  shows "safe_result N D a s r"
proof (cases a)
  case (Call t data)
  then show ?thesis using r a inv_call [OF i, of t data] by (auto simp: lstep_def safe_result_def split: if_splits)
next
  case (Client t alt)
  then show ?thesis using r safe_client [OF i b] by (simp add: lstep_def)
next
  case (Serve alt)
  then show ?thesis using r safe_server [OF i, of alt] by (auto simp: lstep_def safe_result_def)
next
  case StopServer
  then show ?thesis using r inv_stop [OF i] by (auto simp: lstep_def safe_result_def)
qed

lemma reachable_inv:
  assumes "reachable N D num s" "N * D < MAX_BUFFER_SIZE"
  shows "\<exists>P G. gc_inv N D s P G"
  using assms(1)
proof induction
  case reach_init
  show ?case using inv_init by blast
next
  case (reach_step s a s')
  obtain P G where "gc_inv N D s P G" using reach_step.IH by blast
  from safe_step [OF this assms(2) reach_step.hyps(2,3)] show ?case by (auto simp: safe_result_def device_failure_def)
qed

lemma AddLog_awaited_result:
  "AddLog_awaited t q s = Inr s' \<Longrightarrow> s' = go t Outside s \<or> s' = go t Leading s"
  by (auto simp: AddLog_awaited_def r_assert_eq_Inr split: if_splits)

lemma client_step_keeps:
  assumes i: "gc_inv N D s P G" and b: "N * D < MAX_BUFFER_SIZE" and r: "client_step t alt s = Some (Inr s')"
  shows "length (log_free s') = length (log_free s) \<and> stop s' = stop s \<and> spc s' = spc s"
proof (cases "cpc s t")
  case (Linking e)
  then show ?thesis using r by (auto simp: client_step_def AddToLink_step_def Let_def split: if_splits)
next
  case Polling
  then show ?thesis using r by (auto simp: client_step_def AwaitState_poll_def dest!: AddLog_awaited_result split: if_splits)
next
  case Created
  then show ?thesis using r by (auto simp: client_step_def AwaitState_load_def Let_def r_assert_eq_Inr dest!: AddLog_awaited_result split: if_splits)
next
  case (LongWait q)
  then show ?thesis using r by (auto simp: client_step_def AwaitState_exchange_def dest!: AddLog_awaited_result split: if_splits)
next
  case Locking
  then show ?thesis using r by (auto simp: client_step_def AwaitState_lock_def split: if_splits)
next
  case Checking
  then show ?thesis using r by (auto simp: client_step_def AwaitState_check_def dest!: AddLog_awaited_result split: if_splits)
next
  case Blocked
  then show ?thesis using r by (auto simp: client_step_def AwaitState_wake_def split: if_splits)
next
  case Leading
  then show ?thesis using r inv_MakeGroup [OF i Leading] by (auto simp: client_step_def only_thread_def)
next
  case Writing
  then show ?thesis using r inv_WriteToLog [OF i Writing b, of "write_result alt" "fdatasync_result alt"] by (auto simp: client_step_def split: if_splits)
next
  case Releasing
  then show ?thesis using r by (auto simp: client_step_def FinishGroup_release_def Let_def r_assert_eq_Inr)
next
  case (Finishing p)
  then show ?thesis using r inv_finish_next [OF i Finishing] by (auto simp: client_step_def only_thread_def)
next
  case (Completing h tmp q)
  then show ?thesis using r inv_finish_set [OF i Completing, of "Inr s'"] by (auto simp: client_step_def)
qed (use r in \<open>simp add: client_step_def\<close>)

lemma server_step_keeps:
  assumes i: "gc_inv N D s P G" and r: "server_step alt s = Some (Inr s')"
  shows "length (log_free s') = length (log_free s) \<and> stop s' = stop s"
proof (cases "spc s")
  case (S_taken k)
  then show ?thesis using r inv_exchange_None [OF i S_taken] inv_exchange_Some [OF i S_taken]
    by (cases "newest_writer s") (auto simp: server_step_def)
next
  case (S_set l q)
  then show ?thesis using inv_set [OF i S_set r] by auto
qed (use r in \<open>auto simp: server_step_def GetLeader_step_def split: if_splits\<close>)

lemma reachable_logs:
  assumes "reachable N D num s" "N * D < MAX_BUFFER_SIZE"
  shows "length (log_free s) = num"
  using assms(1)
proof induction
  case reach_init
  show ?case by (simp add: LoggingServer_new_def)
next
  case (reach_step s a s')
  obtain P G where i: "gc_inv N D s P G" using reachable_inv [OF reach_step.hyps(1) assms(2)] by blast
  show ?case
  proof (cases a)
    case (Client t alt)
    then show ?thesis using reach_step client_step_keeps [OF i assms(2), of t alt s'] by (simp add: lstep_def)
  next
    case (Serve alt)
    then show ?thesis using reach_step server_step_keeps [OF i, of alt s'] by (simp add: lstep_def)
  qed (use reach_step in \<open>auto simp: lstep_def AddLog_begin_def split: if_splits\<close>)
qed

section \<open>Progress\<close>

lemma p_bind_eq_None: "p_bind (Some r) f = None \<longleftrightarrow> (\<exists>x. r = Inr x \<and> f x = None)"
  by (cases r) simp_all

definition pc_work :: "bool \<Rightarrow> cpc \<Rightarrow> nat" where
  "pc_work final p =
     (case p of Polling \<Rightarrow> 7 | Created \<Rightarrow> 6 | LongWait _ \<Rightarrow> 5 | Locking \<Rightarrow> 4 | Checking \<Rightarrow> 3 | Blocked \<Rightarrow> if final then 5 else 2 | _ \<Rightarrow> 1)"

definition class_work :: "nat \<Rightarrow> thread_class \<Rightarrow> nat" where
  "class_work N c = (case c of Wait \<Rightarrow> 30 + 4 * N | Appointed \<Rightarrow> 20 | Lead \<Rightarrow> 10 | _ \<Rightarrow> 0)"

definition setter_work :: "setter \<Rightarrow> nat" where
  "setter_work p = (case p of To_exchange _ \<Rightarrow> 2 | To_lock \<Rightarrow> 1 | To_notify \<Rightarrow> 4)"

text \<open>
  What is left to do for a client. Linking the writer, becoming the leader and being completed can make the expected value of up to
  \<open>N - 1\<close> other clients stale and bring the thread that does it back to an earlier place, so these steps decrease the work by at least \<open>4 * N\<close>.
\<close>

definition client_work :: "nat \<Rightarrow> server \<Rightarrow> nat \<Rightarrow> nat" where
  "client_work N s t =
     (case cpc s t of
        Outside \<Rightarrow> 0
      | Linking e \<Rightarrow> 60 + 8 * N + (if e = newest_writer s then 0 else 1)
      | Leading \<Rightarrow> 10
      | Writing \<Rightarrow> 9
      | Releasing \<Rightarrow> 8
      | Finishing _ \<Rightarrow> 3
      | Completing _ _ p \<Rightarrow> setter_work p
      | p \<Rightarrow> pc_work (cls s t \<noteq> Wait \<and> cls s t \<noteq> Appointed) p + class_work N (cls s t))"

definition server_work :: "server \<Rightarrow> nat" where
  "server_work s = (case spc s of S_set _ p \<Rightarrow> (case p of To_exchange _ \<Rightarrow> 3 | To_lock \<Rightarrow> 2 | To_notify \<Rightarrow> 1) | _ \<Rightarrow> 0)"

definition total_work :: "nat \<Rightarrow> server \<Rightarrow> nat" where
  "total_work N s = (\<Sum>t<N. client_work N s t) + server_work s"

lemma server_work_cong: "spc s' = spc s \<Longrightarrow> server_work s' = server_work s"
  by (simp add: server_work_def)

lemma client_work_waiting:
  "waiting_pc (cpc s t) \<Longrightarrow> client_work N s t = pc_work (cls s t \<noteq> Wait \<and> cls s t \<noteq> Appointed) (cpc s t) + class_work N (cls s t)"
  by (auto simp: client_work_def waiting_pc_def split: cpc.splits)

lemma pc_work_bounds: "1 \<le> pc_work b p" "pc_work b p \<le> 7" "pc_work b p \<le> pc_work b' p + 3"
  by (simp_all add: pc_work_def split: cpc.split)

lemma client_work_cong:
  "cls s' x = cls s x \<Longrightarrow> cpc s' x = cpc s x \<Longrightarrow> newest_writer s' = newest_writer s \<Longrightarrow> client_work N s' x = client_work N s x"
  by (simp only: client_work_def)

lemma client_work_stale:
  "cls s' x = cls s x \<Longrightarrow> cpc s' x = cpc s x \<Longrightarrow> client_work N s' x \<le> client_work N s x + 4"
  by (simp only: client_work_def) (cases "cpc s x"; simp)

lemma total_work_less:
  assumes "t < N" "client_work N s' t < client_work N s t" "\<And>x. x \<noteq> t \<Longrightarrow> client_work N s' x = client_work N s x" "server_work s' \<le> server_work s"
  shows "total_work N s' < total_work N s"
proof -
  have "client_work N s' x \<le> client_work N s x" for x using assms(2,3) by (cases "x = t") simp_all
  then have "(\<Sum>t<N. client_work N s' t) < (\<Sum>t<N. client_work N s t)" using assms(1,2) by (intro sum_strict_mono_ex1) auto
  then show ?thesis unfolding total_work_def using assms(4) by simp
qed

lemma total_work_drop:
  assumes "t < N" "client_work N s' t + 4 * N \<le> client_work N s t" "\<And>x. x \<noteq> t \<Longrightarrow> client_work N s' x \<le> client_work N s x + 4"
    "server_work s' \<le> server_work s + 3"
  shows "total_work N s' < total_work N s"
proof -
  have e: "total_work N s = client_work N s t + (\<Sum>x \<in> {..<N} - {t}. client_work N s x) + server_work s" for s
    unfolding total_work_def using assms(1) by (simp add: sum.remove)
  have "(\<Sum>x \<in> {..<N} - {t}. client_work N s' x) \<le> (\<Sum>x \<in> {..<N} - {t}. client_work N s x + 4)"
    using assms(3) by (intro sum_mono) auto
  also have "\<dots> = (\<Sum>x \<in> {..<N} - {t}. client_work N s x) + 4 * (N - 1)"
    unfolding sum.distrib using assms(1) by (simp add: card_Diff_singleton)
  finally show ?thesis using assms(1,2,4) e [of s] e [of s'] by linarith
qed

text \<open>A client that can run and is not waiting for its state to change.\<close>

definition busy :: "server \<Rightarrow> nat \<Rightarrow> bool" where
  "busy s t \<longleftrightarrow>
     (case cpc s t of
        Outside \<Rightarrow> False
      | Polling \<Rightarrow> goal (w_state (writers s t))
      | Locking \<Rightarrow> state_mutex (writers s t) = None
      | Blocked \<Rightarrow> \<not> cv_waiting (writers s t)
      | Completing h _ p \<Rightarrow> p = To_lock \<longrightarrow> state_mutex (writers s h) = None
      | _ \<Rightarrow> True)"

lemma work_awaited:
  assumes i: "gc_inv N D s P G" and w: "waiting_pc (cpc s t)" "goal (w_state (writers s t))" and r: "AddLog_awaited t (w_state (writers s t)) (give_back t s) = Inr s'"
  shows "client_work N s' t < client_work N s t" "only_thread t s s'" "newest_writer s' = newest_writer s"
proof -
  have a: "appointed s \<noteq> Some t" using cls_pc(3) [OF i] w(2) by blast
  have s': "s' = go t Outside (give_back t s) \<and> w_state (writers s t) = STATE_COMPLETED \<or> s' = go t Leading (give_back t s) \<and> w_state (writers s t) = STATE_GROUP_LEADER"
    using r w(2) by (auto simp: AddLog_awaited_def r_assert_eq_Inr give_back_def goal_def split: if_splits)
  have c: "class_work N (cls s t) = (if w_state (writers s t) = STATE_GROUP_LEADER then 10 else 0)"
    using w(2) by (auto simp: cls_simps(6) [OF a w(1)] class_work_def goal_def)
  show "client_work N s' t < client_work N s t"
    unfolding client_work_waiting [OF w(1)] c using s' pc_work_bounds(1) [of "cls s t \<noteq> Wait \<and> cls s t \<noteq> Appointed" "cpc s t"]
    by (auto simp: client_work_def)
  show "only_thread t s s'" "newest_writer s' = newest_writer s" using s' by (auto simp: give_back_def only_thread_go)
qed

lemma only_thread_work:
  assumes "only_thread t s s'" "newest_writer s' = newest_writer s" "t < N" "client_work N s' t < client_work N s t"
  shows "total_work N s' < total_work N s"
proof (rule total_work_less [where t = t])
  show "client_work N s' x = client_work N s x" if "x \<noteq> t" for x
    using that assms(1,2) by (intro client_work_cong only_thread_other(1)) (simp_all add: only_thread_def)
  show "server_work s' \<le> server_work s" using assms(1) by (simp add: only_thread_def server_work_def)
qed (use assms in simp_all)

lemma same_writers_work:
  assumes "t < N" "cpc s' = (cpc s)(t := p)" "writers s' = writers s" "newest_writer s' = newest_writer s" "spc s' = spc s"
    "client_work N s' t < client_work N s t"
  shows "total_work N s' < total_work N s"
proof (rule total_work_less [OF assms(1,6)])
  show "server_work s' \<le> server_work s" using assms(5) by (simp add: server_work_def)
next
  fix x assume x: "x \<noteq> t"
  have "cls s' x = cls s x" by (rule cls_cong) (use x assms in \<open>simp_all add: appointed_def\<close>)
  then show "client_work N s' x = client_work N s x" by (rule client_work_cong) (use x assms in simp_all)
qed

lemma client_below: "gc_inv N D s P G \<Longrightarrow> cpc s t \<noteq> Outside \<Longrightarrow> t < N"
  using invD(2) [of N D s P G t] by (simp add: local_ok_def)

lemma waiting_below: "gc_inv N D s P G \<Longrightarrow> waiting_pc (cpc s t) \<Longrightarrow> t < N"
  using client_below [of N D s P G t] by (cases "cpc s t") (simp_all add: waiting_pc_def)

lemma progress_awaited:
  assumes i: "gc_inv N D s P G" and w: "waiting_pc (cpc s t)" "goal (w_state (writers s t))" and r: "AddLog_awaited t (w_state (writers s t)) (give_back t s) = Inr s'"
  shows "total_work N s' < total_work N s"
proof -
  have "t < N" using waiting_below [OF i w(1)] .
  then show ?thesis using work_awaited [OF i w r] by (intro only_thread_work)
qed

lemma progress_awaited_free:
  assumes i: "gc_inv N D s P G" and w: "cpc s t \<in> {Polling, Created} \<or> (\<exists>st. cpc s t = LongWait st)" "goal (w_state (writers s t))"
    and r: "AddLog_awaited t (w_state (writers s t)) s = Inr s'"
  shows "total_work N s' < total_work N s"
proof -
  have "give_back t s = s" by (rule give_back_id, rule mutex_free [OF invD(6) [OF i]]) (use w(1) in auto)
  moreover have "waiting_pc (cpc s t)" using w(1) by (auto simp: waiting_pc_def)
  ultimately show ?thesis using progress_awaited [OF i _ w(2)] r by simp
qed

text \<open>A thread that goes on waiting at a later place.\<close>

lemma progress_wait:
  assumes i: "gc_inv N D s P G" and w: "waiting_pc (cpc s t)" "waiting_pc p" and s': "s' = go t p (upd_writer t f s)" and c: "cls s' t = cls s t"
    and l: "pc_work (cls s t \<noteq> Wait \<and> cls s t \<noteq> Appointed) p < pc_work (cls s t \<noteq> Wait \<and> cls s t \<noteq> Appointed) (cpc s t)"
  shows "total_work N s' < total_work N s"
proof (rule only_thread_work [OF _ _ waiting_below [OF i w(1)]])
  have w': "waiting_pc (cpc s' t)" using w(2) by (simp add: s')
  show "client_work N s' t < client_work N s t" unfolding client_work_waiting [OF w(1)] client_work_waiting [OF w'] c using l by (simp add: s')
qed (simp_all add: s' only_thread_go)

lemma progress_link:
  assumes i: "gc_inv N D s P G" and c: "cpc s t = Linking e"
  shows "total_work N (AddToLink_step t e False s) < total_work N s"
proof -
  have t: "t < N" using client_below [OF i] c by simp
  have a: "appointed s \<noteq> Some t" using cls_pc(2) [OF i] c by (simp add: waiting_pc_def)
  define s' where "s' = AddToLink_step t e False s"
  show ?thesis
  proof (cases "newest_writer s = e")
    case True
    then have e: "s' = go t Polling ((upd_writer t (\<lambda>w. w\<lparr>link_older := e\<rparr>) s)\<lparr>newest_writer := Some t\<rparr>)"
      by (simp add: s'_def AddToLink_step_def Let_def)
    have o: "only_thread t s s'" by (simp add: e only_thread_def same_writer_def)
    have x: "client_work N s' x \<le> client_work N s x + 4" if "x \<noteq> t" for x
      by (rule client_work_stale) (use that only_thread_other(1) [OF o] in \<open>simp_all add: e\<close>)
    have "w_state (writers s' t) = STATE_INIT" using invD(2) [OF i, of t] c by (simp add: e local_ok_def)
    then have "client_work N s' t = 37 + 4 * N"
      using a by (simp add: client_work_waiting waiting_pc_def cls_simps(6) e pc_work_def class_work_def)
    then have "client_work N s' t + 4 * N \<le> client_work N s t" using c by (simp add: client_work_def)
    then show ?thesis unfolding s'_def [symmetric] by (rule total_work_drop [OF t _ x]) (use server_work_cong [of s' s] in \<open>simp_all add: e\<close>)
  next
    case False
    then have e: "s' = go t (Linking (newest_writer s)) (upd_writer t (\<lambda>w. w\<lparr>link_older := e\<rparr>) s)"
      by (simp add: s'_def AddToLink_step_def Let_def)
    have "client_work N s' t < client_work N s t" using c False by (simp add: e client_work_def)
    then show ?thesis unfolding s'_def [symmetric] using only_thread_work [OF _ _ t, of s s'] by (simp add: e only_thread_go)
  qed
qed

lemma progress_poll:
  assumes i: "gc_inv N D s P G" and c: "cpc s t = Polling" and r: "AwaitState_poll t give_up s = Inr s'"
  shows "total_work N s' < total_work N s \<or> s' = s \<and> \<not> busy s t"
proof -
  consider (goal) "goal (w_state (writers s t))" | (give_up) "\<not> goal (w_state (writers s t))" give_up | (again) "\<not> goal (w_state (writers s t))" "\<not> give_up" by blast
  then show ?thesis
  proof cases
    case goal
    then show ?thesis using r progress_awaited_free [OF i _ goal] c by (simp add: AwaitState_poll_def)
  next
    case give_up
    then have e: "s' = go t Created (upd_writer t (\<lambda>w. w\<lparr>made_waitable := True\<rparr>) s)" using r by (auto simp: AwaitState_poll_def)
    have "cls s' t = cls s t" using c by (simp add: e cls_def)
    then show ?thesis using progress_wait [OF i _ _ e] c by (simp add: waiting_pc_def pc_work_def)
  next
    case again
    then show ?thesis using r c by (simp add: AwaitState_poll_def busy_def)
  qed
qed

lemma progress_load:
  assumes i: "gc_inv N D s P G" and c: "cpc s t = Created" and r: "AwaitState_load t s = Inr s'"
  shows "total_work N s' < total_work N s"
proof (cases "goal (w_state (writers s t))")
  case True
  then show ?thesis using r progress_awaited_free [OF i _ True] c by (simp add: AwaitState_load_def Let_def r_assert_eq_Inr)
next
  case False
  then have e: "s' = go t (LongWait (w_state (writers s t))) (upd_writer t (\<lambda>w. w) s)"
    using r by (simp add: AwaitState_load_def Let_def r_assert_eq_Inr upd_writer_def)
  have "cls s' t = cls s t" using c by (simp add: e cls_def)
  then show ?thesis using progress_wait [OF i _ _ e] c by (simp add: waiting_pc_def pc_work_def)
qed

lemma progress_exchange:
  assumes i: "gc_inv N D s P G" and c: "cpc s t = LongWait q" and r: "AwaitState_exchange t q s = Inr s'"
  shows "total_work N s' < total_work N s"
proof (cases "w_state (writers s t) = q")
  case True
  have e: "s' = go t Locking (upd_writer t (\<lambda>w. w\<lparr>w_state := STATE_LOCKED_WAITING\<rparr>) s)" using r True by (simp add: AwaitState_exchange_def)
  have "w_state (writers s t) = STATE_INIT" using invD(2) [OF i, of t] c True by (simp add: local_ok_def)
  then have "cls s' t = cls s t" using c by (simp add: e cls_def)
  then show ?thesis using progress_wait [OF i _ _ e] c by (simp add: waiting_pc_def pc_work_def)
next
  case False
  then have g: "goal (w_state (writers s t))" using invD(2) [OF i, of t] c by (auto simp: local_ok_def goal_def)
  have "AddLog_awaited t (w_state (writers s t)) s = Inr s'" using r False by (simp add: AwaitState_exchange_def)
  then show ?thesis using progress_awaited_free [OF i _ g] c by simp
qed

lemma progress_lock:
  assumes i: "gc_inv N D s P G" and c: "cpc s t = Locking" and r: "AwaitState_lock t s = Some (Inr s')"
  shows "total_work N s' < total_work N s"
proof -
  have e: "s' = go t Checking (upd_writer t (\<lambda>w. w\<lparr>state_mutex := Some (By_client t)\<rparr>) s)" using r by (auto simp: AwaitState_lock_def split: if_splits)
  have "cls s' t = cls s t" using c by (simp add: e cls_def)
  then show ?thesis using progress_wait [OF i _ _ e] c by (simp add: waiting_pc_def pc_work_def)
qed

lemma waiting_cls:
  assumes "gc_inv N D s P G" "waiting_pc (cpc s t)"
  shows "(cls s t \<noteq> Wait \<and> cls s t \<noteq> Appointed) = goal (w_state (writers s t))"
proof (cases "appointed s = Some t")
  case True
  then show ?thesis using cls_pc(3) [OF assms(1)] by (auto simp: cls_def)
next
  case False
  then show ?thesis by (auto simp: cls_simps(6) [OF False assms(2)] goal_def split: State.splits)
qed

lemma progress_check:
  assumes i: "gc_inv N D s P G" and c: "cpc s t = Checking" and r: "AwaitState_check t s = Inr s'"
  shows "total_work N s' < total_work N s"
proof (cases "w_state (writers s t) = STATE_LOCKED_WAITING")
  case True
  then have e: "s' = go t Blocked (upd_writer t (\<lambda>w. w\<lparr>state_mutex := None, cv_waiting := True\<rparr>) s)" using r by (simp add: AwaitState_check_def)
  have "cls s' t = cls s t" using c by (simp add: e cls_def)
  then show ?thesis using progress_wait [OF i _ _ e] waiting_cls [OF i, of t] c True by (simp add: waiting_pc_def pc_work_def goal_def)
next
  case False
  then have g: "goal (w_state (writers s t))" using invD(2) [OF i, of t] c by (auto simp: local_ok_def goal_def)
  show ?thesis by (rule progress_awaited [OF i _ g]) (use r False c in \<open>simp_all add: AwaitState_check_def give_back_def waiting_pc_def\<close>)
qed

lemma progress_wake:
  assumes i: "gc_inv N D s P G" and c: "cpc s t = Blocked" and r: "AwaitState_wake t False s = Some (Inr s')"
  shows "total_work N s' < total_work N s"
proof -
  have n: "\<not> cv_waiting (writers s t)" and e: "s' = go t Locking (upd_writer t (\<lambda>w. w\<lparr>cv_waiting := False\<rparr>) s)"
    using r by (auto simp: AwaitState_wake_def split: if_splits)
  have g: "goal (w_state (writers s t))" by (rule mutexD(5) [OF invD(6) [OF i] c n])
  have "cls s' t = cls s t" using c by (simp add: e cls_def)
  then show ?thesis using progress_wait [OF i _ _ e] waiting_cls [OF i, of t] c g by (simp add: waiting_pc_def pc_work_def)
qed

lemma progress_complete:
  assumes i: "gc_inv N D s P G" and c: "cpc s t = Completing h tmp q" and r: "FinishGroup_set t h tmp q s = Some (Inr s')"
  shows "total_work N s' < total_work N s"
proof -
  have t: "t < N" using client_below [OF i] c by simp
  obtain p where e: "cpc s' = (cpc s)(t := p)" "setter_moves s s' t h tmp q p" "newest_writer s' = newest_writer s" "spc s' = spc s"
    using inv_finish_set [OF i c r] by auto
  have sw: "server_work s' = server_work s" using e(4) by (rule server_work_cong)
  consider (keeps) "\<forall>x. cls s' x = cls s x" "client_work N s' t < client_work N s t"
    | (sets) "h \<noteq> t" "cls s h = Wait" "cls s' h = Done" "\<forall>x. x \<noteq> t \<longrightarrow> x \<noteq> h \<longrightarrow> cls s' x = cls s x" "client_work N s' t \<le> client_work N s t + 4"
    using e(1,2) c by (auto simp: setter_moves_def client_work_def setter_work_def)
  then show ?thesis
  proof cases
    case keeps
    have "client_work N s' x = client_work N s x" if "x \<noteq> t" for x using that keeps(1) e by (intro client_work_cong) simp_all
    then show ?thesis using total_work_less [OF t keeps(2)] sw by simp
  next
    case sets
    have pc: "waiting_pc (cpc s h)" using cls_pc(1) [OF i disjI1 [OF sets(2)]] by simp
    then have h: "h < N" by (rule waiting_below [OF i])
    have "waiting_pc (cpc s' h)" using pc e(1) sets(1) by simp
    then have "client_work N s' h + 4 * N \<le> client_work N s h"
      using pc_work_bounds(3) [of True "cpc s h" False] e(1) sets(1-3) by (simp add: client_work_waiting pc class_work_def)
    moreover have "client_work N s' x \<le> client_work N s x + 4" if "x \<noteq> h" for x
    proof (cases "x = t")
      case False
      then show ?thesis using that sets(4) e(1) by (intro client_work_stale) simp_all
    qed (use sets(5) in simp)
    ultimately show ?thesis by (rule total_work_drop [OF h]) (simp_all add: sw)
  qed
qed

lemma client_progress:
  assumes i: "gc_inv N D s P G" and b: "N * D < MAX_BUFFER_SIZE" and r: "client_step t alt s = Some (Inr s')" and alt: "alt = Usual \<or> alt = Other \<and> cpc s t = Polling"
  shows "total_work N s' < total_work N s \<or> s' = s \<and> \<not> busy s t"
proof -
  have t: "t < N" using client_below [OF i, of t] r by (cases "cpc s t") (simp_all add: client_step_def)
  show ?thesis
  proof (cases "cpc s t")
    case (Linking e)
    then show ?thesis using r alt progress_link [OF i Linking] by (simp add: client_step_def)
  next
    case Polling
    then show ?thesis using r progress_poll [OF i Polling] by (simp add: client_step_def)
  next
    case Created
    then show ?thesis using r progress_load [OF i Created] by (simp add: client_step_def)
  next
    case (LongWait q)
    then show ?thesis using r progress_exchange [OF i LongWait] by (simp add: client_step_def)
  next
    case Locking
    then show ?thesis using r progress_lock [OF i Locking] by (simp add: client_step_def)
  next
    case Checking
    then show ?thesis using r progress_check [OF i Checking] by (simp add: client_step_def)
  next
    case Blocked
    then show ?thesis using r alt progress_wake [OF i Blocked] by (simp add: client_step_def)
  next
    case Leading
    then show ?thesis using r inv_MakeGroup [OF i Leading] only_thread_work [OF _ _ t, of s s']
      by (auto simp: client_step_def client_work_def)
  next
    case Writing
    then have e: "cpc s' = (cpc s)(t := Releasing) \<and> writers s' = writers s \<and> newest_writer s' = newest_writer s \<and> spc s' = spc s"
      using r inv_WriteToLog [OF i Writing b, of "write_result alt" "fdatasync_result alt"] by (auto simp: client_step_def split: if_splits)
    then have "client_work N s' t < client_work N s t" using Writing by (simp add: client_work_def)
    then show ?thesis using e same_writers_work [OF t] by blast
  next
    case Releasing
    then have e: "cpc s' = (cpc s)(t := Finishing (link_older (writers s t))) \<and> writers s' = writers s \<and> newest_writer s' = newest_writer s \<and> spc s' = spc s"
      using r inv_release [OF i Releasing] by (auto simp: client_step_def)
    then have "client_work N s' t < client_work N s t" using Releasing by (simp add: client_work_def)
    then show ?thesis using e same_writers_work [OF t] by blast
  next
    case (Finishing p)
    then have "client_work N s' t < client_work N s t \<and> only_thread t s s' \<and> newest_writer s' = newest_writer s"
      using r inv_finish_next [OF i Finishing] by (cases p) (auto simp: client_step_def client_work_def setter_work_def)
    then show ?thesis using only_thread_work [OF _ _ t, of s s'] by blast
  next
    case (Completing h tmp q)
    then show ?thesis using r progress_complete [OF i Completing] by (simp add: client_step_def)
  qed (use r in \<open>simp add: client_step_def\<close>)
qed

text \<open>A step of the server completes an appointment, or changes only the reservations and its place in the loop.\<close>

definition server_move :: "server \<Rightarrow> server \<Rightarrow> bool" where
  "server_move s s' \<longleftrightarrow> \<not> setting s \<and> \<not> setting s' \<and> s' = s\<lparr>log_free := log_free s', spc := spc s'\<rparr>"

lemma server_moveD:
  assumes "server_move s s'"
  shows "total_work N s' = total_work N s" "busy s' t = busy s t" "cpc s' = cpc s"
proof -
  have a: "appointed s = None" "appointed s' = None" using not_setting assms by (auto simp: server_move_def)
  have w: "server_work s' = 0" "server_work s = 0" using assms by (auto simp: server_move_def setting_def server_work_def split: spc.splits)
  have e: "cpc s' = cpc s" "writers s' = writers s" "newest_writer s' = newest_writer s"
    using assms unfolding server_move_def by (metis server.select_convs server.surjective server.update_convs)+
  have "client_work N s' t = client_work N s t" for t by (intro client_work_cong cls_cong) (simp_all add: e a)
  then show "total_work N s' = total_work N s" by (simp add: total_work_def w)
  show "busy s' t = busy s t" "cpc s' = cpc s" by (simp_all only: busy_def e)
qed

lemma server_progress:
  assumes i: "gc_inv N D s P G" and r: "server_step alt s = Some (Inr s')"
  shows "total_work N s' < total_work N s \<or> server_move s s'"
proof (cases "spc s")
  case (S_taken k)
  show ?thesis
  proof (cases "newest_writer s")
    case None
    then show ?thesis using r inv_exchange_None [OF i S_taken None] S_taken by (auto simp: server_step_def server_move_def setting_def)
  next
    case (Some l)
    have e: "cpc s' = cpc s" "spc s' = S_set l (To_exchange (w_state (writers s l)))" "writers s' = (writers s)(l := (writers s l)\<lparr>w_log_num := int k\<rparr>)" "cls s l = Wait"
      using r inv_exchange_Some [OF i S_taken Some] S_taken by (auto simp: server_step_def)
    have pc: "waiting_pc (cpc s l)" using cls_pc(1) [OF i disjI1 [OF e(4)]] by simp
    then have l: "l < N" by (rule waiting_below [OF i])
    have "cls s' l = Appointed" by (simp add: cls_def appointed_def e(2))
    then have "client_work N s' l + 4 * N \<le> client_work N s l" using pc e by (simp add: client_work_waiting class_work_def)
    moreover have "client_work N s' x \<le> client_work N s x + 4" if "x \<noteq> l" for x
      by (intro client_work_stale cls_cong) (use that e S_taken in \<open>simp_all add: appointed_def\<close>)
    moreover have "server_work s' \<le> server_work s + 3" by (simp add: server_work_def e(2))
    ultimately show ?thesis using total_work_drop [OF l] by blast
  qed
next
  case (S_set l q)
  have e: "cpc s' = cpc s" "newest_writer s' = newest_writer s" "server_sets s s' l q" using inv_set [OF i S_set r] by auto
  consider (keeps) "\<forall>x. cls s' x = cls s x" "server_work s' < server_work s"
    | (sets) "cls s l = Appointed" "cls s' l = Lead" "\<forall>x. x \<noteq> l \<longrightarrow> cls s' x = cls s x" "server_work s' \<le> server_work s"
    using e(3) S_set by (cases q) (auto simp: server_sets_def server_work_def)
  then show ?thesis
  proof cases
    case keeps
    have "client_work N s' x = client_work N s x" for x using keeps(1) e by (intro client_work_cong) simp_all
    then show ?thesis using keeps(2) by (simp add: total_work_def)
  next
    case sets
    have pc: "waiting_pc (cpc s l)" using cls_pc(1) [OF i disjI2 [OF sets(1)]] by simp
    then have l: "l < N" by (rule waiting_below [OF i])
    have "client_work N s' l < client_work N s l"
      using pc_work_bounds(3) [of True "cpc s l" False] by (simp add: client_work_waiting pc e(1) sets(1,2) class_work_def)
    moreover have "client_work N s' x = client_work N s x" if "x \<noteq> l" for x using that sets(3) e by (intro client_work_cong) simp_all
    ultimately show ?thesis using total_work_less [OF l] sets(4) by blast
  qed
qed (use r in \<open>auto simp: server_step_def server_move_def setting_def GetLeader_step_def split: if_splits\<close>)

text \<open>When nobody else can run, the server appoints a leader within a few steps.\<close>

definition server_rank :: "server \<Rightarrow> nat" where
  "server_rank s =
     (case spc s of S_pick k \<Rightarrow> if k < length (log_free s) then 1 else 4 | S_loop \<Rightarrow> 2 | S_end \<Rightarrow> 3 | _ \<Rightarrow> 0)"

lemma idle_mutex:
  assumes i: "gc_inv N D s P G" and idle: "\<forall>t. \<not> busy s t" and n: "\<not> notifier s By_server h"
  shows "state_mutex (writers s h) = None"
proof (rule ccontr)
  assume "state_mutex (writers s h) \<noteq> None"
  then obtain me where me: "state_mutex (writers s h) = Some me" by blast
  have "cpc s h \<noteq> Checking" using spec [OF idle, of h] by (auto simp: busy_def)
  then have "notifier s me h" using mutexD(2) [OF invD(6) [OF i] me] by blast
  then obtain t tmp where "cpc s t = Completing h tmp To_notify" using n by (cases me) (auto simp: notifier_def)
  then show False using spec [OF idle, of t] by (simp add: busy_def)
qed

lemma idle_facts:
  assumes i: "gc_inv N D s P G" and idle: "\<forall>t. \<not> busy s t" and t: "cpc s t \<noteq> Outside" and st: "\<not> setting s"
  shows "newest_writer s \<noteq> None" "k < length (log_free s) \<Longrightarrow> spc s \<noteq> S_taken k \<Longrightarrow> \<not> log_free s ! k"
proof -
  have a: "appointed s = None" and n: "\<not> notifier s By_server h" for h using not_setting [OF st] by auto
  note free = idle_mutex [OF i idle n]
  have pc: "cpc s x = Outside \<or> waiting_pc (cpc s x) \<and> \<not> goal (w_state (writers s x))" for x
  proof (cases "cpc s x")
    case Blocked
    have "cv_waiting (writers s x)" using spec [OF idle, of x] Blocked by (simp add: busy_def)
    then show ?thesis using mutexD(4) [OF invD(6) [OF i] Blocked] free [of x] by (auto simp: waiting_pc_def Blocked)
  qed (use spec [OF idle, of x] free in \<open>simp_all add: busy_def waiting_pc_def\<close>)
  have c: "cls s x = Out \<or> cls s x = Wait" for x
    using pc [of x] cls_simps(1,6) [of s x] a by (auto simp: goal_def split: State.splits)
  have nh: "\<not> holder s x" for x using c [of x] by (auto simp: holder_def)
  then show "k < length (log_free s) \<Longrightarrow> spc s \<noteq> S_taken k \<Longrightarrow> \<not> log_free s ! k" using invD(4) [OF i] unfolding logs_ok_def by blast
  have "cls s t = Wait" using c [of t] t a by (auto simp: cls_def split: cpc.splits State.splits)
  moreover have "G x = []" for x
  proof -
    have "rest s x = None" using c [of x] pc [of x] by (auto simp: rest_def waiting_pc_def split: cpc.splits)
    then show ?thesis using invD(1) [OF i] unfolding lists_ok_def by (metis chain_None)
  qed
  ultimately have "t \<in> set P" using invD(1) [OF i] unfolding lists_ok_def by (metis empty_iff list.set(1))
  then show "newest_writer s \<noteq> None" using invD(1) [OF i] by (cases P) (auto simp: lists_ok_def)
qed

lemma idle_rank:
  assumes i: "gc_inv N D s P G" and idle: "\<forall>t. \<not> busy s t" and t: "cpc s t \<noteq> Outside" and l: "0 < length (log_free s)" "\<not> stop s"
  shows "\<exists>s'. server_step False s = Some (Inr s') \<and> (total_work N s' < total_work N s \<or> server_rank s' < server_rank s)"
proof (cases "setting s")
  case False
  note f = idle_facts [OF i idle t False]
  show ?thesis
  proof (cases "spc s")
    case (S_taken k)
    obtain m where m: "newest_writer s = Some m" using f(1) by blast
    obtain s' where s': "server_step False s = Some (Inr s')" using inv_exchange_Some [OF i S_taken m] S_taken by (auto simp: server_step_def)
    have "\<exists>q. spc s' = S_set m q" using s' inv_exchange_Some [OF i S_taken m] S_taken by (auto simp: server_step_def)
    then have "\<not> server_move s s'" by (auto simp: server_move_def setting_def)
    then show ?thesis using s' server_progress [OF i s'] by blast
  next
    case (S_pick k)
    then show ?thesis using f(2) [of k] by (auto simp: server_step_def GetLeader_step_def server_rank_def)
  next
    case S_stopped
    then show ?thesis using invD(3) [OF i] l(2) by (simp add: appointed_ok_def)
  qed (use f(1) l False in \<open>auto simp: server_step_def server_rank_def setting_def\<close>)
next
  case True
  then obtain m q where q: "spc s = S_set m q" by (auto simp: setting_def split: spc.splits)
  have "server_step False s \<noteq> None"
  proof (cases q)
    case To_lock
    then have "seen s m To_lock" "cls s m = Wait \<or> cls s m = Appointed" using invD(3) [OF i] q by (auto simp: appointed_ok_def cls_def appointed_def)
    moreover have "state_mutex (writers s m) = None" using idle_mutex [OF i idle, of m] q To_lock by (simp add: notifier_def)
    ultimately show ?thesis using SetState_store_ok [OF i, of m STATE_GROUP_LEADER By_server] q To_lock
      by (simp add: server_step_def Server_set_def SetState_step_def goal_def)
  qed (use q in \<open>simp_all add: server_step_def Server_set_def SetState_step_def p_bind_eq_None split_beta del: not_None_eq\<close>)
  then obtain r where r: "server_step False s = Some r" by blast
  then obtain s' where s': "server_step False s = Some (Inr s')" using inv_set [OF i q r] by blast
  have "\<not> server_move s s'" using True by (simp add: server_move_def)
  then show ?thesis using s' server_progress [OF i s'] by blast
qed

lemma busy_enabled:
  assumes i: "gc_inv N D s P G" and b: "N * D < MAX_BUFFER_SIZE" and t: "busy s t"
  shows "client_step t alt s \<noteq> None"
proof (cases "cpc s t")
  case Leading
  then show ?thesis using inv_MakeGroup [OF i Leading] by (auto simp: client_step_def)
next
  case Writing
  then show ?thesis using inv_WriteToLog [OF i Writing b, of "write_result alt" "fdatasync_result alt"] by (auto simp: client_step_def)
next
  case (Completing h tmp q)
  show ?thesis
  proof (cases q)
    case To_lock
    then show ?thesis using t Completing by (auto simp: busy_def client_step_def FinishGroup_set_def SetState_step_def SetState_store_def p_bind_eq_None split_beta simp del: not_None_eq)
  qed (simp_all add: client_step_def Completing FinishGroup_set_def SetState_step_def p_bind_eq_None split_beta del: not_None_eq)
qed (use t in \<open>simp_all add: client_step_def busy_def AwaitState_lock_def AwaitState_wake_def\<close>)

section \<open>Fair runs\<close>

text \<open>
  The environment is calm when nobody calls \<open>AddLog\<close> or stops the server, the exchanges do not fail spuriously, no thread is woken
  without a notification and the
  device works; clients may still give up polling at any time. A thread that is scheduled while it cannot run, as it waits for a mutex or a
  notification, leaves the state as it is.
\<close>

definition calm :: "action \<Rightarrow> server \<Rightarrow> bool" where
  "calm a s = (case a of Client t alt \<Rightarrow> alt = Usual \<or> alt = Other \<and> cpc s t = Polling | Serve alt \<Rightarrow> \<not> alt | _ \<Rightarrow> False)"

definition stepping :: "action \<Rightarrow> server \<Rightarrow> server \<Rightarrow> bool" where
  "stepping a s s' = (case lstep a s of None \<Rightarrow> s' = s | Some r \<Rightarrow> r = Inr s')"

definition fair_run :: "nat \<Rightarrow> (nat \<Rightarrow> action) \<Rightarrow> (nat \<Rightarrow> server) \<Rightarrow> bool" where
  "fair_run N sched run \<longleftrightarrow>
     (\<forall>n. calm (sched n) (run n) \<and> stepping (sched n) (run n) (run (Suc n))) \<and>
     (\<forall>n. \<forall>t < N. \<exists>m \<ge> n. \<exists>alt. sched m = Client t alt) \<and> (\<forall>n. \<exists>m \<ge> n. \<exists>alt. sched m = Serve alt)"

definition good :: "nat \<Rightarrow> nat \<Rightarrow> server \<Rightarrow> bool" where
  "good N D s \<longleftrightarrow> (\<exists>P G. gc_inv N D s P G) \<and> 0 < length (log_free s) \<and> \<not> stop s"

text \<open>The steps that make no progress: those of a thread that waits, and those of the server within its loop.\<close>

definition quiet :: "action \<Rightarrow> server \<Rightarrow> server \<Rightarrow> bool" where
  "quiet a s s' \<longleftrightarrow> (case a of Client t alt \<Rightarrow> s' = s \<and> \<not> busy s t | _ \<Rightarrow> s' = s \<or> server_move s s')"

lemma calm_step:
  assumes "good N D s" "N * D < MAX_BUFFER_SIZE" "calm a s" "stepping a s s'"
  shows "good N D s'" "total_work N s' < total_work N s \<or> quiet a s s'"
proof -
  obtain P G where i: "gc_inv N D s P G" using assms(1) by (auto simp: good_def)
  have "good N D s' \<and> (total_work N s' < total_work N s \<or> quiet a s s')"
  proof (cases "lstep a s")
    case None
    then have "s' = s" using assms(4) by (simp add: stepping_def)
    moreover have "\<not> busy s t" if "a = Client t alt" for t alt
      using None that busy_enabled [OF i assms(2), of t alt] by (auto simp: lstep_def)
    ultimately show ?thesis using assms(1) by (simp add: quiet_def split: action.split)
  next
    case (Some r)
    then have r: "lstep a s = Some (Inr s')" using assms(4) by (simp add: stepping_def)
    consider (client) t alt where "a = Client t alt" "alt = Usual \<or> alt = Other \<and> cpc s t = Polling" | (server) "a = Serve False"
      using assms(3) by (auto simp: calm_def split: action.splits)
    then show ?thesis
    proof cases
      case client
      then have c: "client_step t alt s = Some (Inr s')" using r by (simp add: lstep_def)
      have "\<exists>P G. gc_inv N D s' P G" using safe_client [OF i assms(2) c] by (auto simp: safe_result_def device_failure_def)
      then have "good N D s'" using assms(1) client_step_keeps [OF i assms(2) c] by (simp add: good_def)
      then show ?thesis using client_progress [OF i assms(2) c client(2)] client(1) by (simp add: quiet_def)
    next
      case server
      then have c: "server_step False s = Some (Inr s')" using r by (simp add: lstep_def)
      have "\<exists>P G. gc_inv N D s' P G" using safe_server [OF i c] by auto
      then have "good N D s'" using assms(1) server_step_keeps [OF i c] by (simp add: good_def)
      then show ?thesis using server_progress [OF i c] server by (simp add: quiet_def) blast
    qed
  qed
  then show "good N D s'" "total_work N s' < total_work N s \<or> quiet a s s'" by blast+
qed

lemma quietD:
  assumes "quiet a s s'"
  shows "total_work N s' = total_work N s" "busy s' t = busy s t" "cpc s' = cpc s" "a = Client t alt \<Longrightarrow> s' = s \<and> \<not> busy s t"
  using assms server_moveD [of s s'] by (auto simp: quiet_def split: action.splits)

lemma fair_good:
  assumes "fair_run N sched run" "good N D (run 0)" "N * D < MAX_BUFFER_SIZE"
  shows "good N D (run n)"
  by (induction n) (use assms calm_step(1) [OF _ assms(3)] in \<open>auto simp: fair_run_def\<close>)

lemma stuck_quiet:
  assumes f: "fair_run N sched run" "good N D (run 0)" "N * D < MAX_BUFFER_SIZE"
    and n: "\<forall>m \<ge> n. \<not> total_work N (run (Suc m)) < total_work N (run m)" and m: "n \<le> m"
  shows "quiet (sched m) (run m) (run (Suc m))" "busy (run m) t = busy (run n) t" "cpc (run m) = cpc (run n)"
proof -
  have q: "quiet (sched m) (run m) (run (Suc m))" if "n \<le> m" for m
    using calm_step(2) [OF fair_good [OF f, of m] f(3), of "sched m" "run (Suc m)"] f(1) n that by (auto simp: fair_run_def)
  show "quiet (sched m) (run m) (run (Suc m))" by (rule q [OF m])
  show "busy (run m) t = busy (run n) t" "cpc (run m) = cpc (run n)"
    using m quietD [OF q] by (induction rule: dec_induct) simp_all
qed

text \<open>While the work does not decrease, no client is busy and every step of the server decreases its rank.\<close>

lemma stuck_rank:
  assumes f: "fair_run N sched run" "good N D (run 0)" "N * D < MAX_BUFFER_SIZE"
    and n: "\<forall>m \<ge> n. \<not> total_work N (run (Suc m)) < total_work N (run m)" and t: "cpc (run n) t \<noteq> Outside" and m: "n \<le> m"
  shows "\<exists>k \<ge> m. server_rank (run (Suc k)) < server_rank (run m)"
proof -
  note q = stuck_quiet [OF f n]
  have inv: "\<exists>P G. gc_inv N D (run k) P G" "0 < length (log_free (run k))" "\<not> stop (run k)" for k using fair_good [OF f, of k] by (auto simp: good_def)
  have idle: "\<not> busy (run k) x" if "n \<le> k" for k x
  proof
    assume b: "busy (run k) x"
    obtain P G where "gc_inv N D (run k) P G" using inv(1) by blast
    moreover have "cpc (run k) x \<noteq> Outside" using b by (auto simp: busy_def)
    ultimately have "x < N" by (rule client_below)
    then obtain j alt where j: "n \<le> j" "sched j = Client x alt" using f(1) unfolding fair_run_def by blast
    have "\<not> busy (run j) x" using quietD(4) [OF q(1) [OF j(1)] j(2)] by simp
    then show False using b q(2) [OF j(1)] q(2) [OF that] by simp
  qed
  have ex: "\<exists>k alt. m \<le> k \<and> sched k = Serve alt" using f(1) by (auto simp: fair_run_def)
  define k where "k = (LEAST k. m \<le> k \<and> (\<exists>alt. sched k = Serve alt))"
  have k: "m \<le> k" "\<exists>alt. sched k = Serve alt" using LeastI_ex [of "\<lambda>k. m \<le> k \<and> (\<exists>alt. sched k = Serve alt)"] ex unfolding k_def by blast+
  have before: "run (Suc j) = run j" if "m \<le> j" "j < k" for j
  proof -
    have "\<not> (\<exists>alt. sched j = Serve alt)" using not_less_Least [of j "\<lambda>k. m \<le> k \<and> (\<exists>alt. sched k = Serve alt)"] that unfolding k_def by blast
    moreover have "calm (sched j) (run j)" using f(1) by (simp add: fair_run_def)
    ultimately obtain x alt where "sched j = Client x alt" by (cases "sched j") (auto simp: calm_def)
    then show ?thesis using quietD(4) [OF q(1)] that(1) m by (metis order_trans)
  qed
  have same: "run k = run m" using k(1) before
  proof (induction rule: inc_induct)
    case (step j)
    then show ?case by simp
  qed simp
  have nk: "n \<le> k" using m k(1) by simp
  obtain P G where i: "gc_inv N D (run k) P G" using inv(1) by blast
  have "cpc (run k) t \<noteq> Outside" using q(3) [OF nk] t by simp
  then obtain s' where s': "server_step False (run k) = Some (Inr s')" "total_work N s' < total_work N (run k) \<or> server_rank s' < server_rank (run k)"
    using idle_rank [OF i _ _ inv(2,3)] idle [OF nk] by blast
  have "sched k = Serve False" "stepping (sched k) (run k) (run (Suc k))" using f(1) k(2) by (auto simp: fair_run_def calm_def dest!: spec [of _ k])
  then have "run (Suc k) = s'" using s'(1) by (simp add: stepping_def lstep_def)
  then show ?thesis using s'(2) n nk same k(1) by auto
qed

lemma fair_progress:
  assumes f: "fair_run N sched run" "good N D (run 0)" "N * D < MAX_BUFFER_SIZE" and t: "cpc (run n) t \<noteq> Outside"
  shows "\<exists>m \<ge> n. total_work N (run (Suc m)) < total_work N (run m)"
proof (rule ccontr)
  assume "\<not> ?thesis"
  then have n: "\<forall>m \<ge> n. \<not> total_work N (run (Suc m)) < total_work N (run m)" by blast
  have "n \<le> m \<Longrightarrow> False" for m
  proof (induction "server_rank (run m)" arbitrary: m rule: less_induct)
    case less
    then show ?case using stuck_rank [OF f n t, of m] by (meson le_SucI le_trans)
  qed
  then show False by blast
qed

lemma work_antimono:
  assumes f: "fair_run N sched run" "good N D (run 0)" "N * D < MAX_BUFFER_SIZE" and m: "n \<le> m"
  shows "total_work N (run m) \<le> total_work N (run n)"
  using m
proof (induction rule: dec_induct)
  case (step m)
  have "total_work N (run (Suc m)) \<le> total_work N (run m)"
    using calm_step(2) [OF fair_good [OF f, of m] f(3), of "sched m" "run (Suc m)"] f(1) quietD(1) [of "sched m" "run m" "run (Suc m)" N]
    by (auto simp: fair_run_def)
  then show ?case using step by simp
qed simp

lemma fair_finishes:
  assumes f: "fair_run N sched run" "good N D (run 0)" "N * D < MAX_BUFFER_SIZE"
  shows "\<exists>m \<ge> n. \<forall>t. cpc (run m) t = Outside"
proof (induction "total_work N (run n)" arbitrary: n rule: less_induct)
  case less
  show ?case
  proof (cases "\<forall>t. cpc (run n) t = Outside")
    case False
    then obtain m where m: "n \<le> m" "total_work N (run (Suc m)) < total_work N (run m)" using fair_progress [OF f] by blast
    then have "total_work N (run (Suc m)) < total_work N (run n)" using work_antimono [OF f m(1)] by simp
    then show ?thesis using less [of "Suc m"] m(1) by (meson le_SucI le_trans)
  qed blast
qed

section \<open>Example runs\<close>

fun lrun :: "action list \<Rightarrow> server \<Rightarrow> server result option" where
  "lrun [] s = Some (Inr s)"
| "lrun (a # as) s = p_bind (lstep a s) (lrun as)"

lemma reachable_lrun:
  "reachable N D num s \<Longrightarrow> list_all (admitted N D) as \<Longrightarrow> lrun as s = Some (Inr s') \<Longrightarrow> reachable N D num s'"
  by (induction as arbitrary: s) (auto simp: p_bind_eq_Inr intro: reach_step)

lemma loop_simps:
  "MakeGroup_loop l None s = Some (Inr s)" "WriteToLog_loop None s g = Some (Inr g)"
  "WriteToLog_loop (Some w) s g = (if \<not> valid w s then Some (Inl InvalidAccess)
     else p_bind (Some (AppendData (w_data (writers s w)) g)) (WriteToLog_loop (link_older (writers s w)) s))"
  by (subst MakeGroup_loop.simps WriteToLog_loop.simps, simp)+

lemmas step_defs = lstep_def client_step_def server_step_def AddLog_begin_def AddToLink_step_def AddLog_awaited_def AwaitState_poll_def MakeGroup_def
  WriteToLog_def FinishGroup_release_def FinishGroup_next_def GetLeader_step_def Server_exchange_def Server_set_def SetState_load_def SetState_step_def
  SetState_exchange_def write_result_def fdatasync_result_def
  AppendData_def Sync_def LoggingServer_new_def Writer_new_def FSLogWriter_new_def valid_def goal_def loop_simps MAX_BUFFER_SIZE_def Let_def

text \<open>One client appends one record to one log, up to the last step of its call.\<close>

definition one_call :: "action list" where
  "one_call = [Call 0 [7], Client 0 Usual, Serve False, Serve False, Serve False, Serve False, Client 0 Usual, Client 0 Usual, Client 0 Usual, Client 0 Usual]"

lemma one_call_returns:
  "\<exists>s s'. reachable 1 1 1 s \<and> lstep (Client 0 Usual) s = Some (Inr s') \<and> cpc s' 0 = Outside \<and> w_data (writers s 0) = [7]"
proof -
  have "\<exists>s s'. lrun one_call (LoggingServer_new 1) = Some (Inr s) \<and> lstep (Client 0 Usual) s = Some (Inr s') \<and> cpc s' 0 = Outside \<and> w_data (writers s 0) = [7]"
    by (simp add: one_call_def step_defs)
  moreover have "list_all (admitted 1 1) one_call" by (simp add: one_call_def)
  ultimately show ?thesis using reachable_lrun [OF reach_init] by blast
qed

text \<open>Two clients and the server, scheduled in turn.\<close>

fun run_of :: "(nat \<Rightarrow> action) \<Rightarrow> server \<Rightarrow> nat \<Rightarrow> server" where
  "run_of sched s 0 = s"
| "run_of sched s (Suc n) = (case lstep (sched n) (run_of sched s n) of Some (Inr s') \<Rightarrow> s' | _ \<Rightarrow> run_of sched s n)"

definition two_calls :: server where
  "two_calls = AddLog_begin 1 [2] (AddLog_begin 0 [1] (LoggingServer_new 1))"

definition in_turn :: "nat \<Rightarrow> action" where
  "in_turn n = (if n mod 3 = 2 then Serve False else Client (n mod 3) Usual)"

lemma two_calls_reachable: "reachable 2 1 1 two_calls"
proof -
  have "lrun [Call 0 [1], Call 1 [2]] (LoggingServer_new 1) = Some (Inr two_calls)"
    by (simp add: two_calls_def lstep_def AddLog_begin_def LoggingServer_new_def)
  then show ?thesis by (rule reachable_lrun [OF reach_init, rotated]) simp
qed

lemma in_turn_fair: "fair_run 2 in_turn (run_of in_turn two_calls)"
proof -
  let ?run = "run_of in_turn two_calls"
  have b: "(2 :: nat) * 1 < MAX_BUFFER_SIZE" by (simp add: MAX_BUFFER_SIZE_def)
  have st: "stepping (in_turn n) s (case lstep (in_turn n) s of Some (Inr s') \<Rightarrow> s' | _ \<Rightarrow> s)" and
    re: "reachable 2 1 1 (case lstep (in_turn n) s of Some (Inr s') \<Rightarrow> s' | _ \<Rightarrow> s)" if r: "reachable 2 1 1 s" for n s
  proof -
    obtain P G where i: "gc_inv 2 1 s P G" using reachable_inv [OF r b] by blast
    have a: "admitted 2 1 (in_turn n)" "in_turn n \<noteq> Client t (Device z c)" for t z c by (simp_all add: in_turn_def)
    have "\<exists>s'. q = Inr s'" if "lstep (in_turn n) s = Some q" for q using safe_step [OF i b a(1) that] a(2) by (auto simp: safe_result_def device_failure_def)
    then show "stepping (in_turn n) s (case lstep (in_turn n) s of Some (Inr s') \<Rightarrow> s' | _ \<Rightarrow> s)"
      "reachable 2 1 1 (case lstep (in_turn n) s of Some (Inr s') \<Rightarrow> s' | _ \<Rightarrow> s)"
      using r reach_step [OF r a(1)] by (auto simp: stepping_def split: option.splits sum.splits)
  qed
  have "reachable 2 1 1 (?run n)" for n by (induction n) (simp_all add: two_calls_reachable re del: One_nat_def)
  then have "calm (in_turn n) (?run n) \<and> stepping (in_turn n) (?run n) (?run (Suc n))" for n using st by (simp add: calm_def in_turn_def)
  moreover have "in_turn (3 * n + t) = Client t Usual" if "t < 2" for n t using that by (simp add: in_turn_def)
  then have "\<exists>m \<ge> n. \<exists>alt. in_turn m = Client t alt" if "t < 2" for n t using that by (intro exI [of _ "3 * n + t"]) auto
  moreover have "\<exists>m \<ge> n. \<exists>alt. in_turn m = Serve alt" for n
  proof -
    have "in_turn (2 + 3 * n) = Serve False" unfolding in_turn_def by (simp only: mod_mult_self2) simp
    then show ?thesis by (intro exI [of _ "2 + 3 * n"]) auto
  qed
  ultimately show ?thesis by (simp add: fair_run_def)
qed

section \<open>The properties\<close>



text \<open>
  C19. When \<open>AddLog\<close> returns, in the leader or in a writer that was completed by its leader, the record has been written to a log
  and that part of the log has been synced by \<open>fdatasync\<close>. The records of all clients together are below the size of the buffer.
\<close>

theorem AddLog_durable:
  assumes "reachable N D num s" "N * D < MAX_BUFFER_SIZE" "lstep (Client t alt) s = Some (Inr s')" "cpc s' t = Outside"
  shows "durable s' (w_data (writers s t))"
proof -
  obtain P G where i: "gc_inv N D s P G" using reachable_inv [OF assms(1,2)] by blast
  show ?thesis using safe_step [OF i assms(2) _ assms(3)] assms(4) by (auto simp: safe_result_def device_failure_def)
qed

theorem AddLog_durable_witness:
  "\<exists>s s'. lstep (Client 0 Usual) s = Some (Inr s') \<and> cpc s' 0 = Outside \<and> durable s' [7]"
proof -
  obtain s s' where s: "reachable 1 1 1 s" "lstep (Client 0 Usual) s = Some (Inr s')" "cpc s' 0 = Outside" "w_data (writers s 0) = [7]"
    using one_call_returns by blast
  have "(1 :: nat) * 1 < MAX_BUFFER_SIZE" by (simp add: MAX_BUFFER_SIZE_def)
  from AddLog_durable [OF s(1) this s(2,3)] s show ?thesis by auto
qed

text \<open>
  C20. Under a fair scheduler every call of \<open>AddLog\<close> returns: from every state reached with a running server and at least one log,
  if no further calls are made, the exchanges do not fail spuriously and the device works, all clients are eventually outside \<open>AddLog\<close>. In particular no
  wake-up is lost: a thread that waits on its condition variable is only woken by a notification. The records of all clients together are below the size of
  the buffer.
\<close>

theorem group_commit_live:
  assumes "reachable N D num (run 0)" "N * D < MAX_BUFFER_SIZE" "0 < num" "\<not> stop (run 0)" "fair_run N sched run"
  shows "\<exists>n. \<forall>t. cpc (run n) t = Outside"
proof -
  have "good N D (run 0)" using reachable_inv [OF assms(1,2)] reachable_logs [OF assms(1,2)] assms(3,4) by (simp add: good_def)
  from fair_finishes [OF assms(5) this assms(2)] show ?thesis by blast
qed

theorem group_commit_live_witness:
  "\<exists>n. \<forall>t. cpc (run_of in_turn two_calls n) t = Outside"
proof -
  have b: "(2 :: nat) * 1 < MAX_BUFFER_SIZE" by (simp add: MAX_BUFFER_SIZE_def)
  have r: "reachable 2 1 1 (run_of in_turn two_calls 0)" "\<not> stop (run_of in_turn two_calls 0)"
    by (simp add: two_calls_reachable del: One_nat_def) (simp add: two_calls_def AddLog_begin_def LoggingServer_new_def)
  show ?thesis by (rule group_commit_live [OF r(1) b _ r(2) in_turn_fair]) simp
qed

end
