(* ===== verification/Log_Pages.thy ===== *)
theory Log_Pages
  imports Codec
begin

text \<open>
  The page format of the SPDK log: \<open>SPDKLoggingServer::MemCopy\<close> of \<^verbatim>\<open>src/ssdlogging/spdk_logging_server.cc\<close>
  lays the requests of a batch out in pages, \<open>SSDLoggingRecovery::ProcessData\<close> of
  \<^verbatim>\<open>src/ssdlogging/spdk_logging_recovery.cc\<close> reads the records back. A page starts with the number of
  its log file; a record is its sz and its bytes, and continues over as many pages as it needs,
  but its sz is never split.

  A buffer is its list of bytes, and \<open>offset\<close> the index at which the next byte goes; writing behind
  its end is an error. A batch is the list of its requests from the leader along \<open>prev\<close>, a request the
  list of its bytes. \<open>little\<close> is the constant \<open>kLittleEndian\<close>. \<open>MAX_BUFFER_SIZE\<close> is the argument
  \<open>max_buffer\<close>. The pages \<open>page_buffer_\<close> hands out are a list, which ends
  where \<open>Read\<close> returns \<open>nullptr\<close>; the entries \<open>ProcessData\<close> writes to \<open>entry_buffer_\<close> are its result.
\<close>

definition PAGESIZE :: nat where
  "PAGESIZE = 4096"

section \<open>Writing a batch\<close>

record page_cursor =
  pc_buf :: "byte list"
  pc_offset :: nat
  pc_left :: nat

text \<open>\<open>memcpy\<close> and \<open>memset\<close> to \<open>buf + offset\<close>, followed by the advance of \<open>offset\<close> and \<open>left_in_page\<close>.\<close>

definition copy_out :: "byte list \<Rightarrow> page_cursor \<Rightarrow> page_cursor result" where
  "copy_out bs c =
     r_bind (put_bytes (drop (pc_offset c) (pc_buf c)) bs) (\<lambda>b.
     Inr (c\<lparr>pc_buf := take (pc_offset c) (pc_buf c) @ b, pc_offset := pc_offset c + length bs,
       pc_left := pc_left c - length bs\<rparr>))"

definition encode_out :: "bool \<Rightarrow> uint32 \<Rightarrow> page_cursor \<Rightarrow> page_cursor result" where
  "encode_out little v c =
     r_bind (EncodeFixed32 little (drop (pc_offset c) (pc_buf c)) v) (\<lambda>b.
     Inr (c\<lparr>pc_buf := take (pc_offset c) (pc_buf c) @ b, pc_offset := pc_offset c + 4, pc_left := pc_left c - 4\<rparr>))"

definition skip_tail :: "page_cursor \<Rightarrow> page_cursor result" where
  "skip_tail c =
     (if pc_left c < 4 then r_bind (copy_out (replicate (pc_left c) 0) c) (\<lambda>c. Inr (c\<lparr>pc_left := PAGESIZE\<rparr>))
      else Inr c)"

definition begin_page :: "bool \<Rightarrow> uint32 \<Rightarrow> page_cursor \<Rightarrow> page_cursor result" where
  "begin_page little logfile_seq c =
     (if pc_left c = PAGESIZE then encode_out little logfile_seq c else Inr c)"

lemma begin_page_left:
  "begin_page little s c = Inr c' \<Longrightarrow> pc_left c' = (if pc_left c = PAGESIZE then PAGESIZE - 4 else pc_left c)"
  by (auto simp: begin_page_def encode_out_def r_bind_eq_Inr split: if_splits)

text \<open>The loop that copies the data of a request; \<open>rest\<close> are the \<open>size\<close> bytes still to be written.\<close>

function write_data :: "bool \<Rightarrow> uint32 \<Rightarrow> byte list \<Rightarrow> page_cursor \<Rightarrow> page_cursor result" where
  "write_data little logfile_seq rest c =
     (if rest = [] then Inr c
      else (case begin_page little logfile_seq c of
        Inl e \<Rightarrow> Inl e
      | Inr c1 \<Rightarrow>
          if length rest \<le> pc_left c1 then copy_out rest c1
          else (case copy_out (take (pc_left c1) rest) c1 of
            Inl e \<Rightarrow> Inl e
          | Inr c2 \<Rightarrow> write_data little logfile_seq (drop (pc_left c1) rest) (c2\<lparr>pc_left := PAGESIZE\<rparr>))))"
  by pat_completeness auto
termination
  by (relation "measure (\<lambda>(little, s, rest, c). 2 * length rest + (if pc_left c = 0 then 1 else 0))")
    (auto simp: PAGESIZE_def dest!: begin_page_left split: if_splits)

declare write_data.simps [simp del]

fun write_batch :: "bool \<Rightarrow> nat \<Rightarrow> uint32 \<Rightarrow> byte list list \<Rightarrow> page_cursor \<Rightarrow> page_cursor result" where
  "write_batch little max_buffer logfile_seq [] c = Inr c"
| "write_batch little max_buffer logfile_seq (d # ds) c =
     r_assert (pc_offset c + length d + 4 < max_buffer - 4 * (max_buffer div PAGESIZE))
       ''offset + size + 4 < MAX_BUFFER_SIZE - 4 * (MAX_BUFFER_SIZE / PAGESIZE)''
     (r_bind (skip_tail c) (\<lambda>c.
      r_bind (begin_page little logfile_seq c) (\<lambda>c.
      r_bind (encode_out little (of_nat (length d)) c) (\<lambda>c.
      r_bind (write_data little logfile_seq d c) (\<lambda>c.
      write_batch little max_buffer logfile_seq ds c)))))"

definition MemCopy :: "bool \<Rightarrow> nat \<Rightarrow> uint32 \<Rightarrow> byte list list \<Rightarrow> byte list \<Rightarrow> (byte list \<times> nat) result" where
  "MemCopy little max_buffer logfile_seq batch buf =
     r_bind (write_batch little max_buffer logfile_seq batch \<lparr>pc_buf = buf, pc_offset = 0, pc_left = PAGESIZE\<rparr>) (\<lambda>c.
     r_bind (if 0 < pc_left c \<and> pc_left c < PAGESIZE then copy_out (replicate (pc_left c) 0) c else Inr c) (\<lambda>c.
     r_assert (pc_offset c mod PAGESIZE = 0) ''offset % PAGESIZE == 0''
       (Inr (pc_buf c, pc_offset c))))"

section \<open>Reading the records back\<close>

record LogEntry =
  le_data :: "byte list"
  le_size :: uint32
  le_log_tag_seq :: uint32

text \<open>\<open>curr_size\<close> is the number of bytes appended so far.\<close>

definition LogEntry_new :: "uint32 \<Rightarrow> uint32 \<Rightarrow> LogEntry" where
  "LogEntry_new sz seq = \<lparr>le_data = [], le_size = sz, le_log_tag_seq = seq\<rparr>"

definition LogEntry_Append :: "byte list \<Rightarrow> nat \<Rightarrow> LogEntry \<Rightarrow> LogEntry result" where
  "LogEntry_Append ptr sz e =
     r_assert (length (le_data e) + sz \<le> unat (le_size e)) ''curr_size + size <= size_''
     (r_bind (get_bytes ptr sz) (\<lambda>bs. Inr (e\<lparr>le_data := le_data e @ bs\<rparr>)))"

definition LogEntry_Check :: "LogEntry \<Rightarrow> bool" where
  "LogEntry_Check e \<longleftrightarrow> length (le_data e) = unat (le_size e)"

text \<open>Where \<open>ProcessData\<close> reads: the current page, \<open>pos\<close>, \<open>left\<close> and the pages behind it.\<close>

record page_reader =
  pr_page :: "byte list"
  pr_pos :: nat
  pr_left :: nat
  pr_pages :: "byte list list"

definition fresh_page :: "byte list \<Rightarrow> byte list list \<Rightarrow> page_reader" where
  "fresh_page page pages = \<lparr>pr_page = page, pr_pos = 4, pr_left = PAGESIZE - 4, pr_pages = pages\<rparr>"

text \<open>The loop over the pages a record continues on; \<open>r\<close> bytes are missing.\<close>

fun read_rest :: "nat \<Rightarrow> byte list list \<Rightarrow> LogEntry \<Rightarrow> (LogEntry \<times> page_reader) result" where
  "read_rest r [] e = Inl (AssertFailed ''page != nullptr'')"
| "read_rest r (page # pages) e =
     (if r \<le> PAGESIZE - 4 then
        r_bind (LogEntry_Append (drop 4 page) r e) (\<lambda>e.
        r_assert (LogEntry_Check e) ''log_entry->Check()''
          (Inr (e, \<lparr>pr_page = page, pr_pos = 4 + r, pr_left = PAGESIZE - 4 - r, pr_pages = pages\<rparr>)))
      else
        r_bind (LogEntry_Append (drop 4 page) (PAGESIZE - 4) e) (\<lambda>e.
        read_rest (r - (PAGESIZE - 4)) pages e))"

text \<open>The body of a record, \<open>rd\<close> standing behind its sz.\<close>

definition read_entry :: "uint32 \<Rightarrow> uint32 \<Rightarrow> page_reader \<Rightarrow> (LogEntry \<times> page_reader) result" where
  "read_entry sz tag rd =
     (let e = LogEntry_new sz tag; ptr = drop (pr_pos rd) (pr_page rd) in
      if unat sz \<le> pr_left rd then
        r_bind (LogEntry_Append ptr (unat sz) e) (\<lambda>e.
        r_assert (LogEntry_Check e) ''log_entry->Check()''
          (Inr (e, rd\<lparr>pr_pos := pr_pos rd + unat sz, pr_left := pr_left rd - unat sz\<rparr>)))
      else
        r_bind (LogEntry_Append ptr (pr_left rd) e) (\<lambda>e.
        r_assert (pr_pos rd + pr_left rd = PAGESIZE) ''pos == PAGESIZE''
          (read_rest (unat sz - pr_left rd) (pr_pages rd) e)))"

lemma read_rest_pages: "read_rest r pages e = Inr (e', rd') \<Longrightarrow> length (pr_pages rd') < length pages"
  by (induction r pages e rule: read_rest.induct) (force simp: r_bind_eq_Inr r_assert_eq_Inr split: if_splits)+

lemma read_entry_progress:
  assumes "read_entry sz tag rd = Inr (e, rd')"
  shows "length (pr_pages rd') < length (pr_pages rd) \<or>
    pr_pages rd' = pr_pages rd \<and> pr_left rd' \<le> pr_left rd"
  using assms
  by (auto simp: read_entry_def Let_def r_bind_eq_Inr r_assert_eq_Inr dest: read_rest_pages split: if_splits)

text \<open>
  One round of the loop: the number of the log file is read where a round starts at the begin of a
  page, and a page with fewer than 4 bytes left is given up.
\<close>

definition page_tag :: "bool \<Rightarrow> uint32 \<Rightarrow> page_reader \<Rightarrow> uint32 result" where
  "page_tag little log_tag_seq rd =
     (if pr_pos rd = 4 then DecodeFixed32 little (pr_page rd) else Inr log_tag_seq)"

definition next_room :: "page_reader \<Rightarrow> page_reader option" where
  "next_room rd =
     (if pr_left rd < 4 then
        (case pr_pages rd of [] \<Rightarrow> None | page # pages \<Rightarrow> Some (fresh_page page pages))
      else Some rd)"

lemma next_room_progress:
  assumes "next_room rd = Some rd'"
  shows "length (pr_pages rd') < length (pr_pages rd) \<or> rd' = rd \<and> 4 \<le> pr_left rd"
  using assms by (auto simp: next_room_def fresh_page_def split: if_splits list.splits)

function process_entries :: "bool \<Rightarrow> uint32 \<Rightarrow> page_reader \<Rightarrow> LogEntry list \<Rightarrow> LogEntry list result" where
  "process_entries little log_tag_seq rd out =
     (case page_tag little log_tag_seq rd of
        Inl e \<Rightarrow> Inl e
      | Inr tag \<Rightarrow>
     (case next_room rd of
        None \<Rightarrow> Inr out
      | Some rd1 \<Rightarrow>
     (case DecodeFixed32 little (drop (pr_pos rd1) (pr_page rd1)) of
        Inl e \<Rightarrow> Inl e
      | Inr sz \<Rightarrow>
          if sz = 0 then
            (case pr_pages rd1 of
               [] \<Rightarrow> Inr out
             | page # pages \<Rightarrow> process_entries little tag (fresh_page page pages) out)
          else
            (case read_entry sz tag (rd1\<lparr>pr_pos := pr_pos rd1 + 4, pr_left := pr_left rd1 - 4\<rparr>) of
               Inl e \<Rightarrow> Inl e
             | Inr (entry, rd2) \<Rightarrow> process_entries little tag rd2 (out @ [entry])))))"
  by pat_completeness auto
termination
proof (relation "measures [\<lambda>(little, tag, rd, out). length (pr_pages rd), \<lambda>(little, tag, rd, out). pr_left rd]", goal_cases)
  case 1
  show ?case by simp
next
  case (2 little tag0 rd out tag rd1 sz page pages)
  then show ?case by (auto simp: fresh_page_def dest: next_room_progress)
next
  case (3 little tag0 rd out tag rd1 sz p entry rd2)
  then show ?case using read_entry_progress [of sz tag _ entry rd2] next_room_progress [of rd rd1]
    by fastforce
qed

declare process_entries.simps [simp del]

definition ProcessData :: "bool \<Rightarrow> byte list list \<Rightarrow> LogEntry list result" where
  "ProcessData little pages =
     (case pages of [] \<Rightarrow> Inr [] | page # rest \<Rightarrow> process_entries little 0 (fresh_page page rest) [])"

end
