(* ===== verification/Log_Reader.thy ===== *)
theory Log_Reader
  imports Log_Format
begin

text \<open>
  \<open>ProcessData\<close> on the pages of a log. Its input is a sequence of batches, each paginated on its
  own; the lemmas follow the reader through a record, a batch and the sequence.
\<close>

section \<open>Pages\<close>

abbreviation page_texts :: "byte list list \<Rightarrow> byte list" where
  "page_texts pages \<equiv> concat (map (drop 4) pages)"

definition wf_pages :: "byte list list \<Rightarrow> bool" where
  "wf_pages pages \<longleftrightarrow> (\<forall>p \<in> set pages. length p = PAGESIZE)"

lemma wf_pages_simps [simp]:
  "wf_pages []" "wf_pages (p # ps) \<longleftrightarrow> length p = PAGESIZE \<and> wf_pages ps"
  "wf_pages (ps @ qs) \<longleftrightarrow> wf_pages ps \<and> wf_pages qs"
  by (auto simp: wf_pages_def)

lemma length_page_texts: "wf_pages ps \<Longrightarrow> length (page_texts ps) = length ps * page_room"
  by (induction ps) (auto simp: PAGESIZE_room)

lemma pages_of_append: "length p = PAGESIZE \<Longrightarrow> pages_of (p @ bs) = p # pages_of bs"
  by (subst pages_of.simps) (auto simp: PAGESIZE_def)

lemma pages_of_paginate:
  assumes "length tx mod page_room = 0"
  shows "wf_pages (pages_of (paginate s tx)) \<and> page_texts (pages_of (paginate s tx)) = tx \<and>
    (\<forall>p \<in> set (pages_of (paginate s tx)). take 4 p = word_bytes 4 s)"
  using assms
proof (induction s tx rule: paginate.induct)
  case (1 s tx)
  show ?case
  proof (cases "tx = []")
    case False
    then have "page_room \<le> length tx" using "1.prems" by (metis dvd_imp_le length_greater_0_conv mod_0_imp_dvd)
    then have len: "length (word_bytes 4 s @ take page_room tx) = PAGESIZE" and
      mod: "length (drop page_room tx) mod page_room = 0" using "1.prems" by (simp_all add: PAGESIZE_room le_mod_geq)
    have "paginate s tx = (word_bytes 4 s @ take page_room tx) @ paginate s (drop page_room tx)"
      using False by (simp add: paginate.simps [of _ tx])
    then have "pages_of (paginate s tx) = (word_bytes 4 s @ take page_room tx) # pages_of (paginate s (drop page_room tx))"
      using pages_of_append [OF len] by simp
    then show ?thesis using "1.IH" [OF False mod] len by simp
  qed (simp add: pages_of.simps)
qed

section \<open>A record\<close>

text \<open>
  The reader stands in front of the text \<open>tx\<close>, which ends with a page; behind it are the pages \<open>later\<close>.
\<close>

definition reads :: "page_reader \<Rightarrow> byte list \<Rightarrow> byte list list \<Rightarrow> bool" where
  "reads rd tx later \<longleftrightarrow> length (pr_page rd) = PAGESIZE \<and> 4 \<le> pr_pos rd \<and> pr_pos rd + pr_left rd = PAGESIZE \<and>
     (\<exists>pages. pr_pages rd = pages @ later \<and> wf_pages pages \<and> tx = drop (pr_pos rd) (pr_page rd) @ page_texts pages)"

lemma get_bytes_ok: "n \<le> length b \<Longrightarrow> get_bytes b n = Inr (take n b)"
  by (simp add: get_bytes_def)

lemma read_rest_reads:
  assumes "wf_pages pages" "0 < r" "r \<le> length (page_texts pages)" "length (le_data e) + r = unat (le_size e)"
  shows "\<exists>rd. read_rest r (pages @ later) e = Inr (e\<lparr>le_data := le_data e @ take r (page_texts pages)\<rparr>, rd) \<and>
    reads rd (drop r (page_texts pages)) later \<and> pr_pos rd \<noteq> 4"
  using assms
proof (induction pages arbitrary: r e)
  case (Cons p ps)
  have len: "length (drop 4 p) = PAGESIZE - 4" using Cons.prems by simp
  show ?case
  proof (cases "r \<le> PAGESIZE - 4")
    case True
    let ?rd = "\<lparr>pr_page = p, pr_pos = 4 + r, pr_left = PAGESIZE - 4 - r, pr_pages = ps @ later\<rparr>"
    have "read_rest r ((p # ps) @ later) e = Inr (e\<lparr>le_data := le_data e @ take r (drop 4 p)\<rparr>, ?rd)"
      using True Cons.prems len by (simp add: LogEntry_Append_def LogEntry_Check_def get_bytes_ok)
    moreover have "reads ?rd (drop r (page_texts (p # ps))) later" using True Cons.prems len
      by (auto simp: reads_def PAGESIZE_room add.commute)
    ultimately show ?thesis using True len Cons.prems(2) by auto
  next
    case False
    let ?e = "e\<lparr>le_data := le_data e @ drop 4 p\<rparr>"
    have "read_rest r ((p # ps) @ later) e = read_rest (r - (PAGESIZE - 4)) (ps @ later) ?e"
      using False Cons.prems len by (simp add: LogEntry_Append_def get_bytes_ok)
    with Cons.IH [of "r - (PAGESIZE - 4)" ?e] Cons.prems False len show ?thesis by auto
  qed
qed simp

definition entry_of :: "uint32 \<Rightarrow> byte list \<Rightarrow> LogEntry" where
  "entry_of tag d = \<lparr>le_data = d, le_size = of_nat (length d), le_log_tag_seq = tag\<rparr>"

lemma split_front:
  assumes "a @ tx = b @ c" "length a \<le> length b"
  shows "\<exists>z. a @ z = b \<and> tx = z @ c"
  using assms by (auto simp: append_eq_append_conv2)

lemma reads_skip:
  assumes "reads rd (a @ tx) later" "length a \<le> pr_left rd"
  shows "reads (rd\<lparr>pr_pos := pr_pos rd + length a, pr_left := pr_left rd - length a\<rparr>) tx later \<and>
    (\<exists>z. drop (pr_pos rd) (pr_page rd) = a @ z)"
proof -
  obtain pages where rd: "length (pr_page rd) = PAGESIZE" "pr_pos rd + pr_left rd = PAGESIZE" "4 \<le> pr_pos rd"
    "pr_pages rd = pages @ later" "wf_pages pages" "a @ tx = drop (pr_pos rd) (pr_page rd) @ page_texts pages"
    using assms(1) by (auto simp: reads_def)
  have "length a \<le> length (drop (pr_pos rd) (pr_page rd))" using rd(1,2) assms(2) by simp
  with split_front [OF rd(6)] obtain z where z: "a @ z = drop (pr_pos rd) (pr_page rd)" "tx = z @ page_texts pages" by blast
  have "drop (pr_pos rd + length a) (pr_page rd) = z" using z(1) by (metis add.commute append_eq_conv_conj drop_drop)
  with rd assms(2) z show ?thesis by (auto simp: reads_def intro!: exI [of _ z])
qed

lemma read_entry_reads:
  assumes "reads rd (d @ tx) later" "d \<noteq> []" "length d < 2 ^ 32" "4 < pr_pos rd"
  shows "\<exists>rd'. read_entry (of_nat (length d)) tag rd = Inr (entry_of tag d, rd') \<and> reads rd' tx later \<and> pr_pos rd' \<noteq> 4"
proof -
  obtain pages where rd: "length (pr_page rd) = PAGESIZE" "pr_pos rd + pr_left rd = PAGESIZE"
    "pr_pages rd = pages @ later" "wf_pages pages" "d @ tx = drop (pr_pos rd) (pr_page rd) @ page_texts pages"
    using assms(1) by (auto simp: reads_def)
  have n: "unat (of_nat (length d) :: uint32) = length d" using assms(3) by (simp add: unat_of_nat take_bit_nat_eq_self)
  have len: "length (drop (pr_pos rd) (pr_page rd)) = pr_left rd" using rd by simp
  show ?thesis
  proof (cases "length d \<le> pr_left rd")
    case True
    from reads_skip [OF assms(1) this] obtain z where
      z: "reads (rd\<lparr>pr_pos := pr_pos rd + length d, pr_left := pr_left rd - length d\<rparr>) tx later"
        "drop (pr_pos rd) (pr_page rd) = d @ z" by blast
    have "read_entry (of_nat (length d)) tag rd = Inr (entry_of tag d,
        rd\<lparr>pr_pos := pr_pos rd + length d, pr_left := pr_left rd - length d\<rparr>)"
      using True n z(2) len by (simp add: read_entry_def Let_def LogEntry_Append_def LogEntry_Check_def LogEntry_new_def get_bytes_ok entry_of_def)
    with z(1) show ?thesis using assms(4) by auto
  next
    case False
    let ?a = "drop (pr_pos rd) (pr_page rd)" and ?r = "length d - pr_left rd"
    define z where "z = drop (pr_left rd) d"
    have "take (pr_left rd) d = ?a" "page_texts pages = z @ tx"
      using arg_cong [OF rd(5), of "take (pr_left rd)"] arg_cong [OF rd(5), of "drop (pr_left rd)"] False len
      by (simp_all add: z_def)
    then have z: "d = ?a @ z" "page_texts pages = z @ tx" by (metis append_take_drop_id z_def, simp)
    let ?e = "\<lparr>le_data = ?a, le_size = of_nat (length d), le_log_tag_seq = tag\<rparr> :: LogEntry"
    have r: "?r = length z" using z(1) len by (metis add_diff_cancel_left' length_append)
    have "read_entry (of_nat (length d)) tag rd = read_rest ?r (pages @ later) ?e"
      using False n len rd(2,3) by (simp add: read_entry_def Let_def LogEntry_Append_def LogEntry_new_def get_bytes_ok)
    moreover have "\<exists>rd'. read_rest ?r (pages @ later) ?e = Inr (?e\<lparr>le_data := le_data ?e @ take ?r (page_texts pages)\<rparr>, rd') \<and>
      reads rd' (drop ?r (page_texts pages)) later \<and> pr_pos rd' \<noteq> 4"
      by (rule read_rest_reads [OF rd(4)]) (use False n len z(2) r in auto)
    ultimately show ?thesis using z r by (auto simp: entry_of_def)
  qed
qed

text \<open>The round of the loop behind the choice of the tag and of the page.\<close>

definition read_round :: "bool \<Rightarrow> uint32 \<Rightarrow> page_reader \<Rightarrow> LogEntry list \<Rightarrow> LogEntry list result" where
  "read_round little tag rd out =
     (case DecodeFixed32 little (drop (pr_pos rd) (pr_page rd)) of
        Inl e \<Rightarrow> Inl e
      | Inr sz \<Rightarrow>
          if sz = 0 then
            (case pr_pages rd of
               [] \<Rightarrow> Inr out
             | page # pages \<Rightarrow> process_entries little tag (fresh_page page pages) out)
          else
            (case read_entry sz tag (rd\<lparr>pr_pos := pr_pos rd + 4, pr_left := pr_left rd - 4\<rparr>) of
               Inl e \<Rightarrow> Inl e
             | Inr (entry, rd2) \<Rightarrow> process_entries little tag rd2 (out @ [entry])))"

lemma process_entries_round:
  "process_entries little t rd out =
     (case page_tag little t rd of Inl e \<Rightarrow> Inl e | Inr tag \<Rightarrow>
     (case next_room rd of None \<Rightarrow> Inr out | Some rd1 \<Rightarrow> read_round little tag rd1 out))"
  by (subst process_entries.simps) (simp only: read_round_def)

lemma Decode_front:
  "DecodeFixed32 little (word_bytes 4 v @ bs) = Inr v"
  by (simp add: Decode32_branches get_bytes_def bytes_word_word_bytes)

lemma round_record:
  assumes "reads rd (record_text d @ tx) later" "4 \<le> pr_left rd" "d \<noteq> []" "length d < 2 ^ 32"
  shows "\<exists>rd'. read_round little tag rd out = process_entries little tag rd' (out @ [entry_of tag d]) \<and>
    reads rd' tx later \<and> pr_pos rd' \<noteq> 4"
proof -
  let ?n = "of_nat (length d) :: uint32" and ?rd = "rd\<lparr>pr_pos := pr_pos rd + 4, pr_left := pr_left rd - 4\<rparr>"
  have "reads rd (word_bytes 4 ?n @ d @ tx) later" using assms(1) by (simp add: record_text_def)
  from reads_skip [OF this] assms(2) obtain z where
    rd: "reads ?rd (d @ tx) later" "drop (pr_pos rd) (pr_page rd) = word_bytes 4 ?n @ z" by auto
  have "unat ?n = length d" using assms(4) by (simp add: unat_of_nat take_bit_nat_eq_self)
  then have n: "?n \<noteq> 0" using assms(3) by (metis length_0_conv unat_eq_zero)
  have "4 < pr_pos ?rd" using assms(1) by (simp add: reads_def)
  from read_entry_reads [OF rd(1) assms(3,4) this, of tag] n rd(2) show ?thesis
    by (auto simp: read_round_def Decode_front)
qed

lemma reads_left:
  assumes "reads rd tx later" "pr_pos rd \<noteq> 4"
  shows "pr_left rd = length tx mod page_room \<and> (length tx < page_room \<longrightarrow> pr_pages rd = later)"
proof -
  obtain pages where rd: "length (pr_page rd) = PAGESIZE" "pr_pos rd + pr_left rd = PAGESIZE" "4 \<le> pr_pos rd"
    "pr_pages rd = pages @ later" "wf_pages pages" "tx = drop (pr_pos rd) (pr_page rd) @ page_texts pages"
    using assms(1) by (auto simp: reads_def)
  then have len: "length tx = pr_left rd + length pages * page_room" "pr_left rd < page_room"
    using assms(2) by (auto simp: length_page_texts PAGESIZE_room)
  then have "length tx mod page_room = pr_left rd" by simp
  moreover have "pr_pages rd = later" if "length tx < page_room" using rd(4) len that by (cases pages) auto
  ultimately show ?thesis by simp
qed

text \<open>A page with fewer than 4 bytes left, in front of the pages the text continues on.\<close>

lemma next_room_pop:
  assumes "reads rd (a @ tx) later" "length a = pr_left rd" "pr_left rd < 4" "tx \<noteq> []"
  shows "\<exists>rd'. next_room rd = Some rd' \<and> reads rd' tx later \<and> 4 \<le> pr_left rd'"
proof -
  obtain pages where rd: "length (pr_page rd) = PAGESIZE" "pr_pos rd + pr_left rd = PAGESIZE" "4 \<le> pr_pos rd"
    "pr_pages rd = pages @ later" "wf_pages pages" "a @ tx = drop (pr_pos rd) (pr_page rd) @ page_texts pages"
    using assms(1) by (auto simp: reads_def)
  have "length a = length (drop (pr_pos rd) (pr_page rd))" using rd(1,2) assms(2) by simp
  with rd(6) have "tx = page_texts pages" by simp
  with assms(4) obtain p ps where "pages = p # ps" by (cases pages) auto
  with rd \<open>tx = page_texts pages\<close> assms(3) show ?thesis
    by (auto simp: next_room_def fresh_page_def reads_def PAGESIZE_def)
qed

section \<open>A batch\<close>

text \<open>What follows a batch: where fewer than 4 bytes are left, the next page is taken without a look at its head.\<close>

definition ends_page :: "nat \<Rightarrow> bool" where
  "ends_page n \<longleftrightarrow> length (padding n) < 4"

definition after_batch :: "bool \<Rightarrow> uint32 \<Rightarrow> bool \<Rightarrow> byte list list \<Rightarrow> LogEntry list \<Rightarrow> LogEntry list result" where
  "after_batch little tag stale later out =
     (case later of
        [] \<Rightarrow> Inr out
      | p # ps \<Rightarrow>
          if stale then read_round little tag (fresh_page p ps) out
          else process_entries little tag (fresh_page p ps) out)"

abbreviation storable :: "byte list \<Rightarrow> bool" where
  "storable d \<equiv> d \<noteq> [] \<and> length d < 2 ^ 32"

lemma record_text_ne [simp]: "record_text d \<noteq> []"
  by (simp flip: length_greater_0_conv)

lemma padding_read:
  assumes "reads rd (padding n) later" "pr_pos rd \<noteq> 4"
  shows "process_entries little tag rd out = after_batch little tag (ends_page n) later out"
proof -
  have "length (padding n) < page_room" by (simp add: padding_def)
  with reads_left [OF assms] have left: "pr_left rd = length (padding n)" "pr_pages rd = later" by auto
  show ?thesis
  proof (cases "ends_page n")
    case True
    then have "next_room rd = (case later of [] \<Rightarrow> None | p # ps \<Rightarrow> Some (fresh_page p ps))"
      using left by (simp add: ends_page_def next_room_def)
    then show ?thesis using True assms(2)
      by (simp add: process_entries_round [of _ _ rd] page_tag_def after_batch_def split: list.split)
  next
    case False
    then have k: "4 \<le> length (padding n)" by (simp add: ends_page_def)
    then have "take 4 (padding n) = replicate 4 0" by (simp add: padding_def)
    also have "\<dots> = word_bytes 4 (0 :: uint32)" by (simp add: word_bytes_def map_replicate_const)
    finally have "padding n = word_bytes 4 (0 :: uint32) @ drop 4 (padding n)" by (metis append_take_drop_id)
    with assms(1) have "reads rd (word_bytes 4 (0 :: uint32) @ drop 4 (padding n)) later" by simp
    from reads_skip [OF this] k left obtain z where "drop (pr_pos rd) (pr_page rd) = word_bytes 4 (0 :: uint32) @ z" by auto
    then show ?thesis using False k left assms(2)
      by (simp add: process_entries_round [of _ _ rd] page_tag_def next_room_def after_batch_def read_round_def [of _ _ rd]
          Decode_front split: list.split)
  qed
qed

lemma mod_sum_zero: "(a + b) mod q = 0 \<Longrightarrow> a < q \<Longrightarrow> b < q \<Longrightarrow> a + b = 0 \<or> a + b = (q :: nat)"
  by (cases "a + b < q") (auto simp: not_less le_mod_geq)

lemma gap_left:
  assumes "(n + m) mod page_room = 0"
  shows "if m mod page_room < 4 then length (gap n) = m mod page_room else gap n = []"
proof -
  let ?a = "n mod page_room" and ?m = "m mod page_room"
  have "(?a + ?m) mod page_room = 0" using assms by (simp add: mod_add_eq)
  moreover have "?a < page_room" "?m < page_room" by simp_all
  ultimately have "?a + ?m = 0 \<or> ?a + ?m = page_room"
    by (rule mod_sum_zero)
  then show ?thesis by (auto simp: gap_def Let_def)
qed

lemma batch_read:
  assumes "reads rd (batch_body n ds @ padding (n + length (batch_body n ds))) later" "pr_pos rd \<noteq> 4" "list_all storable ds"
  shows "process_entries little tag rd out =
    after_batch little tag (ends_page (n + length (batch_body n ds))) later (out @ map (entry_of tag) ds)"
  using assms
proof (induction ds arbitrary: n rd out)
  case Nil
  then show ?case using padding_read by simp
next
  case (Cons d ds)
  let ?n = "n + length (gap n) + length (record_text d)"
  let ?rest = "batch_body ?n ds @ padding (?n + length (batch_body ?n ds))"
  have tx: "reads rd (gap n @ record_text d @ ?rest) later" using Cons.prems(1) by (simp add: add.assoc)
  have "(n + length (gap n @ record_text d @ ?rest)) mod page_room = 0"
    using padded_multiple [of "?n + length (batch_body ?n ds)"] by (simp add: add.assoc)
  note g = gap_left [OF this]
  note l = conjunct1 [OF reads_left [OF tx Cons.prems(2)]]
  have "\<exists>rd1. next_room rd = Some rd1 \<and> reads rd1 (record_text d @ ?rest) later \<and> 4 \<le> pr_left rd1"
  proof (cases "pr_left rd < 4")
    case True
    then show ?thesis using g l by (intro next_room_pop [OF tx]) simp_all
  next
    case False
    then show ?thesis using g l tx by (auto simp: next_room_def)
  qed
  then obtain rd1 where rd1: "next_room rd = Some rd1" "reads rd1 (record_text d @ ?rest) later" "4 \<le> pr_left rd1" by blast
  from round_record [OF rd1(2,3), of little tag out] Cons.prems(3) obtain rd2 where
    rd2: "read_round little tag rd1 out = process_entries little tag rd2 (out @ [entry_of tag d])"
      "reads rd2 ?rest later" "pr_pos rd2 \<noteq> 4" by auto
  show ?case using Cons.IH [OF rd2(2,3)] rd1(1) rd2(1) Cons.prems(2,3)
    by (simp add: process_entries_round [of _ _ rd] page_tag_def add.assoc)
qed

section \<open>A sequence of batches\<close>

text \<open>A batch with the number of its log file, and its pages on the device.\<close>

type_synonym batch = "uint32 \<times> byte list list"

definition batch_pages :: "batch \<Rightarrow> byte list list" where
  "batch_pages b = pages_of (paginate (fst b) (batch_text (snd b)))"

definition well_formed_batch :: "batch \<Rightarrow> bool" where
  "well_formed_batch b \<longleftrightarrow> snd b \<noteq> [] \<and> list_all storable (snd b)"

text \<open>
  The entries that are read back. All entries of a batch get one tag: the number of the log file
  of the batch, or the tag of the batch in front of it if that one ends at the end of a page.
\<close>

definition batch_fills_page :: "byte list list \<Rightarrow> bool" where
  "batch_fills_page ds \<longleftrightarrow> ends_page (length (batch_body 0 ds))"

fun recovered :: "uint32 option \<Rightarrow> batch list \<Rightarrow> LogEntry list" where
  "recovered stale [] = []"
| "recovered stale ((s, ds) # bs) =
     (let tag = (case stale of Some t \<Rightarrow> t | None \<Rightarrow> s)
      in map (entry_of tag) ds @ recovered (if batch_fills_page ds then Some tag else None) bs)"

lemma batch_pages_ok:
  assumes "well_formed_batch (s, ds)"
  obtains p ps where "batch_pages (s, ds) = p # ps" "wf_pages (p # ps)" "page_texts (p # ps) = batch_text ds"
    "take 4 p = word_bytes 4 s"
proof -
  have "length (batch_text ds) mod page_room = 0" by (simp add: batch_text_def padded_multiple)
  note ok = pages_of_paginate [OF this, of s]
  have "batch_text ds \<noteq> []" using assms by (cases ds) (auto simp: well_formed_batch_def batch_text_def)
  with ok have "pages_of (paginate s (batch_text ds)) \<noteq> []" by auto
  then show ?thesis using that ok by (cases "pages_of (paginate s (batch_text ds))") (auto simp: batch_pages_def)
qed

lemma first_round:
  assumes "well_formed_batch (s, ds)" "batch_pages (s, ds) = p # ps"
  shows "read_round little tag (fresh_page p (ps @ later)) out =
    after_batch little tag (batch_fills_page ds) later (out @ map (entry_of tag) ds)"
proof -
  from batch_pages_ok [OF assms(1)] assms(2)
  have p: "wf_pages (p # ps)" "page_texts (p # ps) = batch_text ds" by auto
  obtain d ds' where ds: "ds = d # ds'" using assms(1) by (cases ds) (auto simp: well_formed_batch_def)
  let ?n = "length (record_text d)" and ?rd = "fresh_page p (ps @ later)"
  let ?rest = "batch_body ?n ds' @ padding (?n + length (batch_body ?n ds'))"
  have "reads ?rd (record_text d @ ?rest) later"
    using p ds by (auto simp: reads_def fresh_page_def batch_text_def PAGESIZE_room)
  from round_record [OF this, of little tag out] assms(1) ds obtain rd where
    "read_round little tag ?rd out = process_entries little tag rd (out @ [entry_of tag d])" "reads rd ?rest later" "pr_pos rd \<noteq> 4"
    by (auto simp: well_formed_batch_def fresh_page_def PAGESIZE_def)
  with batch_read [of rd ?n ds' later little tag] assms(1) ds show ?thesis
    by (simp add: well_formed_batch_def batch_fills_page_def)
qed

lemma process_fresh:
  assumes "take 4 p = word_bytes 4 s"
  shows "process_entries little t (fresh_page p ps) out = read_round little s (fresh_page p ps) out"
proof -
  have "p = word_bytes 4 s @ drop 4 p" using assms by (metis append_take_drop_id)
  then have "DecodeFixed32 little p = Inr s" by (metis Decode_front)
  then have "page_tag little t (fresh_page p ps) = Inr s" "next_room (fresh_page p ps) = Some (fresh_page p ps)"
    by (simp_all add: page_tag_def next_room_def fresh_page_def PAGESIZE_def)
  then show ?thesis by (subst process_entries_round) simp
qed

lemma batches_read:
  assumes "list_all well_formed_batch bs"
  shows "after_batch little tag stale (concat (map batch_pages bs)) out =
    Inr (out @ recovered (if stale then Some tag else None) bs)"
  using assms
proof (induction bs arbitrary: tag stale out)
  case (Cons b bs)
  obtain s ds where b: "b = (s, ds)" by fastforce
  then have wf: "well_formed_batch (s, ds)" using Cons.prems by simp
  from batch_pages_ok [OF wf] obtain p ps where p: "batch_pages (s, ds) = p # ps" "take 4 p = word_bytes 4 s" .
  let ?t = "if stale then tag else s"
  have "after_batch little tag stale (concat (map batch_pages (b # bs))) out =
    read_round little ?t (fresh_page p (ps @ concat (map batch_pages bs))) out"
    using p by (simp add: b after_batch_def process_fresh)
  also have "\<dots> = after_batch little ?t (batch_fills_page ds) (concat (map batch_pages bs)) (out @ map (entry_of ?t) ds)"
    by (rule first_round [OF wf p(1)])
  finally show ?case using Cons.IH Cons.prems by (simp add: b Let_def)
qed (simp add: after_batch_def)

lemma ProcessData_reads:
  assumes "list_all well_formed_batch bs"
  shows "ProcessData little (concat (map batch_pages bs)) = Inr (recovered None bs)"
  using batches_read [OF assms, of little 0 False "[]"]
  by (simp add: ProcessData_def after_batch_def cong: list.case_cong)

end
