(* ===== verification/Log_Files.thy ===== *)
theory Log_Files
  imports Log_Reader
begin

text \<open>
  The log files on the device: \<open>SPDKLoggingServer\<close> (\<^verbatim>\<open>src/ssdlogging/spdk_logging_server.cc\<close>) appends the
  batches of requests behind each other and keeps the list of the log files in page 0,
  \<open>SSDLoggingRecovery\<close> (\<^verbatim>\<open>src/ssdlogging/spdk_logging_recovery.cc\<close>) reads it all back.

  The NVMe device is a parameter: \<open>dev_write d lsn n bs\<close> stores \<open>n\<close> sectors, \<open>dev_read d lsn n\<close> reads
  them. A write command reads its buffer when the device executes it, which is when its callback
  sets the completion flag: \<open>in_flight\<close> holds the place and the number of sectors of the command of a
  queue pair, and the flag of the pair is true if there is none. The state of a server thread is in
  the part of \<open>leaders\<close> and \<open>in_flight\<close> that belongs to its queue pairs. \<open>completed\<close> are the requests handed to
  \<open>completion_queue\<close>, \<open>submission_queue\<close> the list from the newest request along \<open>prev\<close>.
\<close>

section \<open>The device\<close>

record 'd nvme_ops =
  dev_write :: "'d \<Rightarrow> nat \<Rightarrow> nat \<Rightarrow> byte list \<Rightarrow> 'd"
  dev_read :: "'d \<Rightarrow> nat \<Rightarrow> nat \<Rightarrow> byte list"
  sector_size :: nat

definition page_sectors :: "'d nvme_ops \<Rightarrow> nat" where
  "page_sectors nv = PAGESIZE div sector_size nv"

definition page_at :: "'d nvme_ops \<Rightarrow> 'd \<Rightarrow> nat \<Rightarrow> byte list" where
  "page_at nv d lpn = dev_read nv d (lpn * page_sectors nv) (page_sectors nv)"

section \<open>The logging server\<close>

definition MAX_LPN_FOR_LOGGING :: uint64 where
  "MAX_LPN_FOR_LOGGING = push_bit 20 2"

definition LOGGING_START_LPN :: uint64 where
  "LOGGING_START_LPN = 1"

definition BUFFER_SIZE :: nat where
  "BUFFER_SIZE = 4096 * 1024"

record Log =
  log_seq :: uint32
  start_lpn :: uint64
  end_lpn :: uint64
  log_bytes :: uint64

definition Log_new :: "uint32 \<Rightarrow> uint64 \<Rightarrow> Log" where
  "Log_new seq start = \<lparr>log_seq = seq, start_lpn = start, end_lpn = 0, log_bytes = 0\<rparr>"

definition Log_Add :: "uint64 \<Rightarrow> Log \<Rightarrow> Log" where
  "Log_Add n l = l\<lparr>log_bytes := log_bytes l + n\<rparr>"

record 'd SPDKLoggingServer =
  alive_log_files :: "Log list"
  current_offset :: uint64
  submission_queue :: "byte list list"
  logfile_seq :: uint32
  log_size :: uint64
  base_log_tag_seq :: uint32
  metadata :: "byte list"
  total_log_written :: uint64
  buffers :: "byte list list"
  leaders :: "byte list list option list"
  in_flight :: "(nat \<times> nat) option list"
  completed :: "byte list list"
  device :: 'd

definition SPDKLoggingServer_new :: "nat \<Rightarrow> nat \<Rightarrow> 'd \<Rightarrow> 'd SPDKLoggingServer result" where
  "SPDKLoggingServer_new log_num server_num d =
     (if server_num = 0 then Inl DivByZero
      else r_assert (log_num mod server_num = 0) ''logs_num_ % server_num == 0''
        (Inr \<lparr>alive_log_files = [], current_offset = LOGGING_START_LPN, submission_queue = [], logfile_seq = 0,
           log_size = 0, base_log_tag_seq = 110000, metadata = replicate PAGESIZE 0, total_log_written = 0,
           buffers = replicate log_num (replicate BUFFER_SIZE 0), leaders = replicate log_num None,
           in_flight = replicate log_num None, completed = [], device = d\<rparr>))"

definition AddLog :: "byte list \<Rightarrow> 'd SPDKLoggingServer \<Rightarrow> 'd SPDKLoggingServer result" where
  "AddLog data s =
     (if alive_log_files s = [] then Inl InvalidAccess
      else let n = of_nat (length data) in
        Inr (s\<lparr>log_size := log_size s + n,
          alive_log_files := butlast (alive_log_files s) @ [Log_Add n (last (alive_log_files s))],
          submission_queue := data # submission_queue s,
          total_log_written := total_log_written s + n\<rparr>))"

definition AddSize :: "uint64 \<Rightarrow> 'd SPDKLoggingServer \<Rightarrow> 'd SPDKLoggingServer result" where
  "AddSize n s =
     (if alive_log_files s = [] then Inl InvalidAccess
      else Inr (s\<lparr>log_size := log_size s + n,
        alive_log_files := butlast (alive_log_files s) @ [Log_Add n (last (alive_log_files s))]\<rparr>))"

definition SPDKWrite :: "'d nvme_ops \<Rightarrow> nat \<Rightarrow> nat \<Rightarrow> 'd SPDKLoggingServer \<Rightarrow> 'd SPDKLoggingServer result" where
  "SPDKWrite nv n queue_id s =
     r_assert (n mod PAGESIZE = 0) ''size % PAGESIZE == 0''
     (if sector_size nv = 0 then Inl DivByZero
      else
        let sector_num = n div sector_size nv;
          page_num = n div PAGESIZE;
          lpn = current_offset s;
          lsn = unat lpn * page_sectors nv;
          off = lpn + of_nat page_num;
          off' = (if MAX_LPN_FOR_LOGGING < off then LOGGING_START_LPN else off) in
        r_assert (0 < sector_num) ''sector_num > 0''
        (r_assert (in_flight s ! queue_id = None) ''*flag''
          (Inr (s\<lparr>current_offset := off', in_flight := (in_flight s)[queue_id := Some (lsn, sector_num)]\<rparr>))))"

text \<open>One round of the loop of a server thread: it sends a batch, then looks at the commands it has sent.\<close>

definition server_send :: "'d nvme_ops \<Rightarrow> bool \<Rightarrow> nat \<Rightarrow> nat \<Rightarrow> nat \<Rightarrow> 'd SPDKLoggingServer \<Rightarrow> 'd SPDKLoggingServer result" where
  "server_send nv little max_buffer serverid pipeline_num s =
     (case find (\<lambda>i. leaders s ! (i + serverid * pipeline_num) = None) [0..<pipeline_num] of
        None \<Rightarrow> Inr s
      | Some log_num \<Rightarrow>
          (case submission_queue s of
             [] \<Rightarrow> Inr s
           | leader # prev \<Rightarrow>
               let queue_id = log_num + serverid * pipeline_num; batch = leader # prev in
               if length (buffers s) \<le> queue_id then Inl OutOfRange
               else
                 r_bind (MemCopy little max_buffer (logfile_seq s) batch (buffers s ! queue_id)) (\<lambda>(buf, n).
                 SPDKWrite nv n queue_id
                   (s\<lparr>submission_queue := [], leaders := (leaders s)[queue_id := Some batch],
                      buffers := (buffers s)[queue_id := buf]\<rparr>))))"

text \<open>The device executes the command of a queue pair; then the thread sees its flag and completes the batch.\<close>

definition complete_io :: "'d nvme_ops \<Rightarrow> nat \<Rightarrow> 'd SPDKLoggingServer \<Rightarrow> 'd SPDKLoggingServer" where
  "complete_io nv queue_id s =
     (case in_flight s ! queue_id of
        None \<Rightarrow> s
      | Some (lsn, n) \<Rightarrow>
          s\<lparr>device := dev_write nv (device s) lsn n (buffers s ! queue_id),
            in_flight := (in_flight s)[queue_id := None]\<rparr>)"

definition check_completion :: "'d nvme_ops \<Rightarrow> nat list \<Rightarrow> nat \<Rightarrow> 'd SPDKLoggingServer \<Rightarrow> 'd SPDKLoggingServer" where
  "check_completion nv executed queue_id s =
     (case leaders s ! queue_id of
        None \<Rightarrow> s
      | Some batch \<Rightarrow>
          let s = (if queue_id \<in> set executed then complete_io nv queue_id s else s) in
          if in_flight s ! queue_id = None
          then s\<lparr>leaders := (leaders s)[queue_id := None], completed := completed s @ batch\<rparr>
          else s)"

definition Server :: "'d nvme_ops \<Rightarrow> bool \<Rightarrow> nat \<Rightarrow> nat list \<Rightarrow> nat \<Rightarrow> nat \<Rightarrow> 'd SPDKLoggingServer \<Rightarrow> 'd SPDKLoggingServer result" where
  "Server nv little max_buffer executed serverid pipeline_num s =
     r_bind (server_send nv little max_buffer serverid pipeline_num s) (\<lambda>s.
     Inr (fold (check_completion nv executed) (map (\<lambda>i. i + serverid * pipeline_num) [0..<pipeline_num]) s))"

section \<open>The list of log files\<close>

definition put32 :: "bool \<Rightarrow> nat \<Rightarrow> uint32 \<Rightarrow> byte list \<Rightarrow> byte list result" where
  "put32 little off v buf = r_bind (EncodeFixed32 little (drop off buf) v) (\<lambda>b. Inr (take off buf @ b))"

definition put64 :: "bool \<Rightarrow> nat \<Rightarrow> uint64 \<Rightarrow> byte list \<Rightarrow> byte list result" where
  "put64 little off v buf = r_bind (EncodeFixed64 little (drop off buf) v) (\<lambda>b. Inr (take off buf @ b))"

fun put_logs :: "bool \<Rightarrow> nat \<Rightarrow> Log list \<Rightarrow> byte list \<Rightarrow> byte list result" where
  "put_logs little off [] buf = Inr buf"
| "put_logs little off (l # ls) buf =
     r_bind (put32 little off (log_seq l) buf) (\<lambda>buf.
     r_bind (put64 little (off + 4) (start_lpn l) buf) (\<lambda>buf.
     r_bind (put64 little (off + 12) (end_lpn l) buf) (\<lambda>buf.
     put_logs little (off + 20) ls buf)))"

definition WriteMetadata :: "'d nvme_ops \<Rightarrow> bool \<Rightarrow> 'd SPDKLoggingServer \<Rightarrow> 'd SPDKLoggingServer result" where
  "WriteMetadata nv little s =
     r_bind (put32 little 0 (base_log_tag_seq s) (metadata s)) (\<lambda>md.
     r_bind (put32 little 4 (of_nat (length (alive_log_files s))) md) (\<lambda>md.
     r_bind (put_logs little 8 (alive_log_files s) md) (\<lambda>md.
     Inr (s\<lparr>metadata := md, device := dev_write nv (device s) 0 (page_sectors nv) md\<rparr>))))"

definition CreateWAL :: "'d nvme_ops \<Rightarrow> bool \<Rightarrow> uint32 \<Rightarrow> 'd SPDKLoggingServer \<Rightarrow> 'd SPDKLoggingServer result" where
  "CreateWAL nv little log_file_num s =
     r_bind
       (if alive_log_files s = [] then Inr s
        else
          r_assert (log_seq (last (alive_log_files s)) = logfile_seq s) ''alive_log_files_.back().seq == logfile_seq_''
          (r_assert (1 < current_offset s) ''current_offset > 1''
            (Inr (s\<lparr>alive_log_files := butlast (alive_log_files s) @
               [(last (alive_log_files s))\<lparr>end_lpn := current_offset s - 1\<rparr>]\<rparr>)))) (\<lambda>s.
     let seq = log_file_num + base_log_tag_seq s in
     WriteMetadata nv little
       (s\<lparr>logfile_seq := seq, alive_log_files := alive_log_files s @ [Log_new seq (current_offset s)]\<rparr>))"

fun drop_logs :: "uint32 \<Rightarrow> Log list \<Rightarrow> uint64 \<Rightarrow> (Log list \<times> uint64) result" where
  "drop_logs bound [] lsize = Inr ([], lsize)"
| "drop_logs bound (l # ls) lsize =
     (if log_seq l < bound then
        r_assert (ls \<noteq> []) ''alive_log_files_.size()'' (drop_logs bound ls (lsize - log_bytes l))
      else Inr (l # ls, lsize))"

definition DeleteLog :: "'d nvme_ops \<Rightarrow> bool \<Rightarrow> uint32 \<Rightarrow> uint32 \<Rightarrow> 'd SPDKLoggingServer \<Rightarrow> 'd SPDKLoggingServer result" where
  "DeleteLog nv little min_log_number sz s =
     r_bind (drop_logs (min_log_number + base_log_tag_seq s) (alive_log_files s) (log_size s)) (\<lambda>(ls, lsize).
     r_assert (unat sz = length ls) ''size == alive_log_files_.size()''
       (WriteMetadata nv little (s\<lparr>alive_log_files := ls, log_size := lsize\<rparr>)))"

definition GetCurrentLogSeq :: "'d SPDKLoggingServer \<Rightarrow> uint32" where
  "GetCurrentLogSeq s = logfile_seq s - base_log_tag_seq s"

definition GetLogSize :: "'d SPDKLoggingServer \<Rightarrow> uint64" where
  "GetLogSize s = log_size s"

fun last_seq :: "bool \<Rightarrow> byte list \<Rightarrow> nat \<Rightarrow> nat \<Rightarrow> uint32 \<Rightarrow> uint32 result" where
  "last_seq little md off 0 seq = Inr seq"
| "last_seq little md off (Suc n) seq =
     r_bind (DecodeFixed32 little (drop off md)) (\<lambda>seq. last_seq little md (off + 20) n seq)"

definition SetLastLogfileSeq :: "'d nvme_ops \<Rightarrow> bool \<Rightarrow> 'd SPDKLoggingServer \<Rightarrow> 'd SPDKLoggingServer result" where
  "SetLastLogfileSeq nv little s =
     (let md = page_at nv (device s) 0 in
      r_bind (DecodeFixed32 little (drop 4 md)) (\<lambda>num.
      r_bind (last_seq little md 8 (unat num) 0) (\<lambda>seq.
      Inr (s\<lparr>metadata := md, base_log_tag_seq := seq + 1\<rparr>))))"

section \<open>Recovery\<close>

definition Log_read :: "uint32 \<Rightarrow> uint64 \<Rightarrow> uint64 \<Rightarrow> Log" where
  "Log_read seq start end = \<lparr>log_seq = seq, start_lpn = start, end_lpn = end, log_bytes = 0\<rparr>"

fun read_logs :: "bool \<Rightarrow> byte list \<Rightarrow> nat \<Rightarrow> nat \<Rightarrow> uint32 \<Rightarrow> Log list result" where
  "read_logs little md off 0 last_lpn = Inr []"
| "read_logs little md off (Suc n) last_lpn =
     r_bind (DecodeFixed32 little (drop off md)) (\<lambda>seq.
     r_bind (DecodeFixed64 little (drop (off + 4) md)) (\<lambda>start.
     r_bind (DecodeFixed64 little (drop (off + 12) md)) (\<lambda>end.
     r_assert (last_lpn \<noteq> 0 \<longrightarrow> ucast (last_lpn + 1) = start) ''last_lpn + 1 == start''
       (r_bind (read_logs little md (off + 20) n (ucast end)) (\<lambda>ls.
        Inr (Log_read seq start end # ls))))))"

definition ReadMetadata :: "'d nvme_ops \<Rightarrow> bool \<Rightarrow> 'd \<Rightarrow> (uint32 \<times> Log list) result" where
  "ReadMetadata nv little d =
     (let md = page_at nv d 0 in
      r_bind (DecodeFixed32 little md) (\<lambda>base.
      r_bind (DecodeFixed32 little (drop 4 md)) (\<lambda>num.
      r_bind (read_logs little md 8 (unat num) 0) (\<lambda>ls.
      Inr (base, ls)))))"

text \<open>
  The pages \<open>ReadFromSPDK\<close> puts into \<open>page_buffer_\<close>, in the order of their sequence numbers, up to the
  first \<open>nullptr\<close>.
\<close>

partial_function (option) ReadFromSPDK ::
    "'d nvme_ops \<Rightarrow> bool \<Rightarrow> 'd \<Rightarrow> nat \<Rightarrow> nat \<Rightarrow> uint32 \<Rightarrow> byte list list result option" where
  "ReadFromSPDK nv little d lpn end seq =
     (if 0 < end \<and> end < lpn then returns (Inr [])
      else
        (case DecodeFixed32 little (page_at nv d lpn) of
           Inl e \<Rightarrow> returns (Inl e)
         | Inr s \<Rightarrow>
             if s = seq then
               p_bind (ReadFromSPDK nv little d (lpn + 1) end seq) (\<lambda>pages. returns (Inr (page_at nv d lpn # pages)))
             else if 0 < end then returns (Inl (AssertFailed ''s == logfile_seq''))
             else returns (Inr [])))"

text \<open>
  \<open>RecoveryServer\<close> keeps the reader threads in one vector and joins the whole vector after every log
  file: from the second file on, the first thread is joined again, which throws. The entries of the
  files read before that are lost with the process.
\<close>

definition RecoveryServer :: "'d nvme_ops \<Rightarrow> bool \<Rightarrow> 'd \<Rightarrow> Log list \<Rightarrow> LogEntry list result option" where
  "RecoveryServer nv little d logs =
     (case logs of
        [] \<Rightarrow> returns (Inl InvalidAccess)
      | [l] \<Rightarrow>
          if start_lpn l = 0 then returns (Inl (AssertFailed ''start > 0''))
          else
            p_bind (ReadFromSPDK nv little d (unat (start_lpn l)) 0 (log_seq l)) (\<lambda>pages.
            returns (ProcessData little pages))
      | l # l' # ls \<Rightarrow>
          if start_lpn l = 0 then returns (Inl (AssertFailed ''start > 0''))
          else if end_lpn l = 0 then returns (Inl (AssertFailed ''end > 0''))
          else
            p_bind (ReadFromSPDK nv little d (unat (start_lpn l)) (unat (end_lpn l)) (log_seq l)) (\<lambda>pages.
            if start_lpn l' = 0 then returns (Inl (AssertFailed ''start > 0''))
            else if ls \<noteq> [] \<and> end_lpn l' = 0 then returns (Inl (AssertFailed ''end > 0''))
            else returns (Inl Terminate)))"

text \<open>What the calls of \<open>GetLogEntry\<close> return: the data and the number of the log file above the base.\<close>

definition GetLogEntry :: "uint32 \<Rightarrow> LogEntry \<Rightarrow> byte list \<times> uint32" where
  "GetLogEntry base e = (le_data e, le_log_tag_seq e - base)"

definition SSDLoggingRecovery :: "'d nvme_ops \<Rightarrow> bool \<Rightarrow> 'd \<Rightarrow> (byte list \<times> uint32) list result option" where
  "SSDLoggingRecovery nv little d =
     p_bind (returns (ReadMetadata nv little d)) (\<lambda>(base, logs).
     p_bind (RecoveryServer nv little d logs) (\<lambda>es.
     returns (Inr (map (GetLogEntry base) es))))"

end
