(* ===== verification/Log_Store.thy ===== *)
theory Log_Store
  imports Log_Files
begin

text \<open>
  The device and the list of log files. The locale \<open>nvme\<close> has the documented behaviour of the device:
  a read returns what the last write of its sectors has stored. The lemmas lift it to pages and show
  that \<open>ReadMetadata\<close> reads what \<open>WriteMetadata\<close> has written.
\<close>

section \<open>The contract of the device\<close>

locale nvme =
  fixes nv :: "'d nvme_ops"
  assumes sectors: "0 < sector_size nv" "sector_size nv dvd PAGESIZE"
    and read_other: "l + m \<le> lsn \<or> lsn + n \<le> l \<Longrightarrow>
      dev_read nv (dev_write nv d lsn n bs) l m = dev_read nv d l m"
    and read_written: "lsn \<le> l \<Longrightarrow> l + m \<le> lsn + n \<Longrightarrow> n * sector_size nv \<le> length bs \<Longrightarrow>
      dev_read nv (dev_write nv d lsn n bs) l m = take (m * sector_size nv) (drop ((l - lsn) * sector_size nv) bs)"
begin

lemma page_sectors_mult: "page_sectors nv * sector_size nv = PAGESIZE"
  using sectors by (simp add: page_sectors_def)

lemma page_sectors_pos: "0 < page_sectors nv"
  using page_sectors_mult by (metis PAGESIZE_room add_gr_0 mult_0 neq0_conv page_room_pos(1))

lemma page_written:
  assumes "lpn \<le> i" "i < lpn + p" "p * PAGESIZE \<le> length bs"
  shows "page_at nv (dev_write nv d (lpn * page_sectors nv) (p * page_sectors nv) bs) i =
    take PAGESIZE (drop ((i - lpn) * PAGESIZE) bs)"
proof -
  let ?k = "page_sectors nv"
  have le: "lpn * ?k \<le> i * ?k" using assms(1) by simp
  have "i * ?k + ?k \<le> (lpn + p) * ?k" using assms(2) by (metis Suc_leI add.commute mult_Suc mult_le_mono1)
  then have le2: "i * ?k + ?k \<le> lpn * ?k + p * ?k" by (simp add: distrib_right)
  have "p * ?k * sector_size nv \<le> length bs" using assms(3) by (simp add: page_sectors_mult mult.assoc)
  note r = read_written [OF le le2 this, of d]
  have "(i * ?k - lpn * ?k) * sector_size nv = (i - lpn) * PAGESIZE"
    by (simp add: page_sectors_mult diff_mult_distrib [symmetric] mult.assoc)
  then show ?thesis using r by (simp add: page_at_def page_sectors_mult)
qed

lemma page_other:
  assumes "i < lpn \<or> lpn + p \<le> i"
  shows "page_at nv (dev_write nv d (lpn * page_sectors nv) (p * page_sectors nv) bs) i = page_at nv d i"
proof -
  let ?k = "page_sectors nv"
  have "i * ?k + ?k \<le> lpn * ?k \<or> lpn * ?k + p * ?k \<le> i * ?k"
  proof (rule disj_forward [OF assms])
    assume "i < lpn"
    then show "i * ?k + ?k \<le> lpn * ?k" by (metis Suc_leI add.commute mult_Suc mult_le_mono1)
  next
    assume "lpn + p \<le> i"
    then show "lpn * ?k + p * ?k \<le> i * ?k" by (metis distrib_right mult_le_mono1)
  qed
  then show ?thesis unfolding page_at_def by (rule read_other)
qed

lemma page_0_written:
  assumes "length bs = PAGESIZE"
  shows "page_at nv (dev_write nv d 0 (page_sectors nv) bs) i = (if i = 0 then bs else page_at nv d i)"
  using page_written [of 0 i 1 bs d] page_other [of i 0 1 d bs] assms by auto

end

text \<open>A device that keeps its sectors in a function.\<close>

type_synonym sector_map = "nat \<Rightarrow> byte list"

definition sector_map_ops :: "sector_map nvme_ops" where
  "sector_map_ops = \<lparr>dev_write = (\<lambda>d lsn n bs i. if lsn \<le> i \<and> i < lsn + n then take 512 (drop ((i - lsn) * 512) bs) else d i),
     dev_read = (\<lambda>d l m. concat (map d [l..<l + m])), sector_size = 512\<rparr>"

lemma concat_chunks:
  assumes "j * k + m * k \<le> length bs"
  shows "concat (map (\<lambda>i. take k (drop (i * k) bs)) [j..<j + m]) = take (m * k) (drop (j * k) bs)"
  using assms
proof (induction m arbitrary: j)
  case (Suc m)
  have "[j..<j + Suc m] = j # [Suc j..<Suc j + m]" by (simp add: upt_conv_Cons)
  with Suc.IH [of "Suc j"] Suc.prems show ?case
    by (simp add: take_add drop_drop add.commute [of _ "j * k"] del: upt_Suc)
qed simp

interpretation sm: nvme sector_map_ops
proof
  fix l m lsn n :: nat and d :: sector_map and bs :: "byte list"
  assume "l + m \<le> lsn \<or> lsn + n \<le> l"
  then show "dev_read sector_map_ops (dev_write sector_map_ops d lsn n bs) l m = dev_read sector_map_ops d l m"
    by (auto simp: sector_map_ops_def intro!: arg_cong [of _ _ concat])
next
  fix l m lsn n :: nat and d :: sector_map and bs :: "byte list"
  assume a: "lsn \<le> l" "l + m \<le> lsn + n" "n * sector_size sector_map_ops \<le> length bs"
  define j where "j = l - lsn"
  have l: "l = lsn + j" "j + m \<le> n" using a by (simp_all add: j_def)
  have "map (\<lambda>i. if lsn \<le> i \<and> i < lsn + n then take 512 (drop ((i - lsn) * 512) bs) else d i) [lsn + j..<lsn + j + m] =
    map (\<lambda>i. take 512 (drop (i * 512) bs)) [j..<j + m]"
    using l(2) by (intro nth_equalityI) auto
  moreover have "concat (map (\<lambda>i. take 512 (drop (i * 512) bs)) [j..<j + m]) = take (m * 512) (drop (j * 512) bs)"
    by (rule concat_chunks) (use a(3) l(2) in \<open>simp add: sector_map_ops_def\<close>)
  ultimately show "dev_read sector_map_ops (dev_write sector_map_ops d lsn n bs) l m =
      take (m * sector_size sector_map_ops) (drop ((l - lsn) * sector_size sector_map_ops) bs)"
    by (simp add: sector_map_ops_def l(1))
qed (simp_all add: sector_map_ops_def PAGESIZE_def)

section \<open>The list of log files\<close>

definition log_text :: "Log \<Rightarrow> byte list" where
  "log_text l = word_bytes 4 (log_seq l) @ word_bytes 8 (start_lpn l) @ word_bytes 8 (end_lpn l)"

definition logs_text :: "uint32 \<Rightarrow> Log list \<Rightarrow> byte list" where
  "logs_text base ls = word_bytes 4 base @ word_bytes 4 (of_nat (length ls) :: uint32) @ concat (map log_text ls)"

text \<open>Every log file starts behind the last page of the one in front of it, as \<open>ReadMetadata\<close> checks.\<close>

fun contiguous :: "uint32 \<Rightarrow> Log list \<Rightarrow> bool" where
  "contiguous last_lpn [] = True"
| "contiguous last_lpn (l # ls) \<longleftrightarrow>
     (last_lpn \<noteq> 0 \<longrightarrow> ucast (last_lpn + 1) = start_lpn l) \<and> contiguous (ucast (end_lpn l)) ls"

lemma length_log_text [simp]: "length (log_text l) = 20"
  by (simp add: log_text_def)

lemma length_log_texts [simp]: "length (concat (map log_text ls)) = 20 * length ls"
  by (induction ls) auto

lemma put_ok:
  "off + 4 \<le> length buf \<Longrightarrow> put32 little off v32 buf = Inr (take off buf @ word_bytes 4 v32 @ drop (off + 4) buf)"
  "off + 8 \<le> length buf \<Longrightarrow> put64 little off v64 buf = Inr (take off buf @ word_bytes 8 v64 @ drop (off + 8) buf)"
  by (simp_all add: put32_def put64_def Encode_branches put_bytes_def le_diff_conv2 add.commute)

lemma put_fails:
  "length buf < off + 4 \<Longrightarrow> put32 little off v32 buf = Inl OutOfRange"
  "length buf < off + 8 \<Longrightarrow> put64 little off v64 buf = Inl OutOfRange"
  by (auto simp: put32_def put64_def Encode_branches put_bytes_def)

lemma put_log_ok:
  assumes "off + 20 \<le> length buf"
  shows "put_logs little off (l # ls) buf = put_logs little (off + 20) ls (take off buf @ log_text l @ drop (off + 20) buf)"
proof -
  let ?b1 = "take off buf @ word_bytes 4 (log_seq l) @ drop (off + 4) buf"
  let ?b2 = "take off buf @ word_bytes 4 (log_seq l) @ word_bytes 8 (start_lpn l) @ drop (off + 12) buf"
  have 1: "put32 little off (log_seq l) buf = Inr ?b1" by (rule put_ok) (use assms in simp)
  have 2: "put64 little (off + 4) (start_lpn l) ?b1 = Inr ?b2"
    by (subst put_ok) (use assms in \<open>simp_all add: add.commute\<close>)
  have 3: "put64 little (off + 12) (end_lpn l) ?b2 = Inr (take off buf @ log_text l @ drop (off + 20) buf)"
    by (subst put_ok) (use assms in \<open>simp_all add: log_text_def add.commute\<close>)
  show ?thesis by (simp add: 1 2 3)
qed

lemma put_logs_ok:
  "off + 20 * length ls \<le> length buf \<Longrightarrow>
    put_logs little off ls buf = Inr (take off buf @ concat (map log_text ls) @ drop (off + 20 * length ls) buf)"
proof (induction ls arbitrary: off buf)
  case (Cons l ls)
  then show ?case by (subst put_log_ok) (simp_all add: add.commute add.assoc)
qed simp

lemma put_length:
  "put32 little off v32 buf = Inr buf' \<Longrightarrow> off \<le> length buf \<Longrightarrow> length buf' = length buf"
  "put64 little off v64 buf = Inr buf' \<Longrightarrow> off \<le> length buf \<Longrightarrow> length buf' = length buf"
  by (auto simp: put32_def put64_def Encode_branches put_bytes_def r_bind_eq_Inr split: if_splits)

lemma put_log_fails:
  assumes "off \<le> length buf" "length buf < off + 20"
  shows "put_logs little off (l # ls) buf = Inl OutOfRange"
proof (cases "length buf < off + 4")
  case False
  then have b1: "put32 little off (log_seq l) buf = Inr (take off buf @ word_bytes 4 (log_seq l) @ drop (off + 4) buf)" (is "_ = Inr ?b1")
    by (intro put_ok) simp
  note l1 = put_length(1) [OF b1 assms(1)]
  show ?thesis
  proof (cases "length buf < off + 12")
    case False
    then have b2: "put64 little (off + 4) (start_lpn l) ?b1 = Inr (take (off + 4) ?b1 @ word_bytes 8 (start_lpn l) @ drop (off + 4 + 8) ?b1)"
      using l1 by (intro put_ok) simp
    have "length (take (off + 4) ?b1 @ word_bytes 8 (start_lpn l) @ drop (off + 4 + 8) ?b1) = length buf"
      using put_length(2) [OF b2] l1 False by simp
    then show ?thesis using b1 b2 assms(2) by (simp add: put_fails del: length_append)
  qed (use b1 l1 in \<open>simp add: put_fails del: length_append\<close>)
qed (simp add: put_fails)

lemma put_logs_fails:
  "off \<le> length buf \<Longrightarrow> length buf < off + 20 * length ls \<Longrightarrow> put_logs little off ls buf = Inl OutOfRange"
proof (induction ls arbitrary: off buf)
  case (Cons l ls)
  show ?case
  proof (cases "off + 20 \<le> length buf")
    case True
    with Cons show ?thesis by (subst put_log_ok) simp_all
  next
    case False
    with Cons.prems(1) put_log_fails show ?thesis by simp
  qed
qed simp

lemma read_logs_ok:
  assumes "drop off md = concat (map log_text ls) @ rest" "contiguous last_lpn ls" "off + 20 * length ls \<le> length md"
  shows "read_logs little md off (length ls) last_lpn = Inr (map (\<lambda>l. Log_read (log_seq l) (start_lpn l) (end_lpn l)) ls)"
  using assms
proof (induction ls arbitrary: off last_lpn)
  case (Cons l ls)
  have "drop off md = word_bytes 4 (log_seq l) @ word_bytes 8 (start_lpn l) @ word_bytes 8 (end_lpn l) @ concat (map log_text ls) @ rest"
    using Cons.prems(1) by (simp add: log_text_def [of l])
  moreover from this have "drop (off + 4) md = word_bytes 8 (start_lpn l) @ word_bytes 8 (end_lpn l) @ concat (map log_text ls) @ rest"
    "drop (off + 12) md = word_bytes 8 (end_lpn l) @ concat (map log_text ls) @ rest"
    "drop (off + 20) md = concat (map log_text ls) @ rest"
    by (simp_all add: drop_drop [symmetric] add.commute [of off])
  ultimately show ?case using Cons.IH [of "off + 20" "ucast (end_lpn l)"] Cons.prems
    by (simp add: Decode32_branches Decode64_branches get_bytes_def bytes_word_word_bytes)
qed simp

lemma WriteMetadata_ok:
  assumes "length (metadata s) = PAGESIZE" "length (alive_log_files s) \<le> 204"
  shows "\<exists>md. WriteMetadata nv little s = Inr (s\<lparr>metadata := md, device := dev_write nv (device s) 0 (page_sectors nv) md\<rparr>) \<and>
    length md = PAGESIZE \<and> (\<exists>rest. md = logs_text (base_log_tag_seq s) (alive_log_files s) @ rest)"
proof -
  let ?ls = "alive_log_files s" and ?m = "metadata s"
  let ?b = "word_bytes 4 (base_log_tag_seq s)" and ?n = "word_bytes 4 (of_nat (length (alive_log_files s)) :: uint32)"
  have 1: "put32 little 0 (base_log_tag_seq s) ?m = Inr (?b @ drop 4 ?m)"
    by (subst put_ok) (use assms(1) in \<open>simp_all add: PAGESIZE_def\<close>)
  have 2: "put32 little 4 (of_nat (length ?ls)) (?b @ drop 4 ?m) = Inr (?b @ ?n @ drop 8 ?m)"
    by (subst put_ok) (use assms(1) in \<open>simp_all add: PAGESIZE_def\<close>)
  have 3: "put_logs little 8 ?ls (?b @ ?n @ drop 8 ?m) = Inr (?b @ ?n @ concat (map log_text ?ls) @ drop (8 + 20 * length ?ls) ?m)"
    by (subst put_logs_ok) (use assms in \<open>simp_all add: PAGESIZE_def add.commute\<close>)
  show ?thesis using assms by (auto simp: WriteMetadata_def 1 2 3 logs_text_def PAGESIZE_def)
qed

lemma WriteMetadata_overflow:
  assumes "length (metadata s) = PAGESIZE" "204 < length (alive_log_files s)"
  shows "WriteMetadata nv little s = Inl OutOfRange"
proof -
  obtain b1 where b1: "put32 little 0 (base_log_tag_seq s) (metadata s) = Inr b1" "length b1 = PAGESIZE"
    using put_ok(1) [of 0 "metadata s" little] assms(1) by (auto simp: PAGESIZE_def)
  obtain b2 where b2: "put32 little 4 (of_nat (length (alive_log_files s))) b1 = Inr b2" "length b2 = PAGESIZE"
    using put_ok(1) [of 4 b1 little] b1(2) by (auto simp: PAGESIZE_def)
  have "put_logs little 8 (alive_log_files s) b2 = Inl OutOfRange"
    by (rule put_logs_fails) (use b2(2) assms(2) in \<open>simp_all add: PAGESIZE_def\<close>)
  then show ?thesis by (simp add: WriteMetadata_def b1 b2)
qed

lemma ReadMetadata_ok:
  assumes "page_at nv d 0 = logs_text base ls @ rest" "contiguous 0 ls" "length ls \<le> 204"
  shows "ReadMetadata nv little d = Inr (base, map (\<lambda>l. Log_read (log_seq l) (start_lpn l) (end_lpn l)) ls)"
proof -
  let ?md = "logs_text base ls @ rest"
  have "unat (of_nat (length ls) :: uint32) = length ls" using assms(3) by (simp add: unat_of_nat)
  moreover have "DecodeFixed32 little ?md = Inr base" "DecodeFixed32 little (drop 4 ?md) = Inr (of_nat (length ls))"
    by (simp_all add: logs_text_def Decode_front)
  moreover have "read_logs little ?md 8 (length ls) 0 = Inr (map (\<lambda>l. Log_read (log_seq l) (start_lpn l) (end_lpn l)) ls)"
    by (rule read_logs_ok [OF _ assms(2)]) (simp_all add: logs_text_def)
  ultimately show ?thesis by (simp add: ReadMetadata_def assms(1))
qed

end
