(* ===== verification/Log_Durable.thy ===== *)
theory Log_Durable
  imports Log_Store
begin

text \<open>
  What a crash leaves of a log. The specification keeps the records that wait and the list of the
  batches in the order of their pages, each with the queue pair that carries it and whether the device
  has executed its write. The server implements it, and the recovery of a device with one log file
  returns the records of the batches in front of the first one the device has not executed.
\<close>

section \<open>The specification\<close>

type_synonym sent_batch = "nat \<times> byte list list \<times> bool"

record log_spec =
  ls_pending :: "byte list list"
  ls_sent :: "sent_batch list"

definition busy :: "log_spec \<Rightarrow> nat \<Rightarrow> bool" where
  "busy l q \<longleftrightarrow> list_ex (\<lambda>(q', b, fin). q' = q \<and> \<not> fin) (ls_sent l)"

definition spec_append :: "byte list \<Rightarrow> log_spec \<Rightarrow> log_spec" where
  "spec_append d l = l\<lparr>ls_pending := d # ls_pending l\<rparr>"

definition spec_send :: "nat \<Rightarrow> nat \<Rightarrow> log_spec \<Rightarrow> log_spec" where
  "spec_send serverid pipeline_num l =
     (case find (\<lambda>i. \<not> busy l (i + serverid * pipeline_num)) [0..<pipeline_num] of
        None \<Rightarrow> l
      | Some i \<Rightarrow>
          if ls_pending l = [] then l
          else \<lparr>ls_pending = [], ls_sent = ls_sent l @ [(i + serverid * pipeline_num, ls_pending l, False)]\<rparr>)"

definition spec_complete :: "nat list \<Rightarrow> nat \<Rightarrow> log_spec \<Rightarrow> log_spec" where
  "spec_complete executed q l =
     (if q \<in> set executed then l\<lparr>ls_sent := map (\<lambda>(q', b, fin). (q', b, fin \<or> q' = q)) (ls_sent l)\<rparr> else l)"

definition spec_round :: "nat list \<Rightarrow> nat \<Rightarrow> nat \<Rightarrow> log_spec \<Rightarrow> log_spec" where
  "spec_round executed serverid pipeline_num l =
     fold (spec_complete executed) (map (\<lambda>i. i + serverid * pipeline_num) [0..<pipeline_num])
       (spec_send serverid pipeline_num l)"

text \<open>The calls: a client appends a record, a server thread runs one round.\<close>

datatype log_call = Append "byte list" | Round "nat list" nat

fun spec_run :: "nat \<Rightarrow> log_call list \<Rightarrow> log_spec \<Rightarrow> log_spec" where
  "spec_run pn [] l = l"
| "spec_run pn (Append d # cs) l = spec_run pn cs (spec_append d l)"
| "spec_run pn (Round executed serverid # cs) l = spec_run pn cs (spec_round executed serverid pn l)"

fun log_run :: "'d nvme_ops \<Rightarrow> bool \<Rightarrow> nat \<Rightarrow> nat \<Rightarrow> log_call list \<Rightarrow> 'd SPDKLoggingServer \<Rightarrow> 'd SPDKLoggingServer result" where
  "log_run nv little max_buffer pn [] s = Inr s"
| "log_run nv little max_buffer pn (Append d # cs) s = r_bind (AddLog d s) (log_run nv little max_buffer pn cs)"
| "log_run nv little max_buffer pn (Round executed serverid # cs) s =
     r_bind (Server nv little max_buffer executed serverid pn s) (log_run nv little max_buffer pn cs)"

text \<open>The records on the device in front of the first missing batch.\<close>

definition durable :: "log_spec \<Rightarrow> byte list list" where
  "durable l = concat (map (\<lambda>(q, b, fin). b) (takeWhile (\<lambda>(q, b, fin). fin) (ls_sent l)))"

section \<open>Pages of batches\<close>

definition batch_len :: "byte list list \<Rightarrow> nat" where
  "batch_len b = length (batch_text b) div page_room"

definition sent_len :: "sent_batch list \<Rightarrow> nat" where
  "sent_len es = sum_list (map (\<lambda>(q, b, fin). batch_len b) es)"

lemma sent_len_simps [simp]:
  "sent_len [] = 0" "sent_len (e # es) = batch_len (fst (snd e)) + sent_len es" "sent_len (es @ fs) = sent_len es + sent_len fs"
  by (auto simp: sent_len_def split: prod.split)

lemma batch_text_mult: "length (batch_text b) = batch_len b * page_room"
  using padded_multiple [of "length (batch_body 0 b)"] by (simp add: batch_len_def batch_text_def mod_0_imp_dvd)

lemma batch_len_pos: "b \<noteq> [] \<Longrightarrow> 0 < batch_len b"
  using batch_text_mult [of b] by (cases "batch_len b"; cases b) (auto simp: batch_text_def)

lemma length_batch_paginate: "length (paginate s (batch_text b)) = batch_len b * PAGESIZE"
proof -
  have "(batch_len b * page_room + (page_room - 1)) div page_room = batch_len b" by (simp add: div_eq_0_iff)
  then show ?thesis by (simp add: length_paginate batch_text_mult PAGESIZE_room algebra_simps)
qed

lemma nth_pages_of: "i * PAGESIZE < length bs \<Longrightarrow> pages_of bs ! i = take PAGESIZE (drop (i * PAGESIZE) bs)"
proof (induction bs arbitrary: i rule: pages_of.induct)
  case (1 bs)
  then have ne: "bs \<noteq> []" by auto
  show ?case
  proof (cases i)
    case 0
    then show ?thesis using ne by (subst pages_of.simps) simp
  next
    case (Suc j)
    then have "j * PAGESIZE < length (drop PAGESIZE bs)" using "1.prems" by simp
    with "1.IH" [OF ne this] ne Suc show ?thesis by (subst pages_of.simps) (simp add: add.commute)
  qed
qed

lemma length_pages_of: "length bs = n * PAGESIZE \<Longrightarrow> length (pages_of bs) = n"
proof (induction n arbitrary: bs)
  case (Suc n)
  then have "bs \<noteq> []" by (auto simp: PAGESIZE_def)
  then show ?case using Suc.IH [of "drop PAGESIZE bs"] Suc.prems by (subst pages_of.simps) simp
qed (simp add: pages_of.simps)

lemma PAGESIZE_pos [simp]: "0 < PAGESIZE"
  by (simp add: PAGESIZE_def)

lemma batch_pages_nth:
  "length (batch_pages (s, b)) = batch_len b"
  "i < batch_len b \<Longrightarrow> batch_pages (s, b) ! i = take PAGESIZE (drop (i * PAGESIZE) (paginate s (batch_text b)))"
  using length_pages_of [OF length_batch_paginate [of s b]] nth_pages_of [of i "paginate s (batch_text b)"]
  by (simp_all add: batch_pages_def length_batch_paginate)

lemma batch_pages_head:
  assumes "i < batch_len b"
  shows "take 4 (batch_pages (s, b) ! i) = word_bytes 4 s"
proof -
  have "length (batch_text b) mod page_room = 0" by (simp add: batch_text_mult)
  note p = pages_of_paginate [OF this, of s]
  have "batch_pages (s, b) ! i \<in> set (batch_pages (s, b))" using assms by (simp add: batch_pages_nth(1))
  with p show ?thesis by (simp add: batch_pages_def)
qed

lemma sent_len_take:
  assumes "i < length es" "es ! i = (q, b, fin)"
  shows "sent_len (take (Suc i) es) = sent_len (take i es) + batch_len b"
  using assms by (simp add: take_Suc_conv_app_nth)

lemma sent_len_mono: "i \<le> j \<Longrightarrow> sent_len (take i es) \<le> sent_len (take j es)"
  by (metis le_add1 sent_len_simps(3) take_add le_iff_add)

lemma sent_len_take_le: "sent_len (take i es) \<le> sent_len es"
  by (metis append_take_drop_id le_add1 sent_len_simps(3))

lemma sent_len_update:
  "j < length es \<Longrightarrow> es ! j = (q, b, fin) \<Longrightarrow> sent_len (take i (es[j := (q', b, fin')])) = sent_len (take i es)"
  by (induction es arbitrary: i j) (auto simp: take_Cons split: nat.splits)

section \<open>A log on the device\<close>

text \<open>
  The pages of the executed batches of the log file \<open>seq\<close> are at their place behind page \<open>a\<close>; no other
  page there has the head of a page of this log file.
\<close>

definition blank :: "'d nvme_ops \<Rightarrow> 'd \<Rightarrow> uint32 \<Rightarrow> nat \<Rightarrow> bool" where
  "blank nv d seq i \<longleftrightarrow> (\<exists>v. v \<noteq> seq \<and> take 4 (page_at nv d i) = word_bytes 4 v)"

definition log_on_device :: "'d nvme_ops \<Rightarrow> 'd \<Rightarrow> uint32 \<Rightarrow> nat \<Rightarrow> sent_batch list \<Rightarrow> bool" where
  "log_on_device nv d seq a es \<longleftrightarrow>
     (\<forall>i < length es. \<forall>q b fin x. es ! i = (q, b, fin) \<longrightarrow> x < batch_len b \<longrightarrow>
        (if fin then page_at nv d (a + sent_len (take i es) + x) = batch_pages (seq, b) ! x
         else blank nv d seq (a + sent_len (take i es) + x))) \<and>
     (\<forall>i \<ge> a + sent_len es. blank nv d seq i)"

lemma Decode_head: "take 4 p = word_bytes 4 v \<Longrightarrow> DecodeFixed32 little p = Inr v"
  by (metis Decode_front append_take_drop_id)

lemma ReadFromSPDK_blank: "blank nv d seq lpn \<Longrightarrow> ReadFromSPDK nv little d lpn 0 seq = Some (Inr [])"
  by (subst ReadFromSPDK.simps) (auto simp: blank_def Decode_head)

lemma ReadFromSPDK_skip:
  assumes "\<And>i. i < n \<Longrightarrow> take 4 (page_at nv d (lpn + i)) = word_bytes 4 seq"
    "ReadFromSPDK nv little d (lpn + n) 0 seq = Some (Inr pages)"
  shows "ReadFromSPDK nv little d lpn 0 seq = Some (Inr (map (\<lambda>i. page_at nv d (lpn + i)) [0..<n] @ pages))"
  using assms
proof (induction n arbitrary: lpn)
  case (Suc n)
  have "ReadFromSPDK nv little d (lpn + 1) 0 seq = Some (Inr (map (\<lambda>i. page_at nv d (lpn + 1 + i)) [0..<n] @ pages))"
  proof (rule Suc.IH)
    show "take 4 (page_at nv d (lpn + 1 + i)) = word_bytes 4 seq" if "i < n" for i using Suc.prems(1) [of "Suc i"] that by simp
  qed (use Suc.prems(2) in simp)
  moreover have "map (\<lambda>i. page_at nv d (lpn + i)) [0..<Suc n] = page_at nv d lpn # map (\<lambda>i. page_at nv d (lpn + 1 + i)) [0..<n]"
    by (simp add: upt_conv_Cons map_Suc_upt [symmetric] del: upt_Suc)
  ultimately show ?case using Suc.prems(1) [of 0]
    by (subst ReadFromSPDK.simps) (simp add: Decode_head del: upt_Suc)
qed simp

lemma log_on_device_tl:
  assumes "log_on_device nv d seq a ((q, b, fin) # es)"
  shows "log_on_device nv d seq (a + batch_len b) es"
  unfolding log_on_device_def
proof (intro conjI allI impI)
  fix i q' b' fin' x assume "i < length es" "es ! i = (q', b', fin')" "x < batch_len b'"
  then show "if fin' then page_at nv d (a + batch_len b + sent_len (take i es) + x) = batch_pages (seq, b') ! x
      else blank nv d seq (a + batch_len b + sent_len (take i es) + x)"
    using assms [unfolded log_on_device_def, THEN conjunct1, rule_format, of "Suc i" q' b' fin' x]
    by (cases fin') (simp_all add: add.assoc)
qed (use assms in \<open>simp add: log_on_device_def\<close>)

text \<open>The reader takes the executed batches in front of the first other one.\<close>

lemma log_pages_read:
  assumes "log_on_device nv d seq a es" "list_all (\<lambda>(q, b, fin). b \<noteq> []) es"
  shows "ReadFromSPDK nv little d a 0 seq =
    Some (Inr (concat (map (\<lambda>(q, b, fin). batch_pages (seq, b)) (takeWhile (\<lambda>(q, b, fin). fin) es))))"
  using assms
proof (induction es arbitrary: a)
  case Nil
  then show ?case by (simp add: log_on_device_def ReadFromSPDK_blank)
next
  case (Cons e es)
  obtain q b fin where e: "e = (q, b, fin)" using prod_cases3 by blast
  have first: "if fin then page_at nv d (a + x) = batch_pages (seq, b) ! x else blank nv d seq (a + x)" if "x < batch_len b" for x
    using Cons.prems(1) [unfolded log_on_device_def, THEN conjunct1, rule_format, of 0 q b fin x] that e by (cases fin) simp_all
  show ?case
  proof (cases fin)
    case True
    then have "map (\<lambda>i. page_at nv d (a + i)) [0..<batch_len b] = batch_pages (seq, b)"
      using first by (intro nth_equalityI) (simp_all add: batch_pages_nth(1))
    moreover have "take 4 (page_at nv d (a + i)) = word_bytes 4 seq" if "i < batch_len b" for i
      using first [OF that] batch_pages_head [OF that] True by simp
    ultimately show ?thesis
      using ReadFromSPDK_skip [of "batch_len b" nv d a seq little] Cons.IH [OF log_on_device_tl] Cons.prems e True by auto
  next
    case False
    have "0 < batch_len b" using Cons.prems(2) e by (simp add: batch_len_pos)
    with first [of 0] False e show ?thesis by (simp add: ReadFromSPDK_blank)
  qed
qed

lemma recovered_one_log:
  "stale = None \<or> stale = Some seq \<Longrightarrow> recovered stale (map (Pair seq) bs) = map (entry_of seq) (concat bs)"
  by (induction bs arbitrary: stale) (auto simp: Let_def split: option.split)

lemma recovery_reads:
  assumes "log_on_device nv d seq a es" "list_all (\<lambda>(q, b, fin). b \<noteq> [] \<and> list_all storable b) es"
    "page_at nv d 0 = logs_text base [Log_read seq (of_nat a) 0] @ rest" "0 < a" "a < 2 ^ 64"
  shows "SSDLoggingRecovery nv little d =
    Some (Inr (map (\<lambda>r. (r, seq - base)) (concat (map (\<lambda>(q, b, fin). b) (takeWhile (\<lambda>(q, b, fin). fin) es)))))"
proof -
  let ?bs = "map (\<lambda>(q, b, fin). b) (takeWhile (\<lambda>(q, b, fin). fin) es)"
  have a: "unat (of_nat a :: uint64) = a" "(of_nat a :: uint64) \<noteq> 0"
  proof -
    show a: "unat (of_nat a :: uint64) = a" using assms(5) by (simp add: unat_of_nat)
    show "(of_nat a :: uint64) \<noteq> 0" using a assms(4) by (metis less_numeral_extra(3) unat_0)
  qed
  have md: "ReadMetadata nv little d = Inr (base, [Log_read seq (of_nat a) 0])"
    using ReadMetadata_ok [OF assms(3)] by (simp add: Log_read_def)
  have "list_all (\<lambda>(q, b, fin). b \<noteq> []) es" using assms(2) by (auto simp: list_all_iff)
  from log_pages_read [OF assms(1) this, of little]
  have pages: "ReadFromSPDK nv little d a 0 seq = Some (Inr (concat (map batch_pages (map (Pair seq) ?bs))))"
    by (simp add: comp_def case_prod_unfold)
  have "list_all well_formed_batch (map (Pair seq) ?bs)"
    using assms(2) by (fastforce simp: list_all_iff well_formed_batch_def dest: set_takeWhileD)
  from ProcessData_reads [OF this, of little] recovered_one_log [of None seq ?bs]
  have "ProcessData little (concat (map batch_pages (map (Pair seq) ?bs))) = Inr (map (entry_of seq) (concat ?bs))" by simp
  then show ?thesis
    by (simp add: SSDLoggingRecovery_def md RecoveryServer_def Log_read_def a pages GetLogEntry_def entry_of_def comp_def)
qed

lemma log_on_device_snoc:
  assumes "log_on_device nv d seq a es"
  shows "log_on_device nv d seq a (es @ [(q, b, False)])"
  using assms unfolding log_on_device_def by (auto simp: nth_append less_Suc_eq split: if_splits)

context nvme
begin

lemma log_on_device_execute:
  assumes "log_on_device nv d seq a es" "j < length es" "es ! j = (q, b, False)"
    "take (batch_len b * PAGESIZE) bs = paginate seq (batch_text b)"
  defines "d' \<equiv> dev_write nv d ((a + sent_len (take j es)) * page_sectors nv) (batch_len b * page_sectors nv) bs"
  shows "log_on_device nv d' seq a (es[j := (q, b, True)])"
    and "0 < a \<Longrightarrow> page_at nv d' 0 = page_at nv d 0"
proof -
  let ?o = "a + sent_len (take j es)"
  have len: "batch_len b * PAGESIZE \<le> length bs"
    using assms(4) length_batch_paginate [of seq b] by (metis length_take min.absorb_iff2 min.commute)
  have new: "page_at nv d' (?o + x) = batch_pages (seq, b) ! x" if "x < batch_len b" for x
  proof -
    have "page_at nv d' (?o + x) = take PAGESIZE (drop (x * PAGESIZE) bs)"
      unfolding d'_def using that page_written [of ?o "?o + x" "batch_len b" bs d] len by simp
    also have "\<dots> = take PAGESIZE (drop (x * PAGESIZE) (take (batch_len b * PAGESIZE) bs))"
    proof -
      have "x * PAGESIZE + PAGESIZE \<le> batch_len b * PAGESIZE" using that by (metis Suc_leI add.commute mult_Suc mult_le_mono1)
      then show ?thesis by (simp add: drop_take min_absorb1 le_diff_conv2)
    qed
    finally show ?thesis using that by (simp add: assms(4) batch_pages_nth(2))
  qed
  have old: "page_at nv d' i = page_at nv d i" if "i < ?o \<or> ?o + batch_len b \<le> i" for i
    unfolding d'_def by (rule page_other [OF that])
  have bl: "blank nv d' seq i = blank nv d seq i" if "i < ?o \<or> ?o + batch_len b \<le> i" for i
    using old [OF that] by (simp add: blank_def)
  have end_j: "sent_len (take (Suc j) es) = sent_len (take j es) + batch_len b" by (rule sent_len_take [OF assms(2,3)])
  note L = assms(1) [unfolded log_on_device_def]
  show "log_on_device nv d' seq a (es[j := (q, b, True)])"
    unfolding log_on_device_def
  proof (intro conjI allI impI)
    fix i q' b' fin x assume i: "i < length (es[j := (q, b, True)])" "es[j := (q, b, True)] ! i = (q', b', fin)" "x < batch_len b'"
    note t = sent_len_update [OF assms(2,3), of i q True]
    show "if fin then page_at nv d' (a + sent_len (take i (es[j := (q, b, True)])) + x) = batch_pages (seq, b') ! x
      else blank nv d' seq (a + sent_len (take i (es[j := (q, b, True)])) + x)"
    proof (cases "i = j")
      case True
      then show ?thesis using i new assms(2) t by simp
    next
      case False
      with i have es: "i < length es" "es ! i = (q', b', fin)" by auto
      let ?i = "a + sent_len (take i es) + x"
      have "?i < ?o \<or> ?o + batch_len b \<le> ?i"
      proof (cases "i < j")
        case True
        then have "sent_len (take i es) + batch_len b' \<le> sent_len (take j es)"
          using sent_len_take [OF es] sent_len_mono [of "Suc i" j es] by simp
        then show ?thesis using i(3) by simp
      next
        case ge: False
        then show ?thesis using False end_j sent_len_mono [of "Suc j" i es] by simp
      qed
      with old bl L es i(3) show ?thesis unfolding t by (cases fin) auto
    qed
  next
    fix i assume "a + sent_len (es[j := (q, b, True)]) \<le> i"
    moreover have "sent_len (es[j := (q, b, True)]) = sent_len es"
      using sent_len_update [OF assms(2,3), of "length es" q True] by simp
    ultimately have "a + sent_len es \<le> i" by simp
    moreover then have "?o + batch_len b \<le> i" using end_j sent_len_take_le [of "Suc j" es] by simp
    ultimately show "blank nv d' seq i" using bl L by simp
  qed
  show "page_at nv d' 0 = page_at nv d 0" if "0 < a" using old [of 0] that by simp
qed

end

section \<open>The server implements the specification\<close>

text \<open>Every batch that is not on the device yet is in the buffer of its queue pair, and the command for it is sent.\<close>

definition carried :: "'d nvme_ops \<Rightarrow> uint32 \<Rightarrow> nat \<Rightarrow> 'd SPDKLoggingServer \<Rightarrow> sent_batch list \<Rightarrow> bool" where
  "carried nv seq a s es \<longleftrightarrow>
     (\<forall>i < length es. \<forall>q b. es ! i = (q, b, False) \<longrightarrow>
        q < length (buffers s) \<and> leaders s ! q = Some b \<and>
        in_flight s ! q = Some ((a + sent_len (take i es)) * page_sectors nv, batch_len b * page_sectors nv) \<and>
        take (batch_len b * PAGESIZE) (buffers s ! q) = paginate seq (batch_text b))"

definition one_per_queue :: "sent_batch list \<Rightarrow> bool" where
  "one_per_queue es \<longleftrightarrow>
     (\<forall>i < length es. \<forall>j < length es. \<forall>q b b'. es ! i = (q, b, False) \<longrightarrow> es ! j = (q, b', False) \<longrightarrow> i = j)"

definition executed_records :: "log_spec \<Rightarrow> byte list set" where
  "executed_records l = set (concat (map (\<lambda>(q, b, fin). if fin then b else []) (ls_sent l)))"

definition log_sim :: "'d nvme_ops \<Rightarrow> uint32 \<Rightarrow> uint32 \<Rightarrow> nat \<Rightarrow> 'd SPDKLoggingServer \<Rightarrow> log_spec \<Rightarrow> bool" where
  "log_sim nv base seq a s l \<longleftrightarrow>
     submission_queue s = ls_pending l \<and> logfile_seq s = seq \<and> alive_log_files s \<noteq> [] \<and>
     length (leaders s) = length (buffers s) \<and> length (in_flight s) = length (buffers s) \<and>
     (\<forall>buf \<in> set (buffers s). length buf = BUFFER_SIZE) \<and>
     unat (current_offset s) = a + sent_len (ls_sent l) \<and>
     (\<forall>q < length (buffers s). \<not> busy l q \<longrightarrow> leaders s ! q = None \<and> in_flight s ! q = None) \<and>
     carried nv seq a s (ls_sent l) \<and> one_per_queue (ls_sent l) \<and>
     list_all (\<lambda>(q, b, fin). b \<noteq> []) (ls_sent l) \<and>
     set (completed s) = executed_records l \<and>
     log_on_device nv (device s) seq a (ls_sent l) \<and> 0 < a \<and>
     (\<exists>rest. page_at nv (device s) 0 = logs_text base [Log_read seq (of_nat a) 0] @ rest)"

lemma log_sim_append:
  assumes "log_sim nv base seq a s l"
  shows "\<exists>s'. AddLog d s = Inr s' \<and> log_sim nv base seq a s' (spec_append d l) \<and> length (buffers s') = length (buffers s)"
  using assms by (simp add: AddLog_def log_sim_def spec_append_def Let_def busy_def carried_def executed_records_def)

lemma busy_iff: "busy l q \<longleftrightarrow> (\<exists>i < length (ls_sent l). \<exists>b. ls_sent l ! i = (q, b, False))"
proof -
  have "busy l q \<longleftrightarrow> (\<exists>b. (q, b, False) \<in> set (ls_sent l))" by (auto simp: busy_def list_ex_iff)
  then show ?thesis by (auto simp: in_set_conv_nth)
qed

lemma executed_iff:
  "r \<in> executed_records l \<longleftrightarrow> (\<exists>i < length (ls_sent l). \<exists>q b. ls_sent l ! i = (q, b, True) \<and> r \<in> set b)"
proof -
  have "r \<in> executed_records l \<longleftrightarrow> (\<exists>q b. (q, b, True) \<in> set (ls_sent l) \<and> r \<in> set b)"
    by (fastforce simp: executed_records_def split: if_splits)
  then show ?thesis by (auto simp: in_set_conv_nth)
qed

lemma log_sim_free:
  assumes "log_sim nv base seq a s l" "q < length (buffers s)"
  shows "leaders s ! q = None \<longleftrightarrow> \<not> busy l q"
  using assms by (auto simp: log_sim_def busy_iff carried_def)

lemma MAX_LPN_val: "unat MAX_LPN_FOR_LOGGING = 2097152"
  by (simp add: MAX_LPN_FOR_LOGGING_def)

definition batches :: "log_spec \<Rightarrow> byte list list list" where
  "batches l = map (\<lambda>(q, b, fin). b) (ls_sent l)"

context nvme
begin

lemma SPDKWrite_ok:
  assumes "in_flight s ! q = None" "0 < n" "unat (current_offset s) + n \<le> 2097152"
  shows "SPDKWrite nv (n * PAGESIZE) q s = Inr (s\<lparr>current_offset := current_offset s + of_nat n,
    in_flight := (in_flight s)[q := Some (unat (current_offset s) * page_sectors nv, n * page_sectors nv)]\<rparr>)"
    "unat (current_offset s + of_nat n) = unat (current_offset s) + n"
proof -
  have "n * PAGESIZE div sector_size nv = n * page_sectors nv"
    using sectors by (metis div_mult_swap page_sectors_def)
  moreover show off: "unat (current_offset s + of_nat n) = unat (current_offset s) + n"
    using assms(3) by (simp add: unat_word_ariths unat_of_nat)
  moreover have "\<not> MAX_LPN_FOR_LOGGING < current_offset s + of_nat n"
    using off assms(3) by (simp add: word_less_nat_alt MAX_LPN_val)
  ultimately show "SPDKWrite nv (n * PAGESIZE) q s = Inr (s\<lparr>current_offset := current_offset s + of_nat n,
    in_flight := (in_flight s)[q := Some (unat (current_offset s) * page_sectors nv, n * page_sectors nv)]\<rparr>)"
    using assms sectors page_sectors_pos by (simp add: SPDKWrite_def Let_def)
qed

lemma log_sim_sent:
  assumes sim: "log_sim nv base seq a s l" and q: "q < length (buffers s)" "\<not> busy l q"
    and b: "b \<noteq> []" "take (batch_len b * PAGESIZE) buf = paginate seq (batch_text b)" "length buf = BUFFER_SIZE"
    and fits: "a + sent_len (ls_sent l) + batch_len b \<le> 2097152"
  defines "s1 \<equiv> s\<lparr>submission_queue := [], leaders := (leaders s)[q := Some b], buffers := (buffers s)[q := buf]\<rparr>"
  shows "\<exists>s'. SPDKWrite nv (batch_len b * PAGESIZE) q s1 = Inr s' \<and> length (buffers s') = length (buffers s) \<and>
    log_sim nv base seq a s' \<lparr>ls_pending = [], ls_sent = ls_sent l @ [(q, b, False)]\<rparr>"
proof -
  let ?l = "\<lparr>ls_pending = [], ls_sent = ls_sent l @ [(q, b, False)]\<rparr> :: log_spec"
  have free: "in_flight s1 ! q = None" using sim q by (simp add: log_sim_def s1_def)
  have off: "unat (current_offset s1) = a + sent_len (ls_sent l)" using sim by (simp add: log_sim_def s1_def)
  have "unat (current_offset s1) + batch_len b \<le> 2097152" using off fits by simp
  note w = SPDKWrite_ok [OF free batch_len_pos [OF b(1)] this]
  have other: "q' \<noteq> q" if "i < length (ls_sent l)" "ls_sent l ! i = (q', b', False)" for i q' b'
    using q(2) that by (auto simp: busy_iff)
  have nq: "\<not> (i < length (ls_sent l) \<and> ls_sent l ! i = (q, b', False))" for i b'
    using q(2) by (auto simp: busy_iff)
  have busy: "busy ?l q' \<longleftrightarrow> busy l q' \<or> q' = q" for q' by (auto simp: busy_def)
  let ?s = "s1\<lparr>current_offset := current_offset s1 + of_nat (batch_len b),
    in_flight := (in_flight s1)[q := Some (unat (current_offset s1) * page_sectors nv, batch_len b * page_sectors nv)]\<rparr>"
  have lens: "length (leaders s) = length (buffers s)" "length (in_flight s) = length (buffers s)"
    using sim by (simp_all add: log_sim_def)
  have old: "carried nv seq a s (ls_sent l)" "one_per_queue (ls_sent l)" using sim by (simp_all add: log_sim_def)
  have "carried nv seq a ?s (ls_sent ?l)"
    unfolding carried_def
  proof (intro allI impI)
    fix i q' b' assume i: "i < length (ls_sent ?l)" "ls_sent ?l ! i = (q', b', False)"
    show "q' < length (buffers ?s) \<and> leaders ?s ! q' = Some b' \<and>
      in_flight ?s ! q' = Some ((a + sent_len (take i (ls_sent ?l))) * page_sectors nv, batch_len b' * page_sectors nv) \<and>
      take (batch_len b' * PAGESIZE) (buffers ?s ! q') = paginate seq (batch_text b')"
    proof (cases "i = length (ls_sent l)")
      case True
      then show ?thesis using i q(1) lens b off by (simp add: s1_def)
    next
      case False
      with i have i': "i < length (ls_sent l)" "ls_sent l ! i = (q', b', False)" by (auto simp: nth_append)
      then show ?thesis using old(1) other [OF i'] by (simp add: carried_def s1_def)
    qed
  qed
  moreover have "one_per_queue (ls_sent ?l)"
    using old(2) nq by (auto simp: one_per_queue_def nth_append less_Suc_eq)
  moreover have "log_on_device nv (device ?s) seq a (ls_sent ?l)"
    using sim by (simp add: log_sim_def s1_def log_on_device_snoc)
  moreover have "\<forall>q' < length (buffers ?s). \<not> busy ?l q' \<longrightarrow> leaders ?s ! q' = None \<and> in_flight ?s ! q' = None"
    using sim by (simp add: log_sim_def s1_def busy)
  moreover have "\<forall>buf \<in> set (buffers ?s). length buf = BUFFER_SIZE"
    using sim b(3) by (auto simp: log_sim_def s1_def dest: set_update_subset_insert [THEN subsetD])
  ultimately have "log_sim nv base seq a ?s ?l"
    using sim lens w(2) off b(1) by (simp add: log_sim_def s1_def executed_records_def)
  then show ?thesis using w(1) by (auto simp: s1_def)
qed

lemma log_sim_send:
  assumes sim: "log_sim nv base seq a s l" and "(serverid + 1) * pn \<le> length (buffers s)" "p * PAGESIZE \<le> BUFFER_SIZE"
    and fits: "list_all (batch_fits p) (batches (spec_send serverid pn l))" "a + sent_len (ls_sent (spec_send serverid pn l)) \<le> 2097152"
  shows "\<exists>s'. server_send nv little (p * PAGESIZE) serverid pn s = Inr s' \<and> length (buffers s') = length (buffers s) \<and>
    log_sim nv base seq a s' (spec_send serverid pn l)"
proof -
  have "find (\<lambda>i. leaders s ! (i + serverid * pn) = None) [0..<pn] = find (\<lambda>i. \<not> busy l (i + serverid * pn)) [0..<pn]"
    by (rule find_cong [OF refl]) (use log_sim_free [OF sim] assms(2) in auto)
  note f = this
  show ?thesis
  proof (cases "find (\<lambda>i. \<not> busy l (i + serverid * pn)) [0..<pn]")
    case None
    then show ?thesis using f sim by (simp add: server_send_def spec_send_def)
  next
    case (Some i)
    let ?q = "i + serverid * pn"
    have q: "?q < length (buffers s)" "\<not> busy l ?q" using Some assms(2) by (auto simp: find_Some_iff)
    show ?thesis
    proof (cases "submission_queue s")
      case Nil
      then show ?thesis using f Some sim by (simp add: server_send_def spec_send_def log_sim_def)
    next
      case (Cons d ds)
      let ?b = "d # ds"
      have l: "ls_pending l = ?b" "logfile_seq s = seq" using sim Cons by (simp_all add: log_sim_def)
      have sp: "spec_send serverid pn l = \<lparr>ls_pending = [], ls_sent = ls_sent l @ [(?q, ?b, False)]\<rparr>"
        using Some l by (simp add: spec_send_def)
      have bl: "length (buffers s ! ?q) = BUFFER_SIZE" using sim q(1) by (simp add: log_sim_def)
      have bf: "batch_fits p ?b" and len: "a + sent_len (ls_sent l) + batch_len ?b \<le> 2097152"
        using fits unfolding sp by (simp_all add: batches_def)
      have "p * PAGESIZE \<le> length (buffers s ! ?q)" using bl assms(3) by simp
      from MemCopy_writes [OF this, of ?b little seq] MemCopy_returns [OF this, of ?b little seq] bf obtain buf where
        buf: "MemCopy little (p * PAGESIZE) seq ?b (buffers s ! ?q) = Inr (buf, batch_len ?b * PAGESIZE)"
          "take (batch_len ?b * PAGESIZE) buf = paginate seq (batch_text ?b)" "length buf = BUFFER_SIZE"
        by (auto simp: length_batch_paginate bl)
      from log_sim_sent [OF sim q _ buf(2,3) len] show ?thesis
        using f Some Cons q(1) buf(1) l(2) by (simp add: server_send_def Let_def sp not_le)
    qed
  qed
qed

lemma log_sim_complete:
  assumes sim: "log_sim nv base seq a s l" and q: "q < length (buffers s)"
  shows "log_sim nv base seq a (check_completion nv executed q s) (spec_complete executed q l) \<and>
    length (buffers (check_completion nv executed q s)) = length (buffers s)"
proof (cases "busy l q")
  case False
  then have "leaders s ! q = None" using log_sim_free [OF sim q] by simp
  moreover have "map (\<lambda>(q', b, fin). (q', b, fin \<or> q' = q)) (ls_sent l) = ls_sent l" using False
    by (intro map_idI) (auto simp: busy_def list_ex_iff)
  ultimately show ?thesis using sim by (simp add: check_completion_def spec_complete_def)
next
  case True
  then obtain j b where j: "j < length (ls_sent l)" "ls_sent l ! j = (q, b, False)" by (auto simp: busy_iff)
  let ?o = "a + sent_len (take j (ls_sent l))"
  have c: "leaders s ! q = Some b" "in_flight s ! q = Some (?o * page_sectors nv, batch_len b * page_sectors nv)"
    "take (batch_len b * PAGESIZE) (buffers s ! q) = paginate seq (batch_text b)"
    using sim j by (simp_all add: log_sim_def carried_def)
  show ?thesis
  proof (cases "q \<in> set executed")
    case False
    then show ?thesis using c sim by (simp add: check_completion_def spec_complete_def)
  next
    case ex: True
    let ?es = "(ls_sent l)[j := (q, b, True)]"
    have one: "one_per_queue (ls_sent l)" using sim by (simp add: log_sim_def)
    have mark: "map (\<lambda>(q', b, fin). (q', b, fin \<or> q' = q)) (ls_sent l) = ?es"
    proof (rule nth_equalityI)
      fix i assume "i < length (map (\<lambda>(q', b, fin). (q', b, fin \<or> q' = q)) (ls_sent l))"
      then have i: "i < length (ls_sent l)" by simp
      obtain q' b' fin where e: "ls_sent l ! i = (q', b', fin)" using prod_cases3 by blast
      have "fin" if "i \<noteq> j" "q' = q" using one [unfolded one_per_queue_def, rule_format, OF i j(1), of q b' b] that e j(2) by (cases fin) simp_all
      then show "map (\<lambda>(q', b, fin). (q', b, fin \<or> q' = q)) (ls_sent l) ! i = ?es ! i"
        using i e j by (cases "i = j") auto
    qed simp
    let ?d = "dev_write nv (device s) (?o * page_sectors nv) (batch_len b * page_sectors nv) (buffers s ! q)"
    let ?s = "s\<lparr>device := ?d, in_flight := (in_flight s)[q := None], leaders := (leaders s)[q := None], completed := completed s @ b\<rparr>"
    have "length (leaders s) = length (buffers s)" "length (in_flight s) = length (buffers s)"
      using sim by (simp_all add: log_sim_def)
    then have s: "check_completion nv executed q s = ?s" using c(1,2) ex q by (simp add: check_completion_def complete_io_def)
    have dev: "log_on_device nv (device s) seq a (ls_sent l)" "0 < a" using sim by (simp_all add: log_sim_def)
    note ex' = log_on_device_execute [OF dev(1) j c(3)]
    have old: "?es ! i = (q', b', False) \<longleftrightarrow> ls_sent l ! i = (q', b', False) \<and> q' \<noteq> q" if "i < length (ls_sent l)" for i q' b'
      unfolding mark [symmetric] using that by (cases "ls_sent l ! i") auto
    have busy: "busy (l\<lparr>ls_sent := ?es\<rparr>) q' \<longleftrightarrow> busy l q' \<and> q' \<noteq> q" for q'
      by (auto simp: busy_iff old)
    have "carried nv seq a ?s ?es" using sim q
      by (auto simp: log_sim_def carried_def old sent_len_update [OF j] nth_list_update)
    moreover have "one_per_queue ?es" using one by (auto simp: one_per_queue_def old)
    moreover have "list_all (\<lambda>(q, b, fin). b \<noteq> []) ?es" using sim by (auto simp: mark [symmetric] log_sim_def list_all_iff)
    moreover have "sent_len ?es = sent_len (ls_sent l)" using sent_len_update [OF j, of "length (ls_sent l)" q True] by simp
    moreover have "\<forall>q' < length (buffers s). \<not> busy (l\<lparr>ls_sent := ?es\<rparr>) q' \<longrightarrow>
        (leaders s)[q := None] ! q' = None \<and> (in_flight s)[q := None] ! q' = None"
      using sim q by (auto simp: log_sim_def busy nth_list_update)
    moreover have "executed_records (l\<lparr>ls_sent := ?es\<rparr>) = executed_records l \<union> set b"
    proof -
      have T: "?es ! i = (q', b', True) \<longleftrightarrow> ls_sent l ! i = (q', b', True) \<or> i = j \<and> q' = q \<and> b' = b"
        if "i < length (ls_sent l)" for i q' b' using that j by (cases "i = j") auto
      have "r \<in> executed_records (l\<lparr>ls_sent := ?es\<rparr>) \<longleftrightarrow> r \<in> executed_records l \<union> set b" for r
        using j(1) by (simp add: executed_iff T cong: conj_cong) blast
      then show ?thesis by blast
    qed
    ultimately show ?thesis using ex ex' sim unfolding s by (simp add: spec_complete_def mark log_sim_def)
  qed
qed

lemma log_sim_fold:
  assumes "log_sim nv base seq a s l" "list_all (\<lambda>q. q < length (buffers s)) qs"
  shows "log_sim nv base seq a (fold (check_completion nv executed) qs s) (fold (spec_complete executed) qs l) \<and>
    length (buffers (fold (check_completion nv executed) qs s)) = length (buffers s)"
  using assms
proof (induction qs arbitrary: s l)
  case (Cons q qs)
  then show ?case using log_sim_complete [of base seq a s l q executed]
      Cons.IH [of "check_completion nv executed q s" "spec_complete executed q l"] by simp
qed simp

end

lemma batches_complete [simp]: "batches (spec_complete executed q l) = batches l"
  by (simp add: batches_def spec_complete_def comp_def case_prod_unfold)

lemma batches_fold_complete [simp]: "batches (fold (spec_complete executed) qs l) = batches l"
  by (induction qs arbitrary: l) auto

lemma sent_len_batches: "sent_len (ls_sent l) = sum_list (map batch_len (batches l))"
  by (simp add: sent_len_def batches_def comp_def case_prod_unfold)

lemma batches_run: "\<exists>more. batches (spec_run pn cs l) = batches l @ more"
proof (induction cs arbitrary: l)
  case (Cons c cs)
  have "\<exists>more. batches (spec_send i pn l) = batches l @ more" for i l
    by (auto simp: spec_send_def batches_def split: option.split)
  then have "\<exists>more. batches (spec_round ex i pn l) = batches l @ more" for ex i l by (simp add: spec_round_def)
  moreover have "batches (spec_append d l) = batches l" for d l by (simp add: batches_def spec_append_def)
  ultimately have "\<exists>l'. spec_run pn (c # cs) l = spec_run pn cs l' \<and> (\<exists>more. batches l' = batches l @ more)"
    by (cases c) auto
  then obtain l' more where l': "spec_run pn (c # cs) l = spec_run pn cs l'" "batches l' = batches l @ more" by blast
  from Cons.IH [of l'] l' show ?case by auto
qed simp

definition within_limits :: "nat \<Rightarrow> nat \<Rightarrow> log_spec \<Rightarrow> bool" where
  "within_limits p a l \<longleftrightarrow> list_all (batch_fits p) (batches l) \<and> a + sum_list (map batch_len (batches l)) \<le> 2097152"

lemma within_limits_run:
  assumes "within_limits p a (spec_run pn cs l)"
  shows "within_limits p a l"
  using assms batches_run [of pn cs l] by (auto simp: within_limits_def)

fun call_ok :: "nat \<Rightarrow> log_call \<Rightarrow> bool" where
  "call_ok server_num (Append d) \<longleftrightarrow> storable d"
| "call_ok server_num (Round executed serverid) \<longleftrightarrow> serverid < server_num"

context nvme
begin

lemma log_sim_round:
  assumes "log_sim nv base seq a s l" "(serverid + 1) * pn \<le> length (buffers s)" "p * PAGESIZE \<le> BUFFER_SIZE"
    "within_limits p a (spec_round executed serverid pn l)"
  shows "\<exists>s'. Server nv little (p * PAGESIZE) executed serverid pn s = Inr s' \<and> length (buffers s') = length (buffers s) \<and>
    log_sim nv base seq a s' (spec_round executed serverid pn l)"
proof -
  have "within_limits p a (spec_send serverid pn l)" using assms(4) by (simp add: within_limits_def spec_round_def)
  with log_sim_send [OF assms(1-3), of little] obtain s1 where
    s1: "server_send nv little (p * PAGESIZE) serverid pn s = Inr s1" "length (buffers s1) = length (buffers s)"
      "log_sim nv base seq a s1 (spec_send serverid pn l)"
    by (auto simp: within_limits_def sent_len_batches)
  have "list_all (\<lambda>q. q < length (buffers s1)) (map (\<lambda>i. i + serverid * pn) [0..<pn])"
    using assms(2) s1(2) by (auto simp: list_all_iff)
  from log_sim_fold [OF s1(3) this, of executed] s1 show ?thesis by (simp add: Server_def spec_round_def)
qed

lemma log_sim_run:
  assumes "log_sim nv base seq a s l" "length (buffers s) = server_num * pn" "p * PAGESIZE \<le> BUFFER_SIZE"
    "list_all (call_ok server_num) cs" "within_limits p a (spec_run pn cs l)"
  shows "\<exists>s'. log_run nv little (p * PAGESIZE) pn cs s = Inr s' \<and> log_sim nv base seq a s' (spec_run pn cs l)"
  using assms
proof (induction cs arbitrary: s l)
  case (Cons c cs)
  show ?case
  proof (cases c)
    case (Append d)
    with log_sim_append [OF Cons.prems(1), of d] Cons.IH Cons.prems show ?thesis by fastforce
  next
    case (Round executed serverid)
    have "serverid + 1 \<le> server_num" using Cons.prems(4) Round by simp
    then have "(serverid + 1) * pn \<le> length (buffers s)" unfolding Cons.prems(2) by (rule mult_le_mono1)
    moreover have "within_limits p a (spec_round executed serverid pn l)"
      using Cons.prems(5) Round within_limits_run by simp
    ultimately obtain s1 where "Server nv little (p * PAGESIZE) executed serverid pn s = Inr s1"
      "length (buffers s1) = length (buffers s)" "log_sim nv base seq a s1 (spec_round executed serverid pn l)"
      using log_sim_round [OF Cons.prems(1) _ Cons.prems(3)] by blast
    then show ?thesis using Cons.IH [of s1 "spec_round executed serverid pn l"] Cons.prems Round by simp
  qed
qed simp

lemma log_sim_start:
  assumes "\<forall>i \<ge> 1. blank nv d (num + 110000) i" "0 < server_num" "log_num mod server_num = 0"
  shows "\<exists>s0 s1. SPDKLoggingServer_new log_num server_num d = Inr s0 \<and> CreateWAL nv little num s0 = Inr s1 \<and>
    log_sim nv 110000 (num + 110000) 1 s1 \<lparr>ls_pending = [], ls_sent = []\<rparr> \<and> length (buffers s1) = log_num"
proof -
  let ?seq = "num + 110000 :: uint32"
  obtain s0 where s0: "SPDKLoggingServer_new log_num server_num d = Inr s0" using assms(2,3) by (simp add: SPDKLoggingServer_new_def)
  define s where "s = s0\<lparr>logfile_seq := ?seq, alive_log_files := [Log_new ?seq (current_offset s0)]\<rparr>"
  have new: "s0 = \<lparr>alive_log_files = [], current_offset = LOGGING_START_LPN, submission_queue = [], logfile_seq = 0,
       log_size = 0, base_log_tag_seq = 110000, metadata = replicate PAGESIZE 0, total_log_written = 0,
       buffers = replicate log_num (replicate BUFFER_SIZE 0), leaders = replicate log_num None,
       in_flight = replicate log_num None, completed = [], device = d\<rparr>"
    using s0 assms(2,3) by (simp add: SPDKLoggingServer_new_def)
  have wal: "CreateWAL nv little num s0 = WriteMetadata nv little s" by (simp add: CreateWAL_def s_def new Let_def)
  have "length (metadata s) = PAGESIZE" "length (alive_log_files s) \<le> 204" by (simp_all add: s_def new)
  from WriteMetadata_ok [OF this, of nv little] obtain md rest where
    md: "WriteMetadata nv little s = Inr (s\<lparr>metadata := md, device := dev_write nv (device s) 0 (page_sectors nv) md\<rparr>)"
      "length md = PAGESIZE" "md = logs_text (base_log_tag_seq s) (alive_log_files s) @ rest" by blast
  note page = page_0_written [OF md(2), of d]
  have "logs_text (base_log_tag_seq s) (alive_log_files s) = logs_text 110000 [Log_read ?seq (of_nat 1) 0]"
    by (simp add: s_def new logs_text_def log_text_def Log_new_def Log_read_def LOGGING_START_LPN_def)
  then have "log_sim nv 110000 ?seq 1 (s\<lparr>metadata := md, device := dev_write nv d 0 (page_sectors nv) md\<rparr>)
      \<lparr>ls_pending = [], ls_sent = []\<rparr>"
    using assms(1) md(3) page
    by (simp add: log_sim_def s_def new LOGGING_START_LPN_def carried_def one_per_queue_def executed_records_def log_on_device_def blank_def)
  moreover have "device s = d" "length (buffers s) = log_num" by (simp_all add: s_def new)
  ultimately show ?thesis using s0 wal md(1) by auto
qed

end

lemma storable_spec:
  assumes "list_all storable (ls_pending l)" "list_all (list_all storable) (batches l)" "list_all (call_ok m) cs"
  shows "list_all (list_all storable) (batches (spec_run pn cs l))"
  using assms
proof (induction cs arbitrary: l)
  case (Cons c cs)
  show ?case
  proof (cases c)
    case (Append d)
    then show ?thesis using Cons by (simp add: spec_append_def batches_def)
  next
    case (Round executed i)
    have "ls_pending (fold (spec_complete executed) qs l') = ls_pending l'" for qs l'
      by (induction qs arbitrary: l') (auto simp: spec_complete_def)
    moreover have "list_all storable (ls_pending (spec_send i pn l))" "list_all (list_all storable) (batches (spec_send i pn l))"
      using Cons.prems(1,2) by (auto simp: spec_send_def batches_def split: option.split)
    ultimately show ?thesis using Cons Round by (simp add: spec_round_def)
  qed
qed simp

text \<open>With one queue pair, only the last batch can be on its way.\<close>

definition in_order :: "sent_batch list \<Rightarrow> bool" where
  "in_order es \<longleftrightarrow> list_all (\<lambda>(q, b, fin). q = 0) es \<and> list_all (\<lambda>(q, b, fin). fin) (butlast es)"

lemma in_order_run:
  assumes "in_order (ls_sent l)" "list_all (call_ok 1) cs"
  shows "in_order (ls_sent (spec_run 1 cs l))"
  using assms
proof (induction cs arbitrary: l)
  case (Cons c cs)
  show ?case
  proof (cases c)
    case (Append d)
    then show ?thesis using Cons by (simp add: spec_append_def)
  next
    case (Round executed i)
    have send: "in_order (ls_sent (spec_send 0 1 l'))" if "in_order (ls_sent l')" for l'
      using that by (auto simp: spec_send_def in_order_def busy_def list_all_iff list_ex_iff butlast_append)
    have "in_order (ls_sent (spec_complete executed 0 l'))" if "in_order (ls_sent l')" for l'
      using that by (auto simp: spec_complete_def in_order_def list_all_iff map_butlast [symmetric])
    then have "in_order (ls_sent (spec_round executed 0 1 l))" using Cons.prems send by (simp add: spec_round_def)
    then show ?thesis using Cons Round by simp
  qed
qed simp

lemma in_order_durable:
  assumes "in_order (ls_sent l)"
  shows "executed_records l = set (durable l)"
proof (cases "ls_sent l" rule: rev_cases)
  case (snoc es e)
  then have "list_all (\<lambda>(q, b, fin). fin) es" using assms by (simp add: in_order_def)
  then have "takeWhile (\<lambda>(q, b, fin). fin) (es @ [e]) = es @ takeWhile (\<lambda>(q, b, fin). fin) [e]"
    by (intro takeWhile_append2) (auto simp: list_all_iff)
  moreover have "map (\<lambda>(q, b, fin). if fin then b else []) es = map (\<lambda>(q, b, fin). b) es"
    using \<open>list_all _ es\<close> by (auto simp: list_all_iff)
  ultimately show ?thesis using snoc by (cases e) (auto simp: executed_records_def durable_def)
qed (simp add: executed_records_def durable_def)

lemma run_recovers:
  assumes "nvme nv" "\<forall>i \<ge> 1. blank nv d (num + 110000) i" "0 < server_num" "log_num mod server_num = 0"
    "p * PAGESIZE \<le> BUFFER_SIZE" "list_all (call_ok server_num) cs"
    "within_limits p 1 (spec_run (log_num div server_num) cs \<lparr>ls_pending = [], ls_sent = []\<rparr>)"
  defines "l \<equiv> spec_run (log_num div server_num) cs \<lparr>ls_pending = [], ls_sent = []\<rparr>"
  shows "\<exists>s0 s1 s. SPDKLoggingServer_new log_num server_num d = Inr s0 \<and> CreateWAL nv little num s0 = Inr s1 \<and>
    log_run nv little (p * PAGESIZE) (log_num div server_num) cs s1 = Inr s \<and>
    set (completed s) = executed_records l \<and>
    SSDLoggingRecovery nv little' (device s) = Some (Inr (map (\<lambda>r. (r, num)) (durable l))) \<and>
    (log_num = 1 \<longrightarrow> set (completed s) = set (durable l))"
proof -
  from nvme.log_sim_start [OF assms(1-4), of little] obtain s0 s1 where
    s1: "SPDKLoggingServer_new log_num server_num d = Inr s0" "CreateWAL nv little num s0 = Inr s1"
      "log_sim nv 110000 (num + 110000) 1 s1 \<lparr>ls_pending = [], ls_sent = []\<rparr>" "length (buffers s1) = log_num" by blast
  have "length (buffers s1) = server_num * (log_num div server_num)" using s1(4) assms(4) by auto
  from nvme.log_sim_run [OF assms(1) s1(3) this assms(5,6,7), of little] obtain s where
    s: "log_run nv little (p * PAGESIZE) (log_num div server_num) cs s1 = Inr s" "log_sim nv 110000 (num + 110000) 1 s l"
    by (auto simp: l_def)
  have "list_all (list_all storable) (batches l)"
    unfolding l_def by (rule storable_spec [OF _ _ assms(6)]) (simp_all add: batches_def)
  moreover have "list_all (\<lambda>(q, b, fin). b \<noteq> []) (ls_sent l)" using s(2) by (simp add: log_sim_def)
  ultimately have "list_all (\<lambda>(q, b, fin). b \<noteq> [] \<and> list_all storable b) (ls_sent l)"
    by (induction "ls_sent l" arbitrary: l) (auto simp: batches_def list_all_length split_beta)
  with s(2) recovery_reads [of nv "device s" "num + 110000" 1 "ls_sent l" 110000]
  have "SSDLoggingRecovery nv little' (device s) = Some (Inr (map (\<lambda>r. (r, num)) (durable l)))"
    by (auto simp: log_sim_def durable_def)
  moreover have "executed_records l = set (durable l)" if "log_num = 1"
  proof (rule in_order_durable)
    have "\<not> 1 < server_num" using that assms(4) by auto
    then have "server_num = 1" using assms(3) by simp
    then show "in_order (ls_sent l)" using that assms(6) in_order_run [of "\<lparr>ls_pending = [], ls_sent = []\<rparr>" cs]
      by (simp add: l_def in_order_def)
  qed
  ultimately show ?thesis using s1 s by (auto simp: log_sim_def)
qed

end
