(* ===== verification/Log_Properties.thy ===== *)
theory Log_Properties
  imports Log_Durable
begin

text \<open>The properties of the log of the SPDK server and of its recovery, with runs on a concrete device.\<close>

section \<open>Examples\<close>

abbreviation zero_device :: sector_map where
  "zero_device \<equiv> \<lambda>_. replicate 512 0"

lemma concat_replicates: "concat (replicate n (replicate k x)) = replicate (n * k) x"
  by (induction n) (auto simp: replicate_add)

lemma zero_device_blank:
  assumes "v \<noteq> 0"
  shows "blank sector_map_ops zero_device v i"
proof -
  have "page_at sector_map_ops zero_device i = replicate 4096 0"
    by (simp add: page_at_def page_sectors_def sector_map_ops_def PAGESIZE_def map_replicate_const concat_replicates)
  then have "take 4 (page_at sector_map_ops zero_device i) = word_bytes 4 (0 :: uint32)"
    by (simp add: word_bytes_def map_replicate_const)
  with assms show ?thesis unfolding blank_def by metis
qed

lemma one_byte_batch: "batch_len [[x]] = 1" "batch_fits 256 [[x]]"
  by (simp_all add: batch_len_def batch_text_def padding_def page_room_val batch_fits_def batch_bound_def PAGESIZE_def)

section \<open>Properties\<close>



text \<open>
  C30. With two queue pairs a completed record can be lost. Here the write of the first batch is still on its way
  when the write of the second one is executed: the second record is completed, but the
  recovery stops in front of the pages of the first one and returns nothing.
\<close>

theorem acknowledged_lost:
  "\<exists>s0 s1 s. SPDKLoggingServer_new 2 1 zero_device = Inr s0 \<and> CreateWAL sector_map_ops little 7 s0 = Inr s1 \<and>
    log_run sector_map_ops little (256 * PAGESIZE) 2 [Append [x], Round [] 0, Append [y], Round [1] 0] s1 = Inr s \<and>
    set (completed s) = {[y]} \<and> SSDLoggingRecovery sector_map_ops little (device s) = Some (Inr [])"
proof -
  let ?cs = "[Append [x], Round [] 0, Append [y], Round [1] 0]" and ?l = "\<lparr>ls_pending = [], ls_sent = []\<rparr> :: log_spec"
  have l: "spec_run (2 div 1) ?cs ?l = \<lparr>ls_pending = [], ls_sent = [(0, [[x]], False), (1, [[y]], True)]\<rparr>"
    by (simp add: spec_append_def spec_round_def spec_send_def spec_complete_def busy_def upt_rec)
  have w: "within_limits 256 1 (spec_run (2 div 1) ?cs ?l)"
    unfolding l by (simp add: within_limits_def batches_def one_byte_batch)
  have b: "\<forall>i \<ge> 1. blank sector_map_ops zero_device (7 + 110000) i" by (simp add: zero_device_blank)
  show ?thesis
    using run_recovers [OF sm.nvme_axioms b _ _ _ _ w, of little little] unfolding l
    by (simp add: BUFFER_SIZE_def PAGESIZE_def durable_def executed_records_def)
qed

text \<open>
  C29. \<open>ReadMetadata\<close> reads back the list of log files that \<open>WriteMetadata\<close> has written, as long as the
  list fits into its page; a list of more than 204 log files runs over the end of the page.
\<close>

theorem metadata_round_trip:
  assumes "nvme nv" "length (metadata s) = PAGESIZE" "contiguous 0 (alive_log_files s)"
  shows "if length (alive_log_files s) \<le> 204
    then \<exists>s'. WriteMetadata nv little s = Inr s' \<and>
      ReadMetadata nv little' (device s') =
        Inr (base_log_tag_seq s, map (\<lambda>l. Log_read (log_seq l) (start_lpn l) (end_lpn l)) (alive_log_files s))
    else WriteMetadata nv little s = Inl OutOfRange"
proof (cases "length (alive_log_files s) \<le> 204")
  case True
  from WriteMetadata_ok [OF assms(2) True, of nv little] obtain md rest where
    md: "WriteMetadata nv little s = Inr (s\<lparr>metadata := md, device := dev_write nv (device s) 0 (page_sectors nv) md\<rparr>)"
      "length md = PAGESIZE" "md = logs_text (base_log_tag_seq s) (alive_log_files s) @ rest" by blast
  have "page_at nv (dev_write nv (device s) 0 (page_sectors nv) md) 0 = md"
    using nvme.page_0_written [OF assms(1) md(2)] by simp
  with md(3) ReadMetadata_ok [OF _ assms(3) True, of nv] md(1) True show ?thesis by auto
qed (use WriteMetadata_overflow [OF assms(2)] in simp)

theorem metadata_round_trip_witness:
  "\<exists>s0 s'. SPDKLoggingServer_new 1 1 zero_device = Inr s0 \<and>
    WriteMetadata sector_map_ops True (s0\<lparr>alive_log_files := [Log_read 5 1 3, Log_read 6 4 0]\<rparr>) = Inr s' \<and>
    ReadMetadata sector_map_ops True (device s') = Inr (110000, [Log_read 5 1 3, Log_read 6 4 0])"
proof -
  obtain s0 where s0: "SPDKLoggingServer_new 1 1 zero_device = Inr s0" by (simp add: SPDKLoggingServer_new_def)
  let ?s = "s0\<lparr>alive_log_files := [Log_read 5 1 3, Log_read 6 4 0]\<rparr>"
  have "length (metadata ?s) = PAGESIZE" "contiguous 0 (alive_log_files ?s)" "base_log_tag_seq ?s = 110000"
    using s0 by (auto simp: SPDKLoggingServer_new_def Log_read_def)
  then show ?thesis using metadata_round_trip [OF sm.nvme_axioms, of ?s True True] s0 by (simp add: Log_read_def)
qed



end
