(* ===== verification/Zipfian.thy ===== *)
theory Zipfian
  imports Latency_Stats
begin

text \<open>
  The workload generator of \<^verbatim>\<open>src/traceloader/zipfian.h\<close>: \<open>ZipfianGenerator\<close>, \<open>FNVHash64\<close> and
  \<open>ScrambledZipfianGenerator\<close>. The \<open>double\<close>s are real numbers, \<open>std::pow\<close> is \<open>powr\<close>. What
  \<open>RandomDouble\<close> draws is an argument \<open>u\<close> of \<open>Next\<close>.

  The lemmas compute the zeta constant that the constructor accumulates, and show that the generator
  draws ranks in the way of a Zipfian distribution: the two most popular ranks have exactly their share
  of the unit interval, and every other value lies in the range of the generator.
\<close>

unbundle bit_operations_syntax

section \<open>The generator\<close>

record ZipfianGenerator =
  z_num_items :: uint64
  z_base :: uint64
  z_theta :: real
  z_zeta_n :: real
  z_eta :: real
  z_alpha :: real
  z_zeta_2 :: real
  z_n_for_zeta :: uint64
  z_last_value :: uint64

definition kMaxNumItems :: uint64 where
  "kMaxNumItems = drop_bit 24 (- 1)"

text \<open>
  The loop over \<open>i = last_num + 1, ..., cur_num\<close>. The callers bound \<open>cur_num\<close> by \<open>kMaxNumItems\<close>, so the
  counter does not wrap around and is a natural number here.
\<close>

function Zeta :: "nat \<Rightarrow> nat \<Rightarrow> real \<Rightarrow> real \<Rightarrow> real" where
  "Zeta last_num cur_num theta zeta =
     (if last_num < cur_num then Zeta (Suc last_num) cur_num theta (zeta + 1 / real (Suc last_num) powr theta) else zeta)"
  by auto
termination by (relation "measure (\<lambda>(last_num, cur_num, _). cur_num - last_num)") auto

declare Zeta.simps [simp del]

definition RaiseZeta :: "uint64 \<Rightarrow> ZipfianGenerator \<Rightarrow> ZipfianGenerator result" where
  "RaiseZeta num g =
     r_assert (z_n_for_zeta g \<le> num) ''num >= n_for_zeta_'' (
     Inr (g\<lparr>z_zeta_n := Zeta (unat (z_n_for_zeta g)) (unat num) (z_theta g) (z_zeta_n g), z_n_for_zeta := num\<rparr>))"

definition Eta :: "ZipfianGenerator \<Rightarrow> real" where
  "Eta g = (1 - (2 / to_double (z_num_items g)) powr (1 - z_theta g)) / (1 - z_zeta_2 g / z_zeta_n g)"

definition Next :: "uint64 \<Rightarrow> real \<Rightarrow> ZipfianGenerator \<Rightarrow> (uint64 \<times> ZipfianGenerator) result" where
  "Next num u g =
     r_assert (2 \<le> num \<and> num < kMaxNumItems) ''num >= 2 && num < kMaxNumItems'' (
     r_bind (if z_n_for_zeta g < num then r_bind (RaiseZeta num g) (\<lambda>g. Inr (g\<lparr>z_eta := Eta g\<rparr>)) else Inr g) (\<lambda>g.
     let uz = u * z_zeta_n g in
     r_bind (if uz < 1 then Inr 0
             else if uz < 1 + (1 / 2) powr z_theta g then Inr 1
             else uint64_of_double (to_double (z_base g) +
                    to_double num * (z_eta g * u - z_eta g + 1) powr z_alpha g)) (\<lambda>v.
     Inr (v, g\<lparr>z_last_value := v\<rparr>))))"

definition Last :: "ZipfianGenerator \<Rightarrow> uint64" where
  "Last g = z_last_value g"

text \<open>\<open>u\<close> is the number that the call of \<open>Next\<close> in the constructor draws.\<close>

definition ZipfianGenerator_new :: "uint64 \<Rightarrow> uint64 \<Rightarrow> real \<Rightarrow> real \<Rightarrow> ZipfianGenerator result" where
  "ZipfianGenerator_new lo hi zipfian_const u =
     (let n = hi - lo + 1;
          g = \<lparr>z_num_items = n, z_base = lo, z_theta = zipfian_const, z_zeta_n = 0, z_eta = 0,
            z_alpha = 1 / (1 - zipfian_const), z_zeta_2 = Zeta 0 2 zipfian_const 0, z_n_for_zeta = 0, z_last_value = 0\<rparr>
      in r_assert (2 \<le> n \<and> n < kMaxNumItems) ''num_items_ >= 2 && num_items_ < kMaxNumItems'' (
         r_bind (RaiseZeta n g) (\<lambda>g.
         r_bind (Next n u (g\<lparr>z_eta := Eta g\<rparr>)) (\<lambda>(_, g). Inr g))))"

section \<open>Scrambling\<close>

definition kFNVOffsetBasis64 :: uint64 where "kFNVOffsetBasis64 = 0xCBF29CE484222325"
definition kFNVPrime64 :: uint64 where "kFNVPrime64 = 1099511628211"

fun fnv_loop :: "nat \<Rightarrow> uint64 \<Rightarrow> uint64 \<Rightarrow> uint64" where
  "fnv_loop 0 val hash = hash"
| "fnv_loop (Suc i) val hash =
     (let octet = val AND 0x00ff in fnv_loop i (drop_bit 8 val) ((hash XOR octet) * kFNVPrime64))"

definition FNVHash64 :: "uint64 \<Rightarrow> uint64" where
  "FNVHash64 val = fnv_loop 8 val kFNVOffsetBasis64"

record ScrambledZipfianGenerator =
  s_base :: uint64
  s_num_items :: uint64
  s_generator :: ZipfianGenerator

definition Scrambled_new :: "uint64 \<Rightarrow> uint64 \<Rightarrow> real \<Rightarrow> real \<Rightarrow> ScrambledZipfianGenerator result" where
  "Scrambled_new lo hi zipfian_const u =
     r_bind (ZipfianGenerator_new lo hi zipfian_const u) (\<lambda>g.
     Inr \<lparr>s_base = lo, s_num_items = hi - lo + 1, s_generator = g\<rparr>)"

definition Scramble :: "ScrambledZipfianGenerator \<Rightarrow> uint64 \<Rightarrow> uint64 result" where
  "Scramble s val =
     (if s_num_items s = 0 then Inl DivByZero else Inr (s_base s + FNVHash64 val mod s_num_items s))"

definition Scrambled_Next :: "real \<Rightarrow> ScrambledZipfianGenerator \<Rightarrow> (uint64 \<times> ScrambledZipfianGenerator) result" where
  "Scrambled_Next u s =
     r_bind (Next (z_num_items (s_generator s)) u (s_generator s)) (\<lambda>(v, g).
     r_bind (Scramble s v) (\<lambda>r. Inr (r, s\<lparr>s_generator := g\<rparr>)))"

definition Scrambled_Last :: "ScrambledZipfianGenerator \<Rightarrow> uint64 result" where
  "Scrambled_Last s = Scramble s (Last (s_generator s))"

section \<open>The zeta constant\<close>

definition zeta :: "nat \<Rightarrow> real \<Rightarrow> real" where
  "zeta n theta = (\<Sum>i = 1..n. 1 / real i powr theta)"

text \<open>The incremental computation gives the constant of the larger number.\<close>

lemma Zeta_zeta: "last_num \<le> cur_num \<Longrightarrow> Zeta last_num cur_num theta (zeta last_num theta) = zeta cur_num theta"
proof (induction "cur_num - last_num" arbitrary: last_num)
  case (Suc d)
  then have "Zeta (Suc last_num) cur_num theta (zeta (Suc last_num) theta) = zeta cur_num theta" by simp
  with Suc.hyps(2) show ?case by (subst Zeta.simps) (simp add: zeta_def)
qed (simp add: Zeta.simps)

lemma Zeta_from_0: "Zeta 0 n theta 0 = zeta n theta"
  using Zeta_zeta [of 0 n theta] by (simp add: zeta_def)

lemma zeta_2: "zeta 2 theta = 1 + (1 / 2) powr theta"
  by (simp add: zeta_def numeral_2_eq_2 powr_divide)

lemma zeta_mono: "m \<le> n \<Longrightarrow> zeta m theta \<le> zeta n theta"
  unfolding zeta_def by (rule sum_mono2) auto

lemma zeta_less: "m < n \<Longrightarrow> zeta m theta < zeta n theta"
  unfolding zeta_def by (rule sum_strict_mono2 [where b = n]) auto

lemma zeta_ge_1: "1 \<le> n \<Longrightarrow> 1 \<le> zeta n theta"
  using zeta_mono [of 1 n theta] by (simp add: zeta_def)

section \<open>The values\<close>

text \<open>A generator for \<open>n\<close> items from \<open>b\<close> on.\<close>

definition zipf_ok :: "uint64 \<Rightarrow> nat \<Rightarrow> real \<Rightarrow> ZipfianGenerator \<Rightarrow> bool" where
  "zipf_ok b n theta g \<longleftrightarrow>
     0 < theta \<and> theta < 1 \<and> 2 \<le> n \<and> n < unat kMaxNumItems \<and> unat b + n \<le> 2 ^ 64 \<and>
     z_num_items g = of_nat n \<and> z_base g = b \<and> z_theta g = theta \<and> z_zeta_n g = zeta n theta \<and> z_zeta_2 g = zeta 2 theta \<and>
     z_eta g = Eta g \<and> z_alpha g = 1 / (1 - theta) \<and> z_n_for_zeta g = of_nat n"

lemma unat_kMaxNumItems: "unat kMaxNumItems = 2 ^ 40 - 1"
  by (simp add: kMaxNumItems_def unsigned_drop_bit_eq unsigned_minus_1_eq_mask drop_bit_mask_eq mask_eq_exp_minus_1)

lemma unat_items: "n < unat kMaxNumItems \<Longrightarrow> unat (of_nat n :: uint64) = n"
  by (simp add: unat_kMaxNumItems unat_of_nat take_bit_nat_eq_self)

text \<open>The base of the power that \<open>Next\<close> computes beyond the two most popular ranks.\<close>

lemma eta_bounds:
  assumes "0 < theta" "theta < 1" "2 \<le> n" "0 \<le> u" "u < 1" "zeta 2 theta \<le> u * zeta n theta"
  defines "e \<equiv> (1 - (2 / real n) powr (1 - theta)) / (1 - zeta 2 theta / zeta n theta)"
  shows "(2 / real n) powr (1 - theta) \<le> e * u - e + 1" "e * u - e + 1 < 1"
proof -
  let ?r = "zeta 2 theta / zeta n theta" and ?p = "(2 / real n) powr (1 - theta)"
  have z: "1 \<le> zeta n theta" "1 \<le> zeta 2 theta" using zeta_ge_1 assms(3) by auto
  have "u * zeta n theta < zeta n theta" using z assms by simp
  then have "n \<noteq> 2" using assms(6) by auto
  then have n: "2 < n" using assms(3) by simp
  have r: "?r \<le> u" using assms(6) z by (simp add: field_simps)
  have r1: "?r < 1" using zeta_less [OF n, of theta] z by simp
  have p: "?p < 1" using n assms(2) powr_less_mono2 [of "1 - theta" "2 / real n" 1] by simp
  have e: "0 < e" "e * (1 - ?r) = 1 - ?p" using p r1 by (auto simp: e_def)
  have "e * (1 - u) \<le> e * (1 - ?r)" using e(1) r by simp
  then show "?p \<le> e * u - e + 1" using e(2) by (simp add: algebra_simps)
  show "e * u - e + 1 < 1" using e(1) assms(5) by simp
qed

lemma tail_value_range:
  assumes "0 < theta" "theta < 1" "2 \<le> n" "(2 / real n) powr (1 - theta) \<le> x" "x < 1"
  shows "2 \<le> real n * x powr (1 / (1 - theta))" "real n * x powr (1 / (1 - theta)) < real n"
proof -
  have x: "0 < x" using assms(3,4) by (smt (verit) divide_pos_pos of_nat_0_less_iff powr_gt_zero zero_less_numeral less_le_trans)
  have "2 / real n = ((2 / real n) powr (1 - theta)) powr (1 / (1 - theta))"
    using assms by (simp add: powr_powr)
  also have "\<dots> \<le> x powr (1 / (1 - theta))"
    using assms x by (intro powr_mono2) auto
  finally show "2 \<le> real n * x powr (1 / (1 - theta))" using assms(3) by (simp add: field_simps)
  have "x powr (1 / (1 - theta)) < 1 powr (1 / (1 - theta))"
    using assms x by (intro powr_less_mono2) auto
  then show "real n * x powr (1 / (1 - theta)) < real n" using assms(3) by simp
qed

lemma uint64_of_double_offset:
  assumes "2 \<le> x" "x < real n" "unat b + n \<le> 2 ^ 64"
  shows "\<exists>v. uint64_of_double (to_double b + x) = Inr v \<and> unat b + 2 \<le> unat v \<and> unat v < unat b + n"
proof -
  have "real (unat b + n) \<le> real (2 ^ 64)" using assms(3) by (simp only: of_nat_le_iff)
  then have "to_double b + x < 2 ^ 64" using assms(2) by (simp add: to_double_def del: of_nat_unat)
  moreover have "0 \<le> to_double b + x" using assms(1) to_double_nonneg [of b] by linarith
  ultimately obtain v where v: "uint64_of_double (to_double b + x) = Inr v" "unat v = nat \<lfloor>to_double b + x\<rfloor>"
    using uint64_of_double_unat by blast
  have "\<lfloor>to_double b + x\<rfloor> = int (unat b) + \<lfloor>x\<rfloor>" by (simp add: to_double_def del: of_nat_unat)
  moreover have "2 \<le> \<lfloor>x\<rfloor>" "\<lfloor>x\<rfloor> < int n" using assms(1,2) by linarith+
  ultimately have "unat b + 2 \<le> unat v" "unat v < unat b + n" using v(2) by linarith+
  with v(1) show ?thesis by blast
qed

lemma Next_ok:
  assumes ok: "zipf_ok b n theta g" and u: "0 \<le> u" "u < 1"
  shows "\<exists>v. Next (z_num_items g) u g = Inr (v, g\<lparr>z_last_value := v\<rparr>) \<and> zipf_ok b n theta (g\<lparr>z_last_value := v\<rparr>) \<and>
    (if u * zeta n theta < 1 then v = 0
     else if u * zeta n theta < zeta 2 theta then v = 1
     else unat b + 2 \<le> unat v \<and> unat v < unat b + n)"
proof -
  have g: "0 < theta" "theta < 1" "2 \<le> n" "n < unat kMaxNumItems" "unat b + n \<le> 2 ^ 64" "z_num_items g = of_nat n"
    "z_base g = b" "z_theta g = theta" "z_zeta_n g = zeta n theta" "z_zeta_2 g = zeta 2 theta" "z_eta g = Eta g"
    "z_alpha g = 1 / (1 - theta)" "z_n_for_zeta g = of_nat n" using ok by (auto simp: zipf_ok_def)
  have a: "2 \<le> (of_nat n :: uint64)" "(of_nat n :: uint64) < kMaxNumItems"
    using g(3,4) by (simp_all add: word_le_nat_alt word_less_nat_alt unat_items)
  have td: "to_double (of_nat n :: uint64) = real n" using g(4) by (simp add: to_double_def unat_items del: of_nat_unat)
  have keep: "zipf_ok b n theta (g\<lparr>z_last_value := v\<rparr>)" for v using ok by (simp add: zipf_ok_def Eta_def)
  have "\<exists>v. uint64_of_double (to_double b + real n * (Eta g * u - Eta g + 1) powr (1 / (1 - theta))) = Inr v \<and>
      unat b + 2 \<le> unat v \<and> unat v < unat b + n" if "zeta 2 theta \<le> u * zeta n theta"
    using eta_bounds [OF g(1-3) u that] tail_value_range [OF g(1-3)] uint64_of_double_offset [OF _ _ g(5)]
    by (simp add: Eta_def g td)
  then show ?thesis using a keep
    by (auto simp: Next_def Let_def g td zeta_2 [symmetric] not_less)
qed

lemma new_ok:
  assumes "0 < theta" "theta < 1" "2 \<le> n" "n < unat kMaxNumItems" "unat b + n \<le> 2 ^ 64" "0 \<le> u" "u < 1"
  shows "\<exists>g. ZipfianGenerator_new b (b + of_nat n - 1) theta u = Inr g \<and> zipf_ok b n theta g"
proof -
  let ?g = "\<lparr>z_num_items = of_nat n, z_base = b, z_theta = theta, z_zeta_n = zeta n theta, z_eta = 0,
    z_alpha = 1 / (1 - theta), z_zeta_2 = zeta 2 theta, z_n_for_zeta = of_nat n, z_last_value = 0\<rparr>"
  have a: "2 \<le> (of_nat n :: uint64)" "(of_nat n :: uint64) < kMaxNumItems"
    using assms(3,4) by (simp_all add: word_le_nat_alt word_less_nat_alt unat_items)
  have ok: "zipf_ok b n theta (?g\<lparr>z_eta := Eta ?g\<rparr>)" using assms by (simp add: zipf_ok_def Eta_def)
  show ?thesis
    using Next_ok [OF ok assms(6,7)] a assms(4)
    by (auto simp: ZipfianGenerator_new_def Let_def RaiseZeta_def unat_items Zeta_from_0)
qed







section \<open>The scrambled values\<close>

definition scrambled_ok :: "uint64 \<Rightarrow> nat \<Rightarrow> real \<Rightarrow> ScrambledZipfianGenerator \<Rightarrow> bool" where
  "scrambled_ok b n theta s \<longleftrightarrow> zipf_ok b n theta (s_generator s) \<and> s_base s = b \<and> s_num_items s = of_nat n"

lemma Scramble_range:
  assumes "scrambled_ok b n theta s"
  shows "\<exists>r. Scramble s v = Inr r \<and> unat b \<le> unat r \<and> unat r < unat b + n"
proof -
  have s: "s_base s = b" "s_num_items s = of_nat n" "2 \<le> n" "n < unat kMaxNumItems" "unat b + n \<le> 2 ^ 64"
    using assms by (auto simp: scrambled_ok_def zipf_ok_def)
  have n: "unat (of_nat n :: uint64) = n" using s(4) by (rule unat_items)
  then have "(of_nat n :: uint64) \<noteq> 0" using s(3) by (metis not_numeral_le_zero unat_0)
  moreover have h: "unat (FNVHash64 v mod of_nat n) < n" using s(3) by (simp add: unat_mod n)
  ultimately show ?thesis
    using s by (auto simp: Scramble_def unat_word_ariths(1) mod_less)
qed

lemma Scrambled_Next_ok:
  assumes "scrambled_ok b n theta s" "0 \<le> u" "u < 1"
  shows "\<exists>r s'. Scrambled_Next u s = Inr (r, s') \<and> scrambled_ok b n theta s' \<and> unat b \<le> unat r \<and> unat r < unat b + n"
proof -
  obtain v where v: "Next (z_num_items (s_generator s)) u (s_generator s) = Inr (v, (s_generator s)\<lparr>z_last_value := v\<rparr>)"
    "zipf_ok b n theta ((s_generator s)\<lparr>z_last_value := v\<rparr>)"
    using Next_ok [of b n theta "s_generator s" u] assms by (auto simp: scrambled_ok_def)
  show ?thesis using Scramble_range [OF assms(1), of v] v assms(1)
    by (auto simp: Scrambled_Next_def scrambled_ok_def)
qed

lemma Scrambled_new_ok:
  assumes "0 < theta" "theta < 1" "2 \<le> n" "n < unat kMaxNumItems" "unat b + n \<le> 2 ^ 64" "0 \<le> u" "u < 1"
  shows "\<exists>s. Scrambled_new b (b + of_nat n - 1) theta u = Inr s \<and> scrambled_ok b n theta s"
  using new_ok [OF assms] by (auto simp: Scrambled_new_def scrambled_ok_def)

end
