(* ===== verification/Trace_Loader.thy ===== *)
theory Trace_Loader
  imports Zipfian Codec
begin

text \<open>
  \<open>TraceLoader\<close> of \<^verbatim>\<open>src/traceloader/trace_loader.h\<close>: the four constructors that load a workload
  (Zipfian, MSR, Twitter in binary form, Twitter in its original form), \<open>GetRequest\<close>, and the
  functions on strings that they use. A text file is its string, a binary file the list of its bytes;
  a file that cannot be opened is \<open>None\<close>. \<open>requests_\<close> is the list of the requests loaded so far, so that
  \<open>load_index_\<close> is its length; the 100 GB that are allocated for it are taken to be enough.
  A signed addition that overflows is reported as \<open>OutOfRange\<close>.
\<close>

section \<open>Strings\<close>

text \<open>
  The pieces between the occurrences of a character. For a comma these are the \<open>words\<close> of a line; for
  the end of a line they are what the calls of \<open>getline\<close> return until the end of the file is met.
\<close>

fun split_on :: "char \<Rightarrow> string \<Rightarrow> string list" where
  "split_on c [] = [[]]"
| "split_on c (x # xs) =
     (if x = c then [] # split_on c xs
      else case split_on c xs of w # ws \<Rightarrow> (x # w) # ws | [] \<Rightarrow> [[x]])"

definition newline :: char where "newline = CHR 0x0A"
definition comma :: char where "comma = CHR '',''"

text \<open>An element of a \<open>std::vector\<close>.\<close>

definition vec_at :: "'a list \<Rightarrow> nat \<Rightarrow> 'a result" where
  "vec_at xs i = (if i < length xs then Inr (xs ! i) else Inl OutOfRange)"

definition char_code :: "char \<Rightarrow> nat" where "char_code c = of_char c"

definition isspace :: "char \<Rightarrow> bool" where
  "isspace c \<longleftrightarrow> char_code c = 32 \<or> (9 \<le> char_code c \<and> char_code c \<le> 13)"

definition isdigit :: "char \<Rightarrow> bool" where
  "isdigit c \<longleftrightarrow> 48 \<le> char_code c \<and> char_code c \<le> 57"

fun digits_value :: "int \<Rightarrow> string \<Rightarrow> int" where
  "digits_value acc [] = acc"
| "digits_value acc (c # cs) = (if isdigit c then digits_value (10 * acc + (int (char_code c) - 48)) cs else acc)"

text \<open>\<open>strtol(s, NULL, 10)\<close>: a value that does not fit is replaced by the nearest \<open>long\<close>.\<close>

definition strtol :: "string \<Rightarrow> int" where
  "strtol s =
     (let v = (case dropWhile isspace s of
                 [] \<Rightarrow> 0
               | c # cs \<Rightarrow> if c = CHR ''-'' then - digits_value 0 cs
                           else if c = CHR ''+'' then digits_value 0 cs else digits_value 0 (c # cs))
      in max (- (2 ^ 63)) (min v (2 ^ 63 - 1)))"

text \<open>The conversion of a \<open>long\<close> to \<open>int\<close>.\<close>

definition to_int :: "int \<Rightarrow> int" where
  "to_int x = sint (word_of_int x :: 32 word)"

fun nat_digits :: "nat \<Rightarrow> string" where
  "nat_digits n = (if n < 10 then [] else nat_digits (n div 10)) @ [char_of (48 + n mod 10)]"

declare nat_digits.simps [simp del]

definition to_string :: "int \<Rightarrow> string" where
  "to_string i = (if i < 0 then CHR ''-'' # nat_digits (nat (- i)) else nat_digits (nat i))"

text \<open>The counter of the loop is an \<open>int\<close> and overflows behind its largest value.\<close>

definition extract_suffix_string :: "string \<Rightarrow> string \<Rightarrow> string list result" where
  "extract_suffix_string start stop =
     (let i = to_int (strtol start); j = to_int (strtol stop)
      in if i \<le> j \<and> j = 2 ^ 31 - 1 then Inl OutOfRange else Inr (map to_string [i..j]))"

text \<open>\<open>char\<close> is signed; the product is one of \<open>unsigned long\<close>s.\<close>

definition char_value :: "char \<Rightarrow> int" where
  "char_value c = (if char_code c < 128 then int (char_code c) else int (char_code c) - 256)"

fun hash_loop :: "uint64 \<Rightarrow> uint64 \<Rightarrow> string \<Rightarrow> uint64" where
  "hash_loop hash_value p_pow [] = hash_value"
| "hash_loop hash_value p_pow (c # cs) =
     hash_loop ((hash_value + of_int (char_value c - 48 + 1) * p_pow) mod 1000000009) (p_pow * 31 mod 1000000009) cs"

definition string_hash :: "string \<Rightarrow> uint32" where
  "string_hash s = ucast (hash_loop 0 1 s)"

section \<open>Requests\<close>

datatype Operation = PUT | GET | DELETE | READ | WRITE
  | op_set | op_add | op_replace | op_append | op_prepend | op_cas | op_get | op_gets | op_delete
  | op_incr | op_decr | NoType

record request =
  req_type :: Operation
  req_key :: uint32

record TraceLoader =
  requests :: "request list"
  queue_size :: uint64

definition mk_loader :: "request list \<Rightarrow> TraceLoader" where
  "mk_loader reqs = \<lparr>requests = reqs, queue_size = of_nat (length reqs)\<rparr>"

definition mk_request :: "Operation \<Rightarrow> uint32 \<Rightarrow> request" where
  "mk_request opt key = \<lparr>req_type = opt, req_key = key\<rparr>"

definition GetRequest :: "TraceLoader \<Rightarrow> uint32 \<Rightarrow> request result" where
  "GetRequest l index =
     (if queue_size l = 0 then Inl DivByZero else vec_at (requests l) (unat (ucast index mod queue_size l)))"

section \<open>The Zipfian workload\<close>

definition item_num :: size_t where "item_num = 1000000"

text \<open>\<open>draws i\<close> is the \<open>i\<close>-th number that \<open>RandomDouble\<close> returns.\<close>

fun zipf_fill :: "(nat \<Rightarrow> real) \<Rightarrow> nat \<Rightarrow> nat \<Rightarrow> ScrambledZipfianGenerator \<Rightarrow> request list result" where
  "zipf_fill draws i 0 s = Inr []"
| "zipf_fill draws i (Suc n) s =
     r_bind (Scrambled_Next (draws i) s) (\<lambda>(v, s).
     r_bind (zipf_fill draws (Suc i) n s) (\<lambda>rs. Inr (mk_request READ (ucast v) # rs)))"

definition TraceLoader_Zipf :: "uint64 \<Rightarrow> real \<Rightarrow> (nat \<Rightarrow> real) \<Rightarrow> TraceLoader result" where
  "TraceLoader_Zipf num zipf_const draws =
     r_bind (Scrambled_new 0 item_num zipf_const (draws 0)) (\<lambda>s.
     r_bind (zipf_fill draws 1 (unat (item_num * 100)) s) (\<lambda>rs. Inr (mk_loader rs)))"

section \<open>MSR\<close>

text \<open>The pages of an access, until \<open>num\<close> requests are loaded; the counter is an \<open>int\<close>.\<close>

function msr_pages :: "nat \<Rightarrow> int \<Rightarrow> int \<Rightarrow> request list \<Rightarrow> request list result" where
  "msr_pages num index stop reqs =
     (if index \<le> stop \<and> length reqs < num
      then if index = 2 ^ 31 - 1 then Inl OutOfRange
           else msr_pages num (index + 1) stop (reqs @ [mk_request READ (word_of_int index)])
      else Inr reqs)"
  by auto
termination by (relation "measure (\<lambda>(_, index, stop, _). nat (stop - index + 1))") auto

declare msr_pages.simps [simp del]

definition fits_long :: "int \<Rightarrow> bool" where
  "fits_long x \<longleftrightarrow> - (2 ^ 63) \<le> x \<and> x < 2 ^ 63"

definition msr_line :: "nat \<Rightarrow> string \<Rightarrow> request list \<Rightarrow> request list result" where
  "msr_line num str reqs =
     (if str = [] then Inr reqs
      else let words = split_on comma str in
        r_bind (vec_at words 4) (\<lambda>w4.
        r_bind (vec_at words 5) (\<lambda>w5.
        r_bind (vec_at words 3) (\<lambda>opn.
        let s = strtol w4; t = strtol w4 + strtol w5; start = to_int (s div 2 ^ 12) in
        if fits_long t \<and> fits_long (t - 1)
        then if opn = ''Read'' \<or> opn = ''Write'' then msr_pages num start (to_int ((t - 1) div 2 ^ 12)) reqs
             else Inr reqs
        else Inl OutOfRange))))"

fun msr_lines :: "nat \<Rightarrow> string list \<Rightarrow> request list \<Rightarrow> request list result" where
  "msr_lines num [] reqs = Inr reqs"
| "msr_lines num (str # ls) reqs =
     (if length reqs < num then r_bind (msr_line num str reqs) (msr_lines num ls) else Inr reqs)"

definition TraceLoader_MSR ::
    "(string \<Rightarrow> string option) \<Rightarrow> uint64 \<Rightarrow> string \<Rightarrow> string \<Rightarrow> TraceLoader result" where
  "TraceLoader_MSR fs num work_file work_type =
     (if work_type \<noteq> ''MSR'' then Inl Exit
      else case fs work_file of
        None \<Rightarrow> Inl Exit
      | Some contents \<Rightarrow>
          r_bind (msr_lines (unat num) (split_on newline contents) []) (\<lambda>reqs. Inr (mk_loader reqs)))"

section \<open>Twitter, binary\<close>

text \<open>\<open>uint8_op_map\<close>: the operator \<open>[]\<close> of \<open>std::map\<close> gives an absent key the value 0.\<close>

definition op_table :: "(int \<times> Operation) list" where
  "op_table = [(1, op_set), (2, op_add), (3, op_replace), (4, op_append), (5, op_prepend), (6, op_cas),
     (7, op_get), (8, op_gets), (9, op_delete), (10, op_incr), (11, op_decr)]"

definition uint8_op_map :: "int \<Rightarrow> Operation" where
  "uint8_op_map i = (case map_of op_table i of Some opt \<Rightarrow> opt | None \<Rightarrow> PUT)"

definition infile_read_size :: nat where "infile_read_size = 12"
definition request_buffer_size :: nat where "request_buffer_size = 1024"

definition decode_request :: "byte list \<Rightarrow> nat \<Rightarrow> request" where
  "decode_request buf i =
     (let op_bin = sint (bytes_word (take 4 (drop (i * infile_read_size + 4) buf)) :: 32 word);
          hash_key = bytes_word (take 4 (drop (i * infile_read_size + 8) buf))
      in mk_request (uint8_op_map op_bin) hash_key)"

text \<open>
  The loop over the blocks of a file: \<open>bs\<close> are the bytes not yet read, \<open>buf\<close> is \<open>request_buffer\<close>. A short
  read sets \<open>eof\<close> and leaves the rest of the buffer as it was.
\<close>

function read_blocks :: "nat \<Rightarrow> int \<Rightarrow> byte list \<Rightarrow> byte list \<Rightarrow> request list \<Rightarrow> request list" where
  "read_blocks num file_request_num bs buf reqs =
     (if length reqs < num
      then let n = infile_read_size * request_buffer_size in
        if length bs < n
        then let buf = bs @ drop (length bs) buf;
                 k = (if file_request_num < 0 then 0 else nat file_request_num mod request_buffer_size)
             in reqs @ map (decode_request buf) [0..<k]
        else let buf = take n bs
             in read_blocks num file_request_num (drop n bs) buf (reqs @ map (decode_request buf) [0..<request_buffer_size])
      else reqs)"
  by auto
termination
  by (relation "measure (\<lambda>(_, _, bs, _). length bs)") (auto simp: infile_read_size_def request_buffer_size_def)

declare read_blocks.simps [simp del]

text \<open>\<open>junk\<close> is what \<open>malloc\<close> leaves in the buffer of a file.\<close>

fun read_files ::
    "(string \<Rightarrow> byte list option) \<Rightarrow> byte list \<Rightarrow> nat \<Rightarrow> string \<Rightarrow> string list \<Rightarrow> request list \<Rightarrow> request list result" where
  "read_files fs junk num work_file [] reqs = Inr reqs"
| "read_files fs junk num work_file (suffix # suffixs) reqs =
     (if num \<le> length reqs then Inr reqs
      else case fs (work_file @ ''.'' @ suffix @ ''.bin'') of
        None \<Rightarrow> Inl Exit
      | Some bs \<Rightarrow>
          read_files fs junk num work_file suffixs
            (read_blocks num (to_int (int (length bs div infile_read_size))) bs junk reqs))"

definition TraceLoader_binary ::
    "(string \<Rightarrow> byte list option) \<Rightarrow> byte list \<Rightarrow> uint64 \<Rightarrow> string \<Rightarrow> string \<Rightarrow> string \<Rightarrow> string \<Rightarrow> bool \<Rightarrow> TraceLoader result" where
  "TraceLoader_binary fs junk num work_file work_type workload_start workload_end binary =
     (if \<not> (binary \<and> work_type = ''Twitter'') then Inl Exit
      else if workload_start = [] \<or> workload_end = []
      then if unat num \<le> 0 then Inr (mk_loader [])
           else (case fs work_file of
             None \<Rightarrow> Inl Exit
           | Some bs \<Rightarrow> Inr (mk_loader (read_blocks (unat num) 0 bs junk [])))
      else r_bind (extract_suffix_string workload_start workload_end) (\<lambda>suffixs.
           r_bind (read_files fs junk (unat num) work_file suffixs []) (\<lambda>reqs. Inr (mk_loader reqs))))"

section \<open>Twitter, original\<close>

definition op_names :: "(string \<times> Operation) list" where
  "op_names = [(''set'', op_set), (''add'', op_add), (''replace'', op_replace), (''append'', op_append),
     (''prepend'', op_prepend), (''cas'', op_cas), (''get'', op_get), (''gets'', op_gets), (''delete'', op_delete),
     (''incr'', op_incr), (''decr'', op_decr)]"

definition twitter_line :: "string \<Rightarrow> request list \<Rightarrow> request list result" where
  "twitter_line str reqs =
     (if str = [] then Inr reqs
      else let words = split_on comma str in
        r_bind (vec_at words 5) (\<lambda>opn.
        r_bind (vec_at words 1) (\<lambda>w1.
        case map_of op_names opn of
          None \<Rightarrow> Inr reqs
        | Some opt \<Rightarrow> Inr (reqs @ [mk_request opt (string_hash w1)]))))"

fun twitter_lines :: "nat \<Rightarrow> string list \<Rightarrow> request list \<Rightarrow> request list result" where
  "twitter_lines num [] reqs = Inr reqs"
| "twitter_lines num (str # ls) reqs =
     (if length reqs < num then r_bind (twitter_line str reqs) (twitter_lines num ls) else Inr reqs)"

fun twitter_files ::
    "(string \<Rightarrow> string option) \<Rightarrow> nat \<Rightarrow> string list \<Rightarrow> request list \<Rightarrow> request list result" where
  "twitter_files fs num [] reqs = Inr reqs"
| "twitter_files fs num (name # names) reqs =
     (if num \<le> length reqs then Inr reqs
      else case fs name of
        None \<Rightarrow> Inl Exit
      | Some contents \<Rightarrow> r_bind (twitter_lines num (split_on newline contents) reqs) (twitter_files fs num names))"

definition TraceLoader_Twitter ::
    "(string \<Rightarrow> string option) \<Rightarrow> uint64 \<Rightarrow> string \<Rightarrow> string \<Rightarrow> string \<Rightarrow> string \<Rightarrow> TraceLoader result" where
  "TraceLoader_Twitter fs num work_file work_type workload_start workload_end =
     (if work_type \<noteq> ''Twitter'' then Inl Exit
      else r_bind (if workload_start = [] \<or> workload_end = [] then Inr [work_file]
             else r_bind (extract_suffix_string workload_start workload_end) (\<lambda>suffixs.
                  Inr (map (\<lambda>suffix. work_file @ ''.'' @ suffix) suffixs))) (\<lambda>names.
           r_bind (twitter_files fs (unat num) names []) (\<lambda>reqs. Inr (mk_loader reqs))))"

end
