(* ===== verification/Trace_Proofs.thy ===== *)
theory Trace_Proofs
  imports Trace_Loader
begin

text \<open>
  The workloads that \<open>Trace_Loader\<close> loads. Printing and parsing numbers, and joining and splitting lines,
  are inverse to each other; with this the MSR loader is shown to turn the accesses of a trace into
  the pages they touch, and the binary Twitter loader to load the records of its files in order,
  block by block. The Zipfian workload is complete and its keys lie in the range of its items.
\<close>

section \<open>Splitting and parsing\<close>

lemma split_on_none: "c \<notin> set w \<Longrightarrow> split_on c w = [w]"
  by (induction w) auto

lemma split_on_append: "c \<notin> set w \<Longrightarrow> split_on c (w @ c # rest) = w # split_on c rest"
  by (induction w) auto

lemma split_on_lines: "\<forall>l \<in> set ls. c \<notin> set l \<Longrightarrow> split_on c (concat (map (\<lambda>l. l @ [c]) ls)) = ls @ [[]]"
  by (induction ls) (auto simp: split_on_append)

lemma char_code_digit [simp]: "k < 10 \<Longrightarrow> char_code (char_of (48 + k :: nat)) = 48 + k"
  by (simp add: char_code_def)

lemma isdigit_digit [simp]: "k < 10 \<Longrightarrow> isdigit (char_of (48 + k :: nat))"
  by (simp add: isdigit_def)

lemma nat_digits_digits: "\<forall>c \<in> set (nat_digits n). isdigit c"
proof (induction n rule: nat_digits.induct)
  case (1 n)
  then show ?case by (subst nat_digits.simps) auto
qed

lemma nat_digits_nonempty [simp]: "nat_digits n \<noteq> []"
  by (subst nat_digits.simps) simp

lemma digits_value_snoc:
  "\<forall>c \<in> set cs. isdigit c \<Longrightarrow> isdigit d \<Longrightarrow>
   digits_value acc (cs @ [d]) = 10 * digits_value acc cs + (int (char_code d) - 48)"
  by (induction cs arbitrary: acc) auto

lemma digits_value_nat_digits: "digits_value 0 (nat_digits n) = int n"
proof (induction n rule: nat_digits.induct)
  case (1 n)
  have "digits_value 0 (nat_digits n) = 10 * (if n < 10 then 0 else digits_value 0 (nat_digits (n div 10))) + int (n mod 10)"
    using nat_digits_digits by (subst nat_digits.simps) (simp add: digits_value_snoc)
  also have "\<dots> = int n" using 1 by (cases "n < 10") (simp_all flip: of_nat_mod of_nat_div, presburger)
  finally show ?case .
qed

lemma isdigit_sign: "isdigit c \<Longrightarrow> c \<noteq> CHR ''-'' \<and> c \<noteq> CHR ''+'' \<and> \<not> isspace c \<and> c \<noteq> comma \<and> c \<noteq> newline"
  by (auto simp: isdigit_def isspace_def char_code_def comma_def newline_def)

lemma strtol_nat_digits: "n < 2 ^ 63 \<Longrightarrow> strtol (nat_digits n) = int n"
proof -
  assume n: "n < 2 ^ 63"
  obtain c cs where c: "nat_digits n = c # cs" by (cases "nat_digits n") auto
  then have "isdigit c" using nat_digits_digits [of n] by simp
  then have "strtol (nat_digits n) = max (- (2 ^ 63)) (min (int n) (2 ^ 63 - 1))"
    using isdigit_sign [of c] digits_value_nat_digits [of n] by (simp add: strtol_def c)
  also have "\<dots> = int n" using n by simp
  finally show ?thesis .
qed

lemma nat_digits_plain [simp]: "comma \<notin> set (nat_digits n)" "newline \<notin> set (nat_digits n)"
  using nat_digits_digits [of n] isdigit_sign by auto

lemma to_int_id: "- (2 ^ 31) \<le> x \<Longrightarrow> x < 2 ^ 31 \<Longrightarrow> to_int x = x"
  by (simp add: to_int_def signed_of_int signed_take_bit_int_eq_self)

lemma extract_suffix_string_digits:
  assumes "i < 2 ^ 31" "j < 2 ^ 31 - 1"
  shows "extract_suffix_string (nat_digits i) (nat_digits j) = Inr (map nat_digits [i..<Suc j])"
proof -
  have "map to_string [int i..int j] = map nat_digits [i..<Suc j]"
    by (rule nth_equalityI) (auto simp: to_string_def nat_add_distrib simp del: upt_Suc)
  then show ?thesis using assms
    by (simp add: extract_suffix_string_def Let_def strtol_nat_digits to_int_id del: upt_Suc)
qed

section \<open>The Zipfian workload\<close>

lemma zipf_fill_ok:
  assumes "scrambled_ok b n theta s" "\<And>i. 0 \<le> draws i \<and> draws i < 1" "unat b + n < 2 ^ 32"
  shows "\<exists>rs. zipf_fill draws i k s = Inr rs \<and> length rs = k \<and>
    (\<forall>r \<in> set rs. req_type r = READ \<and> unat b \<le> unat (req_key r) \<and> unat (req_key r) < unat b + n)"
  using assms(1)
proof (induction k arbitrary: i s)
  case (Suc k)
  from Scrambled_Next_ok [OF Suc.prems, of "draws i"] assms(2) obtain r s' where
    r: "Scrambled_Next (draws i) s = Inr (r, s')" "scrambled_ok b n theta s'" "unat b \<le> unat r" "unat r < unat b + n"
    by blast
  have "unat (ucast r :: uint32) = unat r"
    using r(4) assms(3) by (simp add: unsigned_ucast_eq take_bit_nat_eq_self)
  with Suc.IH [OF r(2), of "Suc i"] r show ?case by (auto simp: mk_request_def)
qed simp

text \<open>
  C40. The Zipfian workload: for an exponent between 0 and 1, whatever numbers are drawn, the
  constructor returns a loader with a hundred million reads, one hundred for each item on average,
  whose keys are at most the number of items.
\<close>

theorem zipf_trace:
  assumes "0 < theta" "theta < 1" "\<And>i. 0 \<le> draws i \<and> draws i < 1"
  shows "\<exists>rs. TraceLoader_Zipf num theta draws = Inr (mk_loader rs) \<and> length rs = 100 * unat item_num \<and>
    (\<forall>r \<in> set rs. req_type r = READ \<and> unat (req_key r) \<le> unat item_num)"
proof -
  have "\<exists>s. Scrambled_new 0 item_num theta (draws 0) = Inr s \<and> scrambled_ok 0 1000001 theta s"
    using Scrambled_new_ok [of theta 1000001 0 "draws 0"] assms by (simp add: item_num_def unat_kMaxNumItems)
  then obtain s where s: "Scrambled_new 0 item_num theta (draws 0) = Inr s" "scrambled_ok 0 1000001 theta s" by blast
  obtain rs where rs: "zipf_fill draws 1 100000000 s = Inr rs" "length rs = 100000000"
    "\<forall>r \<in> set rs. req_type r = READ \<and> unat (req_key r) < 1000001"
    using zipf_fill_ok [OF s(2), of draws 1 100000000] assms(3) by auto
  then show ?thesis using s(1) by (auto simp: TraceLoader_Zipf_def item_num_def less_Suc_eq_le [symmetric])
qed

theorem zipf_trace_witness:
  "\<exists>rs. TraceLoader_Zipf 5 (99 / 100) (\<lambda>i. 1 / 2) = Inr (mk_loader rs) \<and> length rs = 100 * unat item_num \<and>
    (\<forall>r \<in> set rs. req_type r = READ \<and> unat (req_key r) \<le> unat item_num)"
  by (rule zipf_trace) simp_all

section \<open>The binary records\<close>

text \<open>A record of a binary file: a time, the code of the operation and the key.\<close>

type_synonym trace_record = "uint32 \<times> uint32 \<times> uint32"

definition encode_record :: "trace_record \<Rightarrow> byte list" where
  "encode_record = (\<lambda>(time, opc, key). word_bytes 4 time @ word_bytes 4 opc @ word_bytes 4 key)"

definition record_request :: "trace_record \<Rightarrow> request" where
  "record_request = (\<lambda>(time, opc, key). mk_request (uint8_op_map (sint opc)) key)"

definition encode_file :: "trace_record list \<Rightarrow> byte list" where
  "encode_file rs = concat (map encode_record rs)"

lemma length_encode_record [simp]: "length (encode_record r) = 12"
  by (simp add: encode_record_def case_prod_beta)

lemma length_encode_file [simp]: "length (encode_file rs) = 12 * length rs"
  by (induction rs) (simp_all add: encode_file_def)

lemma encode_file_Cons [simp]: "encode_file (r # rs) = encode_record r @ encode_file rs"
  by (simp add: encode_file_def)

lemma drop_encode_file: "n \<le> length rs \<Longrightarrow> drop (12 * n) (encode_file rs) = encode_file (drop n rs)"
proof (induction n arbitrary: rs)
  case (Suc n)
  then obtain r rs' where "rs = r # rs'" by (cases rs) auto
  with Suc show ?case by (simp add: encode_file_def)
qed simp

lemma take_encode_file: "n \<le> length rs \<Longrightarrow> take (12 * n) (encode_file rs) = encode_file (take n rs)"
proof (induction n arbitrary: rs)
  case (Suc n)
  then obtain r rs' where "rs = r # rs'" by (cases rs) auto
  with Suc show ?case by (simp add: encode_file_def)
qed (simp add: encode_file_def)

lemma decode_request_front: "decode_request (encode_record r @ x) 0 = record_request r"
proof -
  obtain t c k where r: "r = (t, c, k)" by (cases r) auto
  have "take 4 (drop 4 (encode_record r @ x)) = word_bytes 4 c" "take 4 (drop 8 (encode_record r @ x)) = word_bytes 4 k"
    by (simp_all add: encode_record_def r)
  then show ?thesis by (simp add: decode_request_def record_request_def r bytes_word_word_bytes)
qed

lemma decode_request_file:
  assumes "i < length rs"
  shows "decode_request (encode_file rs @ x) i = record_request (rs ! i)"
proof -
  have "decode_request buf i = decode_request (drop (12 * i) buf) 0" for buf
    by (simp add: decode_request_def infile_read_size_def ac_simps)
  moreover have "drop (12 * i) (encode_file rs @ x) = encode_record (rs ! i) @ encode_file (drop (Suc i) rs) @ x"
    using assms by (simp add: drop_encode_file) (simp flip: Cons_nth_drop_Suc)
  ultimately show ?thesis using decode_request_front by metis
qed

lemma decode_requests:
  assumes "n = length rs"
  shows "map (decode_request (encode_file rs @ x)) [0..<n] = map record_request rs"
  using assms by (intro nth_equalityI) (simp_all add: decode_request_file)

lemma read_block_step:
  assumes "length reqs < num" "1024 \<le> length rs"
  shows "read_blocks num frn (encode_file rs) buf reqs =
    read_blocks num frn (encode_file (drop 1024 rs)) (encode_file (take 1024 rs)) (reqs @ map record_request (take 1024 rs))"
proof -
  have "map (decode_request (encode_file (take 1024 rs))) [0..<1024] = map record_request (take 1024 rs)"
    using assms(2) decode_requests [of 1024 "take 1024 rs" "[]"] by simp
  moreover have "take 12288 (encode_file rs) = encode_file (take 1024 rs)" "drop 12288 (encode_file rs) = encode_file (drop 1024 rs)"
    using take_encode_file [OF assms(2)] drop_encode_file [OF assms(2)] by simp_all
  ultimately show ?thesis using assms
    by (subst read_blocks.simps) (simp add: infile_read_size_def request_buffer_size_def Let_def del: upt_Suc)
qed

text \<open>A file whose number of records is known is read in order, up to the block in which \<open>num\<close> is reached.\<close>

lemma read_blocks_prefix:
  assumes "0 \<le> frn" "nat frn mod 1024 = length rs mod 1024"
  shows "\<exists>k. read_blocks num frn (encode_file rs) buf reqs = reqs @ map record_request (take k rs) \<and>
    min (num - length reqs) (length rs) \<le> k \<and> k \<le> length rs \<and> (k = 0 \<or> length reqs + k \<le> num + 1023)"
  using assms(2)
proof (induction "length rs" arbitrary: rs buf reqs rule: less_induct)
  case less
  consider (stop) "num \<le> length reqs" | (last) "length reqs < num" "length rs < 1024" | (block) "length reqs < num" "1024 \<le> length rs"
    by linarith
  then show ?case
  proof cases
    case stop
    then show ?thesis by (intro exI [of _ 0]) (simp add: read_blocks.simps)
  next
    case last
    then have "nat frn mod 1024 = length rs" using less.prems by simp
    then have "read_blocks num frn (encode_file rs) buf reqs = reqs @ map record_request rs"
      using last assms(1) by (subst read_blocks.simps) (simp add: infile_read_size_def request_buffer_size_def decode_requests)
    then show ?thesis using last by (intro exI [of _ "length rs"]) simp
  next
    case block
    note step = read_block_step [OF block, of frn buf]
    have m: "nat frn mod 1024 = length (drop 1024 rs) mod 1024" "length (drop 1024 rs) < length rs"
      using less.prems block(2) by (simp_all add: le_mod_geq)
    from less.hyps [OF m(2) m(1), of "encode_file (take 1024 rs)" "reqs @ map record_request (take 1024 rs)"] block obtain k where
      k: "read_blocks num frn (encode_file rs) buf reqs = (reqs @ map record_request (take 1024 rs)) @ map record_request (take k (drop 1024 rs))"
      "min (num - length reqs - 1024) (length rs - 1024) \<le> k" "k \<le> length rs - 1024" "k = 0 \<or> length reqs + 1024 + k \<le> num + 1023"
      by (auto simp: step)
    then show ?thesis using block
      by (intro exI [of _ "1024 + k"]) (auto simp: take_add)
  qed
qed

definition binary_name :: "string \<Rightarrow> nat \<Rightarrow> string" where
  "binary_name work_file i = work_file @ ''.'' @ nat_digits i @ ''.bin''"

lemma read_files_full: "num \<le> length reqs \<Longrightarrow> read_files fs junk num work_file suffixs reqs = Inr reqs"
  by (cases suffixs) auto

lemma read_files_prefix:
  assumes "\<forall>i \<in> set is. fs (binary_name work_file i) = Some (encode_file (rss i)) \<and> length (rss i) < 2 ^ 31"
  shows "\<exists>k. read_files fs junk num work_file (map nat_digits is) reqs =
      Inr (reqs @ map record_request (take k (concat (map rss is)))) \<and>
    min (num - length reqs) (length (concat (map rss is))) \<le> k \<and> (k = 0 \<or> length reqs + k \<le> num + 1023)"
  using assms
proof (induction "is" arbitrary: reqs)
  case (Cons i "is")
  show ?case
  proof (cases "num \<le> length reqs")
    case True
    then show ?thesis by (intro exI [of _ 0]) (simp add: read_files_full)
  next
    case False
    have i: "fs (work_file @ ''.'' @ nat_digits i @ ''.bin'') = Some (encode_file (rss i))" "length (rss i) < 2 ^ 31"
      using Cons.prems by (auto simp: binary_name_def)
    let ?n = "to_int (int (length (encode_file (rss i)) div infile_read_size))"
    have "?n = int (length (rss i))" using i(2) by (simp add: infile_read_size_def to_int_id)
    then obtain k where k: "read_blocks num ?n (encode_file (rss i)) junk reqs = reqs @ map record_request (take k (rss i))"
      "min (num - length reqs) (length (rss i)) \<le> k" "k \<le> length (rss i)" "k = 0 \<or> length reqs + k \<le> num + 1023"
      using read_blocks_prefix [of ?n "rss i" num junk reqs] by auto
    let ?reqs = "reqs @ map record_request (take k (rss i))"
    have step: "read_files fs junk num work_file (map nat_digits (i # is)) reqs = read_files fs junk num work_file (map nat_digits is) ?reqs"
      using False i(1) k(1) by simp
    show ?thesis
    proof (cases "k = length (rss i)")
      case True
      obtain k' where "read_files fs junk num work_file (map nat_digits is) ?reqs =
          Inr (?reqs @ map record_request (take k' (concat (map rss is))))"
        "min (num - length ?reqs) (length (concat (map rss is))) \<le> k'" "k' = 0 \<or> length ?reqs + k' \<le> num + 1023"
        using Cons.IH [of ?reqs] Cons.prems by auto
      then show ?thesis unfolding step using True k by (intro exI [of _ "k + k'"]) auto
    next
      case short: False
      then have full: "num \<le> length ?reqs" using k(2,3) by simp
      then show ?thesis unfolding step read_files_full [OF full] using short k by (intro exI [of _ k]) auto
    qed
  qed
qed (auto intro: exI [of _ 0])

text \<open>
  C36. The binary Twitter workload: when the files \<open>file.i.bin, ..., file.j.bin\<close> hold records of twelve
  bytes each, the loader returns the requests of the records in their order. All records are loaded
  unless \<open>num\<close> requests are reached first; then loading stops with the block of 1024 records in which
  this happens.
\<close>

theorem binary_trace:
  assumes "i < 2 ^ 31" "j < 2 ^ 31 - 1"
    and "\<forall>x \<in> {i..j}. fs (binary_name work_file x) = Some (encode_file (rss x)) \<and> length (rss x) < 2 ^ 31"
  shows "\<exists>k. TraceLoader_binary fs junk num work_file ''Twitter'' (nat_digits i) (nat_digits j) True =
      Inr (mk_loader (map record_request (take k (concat (map rss [i..<Suc j]))))) \<and>
    min (unat num) (length (concat (map rss [i..<Suc j]))) \<le> k \<and> k \<le> unat num + 1023"
proof -
  have "\<forall>x \<in> set [i..<Suc j]. fs (binary_name work_file x) = Some (encode_file (rss x)) \<and> length (rss x) < 2 ^ 31"
    using assms(3) by auto
  from read_files_prefix [OF this, of junk "unat num" "[]"] obtain k where
    "read_files fs junk (unat num) work_file (map nat_digits [i..<Suc j]) [] =
      Inr (map record_request (take k (concat (map rss [i..<Suc j]))))"
    "min (unat num) (length (concat (map rss [i..<Suc j]))) \<le> k" "k \<le> unat num + 1023" by auto
  then show ?thesis
    by (intro exI [of _ k]) (simp add: TraceLoader_binary_def extract_suffix_string_digits [OF assms(1,2)] del: upt_Suc)
qed

theorem binary_trace_witness:
  "\<exists>k. TraceLoader_binary (\<lambda>f. Some (encode_file [(0, 7, 42), (1, 9, 43)])) [] 10 ''cluster'' ''Twitter'' (nat_digits 3) (nat_digits 4) True =
      Inr (mk_loader (map record_request (take k (concat (map (\<lambda>x. [(0, 7, 42), (1, 9, 43)]) [3..<Suc 4]))))) \<and>
    min (unat (10 :: uint64)) (length (concat (map (\<lambda>x. [(0, 7, 42), (1, 9, 43) :: trace_record]) [3..<Suc 4]))) \<le> k \<and>
    k \<le> unat (10 :: uint64) + 1023"
  by (rule binary_trace) simp_all

text \<open>Without the two suffixes the number of records stays 0, and the records behind the last full block are not loaded.\<close>

lemma read_blocks_0:
  "length rs \<le> num - length reqs \<Longrightarrow>
   read_blocks num 0 (encode_file rs) buf reqs = reqs @ map record_request (take (1024 * (length rs div 1024)) rs)"
proof (induction "length rs" arbitrary: rs buf reqs rule: less_induct)
  case less
  show ?case
  proof (cases "length rs < 1024")
    case True
    then show ?thesis by (subst read_blocks.simps) (simp add: infile_read_size_def request_buffer_size_def)
  next
    case False
    then have le: "1024 \<le> length rs" by simp
    have "read_blocks num 0 (encode_file rs) buf reqs =
        read_blocks num 0 (encode_file (drop 1024 rs)) (encode_file (take 1024 rs)) (reqs @ map record_request (take 1024 rs))"
      using le less.prems by (intro read_block_step) simp_all
    also have "\<dots> = (reqs @ map record_request (take 1024 rs)) @
        map record_request (take (1024 * (length (drop 1024 rs) div 1024)) (drop 1024 rs))"
      using le less.prems by (intro less.hyps) auto
    also have "\<dots> = reqs @ map record_request (take (1024 * (length rs div 1024)) rs)"
      using le by (simp add: le_div_geq take_add [symmetric] flip: map_append)
    finally show ?thesis .
  qed
qed

lemma binary_single_file:
  assumes "fs work_file = Some (encode_file rs)" "length rs \<le> unat num"
  shows "TraceLoader_binary fs junk num work_file ''Twitter'' [] [] True =
    Inr (mk_loader (map record_request (take (1024 * (length rs div 1024)) rs)))"
  using assms read_blocks_0 [of rs "unat num" "[]" junk] by (simp add: TraceLoader_binary_def)

section \<open>MSR accesses\<close>

text \<open>A line of an MSR trace, with its numbers printed in decimal.\<close>

record msr_access =
  a_time :: string
  a_host :: string
  a_disk :: string
  a_type :: string
  a_offset :: nat
  a_size :: nat
  a_latency :: string

definition msr_text :: "msr_access \<Rightarrow> string" where
  "msr_text a = a_time a @ comma # a_host a @ comma # a_disk a @ comma # a_type a @ comma #
     nat_digits (a_offset a) @ comma # nat_digits (a_size a) @ comma # a_latency a"

definition msr_ok :: "msr_access \<Rightarrow> bool" where
  "msr_ok a \<longleftrightarrow> (\<forall>w \<in> {a_time a, a_host a, a_disk a, a_type a}. comma \<notin> set w \<and> newline \<notin> set w) \<and>
     newline \<notin> set (a_latency a) \<and> a_offset a + a_size a \<le> 2 ^ 43 - 4096"

text \<open>The pages of 4096 bytes that an access touches.\<close>

definition msr_requests :: "msr_access \<Rightarrow> request list" where
  "msr_requests a =
     (if a_type a = ''Read'' \<or> a_type a = ''Write''
      then map (\<lambda>p. mk_request READ (of_nat p)) [a_offset a div 4096..<(a_offset a + a_size a + 4095) div 4096] else [])"

lemma msr_pages_upto:
  "stop < 2 ^ 31 - 1 \<Longrightarrow> msr_pages num index stop reqs =
     Inr (reqs @ take (num - length reqs) (map (\<lambda>i. mk_request READ (word_of_int i)) [index..stop]))"
proof (induction num index stop reqs rule: msr_pages.induct)
  case (1 num index stop reqs)
  show ?case
  proof (cases "index \<le> stop \<and> length reqs < num")
    case True
    then have "num - length reqs = Suc (num - Suc (length reqs))" "[index..stop] = index # [index + 1..stop]"
      by (linarith, simp add: upto_rec1)
    with True 1 show ?thesis by (subst msr_pages.simps) simp
  next
    case False
    then show ?thesis by (subst msr_pages.simps) auto
  qed
qed

lemma split_on_msr:
  assumes "msr_ok a"
  shows "split_on comma (msr_text a) = [a_time a, a_host a, a_disk a, a_type a, nat_digits (a_offset a), nat_digits (a_size a)] @
    split_on comma (a_latency a)"
  using assms by (simp add: msr_ok_def msr_text_def split_on_append)

lemma page_range: "[int (m div 4096)..(int t - 1) div 4096] = map int [m div 4096..<(t + 4095) div 4096]"
proof -
  have "(int t - 1) div 4096 + 1 = (int t + 4095) div 4096" by simp
  then have e: "(int t - 1) div 4096 = int ((t + 4095) div 4096) - 1" by (simp add: zdiv_int)
  show ?thesis unfolding e by (rule nth_equalityI) auto
qed

lemma msr_line_requests:
  assumes "msr_ok a"
  shows "msr_line num (msr_text a) reqs = Inr (reqs @ take (num - length reqs) (msr_requests a))"
proof -
  let ?o = "a_offset a" and ?t = "a_offset a + a_size a"
  have t: "?t \<le> 2 ^ 43 - 4096" using assms by (simp add: msr_ok_def)
  then have s: "strtol (nat_digits ?o) = int ?o" "strtol (nat_digits (a_size a)) = int (a_size a)"
    by (simp_all add: strtol_nat_digits)
  have f: "fits_long (int ?t)" "fits_long (int ?t - 1)" using t by (auto simp: fits_long_def)
  have i: "to_int (int ?o div 4096) = int (?o div 4096)" "to_int ((int ?t - 1) div 4096) = (int ?t - 1) div 4096"
    using t by (auto simp: to_int_id zdiv_int)
  have "(int ?t - 1) div 4096 < 2 ^ 31 - 1" using t by simp
  from msr_pages_upto [OF this, of num "int (?o div 4096)" reqs] page_range [of ?o ?t]
  have p: "msr_pages num (int (?o div 4096)) ((int ?t - 1) div 4096) reqs =
      Inr (reqs @ take (num - length reqs) (map (\<lambda>p. mk_request READ (of_nat p)) [?o div 4096..<(?t + 4095) div 4096]))"
    by (simp add: comp_def)
  have "msr_text a \<noteq> []" by (simp add: msr_text_def)
  then show ?thesis using f i p
    by (simp add: msr_line_def Let_def split_on_msr [OF assms] vec_at_def s msr_requests_def)
qed

lemma msr_lines_requests:
  "\<forall>a \<in> set as. msr_ok a \<Longrightarrow> length reqs \<le> num \<Longrightarrow>
   msr_lines num (map msr_text as @ [[]]) reqs = Inr (reqs @ take (num - length reqs) (concat (map msr_requests as)))"
proof (induction as arbitrary: reqs)
  case (Cons a as)
  show ?case
  proof (cases "length reqs < num")
    case True
    let ?reqs = "reqs @ take (num - length reqs) (msr_requests a)"
    have "msr_lines num (map msr_text as @ [[]]) ?reqs = Inr (?reqs @ take (num - length ?reqs) (concat (map msr_requests as)))"
      using Cons True by (intro Cons.IH) auto
    moreover have "num - length ?reqs = num - length reqs - length (msr_requests a)" by simp
    ultimately show ?thesis using True Cons.prems by (simp only:) (simp add: msr_line_requests)
  qed (use Cons.prems in auto)
qed (simp add: msr_line_def)

definition msr_file :: "msr_access list \<Rightarrow> string" where
  "msr_file as = concat (map (\<lambda>a. msr_text a @ [newline]) as)"

text \<open>
  C37. The MSR workload: from a trace of accesses, printed line by line, the loader returns one read for
  every page of 4096 bytes that a read or a write touches, in the order of the accesses and of the
  pages, cut off after \<open>num\<close> requests; accesses of another type are skipped.
\<close>

theorem msr_trace:
  assumes "fs work_file = Some (msr_file as)" "\<forall>a \<in> set as. msr_ok a"
  shows "TraceLoader_MSR fs num work_file ''MSR'' = Inr (mk_loader (take (unat num) (concat (map msr_requests as))))"
proof -
  have "newline \<noteq> comma" by (simp add: newline_def comma_def)
  then have "newline \<notin> set (msr_text a)" if "msr_ok a" for a using that by (auto simp: msr_ok_def msr_text_def)
  then have "split_on newline (msr_file as) = map msr_text as @ [[]]"
    using split_on_lines [of "map msr_text as" newline] assms(2) by (auto simp: msr_file_def comp_def)
  then show ?thesis using assms msr_lines_requests [OF assms(2), of "[]"]
    by (simp add: TraceLoader_MSR_def)
qed

definition sample_access :: msr_access where
  "sample_access = \<lparr>a_time = ''128166372003061629'', a_host = ''hm'', a_disk = ''1'', a_type = ''Read'',
     a_offset = 4095, a_size = 4098, a_latency = ''58000''\<rparr>"

theorem msr_trace_witness:
  "TraceLoader_MSR (\<lambda>_. Some (msr_file [sample_access, sample_access])) 5 ''hm_1.csv'' ''MSR'' =
   Inr (mk_loader (map (mk_request READ) [0, 1, 2, 0, 1]))"
proof -
  have "msr_ok sample_access" by (simp add: msr_ok_def sample_access_def comma_def newline_def)
  moreover have "msr_requests sample_access = map (mk_request READ) [0, 1, 2]"
    by (simp add: msr_requests_def sample_access_def upt_conv_Cons)
  ultimately show ?thesis
    using msr_trace [of "\<lambda>_. Some (msr_file [sample_access, sample_access])" "''hm_1.csv''" "[sample_access, sample_access]" 5]
    by simp
qed

section \<open>Twitter lines\<close>

















end
