(* ===== verification/Client.thy ===== *)
theory Client
  imports Trace_Proofs Scalable_LRU
begin

text \<open>
  The driver: \<open>utils::Properties\<close> (\<^verbatim>\<open>src/ssdlogging/properties.h\<close>), \<open>ParseCommandLine\<close>
  (\<^verbatim>\<open>src/test_trace.cpp\<close>) and \<open>Client\<close> (\<^verbatim>\<open>src/traceloader/client.h\<close>) with the worker threads that
  replay a workload against the cache.

  The threads interleave between their calls of the cache. A thread stands either before its \<open>i\<close>-th
  request or, after a lookup that missed, before the insertion; a step of a thread takes it to its next
  call. What is decided outside is the argument of a step: what the cache's environment answers, the
  value to insert, whether \<open>stop_sample_stat\<close> is set, and the duration that is measured.
\<close>

section \<open>Properties and the command line\<close>

type_synonym Properties = "string \<rightharpoonup> string"

definition GetProperty :: "Properties \<Rightarrow> string \<Rightarrow> string \<Rightarrow> string" where
  "GetProperty props key default_value = (case props key of None \<Rightarrow> default_value | Some v \<Rightarrow> v)"

definition SetProperty :: "Properties \<Rightarrow> string \<Rightarrow> string \<Rightarrow> Properties" where
  "SetProperty props key value = props(key \<mapsto> value)"

definition ParseCommandLine :: "string list \<Rightarrow> Properties \<Rightarrow> Properties result" where
  "ParseCommandLine argv props =
     (if length argv \<noteq> 10 \<and> length argv \<noteq> 12 then Inl Exit
      else let props = SetProperty props ''threads num'' (argv ! 1);
               props = SetProperty props ''cache size'' (argv ! 2);
               props = SetProperty props ''request num'' (argv ! 3);
               props = SetProperty props ''seg num'' (argv ! 4);
               props = SetProperty props ''workload type'' (argv ! 5);
               props = SetProperty props ''workload file or zipf const'' (argv ! 6);
               props = SetProperty props ''cache type'' (argv ! 7);
               props = SetProperty props ''disk lat'' (argv ! 8);
               props = SetProperty props ''rebuild freq'' (argv ! 9)
           in if length argv = 12
              then Inr (SetProperty (SetProperty props ''workload start'' (argv ! 10)) ''workload end'' (argv ! 11))
              else Inr props)"

section \<open>The client\<close>

definition atoi :: "string \<Rightarrow> int" where "atoi s = to_int (strtol s)"
definition atoll :: "string \<Rightarrow> int" where "atoll s = strtol s"

record client_config =
  seg :: int
  request_num :: int
  work_thread :: int
  rebuild_freq :: int
  cache_kind :: cache_type

text \<open>\<open>cache_type.compare\<close> against the names, in the order of the source.\<close>

definition cache_kinds :: "(string \<times> cache_type) list" where
  "cache_kinds = [(''LRU'', LRU), (''LFU'', LFU), (''LRU_FH'', LRU_FH), (''LFU_FH'', LFU_FH), (''FIFO_FH'', FIFO_FH),
     (''Redis_LRU'', Redis_LRU), (''FIFO'', FIFO), (''StrictLRU'', StrictLRU)]"

definition is_fh_cache_type :: "cache_type \<Rightarrow> bool" where
  "is_fh_cache_type ty \<longleftrightarrow> ty \<in> {LRU_FH, LFU_FH, FIFO_FH}"

text \<open>The loader that the workload type selects; \<open>atof\<close> reads the exponent of the Zipfian workload.\<close>

definition client_loader ::
    "(string \<Rightarrow> real) \<Rightarrow> (nat \<Rightarrow> real) \<Rightarrow> (string \<Rightarrow> string option) \<Rightarrow> (string \<Rightarrow> byte list option) \<Rightarrow> byte list \<Rightarrow>
      Properties \<Rightarrow> TraceLoader result" where
  "client_loader atof draws fs bfs junk props =
     (let num = word_of_int (atoll (GetProperty props ''request num'' []));
          param = GetProperty props ''workload file or zipf const'' [];
          work_type = GetProperty props ''workload type'' []
      in if work_type = ''Zipf'' then TraceLoader_Zipf num (atof param) draws
         else if work_type = ''MSR'' then TraceLoader_MSR fs num param work_type
         else if work_type = ''Twitter''
         then TraceLoader_binary bfs junk num param work_type
                (GetProperty props ''workload start'' []) (GetProperty props ''workload end'' []) True
         else Inl (AssertFailed ''false''))"

definition client_settings :: "Properties \<Rightarrow> client_config result" where
  "client_settings props =
     (case map_of cache_kinds (GetProperty props ''cache type'' []) of
        None \<Rightarrow> Inl (AssertFailed ''false'')
      | Some ty \<Rightarrow> Inr \<lparr>seg = atoi (GetProperty props ''seg num'' []), request_num = atoll (GetProperty props ''request num'' []),
          work_thread = atoi (GetProperty props ''threads num'' []), rebuild_freq = atoi (GetProperty props ''rebuild freq'' []),
          cache_kind = ty\<rparr>)"

definition Granularity :: "client_config \<Rightarrow> size_t" where
  "Granularity cfg = of_int (work_thread cfg * 1)"

definition Large_Granularity :: "client_config \<Rightarrow> size_t" where
  "Large_Granularity cfg = of_int (work_thread cfg * 1000)"

section \<open>The worker threads\<close>

datatype worker_pc = Next_request nat | Fill nat size_t

record ('e, 'v) worker_env =
  we_find :: 'e
  we_insert :: 'e
  we_value :: 'v
  we_stop :: bool
  we_duration :: real

text \<open>\<open>served\<close> lists the indices of the requests in the order in which they are taken.\<close>

record 's client_state =
  workers :: "worker_pc list"
  cl_cache :: 's
  req_latency :: "MySet list"
  lat :: latencies
  served :: "nat list"

definition core_of :: "int \<Rightarrow> int" where
  "core_of i = (if 0 + i > 39 then 0 + i + 40 else 0 + i)"

definition worker_offset :: "int \<Rightarrow> int" where
  "worker_offset coreid = (if coreid > 40 then coreid - 40 else coreid)"

text \<open>The argument of \<open>GetRequest\<close>: computed in 64 bits and passed in 32.\<close>

definition request_index :: "client_config \<Rightarrow> int \<Rightarrow> nat \<Rightarrow> uint32" where
  "request_index cfg coreid i = ucast (of_int (worker_offset coreid) + of_nat i * of_int (work_thread cfg) :: uint64)"

definition add_total :: "bool \<Rightarrow> real \<Rightarrow> latencies \<Rightarrow> latencies result" where
  "add_total ret_flag duration l =
     (if ret_flag
      then r_bind (MySet_insert duration (total_hit_latency l)) (\<lambda>m. Inr (l\<lparr>total_hit_latency := m\<rparr>))
      else r_bind (MySet_insert duration (total_other_latency l)) (\<lambda>m. Inr (l\<lparr>total_other_latency := m\<rparr>)))"

text \<open>The array \<open>req_latency_\<close> has 16 elements.\<close>

definition add_request ::
    "(size_t \<Rightarrow> size_t) \<Rightarrow> client_config \<Rightarrow> size_t \<Rightarrow> real \<Rightarrow> MySet list \<Rightarrow> MySet list result" where
  "add_request hash cfg key duration sets =
     (if (of_int (seg cfg) :: size_t) = 0 then Inl DivByZero
      else let j = unat (drop_bit 48 (hash key) mod of_int (seg cfg))
           in if j < length sets then r_bind (MySet_insert duration (sets ! j)) (\<lambda>m. Inr (sets[j := m])) else Inl OutOfRange)"

definition record_latency ::
    "(size_t \<Rightarrow> size_t) \<Rightarrow> client_config \<Rightarrow> nat \<Rightarrow> size_t \<Rightarrow> bool \<Rightarrow> ('e, 'v) worker_env \<Rightarrow>
      's client_state \<Rightarrow> 's client_state result" where
  "record_latency hash cfg i key ret_flag e st =
     (let total = (\<lambda>st. if Large_Granularity cfg = 0 then Inl DivByZero
                        else if (of_nat i :: size_t) mod Large_Granularity cfg = 0
                        then r_bind (add_total ret_flag (we_duration e) (lat st)) (\<lambda>l. Inr (st\<lparr>lat := l\<rparr>)) else Inr st)
      in if we_stop e then total st
         else if Granularity cfg = 0 then Inl DivByZero
         else if (of_nat i :: size_t) mod Granularity cfg = 0
         then r_bind (add_request hash cfg key (we_duration e) (req_latency st)) (\<lambda>sets. total (st\<lparr>req_latency := sets\<rparr>))
         else Inr st)"

definition finish_request ::
    "(size_t \<Rightarrow> size_t) \<Rightarrow> client_config \<Rightarrow> nat \<Rightarrow> nat \<Rightarrow> size_t \<Rightarrow> bool \<Rightarrow> ('e, 'v) worker_env \<Rightarrow>
      's client_state \<Rightarrow> 's client_state result" where
  "finish_request hash cfg t i key ret_flag e st =
     r_bind (record_latency hash cfg i key ret_flag e st) (\<lambda>st.
     Inr (st\<lparr>workers := (workers st)[t := Next_request (Suc i)]\<rparr>))"

text \<open>The loop of \<open>worker_thread\<close>, from one call of the cache to the next; \<open>num\<close> is the number of requests of a thread.\<close>

definition worker_step ::
    "(size_t \<Rightarrow> size_t) \<Rightarrow> ('e, 's, 'v) CacheAPI \<Rightarrow> TraceLoader \<Rightarrow> client_config \<Rightarrow> nat \<Rightarrow> nat \<Rightarrow> ('e, 'v) worker_env \<Rightarrow>
      's client_state \<Rightarrow> 's client_state result" where
  "worker_step hash A loader cfg num t e st =
     (case workers st ! t of
        Next_request i \<Rightarrow>
          if i < num
          then let index = request_index cfg (core_of (int t)) i; st = st\<lparr>served := served st @ [unat index]\<rparr> in
            r_bind (GetRequest loader index) (\<lambda>req.
            let key = ucast (req_key req) in
            r_assert (key \<noteq> 0) ''key != 0'' (
            if req_type req = op_delete
            then r_bind (api_delete_key A (cl_cache st) key) (\<lambda>s.
                 finish_request hash cfg t i key False e (st\<lparr>cl_cache := s\<rparr>))
            else r_bind (api_find A (we_find e) (cl_cache st) key) (\<lambda>(r, s).
                 case r of
                   Some _ \<Rightarrow> finish_request hash cfg t i key True e (st\<lparr>cl_cache := s\<rparr>)
                 | None \<Rightarrow> Inr (st\<lparr>cl_cache := s, workers := (workers st)[t := Fill i key]\<rparr>))))
          else Inr st
      | Fill i key \<Rightarrow>
          r_bind (api_insert A (we_insert e) (cl_cache st) key (we_value e)) (\<lambda>(_, s).
          finish_request hash cfg t i key False e (st\<lparr>cl_cache := s\<rparr>)))"

fun client_run ::
    "(size_t \<Rightarrow> size_t) \<Rightarrow> ('e, 's, 'v) CacheAPI \<Rightarrow> TraceLoader \<Rightarrow> client_config \<Rightarrow> nat \<Rightarrow> (nat \<times> ('e, 'v) worker_env) list \<Rightarrow>
      's client_state \<Rightarrow> 's client_state result" where
  "client_run hash A loader cfg num [] st = Inr st"
| "client_run hash A loader cfg num ((t, e) # es) st =
     r_bind (worker_step hash A loader cfg num t e st) (client_run hash A loader cfg num es)"

definition client_start :: "client_config \<Rightarrow> 's \<Rightarrow> 's client_state" where
  "client_start cfg s = \<lparr>workers = replicate (nat (work_thread cfg)) (Next_request 0), cl_cache = s,
     req_latency = replicate 16 MySet_new, lat = \<lparr>total_hit_latency = MySet_new, total_other_latency = MySet_new\<rparr>, served = []\<rparr>"

text \<open>The division truncates towards zero.\<close>

definition single_num :: "client_config \<Rightarrow> nat result" where
  "single_num cfg =
     (let n = request_num cfg; t = work_thread cfg in
      if t = 0 then Inl DivByZero else Inr (unat (word_of_int (sgn n * sgn t * (\<bar>n\<bar> div \<bar>t\<bar>)) :: uint64)))"

text \<open>
  \<open>warmup\<close>: every thread replays \<open>request_num / work_thread\<close> requests; \<open>es\<close> is the order in which
  the threads run. The latencies are printed and reset at the end.
\<close>

definition warmup ::
    "(size_t \<Rightarrow> size_t) \<Rightarrow> ('e, 's, 'v) CacheAPI \<Rightarrow> TraceLoader \<Rightarrow> client_config \<Rightarrow> (nat \<times> ('e, 'v) worker_env) list \<Rightarrow>
      's \<Rightarrow> ((real option \<times> nat) \<times> 's client_state) result" where
  "warmup hash A loader cfg es s =
     r_bind (single_num cfg) (\<lambda>n.
     r_bind (client_run hash A loader cfg n es (client_start cfg s)) (\<lambda>st.
     let (out, l) = PrintGlobalLat (lat st) in Inr (out, st\<lparr>lat := l\<rparr>)))"

end
