(* ===== verification/Client_Run.thy ===== *)
theory Client_Run
  imports Client "HOL-Library.Multiset"
begin

text \<open>
  Runs of the client of \<open>Client\<close> under an arbitrary order of its threads. A cache that meets the
  contract \<open>deletable_cache\<close> lets every step return; each step brings its thread forward; and the
  indices of the requests that the threads take are a partition of the requests. The sharded LRU
  cache is such a cache.
\<close>

section \<open>Which requests are taken\<close>

fun taken :: "worker_pc \<Rightarrow> nat" where
  "taken (Next_request i) = i"
| "taken (Fill i key) = Suc i"

fun position :: "worker_pc \<Rightarrow> nat" where
  "position (Next_request i) = 2 * i"
| "position (Fill i key) = 2 * i + 1"

definition taken_by :: "nat \<Rightarrow> nat \<Rightarrow> nat \<Rightarrow> nat multiset" where
  "taken_by T t n = mset (map (\<lambda>i. t + i * T) [0..<n])"

definition all_taken :: "nat \<Rightarrow> worker_pc list \<Rightarrow> nat multiset" where
  "all_taken T ws = (\<Sum>t < length ws. taken_by T t (taken (ws ! t)))"

lemma all_taken_update:
  assumes "t < length ws"
  shows "all_taken T (ws[t := pc]) + taken_by T t (taken (ws ! t)) = all_taken T ws + taken_by T t (taken pc)"
proof -
  have "(\<Sum>s \<in> {..<length ws} - {t}. taken_by T s (taken (ws[t := pc] ! s))) =
      (\<Sum>s \<in> {..<length ws} - {t}. taken_by T s (taken (ws ! s)))"
    by (rule sum.cong) auto
  then show ?thesis using assms
    by (simp add: all_taken_def sum.remove [of "{..<length ws}" t] ac_simps)
qed

lemma all_taken_next:
  assumes "t < length ws" "taken pc = Suc (taken (ws ! t))"
  shows "all_taken T (ws[t := pc]) = add_mset (t + taken (ws ! t) * T) (all_taken T ws)"
  using all_taken_update [OF assms(1), of T pc] assms(2) by (simp add: taken_by_def)

lemma all_taken_same:
  assumes "t < length ws" "taken pc = taken (ws ! t)"
  shows "all_taken T (ws[t := pc]) = all_taken T ws"
  using all_taken_update [OF assms(1), of T pc] assms(2) by simp



lemma worker_offset_core: "worker_offset (core_of (int t)) = int t"
  by (simp add: worker_offset_def core_of_def)

lemma request_index_exact:
  assumes "work_thread cfg = int T" "t < T" "i < num" "T * num \<le> 2 ^ 32"
  shows "unat (request_index cfg (core_of (int t)) i) = t + i * T"
proof -
  have "t + i * T < Suc i * T" using assms(2) by simp
  also have "\<dots> \<le> num * T" using assms(3) by (intro mult_le_mono) auto
  finally have l: "t + i * T < 2 ^ 32" using assms(4) by (simp add: mult.commute)
  have "request_index cfg (core_of (int t)) i = ucast (of_nat (t + i * T) :: uint64)"
    by (simp add: request_index_def worker_offset_core assms(1))
  moreover have "unat (of_nat (t + i * T) :: uint64) = t + i * T"
    using l by (simp only: unsigned_of_nat) (simp add: take_bit_nat_eq_self)
  ultimately show ?thesis using l by (simp only: unsigned_ucast_eq) (simp add: take_bit_nat_eq_self)
qed

lemma GetRequest_ok:
  assumes "reqs \<noteq> []" "length reqs < 2 ^ 64"
  shows "\<exists>r \<in> set reqs. GetRequest (mk_loader reqs) index = Inr r"
proof -
  have n: "unat (of_nat (length reqs) :: uint64) = length reqs"
    using assms(2) by (simp add: unsigned_of_nat take_bit_nat_eq_self)
  then have "(of_nat (length reqs) :: uint64) \<noteq> 0" using assms(1) by (metis length_0_conv unat_0)
  moreover have "unat ((ucast index :: uint64) mod of_nat (length reqs)) < length reqs"
    using assms(1) by (simp add: unat_mod n)
  ultimately show ?thesis by (simp add: GetRequest_def mk_loader_def vec_at_def)
qed

section \<open>The latencies\<close>

definition sets_ok :: "nat \<Rightarrow> 's client_state \<Rightarrow> bool" where
  "sets_ok k st \<longleftrightarrow> length (req_latency st) = 16 \<and> (\<forall>m \<in> set (req_latency st). length (ms_data m) \<le> k) \<and>
     length (ms_data (total_hit_latency (lat st))) \<le> k \<and> length (ms_data (total_other_latency (lat st))) \<le> k"

definition config_ok :: "nat \<Rightarrow> client_config \<Rightarrow> bool" where
  "config_ok T cfg \<longleftrightarrow> work_thread cfg = int T \<and> 0 < T \<and> T < 2 ^ 20 \<and> 0 < seg cfg \<and> seg cfg \<le> 16"

lemma MySet_insert_ok: "length (ms_data m) \<le> k \<Longrightarrow> k < 2 ^ 30 \<Longrightarrow>
  \<exists>m'. MySet_insert x m = Inr m' \<and> length (ms_data m') \<le> Suc k"
  by (simp add: MySet_insert_def MySet_max_size_def)

lemma granularity_pos:
  assumes "config_ok T cfg"
  shows "Granularity cfg \<noteq> 0" "Large_Granularity cfg \<noteq> 0"
proof -
  have "unat (of_nat n :: size_t) = n" if "n < 2 ^ 32" for n
    using that by (simp add: unsigned_of_nat take_bit_nat_eq_self)
  from this [of T] this [of "T * 1000"]
  have "unat (of_nat T :: size_t) = T" "unat (of_nat (T * 1000) :: size_t) = T * 1000"
    using assms by (auto simp: config_ok_def)
  moreover have "Granularity cfg = of_nat T" "Large_Granularity cfg = of_nat (T * 1000)"
    using assms by (auto simp: Granularity_def Large_Granularity_def config_ok_def)
  ultimately show "Granularity cfg \<noteq> 0" "Large_Granularity cfg \<noteq> 0"
    using assms by (metis config_ok_def not_less0 unat_0, metis config_ok_def mult_is_0 not_less0 unat_0 zero_neq_numeral)
qed

lemma add_request_ok:
  assumes "config_ok T cfg" "length sets = 16" "\<forall>m \<in> set sets. length (ms_data m) \<le> k" "k < 2 ^ 30"
  shows "\<exists>sets'. add_request hash cfg key x sets = Inr sets' \<and> length sets' = 16 \<and> (\<forall>m \<in> set sets'. length (ms_data m) \<le> Suc k)"
proof -
  define n where "n = nat (seg cfg)"
  have n: "seg cfg = int n" "0 < n" "n \<le> 16" using assms(1) by (auto simp: config_ok_def n_def)
  then have u: "unat (of_nat n :: size_t) = n" by (simp add: unsigned_of_nat take_bit_nat_eq_self)
  define j where "j = unat (drop_bit 48 (hash key) mod (of_nat n :: size_t))"
  have "j < n" using n(2) by (simp add: j_def unat_mod u)
  then have j: "j < 16" using n(3) by simp
  have z: "(of_nat n :: size_t) \<noteq> 0" using u n(2) by (metis less_irrefl unat_0)
  obtain m where m: "MySet_insert x (sets ! j) = Inr m" "length (ms_data m) \<le> Suc k"
    using MySet_insert_ok [of "sets ! j" k x] assms(2-4) j by auto
  have "add_request hash cfg key x sets = Inr (sets[j := m])"
    using z j m(1) assms(2) by (simp add: add_request_def n(1) j_def [symmetric])
  moreover have "length (ms_data m') \<le> Suc k" if "m' \<in> set (sets[j := m])" for m'
    using that set_update_subset_insert [of sets j m] m(2) assms(3) by (auto intro: le_SucI)
  ultimately show ?thesis using assms(2) by auto
qed

lemma add_total_ok:
  assumes "length (ms_data (total_hit_latency l)) \<le> k" "length (ms_data (total_other_latency l)) \<le> k" "k < 2 ^ 30"
  shows "\<exists>l'. add_total b x l = Inr l' \<and> length (ms_data (total_hit_latency l')) \<le> Suc k \<and> length (ms_data (total_other_latency l')) \<le> Suc k"
  using MySet_insert_ok [OF assms(1,3), of x] MySet_insert_ok [OF assms(2,3), of x] assms
  by (auto simp: add_total_def)

lemma sets_ok_Suc: "sets_ok k st \<Longrightarrow> sets_ok (Suc k) st"
  by (auto simp: sets_ok_def)

lemma total_step:
  assumes c: "config_ok T cfg" and k: "k < 2 ^ 30" and l: "length (req_latency st) = 16"
    "\<forall>m \<in> set (req_latency st). length (ms_data m) \<le> Suc k"
    "length (ms_data (total_hit_latency (lat st))) \<le> k" "length (ms_data (total_other_latency (lat st))) \<le> k"
  shows "\<exists>st'. (if Large_Granularity cfg = 0 then Inl DivByZero
      else if (of_nat i :: size_t) mod Large_Granularity cfg = 0
      then r_bind (add_total b x (lat st)) (\<lambda>l. Inr (st\<lparr>lat := l\<rparr>)) else Inr st) = Inr st' \<and> sets_ok (Suc k) st' \<and>
    workers st' = workers st \<and> cl_cache st' = cl_cache st \<and> served st' = served st"
  using add_total_ok [OF l(3,4) k, of b x] granularity_pos [OF c] l by (auto simp: sets_ok_def)

lemma record_latency_ok:
  assumes c: "config_ok T cfg" and s: "sets_ok k st" and k: "k < 2 ^ 30"
  shows "\<exists>st'. record_latency hash cfg i key b e st = Inr st' \<and> sets_ok (Suc k) st' \<and>
    workers st' = workers st \<and> cl_cache st' = cl_cache st \<and> served st' = served st"
proof -
  have l: "length (req_latency st) = 16" "\<forall>m \<in> set (req_latency st). length (ms_data m) \<le> k"
    "length (ms_data (total_hit_latency (lat st))) \<le> k" "length (ms_data (total_other_latency (lat st))) \<le> k"
    using s by (auto simp: sets_ok_def)
  obtain sets where sets: "add_request hash cfg key (we_duration e) (req_latency st) = Inr sets" "length sets = 16"
    "\<forall>m \<in> set sets. length (ms_data m) \<le> Suc k" using add_request_ok [OF c l(1,2) k] by blast
  have l2: "\<forall>m \<in> set (req_latency st). length (ms_data m) \<le> Suc k" using l(2) by auto
  show ?thesis
    using total_step [OF c k l(1) l2 l(3,4), of i b "we_duration e"]
      total_step [OF c k, of "st\<lparr>req_latency := sets\<rparr>" i b "we_duration e"] sets l sets_ok_Suc [OF s] granularity_pos [OF c]
    unfolding record_latency_def Let_def by (cases "we_stop e") auto
qed

section \<open>Steps\<close>

definition client_inv :: "nat \<Rightarrow> nat \<Rightarrow> nat \<Rightarrow> 's client_state \<Rightarrow> bool" where
  "client_inv T num k st \<longleftrightarrow>
     length (workers st) = T \<and> (\<forall>pc \<in> set (workers st). taken pc \<le> num) \<and> sets_ok k st \<and>
     mset (served st) = all_taken T (workers st)"

text \<open>A step leads a thread to \<open>pc\<close> and keeps the other threads.\<close>

lemma client_inv_move:
  assumes "client_inv T num k st" "t < T" "taken pc \<le> num"
    and "workers st' = (workers st)[t := pc]" "sets_ok k' st'" "mset (served st') = all_taken T ((workers st)[t := pc])"
  shows "client_inv T num k' st'"
  using assms set_update_subset_insert [of "workers st" t pc] by (auto simp: client_inv_def)

lemma finish_request_ok:
  assumes "config_ok T cfg" "sets_ok k st" "k < 2 ^ 30"
  shows "\<exists>st'. finish_request hash cfg t i key b e st = Inr st' \<and> sets_ok (Suc k) st' \<and>
    workers st' = (workers st)[t := Next_request (Suc i)] \<and> cl_cache st' = cl_cache st \<and> served st' = served st"
  using record_latency_ok [OF assms, of hash i key b e] by (auto simp: finish_request_def sets_ok_def)

definition steps_to :: "nat \<Rightarrow> nat \<Rightarrow> nat \<Rightarrow> nat \<Rightarrow> 's client_state \<Rightarrow> 's client_state \<Rightarrow> bool" where
  "steps_to T num k t st st' \<longleftrightarrow> client_inv T num (Suc k) st' \<and> (\<exists>pc. workers st' = (workers st)[t := pc] \<and>
     min (2 * num) (Suc (position (workers st ! t))) \<le> position pc)"

lemma taken_le: "client_inv T num k st \<Longrightarrow> t < T \<Longrightarrow> taken (workers st ! t) \<le> num"
  by (auto simp: client_inv_def)

lemma steps_to_next:
  assumes inv: "client_inv T num k st" and t: "t < T" and pc: "workers st ! t = Next_request i" and i: "i < num"
    and c: "config_ok T cfg" and k: "k < 2 ^ 30"
  shows "\<exists>st'. finish_request hash cfg t i key b e (st\<lparr>served := served st @ [t + i * T], cl_cache := s\<rparr>) = Inr st' \<and>
      steps_to T num k t st st' \<and> cl_cache st' = s"
    and "steps_to T num k t st (st\<lparr>served := served st @ [t + i * T], cl_cache := s, workers := (workers st)[t := Fill i key]\<rparr>)"
proof -
  have l: "t < length (workers st)" "sets_ok k st" and ms: "mset (served st) = all_taken T (workers st)"
    using inv t by (auto simp: client_inv_def)
  have at: "all_taken T ((workers st)[t := q]) = add_mset (t + i * T) (all_taken T (workers st))" if "taken q = Suc i" for q
    using all_taken_next [OF l(1), of q T] that pc by simp
  have s: "sets_ok k (st\<lparr>served := served st @ [t + i * T], cl_cache := s\<rparr>)" using l(2) by (simp add: sets_ok_def)
  obtain st' where st': "finish_request hash cfg t i key b e (st\<lparr>served := served st @ [t + i * T], cl_cache := s\<rparr>) = Inr st'"
    "sets_ok (Suc k) st'" "workers st' = (workers st)[t := Next_request (Suc i)]" "cl_cache st' = s"
    "served st' = served st @ [t + i * T]" using finish_request_ok [OF c s k, of hash t i key b e] by auto
  have "client_inv T num (Suc k) st'"
    using i st' at [of "Next_request (Suc i)"] ms by (intro client_inv_move [OF inv t _ st'(3,2)]) auto
  with st' pc show "\<exists>st'. finish_request hash cfg t i key b e (st\<lparr>served := served st @ [t + i * T], cl_cache := s\<rparr>) = Inr st' \<and>
      steps_to T num k t st st' \<and> cl_cache st' = s" by (auto simp: steps_to_def)
  have "client_inv T num (Suc k) (st\<lparr>served := served st @ [t + i * T], cl_cache := s, workers := (workers st)[t := Fill i key]\<rparr>)"
    using i at [of "Fill i key"] ms sets_ok_Suc [OF l(2)] by (intro client_inv_move [OF inv t, of "Fill i key"]) (auto simp: sets_ok_def)
  then show "steps_to T num k t st (st\<lparr>served := served st @ [t + i * T], cl_cache := s, workers := (workers st)[t := Fill i key]\<rparr>)"
    using pc by (auto simp: steps_to_def)
qed

lemma steps_to_fill:
  assumes inv: "client_inv T num k st" and t: "t < T" and pc: "workers st ! t = Fill i key"
    and c: "config_ok T cfg" and k: "k < 2 ^ 30"
  shows "\<exists>st'. finish_request hash cfg t i key b e (st\<lparr>cl_cache := s\<rparr>) = Inr st' \<and> steps_to T num k t st st' \<and> cl_cache st' = s"
proof -
  have l: "t < length (workers st)" and s: "sets_ok k (st\<lparr>cl_cache := s\<rparr>)" and ms: "mset (served st) = all_taken T (workers st)"
    using inv t by (auto simp: client_inv_def sets_ok_def)
  obtain st' where st': "finish_request hash cfg t i key b e (st\<lparr>cl_cache := s\<rparr>) = Inr st'"
    "sets_ok (Suc k) st'" "workers st' = (workers st)[t := Next_request (Suc i)]" "cl_cache st' = s" "served st' = served st"
    using finish_request_ok [OF c s k, of hash t i key b e] by auto
  have "client_inv T num (Suc k) st'"
    using taken_le [OF inv t] pc st'(5) ms all_taken_same [OF l, of "Next_request (Suc i)" T]
    by (intro client_inv_move [OF inv t _ st'(3,2)]) auto
  with st' pc show ?thesis by (auto simp: steps_to_def)
qed

lemma steps_to_done:
  assumes "client_inv T num k st" "t < T" "workers st ! t = Next_request i" "\<not> i < num"
  shows "steps_to T num k t st st"
proof -
  have "client_inv T num (Suc k) st" using assms(1) sets_ok_Suc by (auto simp: client_inv_def)
  with assms show ?thesis unfolding steps_to_def
    by (auto simp: client_inv_def list_update_id [symmetric] intro!: exI [of _ "Next_request i"]) (metis list_update_id)
qed

context deletable_cache
begin

lemma worker_step_ok:
  assumes inv: "client_inv T num k st" "t < T" "k < 2 ^ 30" and c: "config_ok T cfg" and n: "T * num \<le> 2 ^ 32"
    and reqs: "reqs \<noteq> []" "length reqs < 2 ^ 64" "\<forall>r \<in> set reqs. req_key r \<noteq> 0" and h: "holds (cl_cache st) m"
  shows "\<exists>st' m'. worker_step hash A (mk_loader reqs) cfg num t e st = Inr st' \<and> steps_to T num k t st st' \<and>
    holds (cl_cache st') m' \<and> cap (cl_cache st') = cap (cl_cache st)"
proof (cases "workers st ! t")
  case (Fill i key)
  obtain s' m' where s': "api_insert A (we_insert e) (cl_cache st) key (we_value e) = Inr (m key = None, s')"
    "holds s' m'" "cap s' = cap (cl_cache st)" using insert_map [OF h, of "we_insert e" key "we_value e"] by blast
  then show ?thesis using steps_to_fill [OF inv(1,2) Fill c inv(3), of hash False e s'] Fill
    by (auto simp: worker_step_def)
next
  case (Next_request i)
  show ?thesis
  proof (cases "i < num")
    case False
    then show ?thesis using steps_to_done [OF inv(1,2) Next_request] h Next_request by (auto simp: worker_step_def)
  next
    case True
    have ix: "unat (request_index cfg (core_of (int t)) i) = t + i * T"
      using request_index_exact [OF _ inv(2) True n] c by (simp add: config_ok_def)
    obtain r where r: "r \<in> set reqs" "GetRequest (mk_loader reqs) (request_index cfg (core_of (int t)) i) = Inr r"
      using GetRequest_ok [OF reqs(1,2)] by blast
    define key where "key = (ucast (req_key r) :: size_t)"
    have key: "req_key r \<noteq> 0" using reqs(3) r(1) by simp
    note next_ok = steps_to_next [OF inv(1,2) Next_request True c inv(3)]
    obtain sd where sd: "api_delete_key A (cl_cache st) key = Inr sd" "holds sd (m(key := None))" "cap sd = cap (cl_cache st)"
      using delete_map [OF h, of key] by blast
    obtain sf where sf: "api_find A (we_find e) (cl_cache st) key = Inr (m key, sf)" "holds sf m" "cap sf = cap (cl_cache st)"
      using find_map [OF h, of "we_find e" key] by blast
    show ?thesis
      using next_ok(1) [of hash key False e sd] next_ok(1) [of hash key True e sf] next_ok(2) [where s = sf and key = key] sd sf r key
      by (cases "req_type r = op_delete"; cases "m key")
        (auto simp: worker_step_def Next_request True ix Let_def key_def [symmetric])
  qed
qed

lemma client_run_ok:
  assumes "client_inv T num k st" "\<forall>x \<in> set es. fst x < T" "k + length es \<le> 2 ^ 30" "config_ok T cfg" "T * num \<le> 2 ^ 32"
    and "reqs \<noteq> []" "length reqs < 2 ^ 64" "\<forall>r \<in> set reqs. req_key r \<noteq> 0" and "holds (cl_cache st) m"
  shows "\<exists>st' m'. client_run hash A (mk_loader reqs) cfg num es st = Inr st' \<and> client_inv T num (k + length es) st' \<and>
    holds (cl_cache st') m' \<and> cap (cl_cache st') = cap (cl_cache st) \<and>
    (\<forall>t < T. min (2 * num) (position (workers st ! t) + count_list (map fst es) t) \<le> position (workers st' ! t))"
  using assms(1,2,3,9)
proof (induction es arbitrary: k st m)
  case (Cons x es)
  obtain t e where x: "x = (t, e)" by (cases x)
  have t: "t < T" and k: "k < 2 ^ 30" using Cons.prems(2,3) by (auto simp: x)
  obtain st1 m1 where st1: "worker_step hash A (mk_loader reqs) cfg num t e st = Inr st1" "steps_to T num k t st st1"
    "holds (cl_cache st1) m1" "cap (cl_cache st1) = cap (cl_cache st)"
    using worker_step_ok [OF Cons.prems(1) t k assms(4-8) Cons.prems(4)] by blast
  have inv1: "client_inv T num (Suc k) st1" using st1(2) by (simp add: steps_to_def)
  obtain st' m' where st': "client_run hash A (mk_loader reqs) cfg num es st1 = Inr st'" "client_inv T num (Suc k + length es) st'"
    "holds (cl_cache st') m'" "cap (cl_cache st') = cap (cl_cache st1)"
    "\<And>u. u < T \<Longrightarrow> min (2 * num) (position (workers st1 ! u) + count_list (map fst es) u) \<le> position (workers st' ! u)"
    using Cons.IH [OF inv1 _ _ st1(3)] Cons.prems(2,3) by auto
  obtain pc where pc: "workers st1 = (workers st)[t := pc]" "min (2 * num) (Suc (position (workers st ! t))) \<le> position pc"
    using st1(2) by (auto simp: steps_to_def)
  have "workers st1 ! u = (if u = t then pc else workers st ! u)" for u
    using pc(1) t Cons.prems(1) by (auto simp: client_inv_def nth_list_update)
  then have w: "workers st1 ! t = pc" "\<And>u. u \<noteq> t \<Longrightarrow> workers st1 ! u = workers st ! u" by simp_all
  have "min (2 * num) (position (workers st ! u) + count_list (map fst (x # es)) u) \<le> position (workers st' ! u)" if u: "u < T" for u
  proof (cases "u = t")
    case True
    have "count_list (map fst (x # es)) t = Suc (count_list (map fst es) t)" by (simp add: x)
    then show ?thesis using st'(5) [OF u] pc(2) unfolding True w(1) by linarith
  next
    case False
    then have "count_list (map fst (x # es)) u = count_list (map fst es) u" by (simp add: x)
    then show ?thesis using st'(5) [OF u] unfolding w(2) [OF False] by simp
  qed
  then show ?case using st1 st' by (auto simp: x)
qed auto

end










text \<open>A request with the key 0, such as an access to the first page of an MSR trace, ends the program.\<close>

lemma key_0_aborts:
  assumes "workers st ! t = Next_request i" "i < num"
    "GetRequest loader (request_index cfg (core_of (int t)) i) = Inr r" "req_key r = 0"
  shows "worker_step hash A loader cfg num t e st = Inl (AssertFailed ''key != 0'')"
  using assms by (simp add: worker_step_def Let_def)

text \<open>A shard number of 16 or more, which needs more than 16 shards, is outside of \<open>req_latency_\<close>.\<close>

lemma many_shards_out_of_range:
  assumes "length sets = 16" "seg cfg = int n" "n < 2 ^ 31" "16 \<le> unat (shard_index hash (of_nat n) key)" "0 < n"
  shows "add_request hash cfg key x sets = Inl OutOfRange"
proof -
  have "unat (of_nat n :: size_t) = n" using assms(3) by (simp add: unsigned_of_nat take_bit_nat_eq_self)
  then have "(of_nat n :: size_t) \<noteq> 0" using assms(5) by (metis less_irrefl unat_0)
  then show ?thesis using assms by (simp add: add_request_def shard_index_def)
qed

end
