(* ===== verification/Spec2Isabelle.thy ===== *)
theory Spec2Isabelle
  imports FIFO_Cache Strict_LRU LFU_Proofs Redis_Proofs FIFO_FH Scalable_LRU Codec Monitor Group_Commit_Run Log_Properties Client_Run
begin

text \<open>
  FrozenHot: concurrent in-memory caches whose hot part can be frozen into a read-only hash table.

  \<^bold>\<open>The program.\<close> \<^verbatim>\<open>src/cache\<close> holds the caches behind the interface \<open>CacheAPI\<close> (LRU, FIFO, strict
  LRU, LFU, Redis-like LRU and the FrozenHot variants), the sharded cache that distributes keys over
  them and the monitor that decides when the shards are frozen and thawed; \<^verbatim>\<open>src/hash\<close> wraps the
  fast tables; \<^verbatim>\<open>src/ssdlogging\<close> holds statistics, a random generator, fixed-width encodings and
  the logging backend; \<^verbatim>\<open>src/traceloader\<close> generates and replays workloads.

  \<^bold>\<open>Shared theories.\<close> \<open>Prelude\<close>: machine integers, results with the errors of C++ as values, loops
  that may not end. \<open>Node_List\<close>, \<open>Indexed_List\<close>: a store of list nodes, doubly linked lists in it,
  and the hash map that points into them. \<open>Hash_Map\<close>: the hash tables of TBB and CLHT as parameters
  with their documented behaviour as locales, and the wrappers of \<^verbatim>\<open>src/hash\<close>. \<open>Cache_Spec\<close>,
  \<open>Cache_API\<close>: the ordered specification of a cache, the interface \<open>CacheAPI\<close> as a record, and the
  contracts \<open>list_cache\<close>, \<open>map_cache\<close>, \<open>deletable_cache\<close> with their lemmas on runs. \<open>Random_Gen\<close>,
  \<open>Base_Cache\<close>, \<open>FH_Stats\<close>, \<open>Latency_Stats\<close>, \<open>Codec\<close>: the generator, the counters, the statistics
  and the encodings.

  \<^bold>\<open>The baseline caches.\<close> \<open>LRU_Cache\<close>, \<open>FIFO_Cache\<close>, \<open>Strict_LRU\<close> translate the operations over the
  pointer store; every sequence of calls returns what the ordered specification returns, with no
  access through an invalid pointer, and a demand-filled LRU cache holds the most recent keys.

  \<open>LFU_Cache\<close> and \<open>LFU_Proofs\<close>: the LFU cache implements one list ordered by frequency and last use; what
  it evicts, and when it turns new keys away. \<open>Redis_LRU\<close> and \<open>Redis_Proofs\<close>: the cache that evicts by
  sampling, with its random set and the pool of candidates; runs are safe whatever is drawn, and return.

  \<^bold>\<open>The FrozenHot caches.\<close> \<open>LRU_FH\<close> translates \<^verbatim>\<open>hhvm_lru_cache_FH.h\<close> (\<open>construct_ratio\<close>,
  \<open>construct_tier\<close>, \<open>deconstruct\<close>, \<open>find\<close>, \<open>insert\<close>, \<open>delete_key\<close>, \<open>get_curve\<close>); \<open>Frozen_Spec\<close> is the
  specification with a dynamic and a frozen part; \<open>Frozen_List\<close>, \<open>Frozen_Proofs\<close>, \<open>Freeze_Proofs\<close>,
  \<open>Freeze_Refine\<close>, \<open>Thaw_Refine\<close> prove that every operation implements it; \<open>Frozen_Run\<close> lifts this to
  runs; \<open>Freeze_Errors\<close> and \<open>FH_Properties\<close> have the properties, also of the calls that go wrong.
  \<open>FIFO_FH\<close> is the FIFO variant.

  \<^bold>\<open>The sharded cache and the monitor.\<close> \<open>Scalable_Cache\<close> and \<open>Scalable_LRU\<close>: a cache made of shards
  that meet the contract meets it again. \<open>Monitor\<close>: \<open>FastHashMonitor\<close> as a state machine whose inputs
  are measurements and whose outputs are calls on the shards.

  \<^bold>\<open>The logging backend.\<close> \<open>Group_Commit\<close> translates \<^verbatim>\<open>ssdlogging_server.cc\<close> to atomic steps of the
  clients and the server that interleave freely; \<open>Group_Commit_Proofs\<close> and \<open>Group_Commit_Run\<close> prove the
  invariant, that a returned call is durable, and that calls return under a fair schedule.
  \<open>Log_Pages\<close> translates the page format of \<^verbatim>\<open>spdk_logging_server.cc\<close> (\<open>MemCopy\<close>) and
  \<^verbatim>\<open>spdk_logging_recovery.cc\<close> (\<open>ProcessData\<close>); \<open>Log_Format\<close> and \<open>Log_Reader\<close> relate both to the text of a
  batch. \<open>Log_Files\<close> translates the server loop, the list of log files and the recovery; \<open>Log_Store\<close> has the
  contract \<open>nvme\<close> of the device, \<open>Log_Durable\<close> the refinement of a log with batches on their way to the
  device, \<open>Log_Properties\<close> the properties, up to the recovery after a crash at any point.

  \<^bold>\<open>The driver.\<close> \<open>Zipfian\<close> and \<open>Trace_Loader\<close> translate \<^verbatim>\<open>traceloader/zipfian.h\<close> and
  \<^verbatim>\<open>traceloader/trace_loader.h\<close>; \<open>Trace_Proofs\<close> shows what each constructor loads from a generator or
  from files. \<open>Client\<close> translates \<^verbatim>\<open>traceloader/client.h\<close>, \<^verbatim>\<open>test_trace.cpp\<close> and
  \<^verbatim>\<open>ssdlogging/properties.h\<close>, with the worker threads as interleaved steps; \<open>Client_Run\<close> proves that
  they replay every request once on the sharded cache.

  \<^bold>\<open>Bounds.\<close> There is no fuel: loops over linked lists are partial functions, whose results are
  proved to exist on well-formed lists. Keys and sizes are 64-bit words, the index of the fast table
  32-bit ones; the FrozenHot theorems ask for a capacity below \<open>2^63\<close> and keys from 3 to \<open>2^32 - 1\<close>.
  Doubles are real numbers.

  \<^bold>\<open>Not modelled.\<close> The operations run one at a time: data races between threads are outside of the
  model, except that the outcome of \<open>try_lock\<close> and the interleaving of the monitor with the clients
  are arbitrary. TBB and CLHT are parameters. Printing, sleeping and reading the clock have no
  counterpart or are inputs. \<^verbatim>\<open>spdk_device.cc\<close> and \<^verbatim>\<open>spdk_log_writer.cc\<close> only
  call the SPDK library; the scripts start the program and draw figures. \<^verbatim>\<open>lfu_FH.h\<close> is not translated.
\<close>

end
